(* ===== verification/Prelude.thy ===== *)
theory Prelude
  imports Main "HOL-Library.Word" "HOL-Library.Char_ord" "HOL-Library.List_Lexorder"
    "HOL-Library.State_Monad" "HOL-Library.Monad_Syntax" "HOL-Library.Sublist" "HOL-Library.Multiset"
begin

text \<open>
  Vocabulary shared by every component of the development.

  A Rust \<open>String\<close> is a sequence of UTF-8 bytes and is modelled by a HOL \<open>string\<close> whose
  characters are those bytes, so \<open>length\<close> is Rust's byte length and \<open><\<close> (from List_Lexorder and
  Char_ord) is Rust's byte-wise \<open>Ord\<close>.  A \<open>Uuid\<close> is its canonical hyphenated text, the form in
  which the code stores it (\<open>id.to_string()\<close>).  A \<open>DateTime<Utc>\<close> is its number of milliseconds
  since the Unix epoch, the form in which \<open>db.rs\<close> stores it.
\<close>

type_synonym uuid = string
type_synonym time = int

text \<open>
  The collections of facts the component proofs share: \<open>run_simps\<close> evaluates the state monad,
  \<open>keeps_intros\<close> and \<open>yields_intros\<close> hold one rule per program construct for the invariance predicate
  \<open>keeps\<close> and the triple \<open>yields\<close>, and \<open>wf_simps\<close> the unfoldings of the well-formedness predicates.
\<close>

named_theorems run_simps
named_theorems keeps_intros
named_theorems yields_intros
named_theorems wf_simps

subsection \<open>Lists\<close>

lemma find_None_filter: "(List.find P xs = None) = (filter P xs = [])"
  by (auto simp: find_None_iff filter_empty_conv)

lemma find_SomeD: "List.find P xs = Some x \<Longrightarrow> P x \<and> x \<in> set xs"
  by (auto simp: find_Some_iff in_set_conv_nth)

lemma find_Some_unique:
  assumes "distinct (map f xs)" and "x \<in> set xs"
  shows "List.find (\<lambda>y. f y = f x) xs = Some x"
  using assms by (induction xs) (auto simp: rev_image_eqI)

lemma map_cong_key:
  assumes "\<And>x. f (g x) = f x"
  shows "map f (map (\<lambda>x. if P x then g x else x) xs) = map f xs"
  using assms by (induction xs) auto

lemma filter_sort_key: "filter P (sort_key f xs) = sort_key f (filter P xs)"
  by (induction xs) (auto simp: filter_insort filter_insort_triv)

lemma sorted_map_imp_distinct_mono:
  "sorted (map f xs) \<Longrightarrow> sorted (map f (filter P xs))"
  by (rule sorted_filter)

lemma sorted_distinct_perm_eq:
  fixes f :: "'a \<Rightarrow> 'b::linorder"
  assumes "mset xs = mset ys" and "distinct (map f xs)"
  shows "sort_key f xs = sort_key f ys"
  by (rule sort_key_inj_key_eq) (use assms in \<open>auto simp: distinct_map\<close>)

text \<open>Rust's \<open>HashSet::insert\<close> used as a filter: keep the first element of every key.\<close>

fun retain_first :: "('a \<Rightarrow> 'b) \<Rightarrow> 'b list \<Rightarrow> 'a list \<Rightarrow> 'a list" where
  "retain_first f seen [] = []"
| "retain_first f seen (x # xs) =
     (if f x \<in> set seen then retain_first f seen xs
      else x # retain_first f (f x # seen) xs)"

lemma retain_first_subset: "set (retain_first f seen xs) \<subseteq> set xs"
  by (induction xs arbitrary: seen) auto

lemma retain_first_fresh: "y \<in> set (retain_first f seen xs) \<Longrightarrow> f y \<notin> set seen"
  by (induction xs arbitrary: seen) (fastforce split: if_splits)+

lemma retain_first_distinct: "distinct (map f (retain_first f seen xs))"
proof (induction xs arbitrary: seen)
  case (Cons x xs)
  have "f x \<notin> f ` set (retain_first f (f x # seen) xs)"
    using retain_first_fresh [of _ f "f x # seen" xs] by fastforce
  with Cons show ?case by simp
qed simp

lemma retain_first_id:
  "distinct (map f xs) \<Longrightarrow> f ` set xs \<inter> set seen = {} \<Longrightarrow> retain_first f seen xs = xs"
  by (induction xs arbitrary: seen) auto

lemma retain_first_keys:
  "f ` set (retain_first f seen xs) = f ` set xs - set seen"
  by (induction xs arbitrary: seen) auto

subsection \<open>The state monad\<close>

text \<open>
  Handlers are written in the library's state monad.  \<open>keeps I m\<close> says that running \<open>m\<close> from a
  state that satisfies \<open>I\<close> ends in one that does, whatever \<open>m\<close> returns; \<open>yields P m Q\<close> is the
  triple with a postcondition on the result and the state.
\<close>

type_synonym ('s, 'a) prog = "('s, 'a) state"

abbreviation ret :: "'a \<Rightarrow> ('s, 'a) prog" where
  "ret \<equiv> State_Monad.return"

abbreviation gets :: "('s \<Rightarrow> 'a) \<Rightarrow> ('s, 'a) prog" where
  "gets f \<equiv> State (\<lambda>s. (f s, s))"

abbreviation modify :: "('s \<Rightarrow> 's) \<Rightarrow> ('s, unit) prog" where
  "modify f \<equiv> State (\<lambda>s. ((), f s))"

fun for_each :: "('a \<Rightarrow> ('s, unit) prog) \<Rightarrow> 'a list \<Rightarrow> ('s, unit) prog" where
  "for_each f [] = ret ()"
| "for_each f (x # xs) = do { f x; for_each f xs }"

definition keeps :: "('s \<Rightarrow> bool) \<Rightarrow> ('s, 'a) prog \<Rightarrow> bool" where
  "keeps I m \<longleftrightarrow> (\<forall>s. I s \<longrightarrow> I (snd (run_state m s)))"

lemma keepsI: "(\<And>s. I s \<Longrightarrow> I (snd (run_state m s))) \<Longrightarrow> keeps I m"
  by (simp add: keeps_def)

lemma keepsD: "keeps I m \<Longrightarrow> I s \<Longrightarrow> I (snd (run_state m s))"
  by (simp add: keeps_def)

lemma keeps_return [keeps_intros]: "keeps I (ret x)"
  by (simp add: keeps_def)

lemma keeps_gets [keeps_intros]: "keeps I (gets f)"
  by (simp add: keeps_def)

lemma keeps_modify: "(\<And>s. I s \<Longrightarrow> I (f s)) \<Longrightarrow> keeps I (modify f)"
  by (simp add: keeps_def)

lemma keeps_bind [keeps_intros]:
  "keeps I m \<Longrightarrow> (\<And>x. keeps I (f x)) \<Longrightarrow> keeps I (m \<bind> f)"
  by (auto simp: keeps_def split_def)

lemma keeps_if [keeps_intros]:
  "(b \<Longrightarrow> keeps I m) \<Longrightarrow> (\<not> b \<Longrightarrow> keeps I n) \<Longrightarrow> keeps I (if b then m else n)"
  by simp

lemma keeps_option [keeps_intros]:
  "keeps I m \<Longrightarrow> (\<And>x. y = Some x \<Longrightarrow> keeps I (f x)) \<Longrightarrow>
   keeps I (case y of None \<Rightarrow> m | Some x \<Rightarrow> f x)"
  by (cases y) simp_all

lemma keeps_sum [keeps_intros]:
  "(\<And>x. y = Inl x \<Longrightarrow> keeps I (f x)) \<Longrightarrow> (\<And>x. y = Inr x \<Longrightarrow> keeps I (g x)) \<Longrightarrow>
   keeps I (case y of Inl x \<Rightarrow> f x | Inr x \<Rightarrow> g x)"
  by (cases y) simp_all

lemma keeps_let [keeps_intros]: "(\<And>x. x = e \<Longrightarrow> keeps I (f x)) \<Longrightarrow> keeps I (let x = e in f x)"
  by simp

lemma keeps_prod [keeps_intros]:
  "(\<And>a b. p = (a, b) \<Longrightarrow> keeps I (f a b)) \<Longrightarrow> keeps I (case p of (a, b) \<Rightarrow> f a b)"
  by (cases p) simp

lemma keeps_for_each [keeps_intros]:
  "(\<And>x. x \<in> set xs \<Longrightarrow> keeps I (f x)) \<Longrightarrow> keeps I (for_each f xs)"
  by (induction xs) (auto intro!: keeps_intros)

text \<open>Pre- and postconditions: a condition on the state before, and on the result and the state after.\<close>

definition yields :: "('s \<Rightarrow> bool) \<Rightarrow> ('s, 'a) prog \<Rightarrow> ('a \<Rightarrow> 's \<Rightarrow> bool) \<Rightarrow> bool" where
  "yields P m Q \<longleftrightarrow> (\<forall>s. P s \<longrightarrow> Q (fst (run_state m s)) (snd (run_state m s)))"

lemma yieldsI: "(\<And>s. P s \<Longrightarrow> Q (fst (run_state m s)) (snd (run_state m s))) \<Longrightarrow> yields P m Q"
  by (simp add: yields_def)

lemma yieldsD: "yields P m Q \<Longrightarrow> P s \<Longrightarrow> run_state m s = (x, s') \<Longrightarrow> Q x s'"
  by (force simp: yields_def)

lemma yields_bind [yields_intros]:
  "yields P m R \<Longrightarrow> (\<And>x. yields (R x) (f x) Q) \<Longrightarrow> yields P (m \<bind> f) Q"
  by (auto simp: yields_def split_def)

lemma yields_ret [yields_intros]: "(\<And>s. P s \<Longrightarrow> Q x s) \<Longrightarrow> yields P (ret x) Q"
  by (simp add: yields_def)

lemma yields_conseq: "yields P' m Q' \<Longrightarrow> (\<And>s. P s \<Longrightarrow> P' s) \<Longrightarrow> (\<And>x s. Q' x s \<Longrightarrow> Q x s) \<Longrightarrow> yields P m Q"
  by (simp add: yields_def)

lemma yields_if [yields_intros]:
  "(b \<Longrightarrow> yields P m Q) \<Longrightarrow> (\<not> b \<Longrightarrow> yields P n Q) \<Longrightarrow> yields P (if b then m else n) Q"
  by simp

lemma yields_option [yields_intros]:
  "(y = None \<Longrightarrow> yields P m Q) \<Longrightarrow> (\<And>x. y = Some x \<Longrightarrow> yields P (f x) Q) \<Longrightarrow>
   yields P (case y of None \<Rightarrow> m | Some x \<Rightarrow> f x) Q"
  by (cases y) simp_all

lemma yields_list [yields_intros]:
  "(y = [] \<Longrightarrow> yields P m Q) \<Longrightarrow> (\<And>x xs. y = x # xs \<Longrightarrow> yields P (f x xs) Q) \<Longrightarrow>
   yields P (case y of [] \<Rightarrow> m | x # xs \<Rightarrow> f x xs) Q"
  by (cases y) simp_all

lemma yields_let [yields_intros]: "(\<And>x. x = e \<Longrightarrow> yields P (f x) Q) \<Longrightarrow> yields P (let x = e in f x) Q"
  by simp

lemma yields_prod [yields_intros]:
  "(\<And>a b. p = (a, b) \<Longrightarrow> yields P (f a b) Q) \<Longrightarrow> yields P (case p of (a, b) \<Rightarrow> f a b) Q"
  by (cases p) simp

lemma yields_gets [yields_intros]: "(\<And>s. P s \<Longrightarrow> Q (f s) s) \<Longrightarrow> yields P (gets f) Q"
  by (simp add: yields_def)

lemma yields_keeps: "keeps P m \<Longrightarrow> yields P m (\<lambda>_. P)"
  by (simp add: yields_def keeps_def)

end
