(* ===== verification/Json.thy ===== *)
theory Json
  imports Prelude
begin

text \<open>
  The JSON values the daemon handles (\<open>serde_json::Value\<close>), as data: the enum with its six
  constructors, objects as association lists in the key order of \<open>serde_json\<close>'s map (a
  \<open>BTreeMap\<close>: the \<open>preserve_order\<close> feature is off in Cargo.lock), and the accessors the code
  calls on them.  Text serialisation and parsing are third-party code; the definitions that need
  them take them as the parameters \<open>ser\<close> and \<open>parse\<close>.

  A double is its 64 IEEE bits.
\<close>

type_synonym f64 = "64 word"

datatype jnum = PosInt nat | NegInt int | JFloat f64

datatype json =
    JNull
  | JBool bool
  | JNum jnum
  | JStr string
  | JArr "json list"
  | JObj "(string \<times> json) list"

subsection \<open>Objects\<close>

fun obj_insert :: "string \<Rightarrow> json \<Rightarrow> (string \<times> json) list \<Rightarrow> (string \<times> json) list" where
  "obj_insert k v [] = [(k, v)]"
| "obj_insert k v ((k', v') # kvs) =
     (if k < k' then (k, v) # (k', v') # kvs
      else if k = k' then (k, v) # kvs
      else (k', v') # obj_insert k v kvs)"

definition obj_remove :: "string \<Rightarrow> (string \<times> json) list \<Rightarrow> (string \<times> json) list" where
  "obj_remove k kvs = filter (\<lambda>(k', _). k' \<noteq> k) kvs"

definition obj_has :: "string \<Rightarrow> (string \<times> json) list \<Rightarrow> bool" where
  "obj_has k kvs \<longleftrightarrow> map_of kvs k \<noteq> None"

text \<open>The \<open>json!({...})\<close> literal.\<close>

definition mk_obj :: "(string \<times> json) list \<Rightarrow> json" where
  "mk_obj kvs = JObj (fold (\<lambda>(k, v). obj_insert k v) kvs [])"

definition obj_wf :: "(string \<times> json) list \<Rightarrow> bool" where
  "obj_wf kvs \<longleftrightarrow> sorted_wrt (<) (map fst kvs)"

lemma obj_wf_Nil [simp]: "obj_wf []"
  by (simp add: obj_wf_def)

lemma obj_wf_Cons: "obj_wf ((k, v) # kvs) \<longleftrightarrow> (\<forall>k' \<in> fst ` set kvs. k < k') \<and> obj_wf kvs"
  by (auto simp: obj_wf_def)

lemma keys_obj_insert: "fst ` set (obj_insert k v kvs) = insert k (fst ` set kvs)"
  by (induction k v kvs rule: obj_insert.induct) (simp_all add: insert_commute)

lemma obj_wf_insert: "obj_wf kvs \<Longrightarrow> obj_wf (obj_insert k v kvs)"
proof (induction k v kvs rule: obj_insert.induct)
  case (2 k v k' v' kvs)
  consider "k < k'" | "k = k'" | "k' < k" by (rule linorder_cases)
  then show ?case
  proof cases
    case 1
    with "2.prems" show ?thesis by (auto simp: obj_wf_Cons intro: less_trans)
  next
    case 2
    with "2.prems" show ?thesis by (simp add: obj_wf_Cons)
  next
    case 3
    with "2.IH" "2.prems" show ?thesis by (auto simp: obj_wf_Cons keys_obj_insert simp del: image_insert)
  qed
qed (simp add: obj_wf_Cons)

lemma obj_wf_remove: "obj_wf kvs \<Longrightarrow> obj_wf (obj_remove k kvs)"
proof (induction kvs)
  case (Cons p kvs)
  then show ?case
    by (cases p) (auto simp: obj_wf_Cons obj_remove_def)
qed (simp add: obj_remove_def)

lemma map_of_obj_insert [simp]: "map_of (obj_insert k v kvs) = (map_of kvs)(k \<mapsto> v)"
  by (induction k v kvs rule: obj_insert.induct) (auto simp: fun_eq_iff)

lemma map_of_obj_remove: "map_of (obj_remove k kvs) = (map_of kvs)(k := None)"
  by (induction kvs) (auto simp: obj_remove_def fun_eq_iff)

text \<open>Replacing the value of a key that is there, as \<open>get_mut\<close> and an assignment do.\<close>

definition obj_update :: "string \<Rightarrow> (json \<Rightarrow> json) \<Rightarrow> (string \<times> json) list \<Rightarrow> (string \<times> json) list" where
  "obj_update k f kvs = map (\<lambda>(k', v). (k', if k' = k then f v else v)) kvs"

lemma map_of_obj_update [simp]:
  "map_of (obj_update k f kvs) k' = (if k' = k then map_option f (map_of kvs k') else map_of kvs k')"
  by (induction kvs) (auto simp: obj_update_def)

lemma keys_obj_update [simp]: "map fst (obj_update k f kvs) = map fst kvs"
  by (simp add: obj_update_def split_def comp_def)

lemma obj_wf_fold: "obj_wf acc \<Longrightarrow> obj_wf (fold (\<lambda>(k, v). obj_insert k v) kvs acc)"
  by (induction kvs arbitrary: acc) (auto simp: obj_wf_insert)

lemma map_of_fold_insert:
  "map_of (fold (\<lambda>(k, v). obj_insert k v) kvs acc) k
     = (case map_of (rev kvs) k of None \<Rightarrow> map_of acc k | Some v \<Rightarrow> Some v)"
  by (induction kvs arbitrary: acc) (auto simp: map_add_def split: option.splits)

subsection \<open>Accessors\<close>

text \<open>\<open>Value::get\<close> with a string index: \<open>None\<close> on anything but an object.\<close>

fun jget :: "json \<Rightarrow> string \<Rightarrow> json option" where
  "jget (JObj kvs) k = map_of kvs k"
| "jget _ k = None"

fun as_str :: "json \<Rightarrow> string option" where
  "as_str (JStr s) = Some s"
| "as_str _ = None"

fun as_bool :: "json \<Rightarrow> bool option" where
  "as_bool (JBool b) = Some b"
| "as_bool _ = None"

fun as_object :: "json \<Rightarrow> (string \<times> json) list option" where
  "as_object (JObj kvs) = Some kvs"
| "as_object _ = None"

fun is_string :: "json \<Rightarrow> bool" where
  "is_string (JStr s) = True"
| "is_string _ = False"

fun is_array :: "json \<Rightarrow> bool" where
  "is_array (JArr xs) = True"
| "is_array _ = False"

fun is_object :: "json \<Rightarrow> bool" where
  "is_object (JObj kvs) = True"
| "is_object _ = False"

lemma jget_mk_obj [simp]:
  "jget (mk_obj kvs) k = map_of (rev kvs) k"
  by (simp add: mk_obj_def map_of_fold_insert split: option.splits)

lemma is_string_iff: "is_string j \<longleftrightarrow> (\<exists>s. j = JStr s)"
  by (cases j) auto

lemma is_array_iff: "is_array j \<longleftrightarrow> (\<exists>xs. j = JArr xs)"
  by (cases j) auto

text \<open>An optional value in \<open>json!\<close>: \<open>None\<close> is \<open>null\<close>.\<close>

definition jopt_str :: "string option \<Rightarrow> json" where
  "jopt_str o1 = (case o1 of None \<Rightarrow> JNull | Some s \<Rightarrow> JStr s)"

definition jnat :: "nat \<Rightarrow> json" where
  "jnat n = JNum (PosInt n)"

end
