(* ===== verification/Model.thy ===== *)
theory Model
  imports Json
begin

text \<open>
  The domain types of \<open>crates/favetto-wire/src/model.rs\<close> (and the usage counters of
  \<open>agent_state.rs\<close> that a run row carries): task and run life cycles, typed failures, tasks,
  runs, event kinds and events, with their string forms.

  Token counters and attempt counters are unbounded naturals: the code's \<open>u64\<close>/\<open>u32\<close> additions
  on them never approach the width.  A cost in dollars is a double (\<open>f64\<close>), and its addition is
  the parameter \<open>fadd\<close>.
\<close>

subsection \<open>Life cycle of a task\<close>

datatype task_status = Pending | Running | AwaitingInput | Succeeded | Failed | Cancelled

fun task_status_as_str :: "task_status \<Rightarrow> string" where
  "task_status_as_str Pending = ''pending''"
| "task_status_as_str Running = ''running''"
| "task_status_as_str AwaitingInput = ''awaiting_input''"
| "task_status_as_str Succeeded = ''succeeded''"
| "task_status_as_str Failed = ''failed''"
| "task_status_as_str Cancelled = ''cancelled''"

definition task_status_from_str :: "string \<Rightarrow> task_status option" where
  "task_status_from_str s =
     (if s = ''pending'' then Some Pending
      else if s = ''running'' then Some Running
      else if s = ''awaiting_input'' then Some AwaitingInput
      else if s = ''succeeded'' then Some Succeeded
      else if s = ''failed'' then Some Failed
      else if s = ''cancelled'' then Some Cancelled
      else None)"

lemma task_status_roundtrip: "task_status_from_str (task_status_as_str st) = Some st"
  by (cases st) (simp_all add: task_status_from_str_def)

lemma task_status_from_str_Some:
  "task_status_from_str s = Some st \<Longrightarrow> s = task_status_as_str st"
  by (auto simp: task_status_from_str_def split: if_splits)

text \<open>The terminal states (\<open>executor::is_terminal\<close>) and the states \<open>db.rs\<close> calls active.\<close>

fun is_terminal :: "task_status \<Rightarrow> bool" where
  "is_terminal Succeeded = True"
| "is_terminal Failed = True"
| "is_terminal Cancelled = True"
| "is_terminal _ = False"

abbreviation in_flight :: "task_status \<Rightarrow> bool" where
  "in_flight st \<equiv> st \<in> {Running, AwaitingInput}"

lemma not_terminal_iff: "\<not> is_terminal st \<longleftrightarrow> st \<in> {Pending, Running, AwaitingInput}"
  by (cases st) auto

subsection \<open>Life cycle of a run\<close>

datatype run_status =
    RunPending | RunRunning | RunAwaitingInput | RunSucceeded
  | RunFailed | RunCancelled | RunInterrupted | RunTimedOut

fun run_status_as_str :: "run_status \<Rightarrow> string" where
  "run_status_as_str RunPending = ''pending''"
| "run_status_as_str RunRunning = ''running''"
| "run_status_as_str RunAwaitingInput = ''awaiting_input''"
| "run_status_as_str RunSucceeded = ''succeeded''"
| "run_status_as_str RunFailed = ''failed''"
| "run_status_as_str RunCancelled = ''cancelled''"
| "run_status_as_str RunInterrupted = ''interrupted''"
| "run_status_as_str RunTimedOut = ''timed_out''"

fun run_is_terminal :: "run_status \<Rightarrow> bool" where
  "run_is_terminal RunSucceeded = True"
| "run_is_terminal RunFailed = True"
| "run_is_terminal RunCancelled = True"
| "run_is_terminal RunInterrupted = True"
| "run_is_terminal RunTimedOut = True"
| "run_is_terminal _ = False"

definition run_status_from_str :: "string \<Rightarrow> run_status option" where
  "run_status_from_str s =
     (if s = ''pending'' then Some RunPending
      else if s = ''running'' then Some RunRunning
      else if s = ''awaiting_input'' then Some RunAwaitingInput
      else if s = ''succeeded'' then Some RunSucceeded
      else if s = ''failed'' then Some RunFailed
      else if s = ''cancelled'' then Some RunCancelled
      else if s = ''interrupted'' then Some RunInterrupted
      else if s = ''timed_out'' then Some RunTimedOut
      else None)"

lemma run_status_roundtrip: "run_status_from_str (run_status_as_str st) = Some st"
  by (cases st) (simp_all add: run_status_from_str_def)

lemma run_not_terminal_iff:
  "\<not> run_is_terminal st \<longleftrightarrow> st \<in> {RunPending, RunRunning, RunAwaitingInput}"
  by (cases st) auto

subsection \<open>Failures\<close>

datatype failure_kind =
    FkAgent | FkInfrastructure | FkTimeout | FkInvalidInput
  | FkDependency | FkCancelled | FkBlocked | FkUnknown

definition retryable_by_default :: "failure_kind \<Rightarrow> bool" where
  "retryable_by_default k \<longleftrightarrow> k \<in> {FkInfrastructure, FkTimeout}"

record failure =
  f_kind :: failure_kind
  f_message :: string
  f_retryable :: bool

definition failure_new :: "failure_kind \<Rightarrow> string \<Rightarrow> failure" where
  "failure_new k msg = \<lparr>f_kind = k, f_message = msg, f_retryable = retryable_by_default k\<rparr>"

subsection \<open>Usage counters\<close>

record agent_usage =
  u_input_tokens :: nat
  u_output_tokens :: nat
  u_reasoning_tokens :: nat
  u_cache_read_tokens :: nat
  u_cache_write_tokens :: nat
  u_cost_usd :: "f64 option"

definition usage_default :: agent_usage where
  "usage_default = \<lparr>u_input_tokens = 0, u_output_tokens = 0, u_reasoning_tokens = 0,
     u_cache_read_tokens = 0, u_cache_write_tokens = 0, u_cost_usd = None\<rparr>"

definition usage_merge :: "(f64 \<Rightarrow> f64 \<Rightarrow> f64) \<Rightarrow> agent_usage \<Rightarrow> agent_usage \<Rightarrow> agent_usage" where
  "usage_merge fadd u other =
     \<lparr>u_input_tokens = u_input_tokens u + u_input_tokens other,
      u_output_tokens = u_output_tokens u + u_output_tokens other,
      u_reasoning_tokens = u_reasoning_tokens u + u_reasoning_tokens other,
      u_cache_read_tokens = u_cache_read_tokens u + u_cache_read_tokens other,
      u_cache_write_tokens = u_cache_write_tokens u + u_cache_write_tokens other,
      u_cost_usd = (case u_cost_usd other of
          None \<Rightarrow> u_cost_usd u
        | Some c \<Rightarrow> Some (fadd (case u_cost_usd u of None \<Rightarrow> 0 | Some b \<Rightarrow> b) c))\<rparr>"

definition usage_is_empty :: "agent_usage \<Rightarrow> bool" where
  "usage_is_empty u \<longleftrightarrow>
     u_input_tokens u = 0 \<and> u_output_tokens u = 0 \<and> u_reasoning_tokens u = 0 \<and>
     u_cache_read_tokens u = 0 \<and> u_cache_write_tokens u = 0 \<and> u_cost_usd u = None"

definition usage_total_tokens :: "agent_usage \<Rightarrow> nat" where
  "usage_total_tokens u = u_input_tokens u + u_output_tokens u + u_reasoning_tokens u"

lemma usage_is_empty_iff: "usage_is_empty u \<longleftrightarrow> u = usage_default"
  by (cases u) (auto simp: usage_is_empty_def usage_default_def)

lemma usage_total_merge:
  "usage_total_tokens (usage_merge fadd u v) = usage_total_tokens u + usage_total_tokens v"
  by (simp add: usage_total_tokens_def usage_merge_def)

lemma usage_merge_default: "usage_merge fadd u usage_default = u"
  by (simp add: usage_merge_def usage_default_def)

subsection \<open>Tasks and runs\<close>

record task =
  t_id :: uuid
  t_name :: string
  t_status :: task_status
  t_attempt :: nat
  t_input :: json
  t_output :: "json option"
  t_dedupe_key :: "string option"
  t_created_at :: time
  t_started_at :: "time option"
  t_finished_at :: "time option"
  t_error :: "string option"
  t_failure :: "failure option"
  t_session_id :: "string option"
  t_session_title :: "string option"
  t_parent_id :: "uuid option"
  t_root_id :: "uuid option"
  t_interactive :: bool

record task_run =
  r_id :: uuid
  r_task_id :: uuid
  r_attempt :: nat
  r_status :: run_status
  r_agent :: "string option"
  r_model :: "string option"
  r_session_id :: "string option"
  r_started_at :: "time option"
  r_finished_at :: "time option"
  r_exit_code :: "int option"
  r_error :: "string option"
  r_usage :: "agent_usage option"
  r_failure :: "failure option"

definition task_summary :: "task \<Rightarrow> task" where
  "task_summary t = t\<lparr>t_output := None\<rparr>"

definition root_or_self :: "task \<Rightarrow> uuid" where
  "root_or_self t = (case t_root_id t of None \<Rightarrow> t_id t | Some r \<Rightarrow> r)"

lemma task_summary_simps [simp]:
  "t_output (task_summary t) = None" "t_id (task_summary t) = t_id t"
  "t_status (task_summary t) = t_status t" "t_name (task_summary t) = t_name t"
  by (simp_all add: task_summary_def)

subsection \<open>Events\<close>

datatype event_kind =
    EvTaskCreated | EvTaskUpdated | EvTaskCompleted | EvTaskFailed
  | EvTaskCancelled | EvTaskIdle | EvTaskStarted | EvTaskAwaitingInput
  | EvTaskFinished | EvCronTick | EvIssueCreated | EvIssueUpdated
  | EvIssueClosed | EvIssueReopened | EvIssueLabeled | EvIssueAssigned
  | EvIssueCommentCreated | EvPrCreated | EvPrMerged | EvPrClosed
  | EvPrReopened | EvPrSynchronized | EvPrReadyForReview | EvPrReviewRequested
  | EvPrUpdated | EvPrReviewSubmitted | EvPushReceived | EvTicketCreated
  | EvTicketUpdated | EvActionRunCompleted | EvCheckSuiteCompleted | EvCheckRunCompleted
  | EvEmailReceived | EvUnknown

text \<open>The table of the \<open>event_kinds!\<close> macro: kind, snake_case name, PascalCase name.\<close>

definition KINDS :: "(event_kind \<times> string \<times> string) list" where
  "KINDS = [
    (EvTaskCreated, ''task_created'', ''TaskCreated''),
    (EvTaskUpdated, ''task_updated'', ''TaskUpdated''),
    (EvTaskCompleted, ''task_completed'', ''TaskCompleted''),
    (EvTaskFailed, ''task_failed'', ''TaskFailed''),
    (EvTaskCancelled, ''task_cancelled'', ''TaskCancelled''),
    (EvTaskIdle, ''task_idle'', ''TaskIdle''),
    (EvTaskStarted, ''task_started'', ''TaskStarted''),
    (EvTaskAwaitingInput, ''task_awaiting_input'', ''TaskAwaitingInput''),
    (EvTaskFinished, ''task_finished'', ''TaskFinished''),
    (EvCronTick, ''cron_tick'', ''CronTick''),
    (EvIssueCreated, ''issue_created'', ''IssueCreated''),
    (EvIssueUpdated, ''issue_updated'', ''IssueUpdated''),
    (EvIssueClosed, ''issue_closed'', ''IssueClosed''),
    (EvIssueReopened, ''issue_reopened'', ''IssueReopened''),
    (EvIssueLabeled, ''issue_labeled'', ''IssueLabeled''),
    (EvIssueAssigned, ''issue_assigned'', ''IssueAssigned''),
    (EvIssueCommentCreated, ''issue_comment_created'', ''IssueCommentCreated''),
    (EvPrCreated, ''pr_created'', ''PRCreated''),
    (EvPrMerged, ''pr_merged'', ''PRMerged''),
    (EvPrClosed, ''pr_closed'', ''PRClosed''),
    (EvPrReopened, ''pr_reopened'', ''PRReopened''),
    (EvPrSynchronized, ''pr_synchronized'', ''PRSynchronized''),
    (EvPrReadyForReview, ''pr_ready_for_review'', ''PRReadyForReview''),
    (EvPrReviewRequested, ''pr_review_requested'', ''PRReviewRequested''),
    (EvPrUpdated, ''pr_updated'', ''PRUpdated''),
    (EvPrReviewSubmitted, ''pr_review_submitted'', ''PRReviewSubmitted''),
    (EvPushReceived, ''push_received'', ''PushReceived''),
    (EvTicketCreated, ''ticket_created'', ''TicketCreated''),
    (EvTicketUpdated, ''ticket_updated'', ''TicketUpdated''),
    (EvActionRunCompleted, ''action_run_completed'', ''ActionRunCompleted''),
    (EvCheckSuiteCompleted, ''check_suite_completed'', ''CheckSuiteCompleted''),
    (EvCheckRunCompleted, ''check_run_completed'', ''CheckRunCompleted''),
    (EvEmailReceived, ''email_received'', ''EmailReceived''),
    (EvUnknown, ''unknown'', ''Unknown'')]"

definition ALL_kinds :: "event_kind list" where
  "ALL_kinds = map fst KINDS"

definition event_kind_from_name :: "string \<Rightarrow> event_kind option" where
  "event_kind_from_name s =
     (case List.find (\<lambda>(k, snake, pascal). s = snake \<or> s = pascal) KINDS of
        Some (k, _) \<Rightarrow> Some k
      | None \<Rightarrow> (if s = ''synthetic'' \<or> s = ''Synthetic'' then Some EvUnknown else None))"

definition event_kind_as_str :: "event_kind \<Rightarrow> string" where
  "event_kind_as_str k = (case map_of KINDS k of Some (snake, _) \<Rightarrow> snake | None \<Rightarrow> [])"

record event =
  e_id :: int
  e_kind :: event_kind
  e_payload :: json
  e_created_at :: time

text \<open>
  Every kind is in the table exactly once, under two names no other kind has; so parsing either
  spelling of a kind gives it back.
\<close>

lemma KINDS_complete: "set (map fst KINDS) = UNIV"
proof -
  have "k \<in> set (map fst KINDS)" for k
    by (cases k) (simp_all add: KINDS_def)
  then show ?thesis by blast
qed

lemma KINDS_distinct: "distinct (map fst KINDS)"
  by (simp add: KINDS_def)

lemma KINDS_names: "\<forall>(k, snake, pascal) \<in> set KINDS.
   event_kind_from_name snake = Some k \<and> event_kind_from_name pascal = Some k"
  by code_simp

lemma event_kind_as_str_in: "(k, snake, pascal) \<in> set KINDS \<Longrightarrow> event_kind_as_str k = snake"
  using KINDS_distinct by (auto simp: event_kind_as_str_def)

end
