(* ===== verification/Db.thy ===== *)
theory Db
  imports Model Text "HOL-Library.Option_ord"
begin

text \<open>
  The database, \<open>crates/favetto/src/db.rs\<close>: one record field per table of \<open>SCHEMA\<close>, each table the
  list of its rows in rowid order, and one definition per query.  A column holds the value the code
  writes to it (the status columns, whose text form is read back by the round trips of Model; JSON
  columns; timestamps in milliseconds).  \<open>ORDER BY\<close> is a stable sort, so ties are in rowid order.
  \<open>now\<close> and fresh ids are arguments.  A query that may fail on a constraint returns an \<open>option\<close>; the
  failure of the connection itself is modelled by the daemon's state (Daemon).
\<close>

subsection \<open>Tables\<close>

record task_row = task +
  t_retry_at :: "time option"

record dep_row =
  dep_task :: uuid
  dep_on :: uuid
  dep_created_at :: time

record worktree_record =
  wt_task :: uuid
  wt_repo :: string
  wt_path :: string
  wt_branch :: string
  wt_created_at :: time

record schedule_row =
  s_id :: string
  s_cron :: string
  s_task :: string
  s_input :: json
  s_enabled :: bool
  s_last_run :: "time option"
  s_job_id :: "string option"

record notification_record =
  n_id :: int
  n_channel :: string
  n_subject :: string
  n_body :: string
  n_status :: string
  n_sent_at :: time

record delivery_row =
  dl_id :: string
  dl_provider :: string
  dl_received_at :: time

datatype repo_source = Manual | Scanned

record repo_row =
  rp_path :: string
  rp_name :: string
  rp_source :: repo_source
  rp_added_at :: time

record user_row =
  us_name :: string
  us_hash :: string
  us_created_at :: time
  us_updated_at :: time

record db =
  tasks :: "task_row list"
  task_runs :: "task_run list"
  deps :: "dep_row list"
  events :: "event list"
  event_seq :: int
  schedules :: "schedule_row list"
  notifications :: "notification_record list"
  notification_seq :: int
  deliveries :: "delivery_row list"
  worktrees :: "worktree_record list"
  repos :: "repo_row list"
  active_repo :: "string option"
  users :: "user_row list"

definition empty_db :: db where
  "empty_db = \<lparr>tasks = [], task_runs = [], deps = [], events = [], event_seq = 0, schedules = [],
     notifications = [], notification_seq = 0, deliveries = [], worktrees = [], repos = [],
     active_repo = None, users = []\<rparr>"

definition row_to_task :: "task_row \<Rightarrow> task" where
  "row_to_task r = task.truncate r"

definition row_of_task :: "task \<Rightarrow> task_row" where
  "row_of_task t = task.extend t (task_row.fields None)"

lemma row_to_task_simps [simp]:
  "t_id (row_to_task r) = t_id r" "t_name (row_to_task r) = t_name r"
  "t_status (row_to_task r) = t_status r" "t_attempt (row_to_task r) = t_attempt r"
  "t_input (row_to_task r) = t_input r" "t_output (row_to_task r) = t_output r"
  "t_dedupe_key (row_to_task r) = t_dedupe_key r" "t_created_at (row_to_task r) = t_created_at r"
  "t_started_at (row_to_task r) = t_started_at r" "t_finished_at (row_to_task r) = t_finished_at r"
  "t_error (row_to_task r) = t_error r" "t_failure (row_to_task r) = t_failure r"
  "t_session_id (row_to_task r) = t_session_id r" "t_session_title (row_to_task r) = t_session_title r"
  "t_parent_id (row_to_task r) = t_parent_id r" "t_root_id (row_to_task r) = t_root_id r"
  "t_interactive (row_to_task r) = t_interactive r"
  by (simp_all add: row_to_task_def task.defs)

lemma row_of_task_simps [simp]:
  "t_id (row_of_task t) = t_id t" "t_name (row_of_task t) = t_name t"
  "t_status (row_of_task t) = t_status t" "t_attempt (row_of_task t) = t_attempt t"
  "t_dedupe_key (row_of_task t) = t_dedupe_key t" "t_created_at (row_of_task t) = t_created_at t"
  "t_finished_at (row_of_task t) = t_finished_at t" "t_parent_id (row_of_task t) = t_parent_id t"
  "t_root_id (row_of_task t) = t_root_id t" "t_retry_at (row_of_task t) = None"
  "t_output (row_of_task t) = t_output t"
  by (simp_all add: row_of_task_def task.defs task_row.defs)

lemma row_to_task_row_of_task [simp]: "row_to_task (row_of_task t) = t"
  by (simp add: row_to_task_def row_of_task_def task.defs task_row.defs)

subsection \<open>Rows\<close>

text \<open>\<open>UPDATE ... SET f WHERE P\<close> and its \<open>rows_affected\<close>.\<close>

definition update_rows :: "('r \<Rightarrow> bool) \<Rightarrow> ('r \<Rightarrow> 'r) \<Rightarrow> 'r list \<Rightarrow> 'r list" where
  "update_rows P f rows = map (\<lambda>r. if P r then f r else r) rows"

definition affected :: "('r \<Rightarrow> bool) \<Rightarrow> 'r list \<Rightarrow> nat" where
  "affected P rows = length (filter P rows)"

definition sql_limit :: "int \<Rightarrow> 'a list \<Rightarrow> 'a list" where
  "sql_limit n xs = (if n < 0 then xs else take (nat n) xs)"

lemma set_update_rows: "set (update_rows P f rows) = (\<lambda>r. if P r then f r else r) ` set rows"
  by (simp add: update_rows_def)

lemma map_update_rows:
  "(\<And>r. k (f r) = k r) \<Longrightarrow> map k (update_rows P f rows) = map k rows"
  by (simp add: update_rows_def)

lemma update_rows_none: "(\<And>r. r \<in> set rows \<Longrightarrow> \<not> P r) \<Longrightarrow> update_rows P f rows = rows"
  by (simp add: update_rows_def map_idI)

lemma affected_le_one:
  assumes "distinct (map k rows)"
  shows "affected (\<lambda>r. k r = i \<and> P r) rows \<le> 1"
proof -
  have "distinct (map k (filter (\<lambda>r. k r = i \<and> P r) rows))"
    using assms by (simp add: distinct_map_filter)
  moreover have "set (map k (filter (\<lambda>r. k r = i \<and> P r) rows)) \<subseteq> {i}" by auto
  ultimately have "card (set (map k (filter (\<lambda>r. k r = i \<and> P r) rows))) \<le> 1"
    using card_mono [of "{i}"] by fastforce
  then show ?thesis
    using \<open>distinct (map k (filter _ rows))\<close> by (simp only: distinct_card affected_def length_map)
qed

lemma affected_eq_one:
  assumes "distinct (map k rows)"
  shows "affected (\<lambda>r. k r = i \<and> P r) rows = 1 \<longleftrightarrow> (\<exists>r \<in> set rows. k r = i \<and> P r)"
proof -
  have "affected (\<lambda>r. k r = i \<and> P r) rows = 0 \<longleftrightarrow> \<not> (\<exists>r \<in> set rows. k r = i \<and> P r)"
    by (auto simp: affected_def filter_empty_conv)
  with affected_le_one [OF assms, of i P] show ?thesis by linarith
qed

text \<open>The row of a key.\<close>

definition lookup_row :: "('r \<Rightarrow> 'k) \<Rightarrow> 'k \<Rightarrow> 'r list \<Rightarrow> 'r option" where
  "lookup_row k i rows = List.find (\<lambda>r. k r = i) rows"

lemma lookup_row_Some:
  "distinct (map k rows) \<Longrightarrow> lookup_row k i rows = Some r \<longleftrightarrow> r \<in> set rows \<and> k r = i"
  using find_Some_unique [of k rows r] by (auto simp: lookup_row_def dest: find_SomeD)

lemma lookup_row_None: "lookup_row k i rows = None \<longleftrightarrow> i \<notin> k ` set rows"
  by (auto simp: lookup_row_def find_None_iff)

lemma lookup_row_SomeD: "lookup_row k i rows = Some r \<Longrightarrow> r \<in> set rows \<and> k r = i"
  by (auto simp: lookup_row_def dest: find_SomeD)

lemma lookup_row_update:
  assumes "\<And>r. k (f r) = k r"
  shows "lookup_row k i (update_rows P f rows)
     = map_option (\<lambda>r. if P r then f r else r) (lookup_row k i rows)"
  using assms by (induction rows) (auto simp: lookup_row_def update_rows_def)

lemma lookup_row_append:
  "lookup_row k i (rows @ [r]) =
     (case lookup_row k i rows of Some x \<Rightarrow> Some x | None \<Rightarrow> if k r = i then Some r else None)"
  by (induction rows) (auto simp: lookup_row_def)

lemma lookup_row_filter:
  assumes "distinct (map k rows)"
  shows "lookup_row k i (filter P rows) = (case lookup_row k i rows of
     None \<Rightarrow> None | Some r \<Rightarrow> if P r then Some r else None)"
proof (cases "lookup_row k i rows")
  case None
  then have "lookup_row k i (filter P rows) = None"
    unfolding lookup_row_None by auto
  with None show ?thesis by simp
next
  case (Some r)
  have d: "distinct (map k (filter P rows))" using assms by (rule distinct_map_filter)
  have r: "r \<in> set rows" "k r = i" using lookup_row_SomeD [OF Some] by auto
  show ?thesis
  proof (cases "P r")
    case True
    then have "lookup_row k i (filter P rows) = Some r"
      using r by (simp add: lookup_row_Some [OF d])
    with Some True show ?thesis by simp
  next
    case False
    have "x = r" if "x \<in> set rows" "k x = i" for x
      using that Some lookup_row_Some [OF assms, of i x] by simp
    with False have "lookup_row k i (filter P rows) = None"
      unfolding lookup_row_None by auto
    with Some False show ?thesis by simp
  qed
qed

subsection \<open>Tasks\<close>

definition insert_task :: "task \<Rightarrow> db \<Rightarrow> db" where
  "insert_task t d =
     (if t_id t \<in> t_id ` set (tasks d) \<or>
         (t_dedupe_key t \<noteq> None \<and> t_dedupe_key t \<in> t_dedupe_key ` set (tasks d))
      then d else d\<lparr>tasks := tasks d @ [row_of_task t]\<rparr>)"

definition get_row :: "db \<Rightarrow> uuid \<Rightarrow> task_row option" where
  "get_row d tid = lookup_row t_id tid (tasks d)"

definition get_task :: "db \<Rightarrow> uuid \<Rightarrow> task option" where
  "get_task d tid = map_option row_to_task (lookup_row t_id tid (tasks d))"

definition get_task_by_dedupe_key :: "db \<Rightarrow> string \<Rightarrow> task option" where
  "get_task_by_dedupe_key d key = map_option row_to_task (lookup_row t_dedupe_key (Some key) (tasks d))"

text \<open>The listing queries do not select the output blob.\<close>

definition row_without_output :: "task_row \<Rightarrow> task" where
  "row_without_output r = (row_to_task r)\<lparr>t_output := None\<rparr>"

definition list_tasks :: "db \<Rightarrow> int \<Rightarrow> task list" where
  "list_tasks d limit = map row_without_output
     (sql_limit (max limit 1) (sort_key (\<lambda>r. - t_created_at r) (tasks d)))"

definition list_pending_tasks :: "db \<Rightarrow> task list" where
  "list_pending_tasks d = map row_without_output
     (sort_key t_created_at (filter (\<lambda>r. t_status r = Pending) (tasks d)))"

definition list_active_tasks :: "db \<Rightarrow> task list" where
  "list_active_tasks d = map row_without_output
     (sort_key t_created_at (filter (\<lambda>r. in_flight (t_status r)) (tasks d)))"

definition list_tasks_in_root :: "db \<Rightarrow> uuid \<Rightarrow> string \<Rightarrow> task list" where
  "list_tasks_in_root d root name = map row_to_task
     (sort_key t_created_at
        (filter (\<lambda>r. (t_root_id r = Some root \<or> t_id r = root) \<and> t_name r = name) (tasks d)))"

definition list_active_tasks_in_root :: "db \<Rightarrow> uuid \<Rightarrow> string \<Rightarrow> task list" where
  "list_active_tasks_in_root d root name = map row_without_output
     (sort_key t_created_at
        (filter (\<lambda>r. (t_root_id r = Some root \<or> t_id r = root) \<and> t_name r = name \<and>
           t_status r \<in> {Pending, Running, AwaitingInput}) (tasks d)))"

definition list_root_tasks :: "db \<Rightarrow> uuid \<Rightarrow> task list" where
  "list_root_tasks d root = map row_without_output
     (sort_key t_created_at (filter (\<lambda>r. t_root_id r = Some root \<or> t_id r = root) (tasks d)))"

subsection \<open>Transitions of a task\<close>

text \<open>
  Every status change is a conditional update: \<open>UPDATE tasks SET ... WHERE id = ? AND status IN
  from\<close>, whose result is whether exactly one row changed.
\<close>

definition cas_task ::
  "uuid \<Rightarrow> task_status set \<Rightarrow> (task_row \<Rightarrow> task_row) \<Rightarrow> db \<Rightarrow> bool \<times> db"
where
  "cas_task tid froms f d =
     (let hit = (\<lambda>r. t_id r = tid \<and> t_status r \<in> froms)
      in (affected hit (tasks d) = 1, d\<lparr>tasks := update_rows hit f (tasks d)\<rparr>))"

definition fail_stale_task :: "time \<Rightarrow> uuid \<Rightarrow> string \<Rightarrow> failure \<Rightarrow> db \<Rightarrow> bool \<times> db" where
  "fail_stale_task now tid err fl = cas_task tid {Running, AwaitingInput}
     (\<lambda>r. r\<lparr>t_status := Failed, t_error := Some err, t_failure := Some fl, t_finished_at := Some now\<rparr>)"

definition retry_stale_task :: "uuid \<Rightarrow> db \<Rightarrow> bool \<times> db" where
  "retry_stale_task tid = cas_task tid {Running, AwaitingInput}
     (\<lambda>r. r\<lparr>t_status := Pending, t_started_at := None, t_finished_at := None,
           t_error := None, t_failure := None, t_retry_at := None\<rparr>)"

definition schedule_task_retry :: "uuid \<Rightarrow> time \<Rightarrow> db \<Rightarrow> bool \<times> db" where
  "schedule_task_retry tid at = cas_task tid {Failed}
     (\<lambda>r. r\<lparr>t_status := Pending, t_started_at := None, t_finished_at := None,
           t_error := None, t_failure := None, t_output := None, t_retry_at := Some at\<rparr>)"

definition requeue_terminal_task :: "uuid \<Rightarrow> db \<Rightarrow> bool \<times> db" where
  "requeue_terminal_task tid = cas_task tid {Succeeded, Failed, Cancelled}
     (\<lambda>r. r\<lparr>t_status := Pending, t_started_at := None, t_finished_at := None,
           t_error := None, t_failure := None, t_output := None, t_retry_at := None\<rparr>)"

definition cancel_active_task :: "time \<Rightarrow> uuid \<Rightarrow> db \<Rightarrow> bool \<times> db" where
  "cancel_active_task now tid = cas_task tid {Pending, Running, AwaitingInput}
     (\<lambda>r. r\<lparr>t_status := Cancelled, t_finished_at := Some now\<rparr>)"

definition finish_active_task :: "task \<Rightarrow> db \<Rightarrow> bool \<times> db" where
  "finish_active_task t = cas_task (t_id t) {Running, AwaitingInput}
     (\<lambda>r. r\<lparr>t_status := t_status t, t_attempt := t_attempt t, t_output := t_output t,
           t_started_at := t_started_at t, t_finished_at := t_finished_at t, t_error := t_error t,
           t_failure := t_failure t, t_session_id := t_session_id t,
           t_session_title := t_session_title t\<rparr>)"

definition fail_pending_task :: "time \<Rightarrow> uuid \<Rightarrow> string \<Rightarrow> failure \<Rightarrow> db \<Rightarrow> bool \<times> db" where
  "fail_pending_task now tid err fl = cas_task tid {Pending}
     (\<lambda>r. r\<lparr>t_status := Failed, t_error := Some err, t_failure := Some fl, t_finished_at := Some now\<rparr>)"

text \<open>\<open>set_task_status_if\<close> reports \<open>rows_affected() > 0\<close>; ids being unique, that is the same.\<close>

definition set_task_status_if :: "uuid \<Rightarrow> task_status \<Rightarrow> task_status \<Rightarrow> db \<Rightarrow> bool \<times> db" where
  "set_task_status_if tid to from d =
     (let hit = (\<lambda>r. t_id r = tid \<and> t_status r = from)
      in (affected hit (tasks d) > 0, d\<lparr>tasks := update_rows hit (\<lambda>r. r\<lparr>t_status := to\<rparr>) (tasks d)\<rparr>))"

definition coalesce :: "'a option \<Rightarrow> 'a option \<Rightarrow> 'a option" where
  "coalesce a b = (case a of Some x \<Rightarrow> Some x | None \<Rightarrow> b)"

definition set_task_session :: "uuid \<Rightarrow> string \<Rightarrow> string option \<Rightarrow> db \<Rightarrow> bool \<times> db" where
  "set_task_session tid sid title d =
     (let hit = (\<lambda>r. t_id r = tid)
      in (affected hit (tasks d) > 0, d\<lparr>tasks := update_rows hit
            (\<lambda>r. r\<lparr>t_session_id := coalesce (t_session_id r) (Some sid),
                  t_session_title := coalesce (t_session_title r) title\<rparr>) (tasks d)\<rparr>))"

subsection \<open>Runs\<close>

text \<open>A run id that exists already violates the primary key.\<close>

definition insert_task_run :: "task_run \<Rightarrow> db \<Rightarrow> db option" where
  "insert_task_run run d =
     (if r_id run \<in> r_id ` set (task_runs d) then None else Some (d\<lparr>task_runs := task_runs d @ [run]\<rparr>))"

definition get_task_run :: "db \<Rightarrow> uuid \<Rightarrow> task_run option" where
  "get_task_run d tid = lookup_row r_id tid (task_runs d)"

definition list_task_runs :: "db \<Rightarrow> uuid \<Rightarrow> task_run list" where
  "list_task_runs d tid =
     sort_key r_attempt (sort_key r_started_at (filter (\<lambda>r. r_task_id r = tid) (task_runs d)))"

abbreviation run_active :: "task_run \<Rightarrow> bool" where
  "run_active r \<equiv> r_status r \<in> {RunPending, RunRunning, RunAwaitingInput}"

definition get_active_task_run :: "db \<Rightarrow> uuid \<Rightarrow> task_run option" where
  "get_active_task_run d tid =
     (case sort_key (\<lambda>r. - int (r_attempt r))
         (filter (\<lambda>r. r_task_id r = tid \<and> run_active r) (task_runs d)) of
        [] \<Rightarrow> None | r # _ \<Rightarrow> Some r)"

definition list_active_task_runs :: "db \<Rightarrow> task_run list" where
  "list_active_task_runs d = sort_key r_started_at (filter run_active (task_runs d))"

definition interrupt_run :: "time \<Rightarrow> uuid \<Rightarrow> string \<Rightarrow> failure \<Rightarrow> db \<Rightarrow> bool \<times> db" where
  "interrupt_run now tid err fl d =
     (let hit = (\<lambda>r. r_id r = tid \<and> run_active r)
      in (affected hit (task_runs d) = 1, d\<lparr>task_runs := update_rows hit
            (\<lambda>r. r\<lparr>r_status := RunInterrupted, r_finished_at := Some now, r_error := Some err,
                  r_failure := Some fl\<rparr>) (task_runs d)\<rparr>))"

definition finalize_task_run :: "task_run \<Rightarrow> db \<Rightarrow> bool \<times> db" where
  "finalize_task_run run d =
     (let hit = (\<lambda>r. r_id r = r_id run)
      in (affected hit (task_runs d) = 1, d\<lparr>task_runs := update_rows hit
            (\<lambda>r. r\<lparr>r_status := r_status run, r_session_id := coalesce (r_session_id run) (r_session_id r),
                  r_agent := coalesce (r_agent run) (r_agent r), r_model := coalesce (r_model run) (r_model r),
                  r_finished_at := r_finished_at run, r_exit_code := r_exit_code run,
                  r_error := r_error run, r_failure := r_failure run, r_usage := r_usage run\<rparr>)
            (task_runs d)\<rparr>))"

text \<open>
  \<open>claim_task\<close> is one transaction: the update of the task, and the run row that is inserted only when
  exactly one task was updated; a failed insert rolls the update back (\<open>None\<close>).
\<close>

definition claim_task :: "time \<Rightarrow> uuid \<Rightarrow> task \<Rightarrow> db \<Rightarrow> (task_run option \<times> db) option" where
  "claim_task now new_id t d =
     (let attempt = t_attempt t + 1;
          (one, d') = cas_task (t_id t) {Pending}
             (\<lambda>r. r\<lparr>t_status := Running, t_started_at := Some now, t_attempt := attempt,
                   t_retry_at := None\<rparr>) d
      in if \<not> one then Some (None, d)
         else let run = \<lparr>r_id = new_id, r_task_id = t_id t, r_attempt = attempt, r_status = RunRunning,
                r_agent = None, r_model = None, r_session_id = None, r_started_at = Some now,
                r_finished_at = None, r_exit_code = None, r_error = None, r_usage = None,
                r_failure = None\<rparr>
              in map_option (\<lambda>d''. (Some run, d'')) (insert_task_run run d'))"

subsection \<open>Dependencies and the queue\<close>

definition insert_dependency :: "uuid \<Rightarrow> uuid \<Rightarrow> time \<Rightarrow> db \<Rightarrow> db" where
  "insert_dependency tid on at d =
     (if (tid, on) \<in> (\<lambda>e. (dep_task e, dep_on e)) ` set (deps d) then d
      else d\<lparr>deps := deps d @ [\<lparr>dep_task = tid, dep_on = on, dep_created_at = at\<rparr>]\<rparr>)"

definition list_root_dependencies :: "db \<Rightarrow> uuid \<Rightarrow> (uuid \<times> uuid) list" where
  "list_root_dependencies d root = map (\<lambda>e. (dep_task e, dep_on e))
     (sort_key dep_created_at (filter (\<lambda>e. \<exists>r \<in> set (tasks d).
        t_id r = dep_task e \<and> (t_root_id r = Some root \<or> t_id r = root)) (deps d)))"

text \<open>The \<open>NOT EXISTS\<close> clause of \<open>next_pending_tasks\<close>: some predecessor row is not terminal.\<close>

definition gated :: "db \<Rightarrow> task_row \<Rightarrow> bool" where
  "gated d t \<longleftrightarrow> (\<exists>e \<in> set (deps d). dep_task e = t_id t \<and>
     (\<exists>p \<in> set (tasks d). t_id p = dep_on e \<and> \<not> is_terminal (t_status p)))"

definition dispatchable :: "time \<Rightarrow> db \<Rightarrow> task_row \<Rightarrow> bool" where
  "dispatchable now d r \<longleftrightarrow> t_status r = Pending \<and>
     (case t_retry_at r of None \<Rightarrow> True | Some at \<Rightarrow> at \<le> now) \<and> \<not> gated d r"

definition next_pending_tasks :: "time \<Rightarrow> db \<Rightarrow> int \<Rightarrow> task list" where
  "next_pending_tasks now d limit = map row_without_output
     (sql_limit (max limit 1) (sort_key t_created_at (filter (dispatchable now d) (tasks d))))"


subsection \<open>Events\<close>

text \<open>\<open>AUTOINCREMENT\<close>: the next id is one above the largest ever used, deleted rows included.\<close>

definition insert_event :: "event \<Rightarrow> db \<Rightarrow> int \<times> db" where
  "insert_event ev d =
     (let n = event_seq d + 1
      in (n, d\<lparr>events := events d @ [ev\<lparr>e_id := n\<rparr>], event_seq := n\<rparr>))"

definition tail_events :: "db \<Rightarrow> int \<Rightarrow> event list" where
  "tail_events d limit = rev (sql_limit limit (sort_key (\<lambda>e. - e_id e) (events d)))"

definition events_after :: "db \<Rightarrow> int \<Rightarrow> int \<Rightarrow> event list" where
  "events_after d n limit = sql_limit limit (sort_key e_id (filter (\<lambda>e. n < e_id e) (events d)))"

subsection \<open>Schedules, notifications, deliveries\<close>

record schedule =
  sc_id :: string
  sc_cron :: string
  sc_task :: string
  sc_input :: json
  sc_enabled :: bool
  sc_last_run :: "time option"
  sc_next_run :: "time option"

definition row_to_schedule :: "schedule_row \<Rightarrow> schedule" where
  "row_to_schedule r = \<lparr>sc_id = s_id r, sc_cron = s_cron r, sc_task = s_task r, sc_input = s_input r,
     sc_enabled = s_enabled r, sc_last_run = s_last_run r, sc_next_run = None\<rparr>"

definition list_schedules :: "db \<Rightarrow> schedule list" where
  "list_schedules d = map row_to_schedule (sort_key s_id (schedules d))"

definition upsert_schedule :: "schedule \<Rightarrow> db \<Rightarrow> db" where
  "upsert_schedule s d =
     (if sc_id s \<in> s_id ` set (schedules d)
      then d\<lparr>schedules := update_rows (\<lambda>r. s_id r = sc_id s)
             (\<lambda>r. r\<lparr>s_cron := sc_cron s, s_task := sc_task s, s_input := sc_input s,
                   s_enabled := sc_enabled s, s_last_run := sc_last_run s\<rparr>) (schedules d)\<rparr>
      else d\<lparr>schedules := schedules d @
             [\<lparr>s_id = sc_id s, s_cron = sc_cron s, s_task = sc_task s, s_input = sc_input s,
               s_enabled = sc_enabled s, s_last_run = sc_last_run s, s_job_id = None\<rparr>]\<rparr>)"

definition set_schedule_job_id :: "string \<Rightarrow> string \<Rightarrow> db \<Rightarrow> db" where
  "set_schedule_job_id sid job d = d\<lparr>schedules := update_rows (\<lambda>r. s_id r = sid)
     (\<lambda>r. r\<lparr>s_job_id := Some job\<rparr>) (schedules d)\<rparr>"

definition get_schedule_job_id :: "db \<Rightarrow> string \<Rightarrow> string option" where
  "get_schedule_job_id d sid = Option.bind (lookup_row s_id sid (schedules d)) s_job_id"

definition touch_schedule :: "time \<Rightarrow> string \<Rightarrow> db \<Rightarrow> db" where
  "touch_schedule now sid d = d\<lparr>schedules := update_rows (\<lambda>r. s_id r = sid)
     (\<lambda>r. r\<lparr>s_last_run := Some now\<rparr>) (schedules d)\<rparr>"

definition delete_schedule :: "string \<Rightarrow> db \<Rightarrow> db" where
  "delete_schedule sid d = d\<lparr>schedules := filter (\<lambda>r. s_id r \<noteq> sid) (schedules d)\<rparr>"

definition insert_notification :: "time \<Rightarrow> string \<Rightarrow> string \<Rightarrow> string \<Rightarrow> string \<Rightarrow> db \<Rightarrow> int \<times> db" where
  "insert_notification now channel subject body status d =
     (let n = notification_seq d + 1
      in (n, d\<lparr>notification_seq := n, notifications := notifications d @
            [\<lparr>n_id = n, n_channel = channel, n_subject = subject, n_body = body, n_status = status,
              n_sent_at = now\<rparr>]\<rparr>))"

definition list_notifications :: "db \<Rightarrow> int \<Rightarrow> notification_record list" where
  "list_notifications d limit = sql_limit limit (sort_key (\<lambda>n. - n_id n) (notifications d))"

definition record_delivery :: "time \<Rightarrow> string \<Rightarrow> string \<Rightarrow> db \<Rightarrow> bool \<times> db" where
  "record_delivery now provider did d =
     (if did \<in> dl_id ` set (deliveries d) then (False, d)
      else (True, d\<lparr>deliveries := deliveries d @
             [\<lparr>dl_id = did, dl_provider = provider, dl_received_at = now\<rparr>]\<rparr>))"

subsection \<open>Repositories, daemon state, users\<close>

fun parse_repo_source :: "string \<Rightarrow> repo_source" where
  "parse_repo_source raw = (if raw = ''scanned'' then Scanned else Manual)"

fun repo_source_str :: "repo_source \<Rightarrow> string" where
  "repo_source_str Manual = ''manual''"
| "repo_source_str Scanned = ''scanned''"

lemma repo_source_roundtrip: "parse_repo_source (repo_source_str s) = s"
  by (cases s) simp_all

definition list_repos :: "db \<Rightarrow> repo_row list" where
  "list_repos d = sort_key rp_name (repos d)"

definition repo_name_for_path :: "db \<Rightarrow> string \<Rightarrow> string option" where
  "repo_name_for_path d path = map_option rp_name (lookup_row rp_path path (repos d))"

definition insert_repo :: "time \<Rightarrow> string \<Rightarrow> string \<Rightarrow> repo_source \<Rightarrow> db \<Rightarrow> db option" where
  "insert_repo now name path source d =
     (if name \<in> rp_name ` set (repos d) \<or> path \<in> rp_path ` set (repos d) then None
      else Some (d\<lparr>repos := repos d @
             [\<lparr>rp_path = path, rp_name = name, rp_source = source, rp_added_at = now\<rparr>]\<rparr>))"

definition set_repo_source :: "string \<Rightarrow> repo_source \<Rightarrow> db \<Rightarrow> db" where
  "set_repo_source name source d = d\<lparr>repos := update_rows (\<lambda>r. rp_name r = name)
     (\<lambda>r. r\<lparr>rp_source := source\<rparr>) (repos d)\<rparr>"

definition delete_repo :: "string \<Rightarrow> db \<Rightarrow> bool \<times> db" where
  "delete_repo name d = (affected (\<lambda>r. rp_name r = name) (repos d) > 0,
     d\<lparr>repos := filter (\<lambda>r. rp_name r \<noteq> name) (repos d)\<rparr>)"

definition set_active_repo :: "string option \<Rightarrow> db \<Rightarrow> db" where
  "set_active_repo name d = d\<lparr>active_repo := name\<rparr>"

definition upsert_user :: "time \<Rightarrow> string \<Rightarrow> string \<Rightarrow> db \<Rightarrow> db" where
  "upsert_user now name hash d =
     (if name \<in> us_name ` set (users d)
      then d\<lparr>users := update_rows (\<lambda>r. us_name r = name)
             (\<lambda>r. r\<lparr>us_hash := hash, us_updated_at := now\<rparr>) (users d)\<rparr>
      else d\<lparr>users := users d @
             [\<lparr>us_name = name, us_hash = hash, us_created_at = now, us_updated_at = now\<rparr>]\<rparr>)"

definition get_user_hash :: "db \<Rightarrow> string \<Rightarrow> string option" where
  "get_user_hash d name = map_option us_hash (lookup_row us_name name (users d))"

definition count_users :: "db \<Rightarrow> int" where
  "count_users d = int (length (users d))"

record user_record =
  username :: string
  user_created_at :: time
  user_updated_at :: time

definition list_users :: "db \<Rightarrow> user_record list" where
  "list_users d = map (\<lambda>r. \<lparr>username = us_name r, user_created_at = us_created_at r,
     user_updated_at = us_updated_at r\<rparr>) (sort_key us_name (users d))"

definition remove_user :: "string \<Rightarrow> db \<Rightarrow> bool \<times> db" where
  "remove_user name d = (affected (\<lambda>r. us_name r = name) (users d) > 0,
     d\<lparr>users := filter (\<lambda>r. us_name r \<noteq> name) (users d)\<rparr>)"

subsection \<open>Worktrees\<close>

definition record_worktree :: "worktree_record \<Rightarrow> db \<Rightarrow> db" where
  "record_worktree wt d = d\<lparr>worktrees := filter (\<lambda>r. wt_task r \<noteq> wt_task wt) (worktrees d) @ [wt]\<rparr>"

definition forget_worktree :: "uuid \<Rightarrow> db \<Rightarrow> db" where
  "forget_worktree tid d = d\<lparr>worktrees := filter (\<lambda>r. wt_task r \<noteq> tid) (worktrees d)\<rparr>"

definition list_worktrees :: "db \<Rightarrow> worktree_record list" where
  "list_worktrees d = sort_key wt_created_at (worktrees d)"

subsection \<open>Retention\<close>

record prune_stats =
  outputs_cleared :: nat
  tasks_deleted :: nat
  runs_deleted :: nat
  dependencies_deleted :: nat
  events_deleted :: nat
  notifications_deleted :: nat
  webhook_deliveries_deleted :: nat
  vacuumed :: bool

definition prune_default :: prune_stats where
  "prune_default = \<lparr>outputs_cleared = 0, tasks_deleted = 0, runs_deleted = 0, dependencies_deleted = 0,
     events_deleted = 0, notifications_deleted = 0, webhook_deliveries_deleted = 0, vacuumed = False\<rparr>"

definition before :: "time \<Rightarrow> time option \<Rightarrow> bool" where
  "before cutoff t = (case t of None \<Rightarrow> False | Some x \<Rightarrow> x < cutoff)"

text \<open>
  \<open>DELETE ... WHERE P\<close> keeps the other rows.  \<open>vacuum_ok\<close> is the outcome of \<open>VACUUM\<close>, which changes
  no row; \<open>min_tasks\<close> stays below \<open>2 ^ 63\<close>, so its \<open>LIMIT\<close> is not negative.
\<close>

definition DAY_MS :: int where "DAY_MS = 86400000"
definition HOUR_MS :: int where "HOUR_MS = 3600000"

definition prune :: "time \<Rightarrow> nat \<Rightarrow> nat \<Rightarrow> bool \<Rightarrow> bool \<Rightarrow> db \<Rightarrow> prune_stats \<times> db" where
  "prune now days min_tasks vacuum vacuum_ok d =
     (if days = 0 then (prune_default, d)
      else let cutoff = now - int days * DAY_MS;
               stale_output = (\<lambda>r. t_output r \<noteq> None \<and> before cutoff (t_finished_at r));
               d1 = d\<lparr>tasks := update_rows stale_output (\<lambda>r. r\<lparr>t_output := None\<rparr>) (tasks d)\<rparr>;
               newest = map t_id (sql_limit (int min_tasks) (sort_key (\<lambda>r. - t_created_at r) (tasks d1)));
               stale = (\<lambda>r. before cutoff (t_finished_at r) \<and> t_id r \<notin> set newest);
               d2 = d1\<lparr>tasks := filter (\<lambda>r. \<not> stale r) (tasks d1)\<rparr>;
               live = (\<lambda>i. i \<in> t_id ` set (tasks d2));
               dead_dep = (\<lambda>e. \<not> live (dep_task e) \<or> \<not> live (dep_on e));
               stats = \<lparr>outputs_cleared = affected stale_output (tasks d),
                 tasks_deleted = affected stale (tasks d1),
                 runs_deleted = affected (\<lambda>r. \<not> live (r_task_id r)) (task_runs d),
                 dependencies_deleted = affected dead_dep (deps d),
                 events_deleted = affected (\<lambda>e. e_created_at e < cutoff) (events d),
                 notifications_deleted = affected (\<lambda>n. n_sent_at n < cutoff) (notifications d),
                 webhook_deliveries_deleted = affected (\<lambda>r. dl_received_at r < cutoff) (deliveries d),
                 vacuumed = False\<rparr>;
               d3 = d2\<lparr>task_runs := filter (\<lambda>r. live (r_task_id r)) (task_runs d),
                       deps := filter (\<lambda>e. \<not> dead_dep e) (deps d),
                       events := filter (\<lambda>e. \<not> e_created_at e < cutoff) (events d),
                       notifications := filter (\<lambda>n. \<not> n_sent_at n < cutoff) (notifications d),
                       deliveries := filter (\<lambda>r. \<not> dl_received_at r < cutoff) (deliveries d)\<rparr>;
               removed = outputs_cleared stats + tasks_deleted stats + runs_deleted stats
                 + dependencies_deleted stats + events_deleted stats + notifications_deleted stats
                 + webhook_deliveries_deleted stats
           in (stats\<lparr>vacuumed := vacuum \<and> removed > 0 \<and> vacuum_ok\<rparr>, d3))"


subsection \<open>Well-formed tables\<close>

text \<open>What the primary keys, the \<open>UNIQUE\<close> constraints and \<open>AUTOINCREMENT\<close> enforce.\<close>

definition tasks_wf :: "task_row list \<Rightarrow> bool" where
  "tasks_wf rows \<longleftrightarrow> distinct (map t_id rows) \<and>
     distinct (map t_dedupe_key (filter (\<lambda>r. t_dedupe_key r \<noteq> None) rows))"

definition tables_wf :: "db \<Rightarrow> bool" where
  "tables_wf d \<longleftrightarrow> tasks_wf (tasks d) \<and> distinct (map r_id (task_runs d)) \<and>
     distinct (map (\<lambda>e. (dep_task e, dep_on e)) (deps d)) \<and>
     sorted_wrt (<) (map e_id (events d)) \<and> (\<forall>e \<in> set (events d). e_id e \<le> event_seq d) \<and>
     sorted_wrt (<) (map n_id (notifications d)) \<and>
     (\<forall>n \<in> set (notifications d). n_id n \<le> notification_seq d) \<and>
     distinct (map dl_id (deliveries d)) \<and> distinct (map wt_task (worktrees d)) \<and>
     distinct (map rp_path (repos d)) \<and> distinct (map rp_name (repos d)) \<and>
     distinct (map us_name (users d)) \<and> distinct (map s_id (schedules d))"

definition task_status_of :: "db \<Rightarrow> uuid \<Rightarrow> task_status option" where
  "task_status_of d tid = map_option t_status (get_row d tid)"

lemma tables_wf_ids [wf_simps]: "tables_wf d \<Longrightarrow> distinct (map t_id (tasks d))"
  by (simp add: tables_wf_def tasks_wf_def)

lemma tables_wf_runs [wf_simps]: "tables_wf d \<Longrightarrow> distinct (map r_id (task_runs d))"
  by (simp add: tables_wf_def)

lemma empty_db_wf: "tables_wf empty_db"
  by (simp add: tables_wf_def tasks_wf_def empty_db_def)

lemma get_row_Some:
  "tables_wf d \<Longrightarrow> get_row d tid = Some r \<longleftrightarrow> r \<in> set (tasks d) \<and> t_id r = tid"
  by (simp add: get_row_def lookup_row_Some wf_simps)

lemma get_row_SomeD: "get_row d tid = Some r \<Longrightarrow> r \<in> set (tasks d) \<and> t_id r = tid"
  unfolding get_row_def by (rule lookup_row_SomeD)

lemma get_row_None: "get_row d tid = None \<longleftrightarrow> tid \<notin> t_id ` set (tasks d)"
  by (simp add: get_row_def lookup_row_None)

lemma get_task_row: "get_task d tid = map_option row_to_task (get_row d tid)"
  by (simp add: get_task_def get_row_def)

lemma tasks_wf_update:
  assumes "\<And>r. t_id (f r) = t_id r" and "\<And>r. t_dedupe_key (f r) = t_dedupe_key r"
  shows "tasks_wf (update_rows P f rows) = tasks_wf rows"
proof -
  have "map t_dedupe_key (filter (\<lambda>r. t_dedupe_key r \<noteq> None) (update_rows P f rows))
      = map t_dedupe_key (filter (\<lambda>r. t_dedupe_key r \<noteq> None) rows)"
    using assms by (induction rows) (auto simp: update_rows_def)
  then show ?thesis using assms by (simp add: tasks_wf_def map_update_rows)
qed

lemma tasks_wf_filter: "tasks_wf rows \<Longrightarrow> tasks_wf (filter P rows)"
proof -
  assume wf: "tasks_wf rows"
  have "filter (\<lambda>r. t_dedupe_key r \<noteq> None) (filter P rows)
      = filter P (filter (\<lambda>r. t_dedupe_key r \<noteq> None) rows)"
    by (simp only: filter_filter conj_commute)
  with wf show ?thesis unfolding tasks_wf_def by (simp only: distinct_map_filter)
qed

subsection \<open>Conditional updates\<close>

text \<open>
  The contract of a guarded status change, as the handlers rely on it: it applies only from the
  states it names, an attempt that does not apply changes nothing, it reaches one state, and it
  leaves every other task alone.  \<open>status_cas\<close> adds that it does apply when the state allows it.
\<close>

locale guarded_update =
  fixes status :: "'db \<Rightarrow> uuid \<Rightarrow> task_status option"
    and wf :: "'db \<Rightarrow> bool"
    and act :: "'db \<Rightarrow> bool \<times> 'db"
    and tid :: uuid
    and froms :: "task_status set"
    and to :: task_status
  assumes applied: "wf d \<Longrightarrow> fst (act d) \<Longrightarrow>
      (\<exists>st \<in> froms. status d tid = Some st) \<and> status (snd (act d)) tid = Some to"
    and skipped: "wf d \<Longrightarrow> \<not> fst (act d) \<Longrightarrow> snd (act d) = d"
    and frame: "wf d \<Longrightarrow> i \<noteq> tid \<Longrightarrow> status (snd (act d)) i = status d i"
    and keeps_wf: "wf d \<Longrightarrow> wf (snd (act d))"
begin

lemma lost:
  assumes "wf d" and "status d tid = Some st" and "st \<notin> froms"
  shows "act d = (False, d)"
proof -
  have "\<not> fst (act d)" using applied [OF assms(1)] assms by auto
  with skipped [OF assms(1)] show ?thesis by (cases "act d") simp
qed

lemma at_most_once:
  assumes "wf d" and "to \<notin> froms" and "fst (act d)"
  shows "act (snd (act d)) = (False, snd (act d))"
  using lost [OF keeps_wf] applied assms by blast

lemma status_after:
  assumes "wf d"
  shows "status (snd (act d)) i = (if i = tid \<and> fst (act d) then Some to else status d i)"
  using assms applied skipped frame by (cases "fst (act d)") (auto split: if_splits)

end

locale status_cas = guarded_update +
  assumes live: "wf d \<Longrightarrow> status d tid = Some st \<Longrightarrow> st \<in> froms \<Longrightarrow> fst (act d)"
begin

lemma applied_iff: "wf d \<Longrightarrow> fst (act d) \<longleftrightarrow> (\<exists>st \<in> froms. status d tid = Some st)"
  using applied live by blast

lemma settled: "wf d \<Longrightarrow> to \<notin> froms \<Longrightarrow> snd (act (snd (act d))) = snd (act d)"
  using at_most_once [of d] skipped [of d] by (cases "fst (act d)") auto

end

text \<open>Two guarded updates of one task, the first of which leads outside the guard of the second.\<close>

locale update_race =
  first: guarded_update status wf act1 tid froms1 to1 + second: guarded_update status wf act2 tid froms2 to2
  for status :: "'db \<Rightarrow> uuid \<Rightarrow> task_status option" and wf :: "'db \<Rightarrow> bool"
    and act1 act2 :: "'db \<Rightarrow> bool \<times> 'db" and tid :: uuid
    and froms1 froms2 :: "task_status set" and to1 to2 :: task_status +
  assumes excluded: "to1 \<notin> froms2"
begin

lemma first_wins: "wf d \<Longrightarrow> fst (act1 d) \<Longrightarrow> act2 (snd (act1 d)) = (False, snd (act1 d))"
  using second.lost [OF first.keeps_wf] first.applied excluded by blast

end

lemma cas_task_hit:
  assumes "tables_wf d"
  shows "fst (cas_task tid froms f d) \<longleftrightarrow> (\<exists>st \<in> froms. task_status_of d tid = Some st)"
proof -
  have "fst (cas_task tid froms f d) \<longleftrightarrow> (\<exists>r \<in> set (tasks d). t_id r = tid \<and> t_status r \<in> froms)"
    unfolding cas_task_def Let_def fst_conv by (rule affected_eq_one [OF tables_wf_ids [OF assms]])
  also have "\<dots> \<longleftrightarrow> (\<exists>st \<in> froms. task_status_of d tid = Some st)"
    by (auto simp: task_status_of_def get_row_Some [OF assms])
  finally show ?thesis .
qed

lemma cas_task_miss:
  assumes "tables_wf d" and "\<not> fst (cas_task tid froms f d)"
  shows "snd (cas_task tid froms f d) = d"
proof -
  have "\<not> (\<exists>r \<in> set (tasks d). t_id r = tid \<and> t_status r \<in> froms)"
    using assms(2) affected_eq_one [OF tables_wf_ids [OF assms(1)]]
    unfolding cas_task_def Let_def fst_conv by metis
  then have "update_rows (\<lambda>r. t_id r = tid \<and> t_status r \<in> froms) f (tasks d) = tasks d"
    by (intro update_rows_none) blast
  then show ?thesis by (simp add: cas_task_def Let_def)
qed

lemma cas_task_row:
  assumes "\<And>r. t_id (f r) = t_id r"
  shows "get_row (snd (cas_task tid froms f d)) i =
     map_option (\<lambda>r. if t_id r = tid \<and> t_status r \<in> froms then f r else r) (get_row d i)"
  using assms by (simp add: cas_task_def Let_def get_row_def lookup_row_update)

lemma cas_task_wf:
  assumes "\<And>r. t_id (f r) = t_id r" and "\<And>r. t_dedupe_key (f r) = t_dedupe_key r"
  shows "tables_wf (snd (cas_task tid froms f d)) = tables_wf d"
  using assms by (simp add: cas_task_def Let_def tables_wf_def tasks_wf_update)

lemma cas_task_status_cas:
  assumes "\<And>r. t_id (f r) = t_id r" and "\<And>r. t_dedupe_key (f r) = t_dedupe_key r"
    and "\<And>r. t_status (f r) = to"
  shows "status_cas task_status_of tables_wf (cas_task tid froms f) tid froms to"
proof unfold_locales
  fix d :: db and i st
  assume wf: "tables_wf d"
  show "snd (cas_task tid froms f d) = d" if "\<not> fst (cas_task tid froms f d)"
    using cas_task_miss [OF wf that] .
  show "tables_wf (snd (cas_task tid froms f d))" using wf assms by (simp add: cas_task_wf)
  show "fst (cas_task tid froms f d)" if "task_status_of d tid = Some st" "st \<in> froms"
    using cas_task_hit [OF wf, of tid froms f] that by blast
  show "task_status_of (snd (cas_task tid froms f d)) i = task_status_of d i" if "i \<noteq> tid"
    using that get_row_SomeD [of d i]
    by (cases "get_row d i") (simp_all add: task_status_of_def cas_task_row [OF assms(1)])
  show "(\<exists>st \<in> froms. task_status_of d tid = Some st) \<and>
      task_status_of (snd (cas_task tid froms f d)) tid = Some to" if hit: "fst (cas_task tid froms f d)"
  proof -
    obtain r where r: "get_row d tid = Some r" "t_status r \<in> froms"
      using hit cas_task_hit [OF wf, of tid froms f] unfolding task_status_of_def map_option_eq_Some by blast
    have "get_row (snd (cas_task tid froms f d)) tid = Some (f r)"
      unfolding cas_task_row [OF assms(1)] r(1) using get_row_SomeD [OF r(1)] r(2) by simp
    then have "task_status_of (snd (cas_task tid froms f d)) tid = Some to"
      unfolding task_status_of_def by (simp add: assms(3))
    moreover have "task_status_of d tid = Some (t_status r)"
      unfolding task_status_of_def r(1) by simp
    ultimately show ?thesis using r(2) by blast
  qed
qed

lemma status_cas_cong:
  assumes "status_cas status good act tid froms to" and "\<And>d. good d \<Longrightarrow> act' d = act d"
  shows "status_cas status good act' tid froms to"
  using assms unfolding status_cas_def guarded_update_def status_cas_axioms_def by simp

interpretation fail_stale: status_cas task_status_of tables_wf "fail_stale_task now tid err fl" tid
    "{Running, AwaitingInput}" Failed for now tid err fl
  unfolding fail_stale_task_def by (rule cas_task_status_cas) simp_all

interpretation retry_stale: status_cas task_status_of tables_wf "retry_stale_task tid" tid
    "{Running, AwaitingInput}" Pending for tid
  unfolding retry_stale_task_def by (rule cas_task_status_cas) simp_all

interpretation schedule_retry: status_cas task_status_of tables_wf "schedule_task_retry tid at" tid
    "{Failed}" Pending for tid at
  unfolding schedule_task_retry_def by (rule cas_task_status_cas) simp_all

interpretation requeue: status_cas task_status_of tables_wf "requeue_terminal_task tid" tid
    "{Succeeded, Failed, Cancelled}" Pending for tid
  unfolding requeue_terminal_task_def by (rule cas_task_status_cas) simp_all

interpretation cancel: status_cas task_status_of tables_wf "cancel_active_task now tid" tid
    "{Pending, Running, AwaitingInput}" Cancelled for now tid
  unfolding cancel_active_task_def by (rule cas_task_status_cas) simp_all

interpretation finish: status_cas task_status_of tables_wf "finish_active_task t" "t_id t"
    "{Running, AwaitingInput}" "t_status t" for t
  unfolding finish_active_task_def by (rule cas_task_status_cas) simp_all

interpretation fail_pending: status_cas task_status_of tables_wf "fail_pending_task now tid err fl" tid
    "{Pending}" Failed for now tid err fl
  unfolding fail_pending_task_def by (rule cas_task_status_cas) simp_all

lemma set_task_status_if_cas:
  assumes "tables_wf d"
  shows "set_task_status_if tid to from d = cas_task tid {from} (\<lambda>r. r\<lparr>t_status := to\<rparr>) d"
  using affected_le_one [OF tables_wf_ids [OF assms], of tid "\<lambda>r. t_status r = from"]
  by (auto simp: set_task_status_if_def cas_task_def Let_def)

interpretation set_status: status_cas task_status_of tables_wf "set_task_status_if tid to from" tid "{from}" to
  for tid to "from"
  by (rule status_cas_cong [OF cas_task_status_cas]) (simp_all add: set_task_status_if_cas)

end
