(* ===== verification/Lifecycle.thy ===== *)
theory Lifecycle
  imports Db
begin

text \<open>
  The life cycle of a task in the database: claims, races between conditional updates, the queue,
  retention, and the invariants every sequence of the operations of \<open>db.rs\<close> keeps.
\<close>

subsection \<open>Claims\<close>

text \<open>
  A claim as the dispatcher uses it (\<open>claim_task(..).await.unwrap_or(None)\<close>): a failed transaction is
  a claim that was not won, and is rolled back.
\<close>

definition claim_won :: "time \<Rightarrow> uuid \<Rightarrow> task \<Rightarrow> db \<Rightarrow> bool \<times> db" where
  "claim_won now new_id t d = (case claim_task now new_id t d of
     Some (Some _, d') \<Rightarrow> (True, d') | _ \<Rightarrow> (False, d))"

definition claimed_row :: "time \<Rightarrow> task \<Rightarrow> task_row \<Rightarrow> task_row" where
  "claimed_row now t r = r\<lparr>t_status := Running, t_started_at := Some now, t_attempt := t_attempt t + 1,
     t_retry_at := None\<rparr>"

definition new_run :: "time \<Rightarrow> uuid \<Rightarrow> task \<Rightarrow> task_run" where
  "new_run now new_id t = \<lparr>r_id = new_id, r_task_id = t_id t, r_attempt = t_attempt t + 1,
     r_status = RunRunning, r_agent = None, r_model = None, r_session_id = None,
     r_started_at = Some now, r_finished_at = None, r_exit_code = None, r_error = None,
     r_usage = None, r_failure = None\<rparr>"

lemma claimed_row_simps [simp]:
  "t_id (claimed_row now t r) = t_id r" "t_status (claimed_row now t r) = Running"
  "t_dedupe_key (claimed_row now t r) = t_dedupe_key r"
  "t_finished_at (claimed_row now t r) = t_finished_at r"
  by (simp_all add: claimed_row_def)

lemma claim_task_unfold:
  "claim_task now new_id t d =
     (let (one, d') = cas_task (t_id t) {Pending} (claimed_row now t) d
      in if \<not> one then Some (None, d)
         else map_option (\<lambda>d''. (Some (new_run now new_id t), d'')) (insert_task_run (new_run now new_id t) d'))"
  unfolding claim_task_def claimed_row_def new_run_def Let_def by (simp cong: if_cong)

lemma cas_task_runs [simp]: "task_runs (snd (cas_task tid froms f d)) = task_runs d"
  by (simp add: cas_task_def Let_def)

lemma insert_task_run_Some:
  "insert_task_run run d = Some d' \<longleftrightarrow>
     r_id run \<notin> r_id ` set (task_runs d) \<and> d' = d\<lparr>task_runs := task_runs d @ [run]\<rparr>"
  by (auto simp: insert_task_run_def)

lemma claim_task_lost:
  assumes "tables_wf d" and "task_status_of d (t_id t) \<noteq> Some Pending"
  shows "claim_task now new_id t d = Some (None, d)"
proof -
  have "\<not> fst (cas_task (t_id t) {Pending} (claimed_row now t) d)"
    using assms cas_task_hit [OF assms(1), of "t_id t" "{Pending}"] by simp
  then show ?thesis by (simp add: claim_task_unfold Let_def split_def)
qed

lemma claim_task_Some:
  assumes "tables_wf d"
  shows "claim_task now new_id t d = Some (Some run, d') \<longleftrightarrow>
    task_status_of d (t_id t) = Some Pending \<and> new_id \<notin> r_id ` set (task_runs d) \<and>
    run = new_run now new_id t \<and>
    d' = (snd (cas_task (t_id t) {Pending} (claimed_row now t) d))\<lparr>task_runs := task_runs d @ [run]\<rparr>"
proof -
  have "fst (cas_task (t_id t) {Pending} (claimed_row now t) d) \<longleftrightarrow> task_status_of d (t_id t) = Some Pending"
    using cas_task_hit [OF assms, of "t_id t" "{Pending}"] by simp
  moreover have "r_id (new_run now new_id t) = new_id" by (simp add: new_run_def)
  ultimately show ?thesis
    by (auto simp: claim_task_unfold Let_def split_def insert_task_run_Some)
qed

lemma claim_won_cases:
  assumes "tables_wf d"
  obtains (won) "claim_won now new_id t d =
      (True, (snd (cas_task (t_id t) {Pending} (claimed_row now t) d))
         \<lparr>task_runs := task_runs d @ [new_run now new_id t]\<rparr>)"
      and "task_status_of d (t_id t) = Some Pending" and "new_id \<notin> r_id ` set (task_runs d)"
  | (lost) "claim_won now new_id t d = (False, d)"
      and "task_status_of d (t_id t) \<noteq> Some Pending \<or> new_id \<in> r_id ` set (task_runs d)"
proof (cases "task_status_of d (t_id t) = Some Pending \<and> new_id \<notin> r_id ` set (task_runs d)")
  case True
  then have "claim_task now new_id t d = Some (Some (new_run now new_id t),
      (snd (cas_task (t_id t) {Pending} (claimed_row now t) d))\<lparr>task_runs := task_runs d @ [new_run now new_id t]\<rparr>)"
    using claim_task_Some [OF assms, of now new_id t "new_run now new_id t"] by simp
  with True won show ?thesis by (simp add: claim_won_def)
next
  case False
  then have "claim_task now new_id t d \<noteq> Some (Some run, d')" for run d'
    using claim_task_Some [OF assms] by blast
  then have "claim_won now new_id t d = (False, d)"
    by (auto simp: claim_won_def split: option.splits)
  with False lost show ?thesis by blast
qed

lemma task_status_of_runs [simp]: "task_status_of (d\<lparr>task_runs := rs\<rparr>) i = task_status_of d i"
  by (simp add: task_status_of_def get_row_def)

lemma tables_wf_runs_append:
  "tables_wf d \<Longrightarrow> r_id run \<notin> r_id ` set (task_runs d) \<Longrightarrow>
   tables_wf (d\<lparr>task_runs := task_runs d @ [run]\<rparr>)"
  by (simp add: tables_wf_def)

interpretation claim_cas: status_cas task_status_of tables_wf
    "cas_task (t_id t) {Pending} (claimed_row now t)" "t_id t" "{Pending}" Running for t now
  by (rule cas_task_status_cas) simp_all

interpretation claim: guarded_update task_status_of tables_wf "claim_won now new_id t" "t_id t"
    "{Pending}" Running for now new_id t
proof
  fix d i
  assume wf: "tables_wf d"
  show "tables_wf (snd (claim_won now new_id t d))"
    using wf
  proof (cases rule: claim_won_cases [of d now new_id t])
    case won
    have "tables_wf (snd (cas_task (t_id t) {Pending} (claimed_row now t) d))"
      using wf by (rule claim_cas.keeps_wf)
    with won tables_wf_runs_append [of "snd (cas_task (t_id t) {Pending} (claimed_row now t) d)" "new_run now new_id t"]
    show ?thesis by (simp add: new_run_def)
  qed (use wf in simp)
  show "(\<exists>st \<in> {Pending}. task_status_of d (t_id t) = Some st) \<and>
      task_status_of (snd (claim_won now new_id t d)) (t_id t) = Some Running"
    if "fst (claim_won now new_id t d)"
    using wf
  proof (cases rule: claim_won_cases [of d now new_id t])
    case won
    then have "task_status_of (snd (cas_task (t_id t) {Pending} (claimed_row now t) d)) (t_id t) = Some Running"
      using claim_cas.status_after [OF wf] claim_cas.live [OF wf] by simp
    with won show ?thesis by simp
  qed (use that in simp)
  show "snd (claim_won now new_id t d) = d" if "\<not> fst (claim_won now new_id t d)"
    using wf by (cases rule: claim_won_cases [of d now new_id t]) (use that in simp_all)
  show "task_status_of (snd (claim_won now new_id t d)) i = task_status_of d i" if "i \<noteq> t_id t"
    using wf claim_cas.frame [OF wf that]
    by (cases rule: claim_won_cases [of d now new_id t]) simp_all
qed

interpretation claim_claim: update_race task_status_of tables_wf
    "claim_won now new_id t" "claim_won now' new_id' t" "t_id t" "{Pending}" "{Pending}" Running Running
  for now new_id t now' new_id'
  by unfold_locales simp

interpretation cancel_finish: update_race task_status_of tables_wf
    "cancel_active_task now (t_id t)" "finish_active_task t" "t_id t"
    "{Pending, Running, AwaitingInput}" "{Running, AwaitingInput}" Cancelled "t_status t"
  for now t
  by unfold_locales simp

interpretation cancel_claim: update_race task_status_of tables_wf
    "cancel_active_task now (t_id t)" "claim_won now' new_id t" "t_id t"
    "{Pending, Running, AwaitingInput}" "{Pending}" Cancelled Running
  for now t now' new_id
  by unfold_locales simp

interpretation cancel_auto_retry: update_race task_status_of tables_wf
    "cancel_active_task now tid" "schedule_task_retry tid at" tid
    "{Pending, Running, AwaitingInput}" "{Failed}" Cancelled Pending
  for now tid at
  by unfold_locales simp


fun claim_all :: "(time \<times> uuid) list \<Rightarrow> task \<Rightarrow> db \<Rightarrow> bool list \<times> db" where
  "claim_all [] t d = ([], d)"
| "claim_all ((now, new_id) # cs) t d =
     (let (w, d') = claim_won now new_id t d; (ws, d'') = claim_all cs t d' in (w # ws, d''))"

lemma claim_all_lost:
  "tables_wf d \<Longrightarrow> task_status_of d (t_id t) \<noteq> Some Pending \<Longrightarrow>
   claim_all cs t d = (replicate (length cs) False, d)"
  by (induction cs) (auto simp: claim_won_def claim_task_lost)

text \<open>C2: however many dispatcher ticks try to claim the same pending task, exactly the first
  succeeds; the others change nothing, and the task gets exactly one new run, in state \<open>running\<close>,
  numbered one above the attempt the queue reported.\<close>

theorem claim_exactly_once:
  assumes "tables_wf d" and "task_status_of d (t_id t) = Some Pending"
    and "new_id \<notin> r_id ` set (task_runs d)"
  shows "\<exists>d'. claim_all ((now, new_id) # cs) t d = (True # replicate (length cs) False, d') \<and>
    task_status_of d' (t_id t) = Some Running \<and>
    task_runs d' = task_runs d @ [new_run now new_id t] \<and>
    r_attempt (new_run now new_id t) = t_attempt t + 1 \<and>
    (\<forall>i. i \<noteq> t_id t \<longrightarrow> task_status_of d' i = task_status_of d i)"
proof -
  define d' where "d' = snd (claim_won now new_id t d)"
  have won: "claim_won now new_id t d = (True, d')" and runs: "task_runs d' = task_runs d @ [new_run now new_id t]"
    using assms(2,3) by (cases rule: claim_won_cases [OF assms(1), of now new_id t]; simp add: d'_def)+
  have wf: "tables_wf d'"
    using claim.keeps_wf [OF assms(1), of now new_id t] by (simp add: d'_def)
  have st: "task_status_of d' i = (if i = t_id t then Some Running else task_status_of d i)" for i
    using claim.status_after [OF assms(1), of now new_id t i] won by simp
  have "claim_all cs t d' = (replicate (length cs) False, d')"
    using claim_all_lost [OF wf] st by simp
  with won runs st show ?thesis by (simp add: new_run_def)
qed

definition sample_task :: "uuid \<Rightarrow> string \<Rightarrow> task" where
  "sample_task tid name = \<lparr>t_id = tid, t_name = name, t_status = Pending, t_attempt = 0,
     t_input = JObj [], t_output = None, t_dedupe_key = None, t_created_at = 0, t_started_at = None,
     t_finished_at = None, t_error = None, t_failure = None, t_session_id = None,
     t_session_title = None, t_parent_id = None, t_root_id = None, t_interactive = False\<rparr>"

definition sample_db :: db where
  "sample_db = insert_task (sample_task ''a'' ''build'') empty_db"

lemma sample_db_wf: "tables_wf sample_db" "task_status_of sample_db ''a'' = Some Pending"
  "task_runs sample_db = []"
  by (simp_all add: sample_db_def sample_task_def insert_task_def empty_db_def tables_wf_def tasks_wf_def
      task_status_of_def get_row_def lookup_row_def)

theorem claim_exactly_once_witness:
  "\<exists>d'. claim_all [(5, ''r1''), (6, ''r2''), (7, ''r3'')] (sample_task ''a'' ''build'') sample_db
     = ([True, False, False], d') \<and> task_status_of d' ''a'' = Some Running"
  using claim_exactly_once [of sample_db "sample_task ''a'' ''build''" "''r1''" 5 "[(6, ''r2''), (7, ''r3'')]"]
  by (auto simp: sample_db_wf sample_task_def)

text \<open>C3: a cancellation that lands first wins: afterwards the run's own result, an automatic retry,
  a second claim, the startup reconciler and the attention tracker all leave the row as it is.\<close>

theorem cancellation_wins:
  assumes "tables_wf d" and "fst (cancel_active_task now (t_id t) d)"
  defines "d' \<equiv> snd (cancel_active_task now (t_id t) d)"
  shows "task_status_of d' (t_id t) = Some Cancelled \<and>
    finish_active_task t d' = (False, d') \<and>
    schedule_task_retry (t_id t) at d' = (False, d') \<and>
    claim_won now' new_id t d' = (False, d') \<and>
    fail_stale_task now' (t_id t) err fl d' = (False, d') \<and>
    retry_stale_task (t_id t) d' = (False, d') \<and>
    fail_pending_task now' (t_id t) err fl d' = (False, d') \<and>
    set_task_status_if (t_id t) AwaitingInput Running d' = (False, d') \<and>
    set_task_status_if (t_id t) Running AwaitingInput d' = (False, d') \<and>
    cancel_active_task now' (t_id t) d' = (False, d')"
proof -
  have wf: "tables_wf d'" using cancel.keeps_wf [OF assms(1)] by (simp add: d'_def)
  have st: "task_status_of d' (t_id t) = Some Cancelled"
    using cancel.applied [OF assms(1,2)] by (simp add: d'_def)
  show ?thesis
    using st cancel_finish.first_wins [OF assms(1,2)] cancel_claim.first_wins [OF assms(1,2)]
      cancel_auto_retry.first_wins [OF assms(1,2)] fail_stale.lost [OF wf st] retry_stale.lost [OF wf st]
      fail_pending.lost [OF wf st] set_status.lost [OF wf st] cancel.lost [OF wf st]
    by (simp add: d'_def)
qed

theorem cancellation_wins_witness:
  "finish_active_task ((sample_task ''a'' ''build'')\<lparr>t_status := Succeeded\<rparr>)
     (snd (cancel_active_task 9 ''a'' sample_db)) = (False, snd (cancel_active_task 9 ''a'' sample_db))"
proof -
  have "fst (cancel_active_task 9 ''a'' sample_db)"
    by (rule cancel.live [OF sample_db_wf(1,2)]) simp
  then show ?thesis
    using cancellation_wins [of sample_db 9 "(sample_task ''a'' ''build'')\<lparr>t_status := Succeeded\<rparr>"]
    by (simp add: sample_db_wf sample_task_def)
qed

subsection \<open>The queue\<close>

lemma sql_limit_max: "sql_limit (max n 1) xs = take (nat (max n 1)) xs"
  by (simp add: sql_limit_def)

text \<open>The queue hands out only tasks that are pending, whose backoff has passed and whose
  predecessors, as far as they still exist, have all ended; at most \<open>limit\<close> of them, oldest first; and a
  task it leaves out although it could run is at least as young as every one it hands out, so none
  starves.\<close>

theorem next_pending_tasks_fair:
  fixes now limit d
  defines "q \<equiv> next_pending_tasks now d limit"
  shows "(\<forall>t \<in> set q. \<exists>r \<in> set (tasks d). t = row_without_output r \<and> t_status r = Pending \<and>
      (\<forall>at. t_retry_at r = Some at \<longrightarrow> at \<le> now) \<and>
      (\<forall>e \<in> set (deps d). dep_task e = t_id r \<longrightarrow>
         (\<forall>p \<in> set (tasks d). t_id p = dep_on e \<longrightarrow> is_terminal (t_status p)))) \<and>
    length q \<le> nat (max limit 1) \<and> sorted (map t_created_at q) \<and>
    (\<forall>r \<in> set (tasks d). dispatchable now d r \<longrightarrow> row_without_output r \<in> set q \<or>
       (int (length q) = max limit 1 \<and> (\<forall>t \<in> set q. t_created_at t \<le> t_created_at r)))"
proof -
  define xs where "xs = sort_key t_created_at (filter (dispatchable now d) (tasks d))"
  define n where "n = nat (max limit 1)"
  have q: "q = map row_without_output (take n xs)"
    by (simp add: q_def next_pending_tasks_def sql_limit_max xs_def n_def)
  have srt: "sorted (map t_created_at xs)" by (simp add: xs_def)
  have created: "t_created_at (row_without_output r) = t_created_at r" for r
    by (simp add: row_without_output_def)
  have "int (length q) = max limit 1 \<and> (\<forall>t \<in> set q. t_created_at t \<le> t_created_at r)"
    if r: "r \<in> set xs" and out: "row_without_output r \<notin> set q" for r
  proof -
    have "r \<notin> set (take n xs)" using out by (auto simp: q)
    then have dr: "r \<in> set (drop n xs)" using r by (metis Un_iff append_take_drop_id set_append)
    then have "n < length xs" by (cases "n < length xs") auto
    then have "length q = n" by (simp add: q)
    moreover have "sorted (map t_created_at (take n xs @ drop n xs))" using srt by simp
    then have "\<forall>x \<in> set (take n xs). \<forall>y \<in> set (drop n xs). t_created_at x \<le> t_created_at y"
      unfolding map_append sorted_append by simp
    ultimately show ?thesis using dr by (auto simp: q created n_def)
  qed
  then have "\<forall>r \<in> set (tasks d). dispatchable now d r \<longrightarrow> row_without_output r \<in> set q \<or>
       (int (length q) = max limit 1 \<and> (\<forall>t \<in> set q. t_created_at t \<le> t_created_at r))"
    unfolding xs_def by auto
  moreover have "sorted (map t_created_at q)"
    using sorted_wrt_take [OF srt, of n] by (simp add: q take_map comp_def created)
  moreover have "length q \<le> nat (max limit 1)" by (simp add: q n_def)
  moreover have "\<exists>r \<in> set (tasks d). t = row_without_output r \<and> dispatchable now d r" if "t \<in> set q" for t
    using that set_take_subset [of n xs] by (auto simp: q xs_def)
  then have "\<forall>t \<in> set q. \<exists>r \<in> set (tasks d). t = row_without_output r \<and> t_status r = Pending \<and>
      (\<forall>at. t_retry_at r = Some at \<longrightarrow> at \<le> now) \<and>
      (\<forall>e \<in> set (deps d). dep_task e = t_id r \<longrightarrow>
         (\<forall>p \<in> set (tasks d). t_id p = dep_on e \<longrightarrow> is_terminal (t_status p)))"
    unfolding dispatchable_def gated_def by (fastforce split: option.splits)
  ultimately show ?thesis by blast
qed


definition chained_db :: db where
  "chained_db = insert_dependency ''b'' ''a'' 0 (insert_task (sample_task ''b'' ''test'') sample_db)"

lemma chained_db_simps:
  "tasks chained_db = [row_of_task (sample_task ''a'' ''build''), row_of_task (sample_task ''b'' ''test'')]"
  "deps chained_db = [\<lparr>dep_task = ''b'', dep_on = ''a'', dep_created_at = 0\<rparr>]"
  by (simp_all add: chained_db_def sample_db_def sample_task_def insert_task_def insert_dependency_def empty_db_def)

theorem next_pending_tasks_fair_witness:
  "\<not> dispatchable 0 chained_db (row_of_task (sample_task ''b'' ''test'')) \<and>
   (row_without_output (row_of_task (sample_task ''a'' ''build'')) \<in> set (next_pending_tasks 0 chained_db 8) \<or>
    length (next_pending_tasks 0 chained_db 8) = 8)"
proof -
  have "dispatchable 0 chained_db (row_of_task (sample_task ''a'' ''build''))"
    by (simp add: dispatchable_def gated_def chained_db_simps sample_task_def)
  moreover have "\<not> dispatchable 0 chained_db (row_of_task (sample_task ''b'' ''test''))"
    by (simp add: dispatchable_def gated_def chained_db_simps sample_task_def)
  moreover have "row_of_task (sample_task ''a'' ''build'') \<in> set (tasks chained_db)"
    by (simp add: chained_db_simps)
  ultimately show ?thesis
    using next_pending_tasks_fair [of 0 chained_db 8] by fastforce
qed

subsection \<open>Retention\<close>

abbreviation pruned :: "time \<Rightarrow> nat \<Rightarrow> nat \<Rightarrow> db \<Rightarrow> db" where
  "pruned now days min_tasks d \<equiv> snd (prune now days min_tasks False False d)"

text \<open>The \<open>n\<close> newest rows, as the retention query orders them.\<close>

definition newest_rows :: "nat \<Rightarrow> task_row list \<Rightarrow> task_row list" where
  "newest_rows n rows = take n (sort_key (\<lambda>r. - t_created_at r) rows)"

definition clear_output :: "time \<Rightarrow> task_row \<Rightarrow> task_row" where
  "clear_output cutoff r =
     (if t_output r \<noteq> None \<and> before cutoff (t_finished_at r) then r\<lparr>t_output := None\<rparr> else r)"

lemma clear_output_simps [simp]:
  "t_id (clear_output c r) = t_id r" "t_created_at (clear_output c r) = t_created_at r"
  "t_finished_at (clear_output c r) = t_finished_at r" "t_status (clear_output c r) = t_status r"
  "t_dedupe_key (clear_output c r) = t_dedupe_key r"
  by (simp_all add: clear_output_def)

lemma clear_output_idem [simp]: "clear_output c (clear_output c r) = clear_output c r"
  by (simp add: clear_output_def)

lemma insort_key_map:
  "(\<And>x. k (f x) = k x) \<Longrightarrow> insort_key k (f x) (map f xs) = map f (insort_key k x xs)"
  by (induction xs) simp_all

lemma sort_key_map: "(\<And>x. k (f x) = k x) \<Longrightarrow> sort_key k (map f xs) = map f (sort_key k xs)"
  by (induction xs) (simp_all add: insort_key_map)

definition prune_keeps :: "time \<Rightarrow> nat \<Rightarrow> task_row list \<Rightarrow> task_row \<Rightarrow> bool" where
  "prune_keeps cutoff n rows r \<longleftrightarrow>
     \<not> before cutoff (t_finished_at r) \<or> t_id r \<in> t_id ` set (newest_rows n rows)"

lemma prune_tables:
  fixes now :: time
  assumes "days \<noteq> 0"
  defines "cutoff \<equiv> now - int days * DAY_MS"
  shows "tasks (snd (prune now days n v ok d)) =
      map (clear_output cutoff) (filter (prune_keeps cutoff n (tasks d)) (tasks d))"
    and "task_runs (snd (prune now days n v ok d)) =
      filter (\<lambda>r. r_task_id r \<in> t_id ` set (tasks (snd (prune now days n v ok d)))) (task_runs d)"
    and "deps (snd (prune now days n v ok d)) =
      filter (\<lambda>e. dep_task e \<in> t_id ` set (tasks (snd (prune now days n v ok d))) \<and>
                  dep_on e \<in> t_id ` set (tasks (snd (prune now days n v ok d)))) (deps d)"
    and "events (snd (prune now days n v ok d)) = filter (\<lambda>e. \<not> e_created_at e < cutoff) (events d)"
    and "notifications (snd (prune now days n v ok d)) = filter (\<lambda>e. \<not> n_sent_at e < cutoff) (notifications d)"
    and "deliveries (snd (prune now days n v ok d)) = filter (\<lambda>e. \<not> dl_received_at e < cutoff) (deliveries d)"
proof -
  have clear: "update_rows (\<lambda>r. t_output r \<noteq> None \<and> before cutoff (t_finished_at r)) (\<lambda>r. r\<lparr>t_output := None\<rparr>) rows
      = map (clear_output cutoff) rows" for rows
    by (simp add: update_rows_def clear_output_def)
  have newest: "t_id ` set (sql_limit (int n) (sort_key (\<lambda>r. - t_created_at r) (map (clear_output cutoff) (tasks d))))
      = t_id ` set (newest_rows n (tasks d))"
    by (simp add: sort_key_map sql_limit_def newest_rows_def take_map image_image)
  have keeps: "prune_keeps cutoff n rows = (\<lambda>r. before cutoff (t_finished_at r) \<longrightarrow>
      t_id r \<in> t_id ` set (newest_rows n rows))" for rows
    by (auto simp: prune_keeps_def fun_eq_iff)
  show "tasks (snd (prune now days n v ok d)) =
      map (clear_output cutoff) (filter (prune_keeps cutoff n (tasks d)) (tasks d))"
    using assms(1) newest unfolding cutoff_def [symmetric] prune_def Let_def
    by (simp add: cutoff_def [symmetric] clear filter_map comp_def keeps del: not_less not_None_eq)
  show "task_runs (snd (prune now days n v ok d)) =
      filter (\<lambda>r. r_task_id r \<in> t_id ` set (tasks (snd (prune now days n v ok d)))) (task_runs d)"
    using assms(1) by (simp add: prune_def Let_def)
  show "deps (snd (prune now days n v ok d)) =
      filter (\<lambda>e. dep_task e \<in> t_id ` set (tasks (snd (prune now days n v ok d))) \<and>
                  dep_on e \<in> t_id ` set (tasks (snd (prune now days n v ok d)))) (deps d)"
    using assms(1) by (simp add: prune_def Let_def)
  show "events (snd (prune now days n v ok d)) = filter (\<lambda>e. \<not> e_created_at e < cutoff) (events d)"
    and "notifications (snd (prune now days n v ok d)) = filter (\<lambda>e. \<not> n_sent_at e < cutoff) (notifications d)"
    and "deliveries (snd (prune now days n v ok d)) = filter (\<lambda>e. \<not> dl_received_at e < cutoff) (deliveries d)"
    using assms(1) by (simp_all add: prune_def Let_def cutoff_def)
qed


lemma take_filter_prefix:
  assumes "\<forall>x \<in> set (take n xs). P x"
  shows "take n (filter P xs) = take n xs"
proof -
  have "filter P xs = filter P (take n xs @ drop n xs)" by simp
  also have "\<dots> = take n xs @ filter P (drop n xs)" using assms by (simp only: filter_append filter_True)
  finally have *: "filter P xs = take n xs @ filter P (drop n xs)" .
  show ?thesis
  proof (cases "n \<le> length xs")
    case True
    then show ?thesis by (simp add: *)
  next
    case False
    then show ?thesis using * by simp
  qed
qed

lemma newest_rows_kept:
  "newest_rows n (map (clear_output c) (filter (prune_keeps c n rows) rows))
     = map (clear_output c) (newest_rows n rows)"
proof -
  have "\<forall>r \<in> set (newest_rows n rows). prune_keeps c n rows r" by (simp add: prune_keeps_def)
  then have "take n (filter (prune_keeps c n rows) (sort_key (\<lambda>r. - t_created_at r) rows))
      = newest_rows n rows"
    unfolding newest_rows_def by (rule take_filter_prefix)
  then show ?thesis
    by (simp add: newest_rows_def sort_key_map take_map filter_sort_key)
qed

text \<open>A retention pass only drops task rows that finished before the cutoff and are not among the
  newest \<open>min_tasks\<close>, which all stay; no run and no dependency edge is left pointing at a dropped row;
  and a second pass at the same time changes nothing.\<close>

theorem prune_sound:
  fixes now :: time and d :: db and n :: nat
  assumes "days > 0"
  defines "cutoff \<equiv> now - int days * DAY_MS" and "d' \<equiv> pruned now days n d"
  shows "(\<forall>r \<in> set (newest_rows n (tasks d)). t_id r \<in> t_id ` set (tasks d')) \<and>
    (\<forall>r \<in> set (tasks d). t_id r \<notin> t_id ` set (tasks d') \<longrightarrow> before cutoff (t_finished_at r)) \<and>
    (\<forall>run \<in> set (task_runs d'). r_task_id run \<in> t_id ` set (tasks d')) \<and>
    (\<forall>e \<in> set (deps d'). {dep_task e, dep_on e} \<subseteq> t_id ` set (tasks d')) \<and>
    pruned now days n d' = d'"
proof -
  have days: "days \<noteq> 0" using assms(1) by simp
  note tabs = prune_tables [OF days, of now n False False, folded cutoff_def]
  have ts: "tasks d' = map (clear_output cutoff) (filter (prune_keeps cutoff n (tasks d)) (tasks d))"
    unfolding d'_def by (rule tabs(1))
  have ids: "t_id ` set (tasks d') = t_id ` {r \<in> set (tasks d). prune_keeps cutoff n (tasks d) r}"
    unfolding ts by (auto simp: image_image)
  have newest: "newest_rows n (tasks d') = map (clear_output cutoff) (newest_rows n (tasks d))"
    unfolding ts by (rule newest_rows_kept)
  have sub: "set (newest_rows n (tasks d)) \<subseteq> set (tasks d)"
    unfolding newest_rows_def by (metis set_sort set_take_subset)
  have keep': "prune_keeps cutoff n (tasks d') r" if "r \<in> set (tasks d')" for r
    using that unfolding ts prune_keeps_def newest [unfolded ts] by (auto simp: image_image prune_keeps_def)
  have 1: "tasks (pruned now days n d') = tasks d'"
  proof -
    have "filter (prune_keeps cutoff n (tasks d')) (tasks d') = tasks d'"
      using keep' by simp
    then have "tasks (pruned now days n d') = map (clear_output cutoff) (tasks d')"
      unfolding tabs(1) by simp
    also have "\<dots> = tasks d'" unfolding ts by simp
    finally show ?thesis .
  qed
  have 2: "pruned now days n d' = d'"
  proof (rule db.equality)
    show "task_runs (pruned now days n d') = task_runs d'"
      unfolding tabs(2) [of d'] 1 unfolding d'_def tabs(2) [of d] by simp
    show "deps (pruned now days n d') = deps d'"
      unfolding tabs(3) [of d'] 1 unfolding d'_def tabs(3) [of d] by simp
    show "events (pruned now days n d') = events d'"
      by (simp add: d'_def tabs(4))
    show "notifications (pruned now days n d') = notifications d'"
      by (simp add: d'_def tabs(5))
    show "deliveries (pruned now days n d') = deliveries d'"
      by (simp add: d'_def tabs(6))
  qed (use 1 days in \<open>simp_all add: prune_def Let_def\<close>)
  have "\<forall>r \<in> set (newest_rows n (tasks d)). t_id r \<in> t_id ` set (tasks d')"
    using sub unfolding ids by (auto simp: prune_keeps_def)
  moreover have "\<forall>r \<in> set (tasks d). t_id r \<notin> t_id ` set (tasks d') \<longrightarrow> before cutoff (t_finished_at r)"
    unfolding ids by (auto simp: prune_keeps_def)
  moreover have "\<forall>run \<in> set (task_runs d'). r_task_id run \<in> t_id ` set (tasks d')"
    unfolding d'_def tabs(2) [of d] by simp
  moreover have "\<forall>e \<in> set (deps d'). {dep_task e, dep_on e} \<subseteq> t_id ` set (tasks d')"
    unfolding d'_def tabs(3) [of d] by simp
  ultimately show ?thesis using 2 by blast
qed


definition aged_db :: db where
  "aged_db = empty_db\<lparr>tasks :=
     [row_of_task ((sample_task ''a'' ''build'')\<lparr>t_status := Succeeded, t_finished_at := Some 0\<rparr>),
      row_of_task ((sample_task ''b'' ''build'')\<lparr>t_created_at := 5\<rparr>)]\<rparr>"

theorem prune_sound_witness:
  "''b'' \<in> t_id ` set (tasks (pruned 200000000 1 1 aged_db)) \<and>
   pruned 200000000 1 1 (pruned 200000000 1 1 aged_db) = pruned 200000000 1 1 aged_db"
proof -
  have "newest_rows 1 (tasks aged_db) = [row_of_task ((sample_task ''b'' ''build'')\<lparr>t_created_at := 5\<rparr>)]"
    by (simp add: newest_rows_def aged_db_def sample_task_def)
  then show ?thesis
    using prune_sound [of 1 1 aged_db 200000000] by (simp add: sample_task_def)
qed

subsection \<open>Every operation, as one step\<close>

text \<open>
  The operations the daemon performs on the task tables.  \<open>set_task_status_if\<close> is only used to park a
  running task that waits for input and to resume it.
\<close>

datatype db_op =
    OpInsert task
  | OpClaim time uuid task
  | OpFinish task
  | OpCancel time uuid
  | OpFailStale time uuid string failure
  | OpRetryStale uuid
  | OpScheduleRetry uuid time
  | OpRequeue uuid
  | OpFailPending time uuid string failure
  | OpPark uuid
  | OpResume uuid
  | OpSession uuid string "string option"
  | OpDependency uuid uuid time
  | OpInterruptRun time uuid string failure
  | OpFinalizeRun task_run
  | OpEvent event
  | OpNotification time string string string string
  | OpDelivery time string string
  | OpWorktree worktree_record
  | OpForgetWorktree uuid
  | OpPrune time nat nat bool bool

fun apply_op :: "db_op \<Rightarrow> db \<Rightarrow> db" where
  "apply_op (OpInsert t) = insert_task t"
| "apply_op (OpClaim now new_id t) = snd \<circ> claim_won now new_id t"
| "apply_op (OpFinish t) = snd \<circ> finish_active_task t"
| "apply_op (OpCancel now i) = snd \<circ> cancel_active_task now i"
| "apply_op (OpFailStale now i err fl) = snd \<circ> fail_stale_task now i err fl"
| "apply_op (OpRetryStale i) = snd \<circ> retry_stale_task i"
| "apply_op (OpScheduleRetry i at) = snd \<circ> schedule_task_retry i at"
| "apply_op (OpRequeue i) = snd \<circ> requeue_terminal_task i"
| "apply_op (OpFailPending now i err fl) = snd \<circ> fail_pending_task now i err fl"
| "apply_op (OpPark i) = snd \<circ> set_task_status_if i AwaitingInput Running"
| "apply_op (OpResume i) = snd \<circ> set_task_status_if i Running AwaitingInput"
| "apply_op (OpSession i s title) = snd \<circ> set_task_session i s title"
| "apply_op (OpDependency i on at) = insert_dependency i on at"
| "apply_op (OpInterruptRun now i err fl) = snd \<circ> interrupt_run now i err fl"
| "apply_op (OpFinalizeRun run) = snd \<circ> finalize_task_run run"
| "apply_op (OpEvent ev) = snd \<circ> insert_event ev"
| "apply_op (OpNotification now c s b st) = snd \<circ> insert_notification now c s b st"
| "apply_op (OpDelivery now p i) = snd \<circ> record_delivery now p i"
| "apply_op (OpWorktree wt) = record_worktree wt"
| "apply_op (OpForgetWorktree i) = forget_worktree i"
| "apply_op (OpPrune now days n v ok) = snd \<circ> prune now days n v ok"

text \<open>
  What the callers guarantee: a new task is pending, or running when it is a one-shot, with no finish time,
  and the id is fresh only in the sense the table checks; a finished task carries a terminal status.
\<close>

fun op_ok :: "db_op \<Rightarrow> bool" where
  "op_ok (OpInsert t) = (t_status t \<in> {Pending, Running} \<and> t_finished_at t = None)"
| "op_ok (OpFinish t) = is_terminal (t_status t)"
| "op_ok _ = True"

inductive reachable :: "db \<Rightarrow> bool" where
  start: "reachable empty_db"
| step: "reachable d \<Longrightarrow> op_ok op \<Longrightarrow> reachable (apply_op op d)"

text \<open>The life cycle: the only moves a task's status makes.\<close>

inductive task_step :: "task_status \<Rightarrow> task_status \<Rightarrow> bool" where
  claim: "task_step Pending Running"
| reject: "task_step Pending Failed"
| park: "task_step Running AwaitingInput"
| resume: "task_step AwaitingInput Running"
| finish: "in_flight s \<Longrightarrow> is_terminal e \<Longrightarrow> task_step s e"
| cancel: "\<not> is_terminal s \<Longrightarrow> task_step s Cancelled"
| requeue: "in_flight s \<Longrightarrow> task_step s Pending"
| retry: "is_terminal s \<Longrightarrow> task_step s Pending"

inductive_cases task_step_terminalE: "task_step Succeeded e"
inductive_simps task_step_from_pending: "task_step Pending e"

lemma task_step_from_terminal: "is_terminal s \<Longrightarrow> task_step s e \<Longrightarrow> e = Pending"
  by (erule task_step.cases) auto

lemma step_sets:
  "s \<in> {Pending} \<Longrightarrow> task_step s Running" "s \<in> {Pending, Running, AwaitingInput} \<Longrightarrow> task_step s Cancelled"
  "s \<in> {Running, AwaitingInput} \<Longrightarrow> task_step s Failed" "s \<in> {Running, AwaitingInput} \<Longrightarrow> task_step s Pending"
  "s \<in> {Failed} \<Longrightarrow> task_step s Pending" "s \<in> {Succeeded, Failed, Cancelled} \<Longrightarrow> task_step s Pending"
  "s \<in> {Pending} \<Longrightarrow> task_step s Failed" "s \<in> {Running} \<Longrightarrow> task_step s AwaitingInput"
  "s \<in> {AwaitingInput} \<Longrightarrow> task_step s Running"
  by (auto intro: task_step.intros)

subsection \<open>What every operation keeps\<close>

lemma tasks_wf_insert:
  "tasks_wf rows \<Longrightarrow> t_id r \<notin> t_id ` set rows \<Longrightarrow>
   (t_dedupe_key r \<noteq> None \<Longrightarrow> t_dedupe_key r \<notin> t_dedupe_key ` set rows) \<Longrightarrow> tasks_wf (rows @ [r])"
  by (auto simp: tasks_wf_def)

lemma insert_task_wf: "tables_wf d \<Longrightarrow> tables_wf (insert_task t d)"
  by (auto simp: insert_task_def tables_wf_def intro!: tasks_wf_insert)

lemma set_task_session_wf: "tables_wf d \<Longrightarrow> tables_wf (snd (set_task_session i s title d))"
  by (simp add: set_task_session_def Let_def tables_wf_def tasks_wf_update)

lemma insert_dependency_wf: "tables_wf d \<Longrightarrow> tables_wf (insert_dependency i on at d)"
  by (auto simp: insert_dependency_def tables_wf_def)

lemma interrupt_run_wf: "tables_wf d \<Longrightarrow> tables_wf (snd (interrupt_run now i err fl d))"
  by (simp add: interrupt_run_def Let_def tables_wf_def map_update_rows)

lemma finalize_task_run_wf: "tables_wf d \<Longrightarrow> tables_wf (snd (finalize_task_run run d))"
  by (simp add: finalize_task_run_def Let_def tables_wf_def map_update_rows)

lemma insert_event_wf: "tables_wf d \<Longrightarrow> tables_wf (snd (insert_event ev d))"
  by (fastforce simp: insert_event_def Let_def tables_wf_def sorted_wrt_append)

lemma insert_notification_wf: "tables_wf d \<Longrightarrow> tables_wf (snd (insert_notification now c s b st d))"
  by (fastforce simp: insert_notification_def Let_def tables_wf_def sorted_wrt_append)

lemma record_delivery_wf: "tables_wf d \<Longrightarrow> tables_wf (snd (record_delivery now p i d))"
  by (auto simp: record_delivery_def tables_wf_def)

lemma worktree_wf:
  "tables_wf d \<Longrightarrow> tables_wf (record_worktree wt d)" "tables_wf d \<Longrightarrow> tables_wf (forget_worktree i d)"
  by (auto simp: record_worktree_def forget_worktree_def tables_wf_def distinct_map_filter)

lemma tasks_wf_clear: "tasks_wf (map (clear_output c) rows) = tasks_wf rows"
proof -
  have "map (clear_output c) rows = update_rows (\<lambda>_. True) (clear_output c) rows"
    by (simp add: update_rows_def)
  then show ?thesis by (simp add: tasks_wf_update)
qed

lemma prune_wf:
  assumes "tables_wf d"
  shows "tables_wf (snd (prune now days n v ok d))"
proof (cases "days = 0")
  case False
  note tabs = prune_tables [OF False, of now n v ok]
  have "event_seq (snd (prune now days n v ok d)) = event_seq d"
    "notification_seq (snd (prune now days n v ok d)) = notification_seq d"
    "worktrees (snd (prune now days n v ok d)) = worktrees d"
    "repos (snd (prune now days n v ok d)) = repos d" "users (snd (prune now days n v ok d)) = users d"
    "schedules (snd (prune now days n v ok d)) = schedules d"
    using False by (simp_all add: prune_def Let_def)
  with assms show ?thesis
    by (simp add: tables_wf_def tabs tasks_wf_clear tasks_wf_filter distinct_map_filter sorted_wrt_map sorted_wrt_filter
        del: not_less)
qed (use assms in \<open>simp add: prune_def\<close>)

lemmas op_wf_lemmas = insert_task_wf set_task_session_wf insert_dependency_wf interrupt_run_wf
  finalize_task_run_wf insert_event_wf insert_notification_wf record_delivery_wf worktree_wf prune_wf
  claim.keeps_wf finish.keeps_wf cancel.keeps_wf fail_stale.keeps_wf retry_stale.keeps_wf
  schedule_retry.keeps_wf requeue.keeps_wf fail_pending.keeps_wf set_status.keeps_wf

lemma apply_op_wf: "tables_wf d \<Longrightarrow> tables_wf (apply_op op d)"
  by (cases op) (simp_all add: op_wf_lemmas)


context guarded_update begin

lemma follows_step:
  assumes "wf d" and "\<And>s. s \<in> froms \<Longrightarrow> task_step s to" and "status d i = Some s"
  shows "status (snd (act d)) i = Some s \<or> (\<exists>e. status (snd (act d)) i = Some e \<and> task_step s e)"
  using status_after [OF assms(1), of i] applied [OF assms(1)] assms(2,3) by (auto split: if_splits)

end

lemma lookup_row_map:
  "(\<And>r. k (f r) = k r) \<Longrightarrow> lookup_row k i (map f rows) = map_option f (lookup_row k i rows)"
  by (induction rows) (auto simp: lookup_row_def)

text \<open>The operations that leave the task table alone.\<close>

lemma tasks_untouched [simp]:
  "tasks (insert_dependency i on at d) = tasks d" "tasks (snd (interrupt_run now i err fl d)) = tasks d"
  "tasks (snd (finalize_task_run run d)) = tasks d" "tasks (snd (insert_event ev d)) = tasks d"
  "tasks (snd (insert_notification now c s b st d)) = tasks d"
  "tasks (snd (record_delivery now p j d)) = tasks d" "tasks (record_worktree wt d) = tasks d"
  "tasks (forget_worktree i d) = tasks d"
  by (simp_all add: insert_dependency_def interrupt_run_def finalize_task_run_def insert_event_def
      insert_notification_def record_delivery_def record_worktree_def forget_worktree_def Let_def)

lemma task_status_untouched: "tasks d' = tasks d \<Longrightarrow> task_status_of d' i = task_status_of d i"
  by (simp add: task_status_of_def get_row_def)

lemma task_status_insert:
  assumes "task_status_of d i = Some s"
  shows "task_status_of (insert_task t d) i = Some s"
  using assms
  by (auto simp: insert_task_def task_status_of_def get_row_def lookup_row_append split: option.splits)

lemma task_status_session: "task_status_of (snd (set_task_session i sid title d)) j = task_status_of d j"
  by (simp add: set_task_session_def Let_def task_status_of_def get_row_def lookup_row_update
      option.map_comp comp_def if_distrib cong: if_cong)

lemma task_status_prune:
  assumes "tables_wf d" and "task_status_of d i = Some s"
  shows "task_status_of (snd (prune now days n v ok d)) i = Some s \<or>
    (task_status_of (snd (prune now days n v ok d)) i = None \<and>
     (\<exists>r \<in> set (tasks d). t_id r = i \<and> t_status r = s \<and> t_finished_at r \<noteq> None))"
proof (cases "days = 0")
  case True
  with assms(2) show ?thesis by (simp add: prune_def)
next
  case False
  define c where "c = now - int days * DAY_MS"
  obtain r where r: "get_row d i = Some r" "t_status r = s"
    using assms(2) by (auto simp: task_status_of_def)
  have "get_row (snd (prune now days n v ok d)) i
      = map_option (clear_output c) (lookup_row t_id i (filter (prune_keeps c n (tasks d)) (tasks d)))"
    unfolding get_row_def prune_tables(1) [OF False] c_def
    by (rule lookup_row_map) simp
  also have "\<dots> = (if prune_keeps c n (tasks d) r then Some (clear_output c r) else None)"
    using r assms(1) by (simp add: lookup_row_filter wf_simps get_row_def)
  finally show ?thesis
    using r get_row_SomeD [OF r(1)]
    by (auto simp: task_status_of_def prune_keeps_def before_def split: option.splits)
qed

text \<open>C4: along every operation of the database layer a task's status only moves along the edges of
  its life cycle; a row disappears only through retention, and only when it has a finish time.  In
  particular an ended task changes only by being put back to \<open>pending\<close>.\<close>

theorem operations_follow_life_cycle:
  assumes "tables_wf d" and "op_ok op" and "task_status_of d i = Some s"
  shows "task_status_of (apply_op op d) i = Some s \<or>
    (\<exists>e. task_status_of (apply_op op d) i = Some e \<and> task_step s e \<and> (is_terminal s \<longrightarrow> e = Pending)) \<or>
    (task_status_of (apply_op op d) i = None \<and> (\<exists>now days n v ok. op = OpPrune now days n v ok) \<and>
     (\<exists>r \<in> set (tasks d). t_id r = i \<and> t_status r = s \<and> t_finished_at r \<noteq> None))"
proof -
  have *: "task_status_of (apply_op op d) i = Some s \<or>
    (\<exists>e. task_status_of (apply_op op d) i = Some e \<and> task_step s e) \<or>
    (task_status_of (apply_op op d) i = None \<and> (\<exists>now days n v ok. op = OpPrune now days n v ok) \<and>
     (\<exists>r \<in> set (tasks d). t_id r = i \<and> t_status r = s \<and> t_finished_at r \<noteq> None))"
  proof (cases op)
    case (OpPrune now days n v ok)
    then show ?thesis using task_status_prune [OF assms(1,3), of now days n v ok] by auto
  next
    case (OpFinish t)
    then have "is_terminal (t_status t)" using assms(2) by simp
    then have "s \<in> {Running, AwaitingInput} \<Longrightarrow> task_step s (t_status t)" for s
      by (auto intro: task_step.finish)
    then show ?thesis using finish.follows_step [OF assms(1) _ assms(3), of t] OpFinish by simp
  next
    case (OpInsert t)
    then show ?thesis using task_status_insert [OF assms(3), of t] by simp
  next
    case (OpClaim now new_id t)
    then show ?thesis using claim.follows_step [OF assms(1) step_sets(1) assms(3), of now new_id t] by auto
  next
    case (OpCancel now j)
    then show ?thesis using cancel.follows_step [OF assms(1) step_sets(2) assms(3), of now j] by auto
  next
    case (OpFailStale now j err fl)
    then show ?thesis using fail_stale.follows_step [OF assms(1) step_sets(3) assms(3), of now j err fl] by auto
  next
    case (OpRetryStale j)
    then show ?thesis using retry_stale.follows_step [OF assms(1) step_sets(4) assms(3), of j] by auto
  next
    case (OpScheduleRetry j at)
    then show ?thesis using schedule_retry.follows_step [OF assms(1) step_sets(5) assms(3), of j at] by auto
  next
    case (OpRequeue j)
    then show ?thesis using requeue.follows_step [OF assms(1) step_sets(6) assms(3), of j] by auto
  next
    case (OpFailPending now j err fl)
    then show ?thesis using fail_pending.follows_step [OF assms(1) step_sets(7) assms(3), of now j err fl] by auto
  next
    case (OpPark j)
    then show ?thesis using set_status.follows_step [OF assms(1) step_sets(8) assms(3), where tid = j] by auto
  next
    case (OpResume j)
    then show ?thesis using set_status.follows_step [OF assms(1) step_sets(9) assms(3), where tid = j] by auto
  next
    case (OpSession j sid title)
    then show ?thesis using task_status_session [of j sid title d i] assms(3) by simp
  qed (use task_status_untouched [of "apply_op op d" d i] assms(3) in simp_all)
  then show ?thesis using task_step_from_terminal by blast
qed


theorem operations_follow_life_cycle_witness:
  "task_status_of (apply_op (OpCancel 3 ''a'') sample_db) ''a'' = Some Cancelled"
proof -
  have "fst (cancel_active_task 3 ''a'' sample_db)"
    by (rule cancel.live [OF sample_db_wf(1,2)]) simp
  then have "task_status_of (apply_op (OpCancel 3 ''a'') sample_db) ''a'' \<noteq> Some Pending"
    using cancel.applied [OF sample_db_wf(1)] by simp
  with operations_follow_life_cycle [OF sample_db_wf(1) _ sample_db_wf(2), of "OpCancel 3 ''a''"]
  obtain e where "task_status_of (apply_op (OpCancel 3 ''a'') sample_db) ''a'' = Some e" by auto
  then show ?thesis
    using cancel.applied [OF sample_db_wf(1) \<open>fst _\<close>] by simp
qed

text \<open>An ended task is the only kind of row with a finish time.\<close>

definition finish_inv :: "task_row list \<Rightarrow> bool" where
  "finish_inv rows \<longleftrightarrow> (\<forall>r \<in> set rows. t_finished_at r \<noteq> None \<longrightarrow> is_terminal (t_status r))"

lemma finish_inv_update:
  assumes "finish_inv rows"
    and "\<And>r. r \<in> set rows \<Longrightarrow> P r \<Longrightarrow> t_finished_at (f r) \<noteq> None \<Longrightarrow> is_terminal (t_status (f r))"
  shows "finish_inv (update_rows P f rows)"
  using assms by (auto simp: finish_inv_def set_update_rows)

lemma cas_task_tasks:
  "tasks (snd (cas_task tid froms f d)) = update_rows (\<lambda>r. t_id r = tid \<and> t_status r \<in> froms) f (tasks d)"
  by (simp add: cas_task_def Let_def)

lemma finish_inv_cas:
  assumes "finish_inv (tasks d)"
    and "\<And>r. r \<in> set (tasks d) \<Longrightarrow> t_status r \<in> froms \<Longrightarrow> t_finished_at (f r) \<noteq> None \<Longrightarrow> is_terminal (t_status (f r))"
  shows "finish_inv (tasks (snd (cas_task tid froms f d)))"
  using assms by (auto simp: cas_task_tasks intro!: finish_inv_update)

lemma finish_inv_claim:
  assumes "tables_wf d" and "finish_inv (tasks d)"
  shows "finish_inv (tasks (snd (claim_won now new_id t d)))"
  using assms(1)
proof (cases rule: claim_won_cases [of d now new_id t])
  case won
  have "\<not> t_finished_at r \<noteq> None" if "r \<in> set (tasks d)" "t_status r \<in> {Pending}" for r
    using assms(2) that by (auto simp: finish_inv_def)
  then have "finish_inv (tasks (snd (cas_task (t_id t) {Pending} (claimed_row now t) d)))"
    by (intro finish_inv_cas [OF assms(2)]) simp
  with won show ?thesis by simp
qed (use assms(2) in simp)

lemma finish_inv_prune:
  assumes "finish_inv (tasks d)"
  shows "finish_inv (tasks (snd (prune now days n v ok d)))"
proof (cases "days = 0")
  case False
  with assms show ?thesis by (auto simp: prune_tables finish_inv_def)
qed (use assms in \<open>simp add: prune_def\<close>)

lemma finish_inv_set_status:
  assumes "tables_wf d" and "finish_inv (tasks d)" and "\<not> is_terminal s"
  shows "finish_inv (tasks (snd (set_task_status_if i to s d)))"
  unfolding set_task_status_if_cas [OF assms(1)]
  by (rule finish_inv_cas [OF assms(2)]) (use assms(2,3) in \<open>auto simp: finish_inv_def\<close>)

lemma apply_op_finish_inv:
  assumes "tables_wf d" and "op_ok op" and inv: "finish_inv (tasks d)"
  shows "finish_inv (tasks (apply_op op d))"
proof (cases op)
  case (OpInsert t)
  with assms show ?thesis by (auto simp: insert_task_def finish_inv_def)
next
  case (OpClaim now new_id t)
  with finish_inv_claim [OF assms(1) inv] show ?thesis by simp
next
  case (OpSession i s title)
  have "finish_inv (update_rows (\<lambda>r. t_id r = i) (\<lambda>r. r\<lparr>t_session_id := coalesce (t_session_id r) (Some s),
      t_session_title := coalesce (t_session_title r) title\<rparr>) (tasks d))"
    by (rule finish_inv_update [OF inv]) (use inv in \<open>auto simp: finish_inv_def\<close>)
  with OpSession show ?thesis by (simp add: set_task_session_def Let_def)
next
  case (OpPrune now days n v ok)
  with finish_inv_prune [OF inv] show ?thesis by simp
next
  case (OpPark i)
  with finish_inv_set_status [OF assms(1) inv, of Running] show ?thesis by simp
next
  case (OpResume i)
  with finish_inv_set_status [OF assms(1) inv, of AwaitingInput] show ?thesis by simp
next
  case (OpFinish t)
  with assms(2) show ?thesis
    by (simp add: finish_active_task_def) (rule finish_inv_cas [OF inv]; simp)
qed (use inv in \<open>auto simp: cancel_active_task_def fail_stale_task_def retry_stale_task_def
      schedule_task_retry_def requeue_terminal_task_def fail_pending_task_def intro!: finish_inv_cas [OF inv]\<close>)

lemma reachable_inv: "reachable d \<Longrightarrow> tables_wf d \<and> finish_inv (tasks d)"
proof (induction rule: reachable.induct)
  case start
  show ?case by (simp add: empty_db_wf) (simp add: finish_inv_def empty_db_def)
next
  case (step d op)
  then show ?case using apply_op_wf apply_op_finish_inv by blast
qed

text \<open>In every database the daemon can reach, the keys are unique and a task with a finish time has
  ended; so retention never deletes a task that is pending or running, however old it is.\<close>

theorem retention_spares_live_tasks:
  assumes "reachable d" and "task_status_of d i = Some s" and "\<not> is_terminal s"
  shows "tables_wf d \<and> task_status_of (snd (prune now days n v ok d)) i = Some s"
proof -
  have "tables_wf d" and fi: "finish_inv (tasks d)" using reachable_inv [OF assms(1)] by auto
  moreover have "\<not> (\<exists>r \<in> set (tasks d). t_id r = i \<and> t_status r = s \<and> t_finished_at r \<noteq> None)"
    using fi assms(3) by (auto simp: finish_inv_def)
  ultimately show ?thesis using task_status_prune [OF _ assms(2)] by blast
qed

theorem retention_spares_live_tasks_witness:
  "task_status_of (snd (prune 900000000000 1 0 False False sample_db)) ''a'' = Some Pending"
proof -
  have "reachable (apply_op (OpInsert (sample_task ''a'' ''build'')) empty_db)"
    by (rule reachable.step [OF reachable.start]) (simp add: sample_task_def)
  then have "reachable sample_db" by (simp add: sample_db_def)
  then show ?thesis
    using retention_spares_live_tasks [OF _ sample_db_wf(2), of 900000000000 1 0 False False] by simp
qed

end
