(* ===== verification/EventBus.thy ===== *)
theory EventBus
  imports Lifecycle
begin

text \<open>
  The event bus, \<open>crates/favetto/src/event_bus.rs\<close>, as one subscriber sees it: the replay of persisted
  events after its cursor, then what the broadcast channel hands it (a push, a lag notice, or the
  end).  The channel itself (\<open>tokio::sync::broadcast\<close>) is library code: \<open>recv\<close> lists its answers.
\<close>

datatype server_push =
    PEvent event
  | PTaskUpdated task
  | PCatalogUpdated
  | PAgentEvent json

fun event_id :: "server_push \<Rightarrow> int option" where
  "event_id (PEvent ev) = Some (e_id ev)"
| "event_id _ = None"

datatype on_lag = LagEnd | LagContinue

datatype recv = Got server_push | Lagged nat | Closed

fun follow_live :: "on_lag \<Rightarrow> recv list \<Rightarrow> server_push list" where
  "follow_live lag [] = []"
| "follow_live lag (Got p # rs) = p # follow_live lag rs"
| "follow_live lag (Lagged n # rs) = (case lag of LagEnd \<Rightarrow> [] | LagContinue \<Rightarrow> follow_live lag rs)"
| "follow_live lag (Closed # rs) = []"

definition EVENT_REPLAY_LIMIT :: int where
  "EVENT_REPLAY_LIMIT = 500"

text \<open>\<open>resumable\<close>, given the answer of the replay query (\<open>None\<close> when it failed).\<close>

definition resumable ::
  "db option \<Rightarrow> int option \<Rightarrow> int \<Rightarrow> on_lag \<Rightarrow> recv list \<Rightarrow> server_push list"
where
  "resumable d last_event_id replay_limit lag rs =
     (case last_event_id of
        None \<Rightarrow> []
      | Some after \<Rightarrow> (case d of None \<Rightarrow> [] | Some d \<Rightarrow> map PEvent (events_after d after replay_limit)))
     @ follow_live lag rs"

lemma follow_live_all: "follow_live lag (map Got ps) = ps"
  by (induction ps) auto

lemma events_after_sorted:
  assumes "tables_wf d" and "0 \<le> limit"
  shows "events_after d n limit = take (nat limit) (filter (\<lambda>e. n < e_id e) (events d))"
proof -
  have "sorted_wrt (<) (map e_id (events d))" using assms(1) by (simp add: tables_wf_def)
  then have "sorted (map e_id (filter (\<lambda>e. n < e_id e) (events d)))"
    by (intro sorted_filter) (rule strict_sorted_imp_sorted)
  then show ?thesis using assms(2) by (simp add: events_after_def sql_limit_def sort_key_id_if_sorted)
qed

text \<open>
  One subscription in time: \<open>d\<close> is the database when the replay query runs; \<open>during\<close> are the events
  persisted (and published) between the subscription and that query, so they are rows of \<open>d\<close> and are
  in the channel; \<open>post\<close> are published later.
\<close>

definition subscriber_sees :: "db \<Rightarrow> int \<Rightarrow> int \<Rightarrow> on_lag \<Rightarrow> event list \<Rightarrow> event list \<Rightarrow> server_push list" where
  "subscriber_sees d cursor limit lag during post =
     resumable (Some d) (Some cursor) limit lag (map (Got \<circ> PEvent) (during @ post))"

text \<open>C5: a subscriber that missed at most the replay limit and does not lag loses nothing: every event
  after its cursor, persisted before, during or after the subscription, reaches it, and the replayed
  part comes in order.\<close>

theorem resume_complete:
  assumes "tables_wf d" and "0 \<le> limit"
    and "int (length (filter (\<lambda>e. cursor < e_id e) (events d))) \<le> limit"
  shows "(\<forall>e \<in> set (events d). cursor < e_id e \<longrightarrow> PEvent e \<in> set (subscriber_sees d cursor limit lag during post)) \<and>
    (\<forall>e \<in> set during \<union> set post. PEvent e \<in> set (subscriber_sees d cursor limit lag during post)) \<and>
    (\<exists>replayed. subscriber_sees d cursor limit lag during post = map PEvent (replayed @ during @ post) \<and>
       sorted_wrt (<) (map e_id replayed) \<and> (\<forall>e \<in> set replayed. cursor < e_id e))"
proof -
  define missed where "missed = filter (\<lambda>e. cursor < e_id e) (events d)"
  have "events_after d cursor limit = missed"
    using assms by (simp add: events_after_sorted missed_def)
  moreover have "follow_live lag (map (Got \<circ> PEvent) (during @ post)) = map PEvent (during @ post)"
    using follow_live_all [of lag "map PEvent (during @ post)"] by (simp add: comp_def)
  ultimately have s: "subscriber_sees d cursor limit lag during post = map PEvent (missed @ during @ post)"
    by (simp add: subscriber_sees_def resumable_def)
  moreover have "sorted_wrt (<) (map e_id missed)"
    using assms(1) by (simp add: missed_def tables_wf_def sorted_wrt_map sorted_wrt_filter)
  ultimately show ?thesis by (auto simp: missed_def)
qed

definition ev :: "int \<Rightarrow> event" where
  "ev n = \<lparr>e_id = n, e_kind = EvTaskFinished, e_payload = JNull, e_created_at = 0\<rparr>"

definition log_db :: "int list \<Rightarrow> db" where
  "log_db ids = empty_db\<lparr>events := map ev ids, event_seq := 1000\<rparr>"

lemma log_db_wf: "sorted_wrt (<) ids \<Longrightarrow> \<forall>i \<in> set ids. i \<le> 1000 \<Longrightarrow> tables_wf (log_db ids)"
  by (simp add: log_db_def tables_wf_def tasks_wf_def empty_db_def comp_def ev_def)

theorem resume_complete_witness:
  "PEvent (ev 2) \<in> set (subscriber_sees (log_db [1, 2, 3]) 1 500 LagEnd [ev 3] [ev 4])"
proof -
  have "tables_wf (log_db [1, 2, 3])" by (rule log_db_wf) simp_all
  then show ?thesis
    using resume_complete [of "log_db [1, 2, 3]" 500 1 LagEnd "[ev 3]" "[ev 4]"]
    by (simp add: log_db_def ev_def)
qed

text \<open>A subscriber that missed more than the replay limit gets the oldest \<open>limit\<close> events and then
  the live ones, so some missed event never reaches it, although the live events move its cursor past
  that event and a later resume from there does not replay it either.\<close>

theorem resume_gap:
  assumes "tables_wf d" and "0 \<le> limit"
    and "int (length (filter (\<lambda>e. cursor < e_id e) (events d))) > limit"
    and "\<forall>e \<in> set post. \<forall>e' \<in> set (events d). e_id e' < e_id e" and "post \<noteq> []"
  shows "\<exists>e \<in> set (events d). cursor < e_id e \<and>
    PEvent e \<notin> set (subscriber_sees d cursor limit lag [] post) \<and>
    (\<exists>later. last (subscriber_sees d cursor limit lag [] post) = PEvent later \<and> e_id e < e_id later \<and>
       e \<notin> set (events_after d (e_id later) limit))"
proof -
  define missed where "missed = filter (\<lambda>e. cursor < e_id e) (events d)"
  define e where "e = missed ! nat limit"
  have len: "nat limit < length missed" using assms(2,3) by (simp add: missed_def)
  have srt: "sorted_wrt (<) (map e_id missed)"
    using assms(1) by (simp add: missed_def tables_wf_def sorted_wrt_map sorted_wrt_filter)
  have "e \<in> set missed" using len by (simp add: e_def)
  then have e: "e \<in> set (events d)" "cursor < e_id e" by (auto simp: missed_def)
  have "e \<notin> set (take (nat limit) missed)"
  proof
    assume "e \<in> set (take (nat limit) missed)"
    then obtain i where i: "i < nat limit" "missed ! i = e" using len by (auto simp: in_set_conv_nth)
    have "e_id (missed ! i) < e_id (missed ! nat limit)"
      using srt len i(1) by (simp add: sorted_wrt_iff_nth_less)
    with i show False by (simp add: e_def)
  qed
  moreover have post: "e_id e < e_id x" if "x \<in> set post" for x using assms(4) that e(1) by blast
  moreover have sees: "subscriber_sees d cursor limit lag [] post = map PEvent (take (nat limit) missed @ post)"
    using follow_live_all [of lag "map PEvent post"] assms(1,2)
    by (simp add: subscriber_sees_def resumable_def events_after_sorted missed_def comp_def)
  ultimately have "PEvent e \<notin> set (subscriber_sees d cursor limit lag [] post)" by auto
  moreover have "last (subscriber_sees d cursor limit lag [] post) = PEvent (last post)"
    using assms(5) by (simp add: sees last_map)
  moreover have "e_id e < e_id (last post)" using post assms(5) by simp
  moreover have "e \<notin> set (events_after d (e_id (last post)) limit)"
  proof
    assume "e \<in> set (events_after d (e_id (last post)) limit)"
    then have "e_id (last post) < e_id e"
      using assms(1,2) by (auto simp: events_after_sorted dest!: in_set_takeD)
    with \<open>e_id e < e_id (last post)\<close> show False by simp
  qed
  ultimately show ?thesis using e by blast
qed

theorem resume_gap_witness:
  "\<exists>e \<in> set (events (log_db [1, 2, 3])). PEvent e \<notin> set (subscriber_sees (log_db [1, 2, 3]) 0 2 LagContinue [] [ev 4])"
proof -
  have "tables_wf (log_db [1, 2, 3])" by (rule log_db_wf) simp_all
  then show ?thesis
    using resume_gap [of "log_db [1, 2, 3]" 2 0 "[ev 4]" LagContinue]
    by (auto simp: log_db_def ev_def)
qed

end
