(* ===== verification/Keyed.thy ===== *)
theory Keyed
  imports Db
begin

text \<open>
  Tables with \<open>INSERT OR IGNORE\<close>: the contract of an insertion that takes effect at most once per
  key, its consequence for a replayed sequence of insertions, and the tables of \<open>db.rs\<close> that meet it
  (webhook deliveries and dependency edges).
\<close>

locale keyed_insert =
  fixes keys :: "'db \<Rightarrow> 'k set"
    and ins :: "'k \<Rightarrow> 'v \<Rightarrow> 'db \<Rightarrow> bool \<times> 'db"
  assumes fresh: "k \<notin> keys d \<Longrightarrow> fst (ins k v d) \<and> keys (snd (ins k v d)) = insert k (keys d)"
    and known: "k \<in> keys d \<Longrightarrow> ins k v d = (False, d)"
begin

fun ins_all :: "('k \<times> 'v) list \<Rightarrow> 'db \<Rightarrow> bool list \<times> 'db" where
  "ins_all [] d = ([], d)"
| "ins_all ((k, v) # kvs) d =
     (let (b, d') = ins k v d; (bs, d'') = ins_all kvs d' in (b # bs, d''))"

lemma keys_ins: "keys (snd (ins k v d)) = insert k (keys d)"
  using fresh known by (cases "k \<in> keys d") auto

lemma ins_first: "fst (ins k v d) \<longleftrightarrow> k \<notin> keys d"
  using fresh known by (cases "k \<in> keys d") auto

lemma keys_ins_all: "keys (snd (ins_all kvs d)) = fst ` set kvs \<union> keys d"
  by (induction kvs arbitrary: d) (force simp: keys_ins split_def Let_def)+

lemma ins_all_flag:
  "n < length kvs \<Longrightarrow>
   fst (ins_all kvs d) ! n \<longleftrightarrow> fst (kvs ! n) \<notin> keys d \<and> fst (kvs ! n) \<notin> fst ` set (take n kvs)"
proof (induction kvs arbitrary: d n)
  case (Cons p kvs)
  then show ?case
    by (cases p; cases n) (auto simp: split_def Let_def keys_ins ins_first)
qed simp

lemma ins_all_known: "fst ` set kvs \<subseteq> keys d \<Longrightarrow> ins_all kvs d = (replicate (length kvs) False, d)"
  by (induction kvs) (auto simp: known split_def Let_def)

lemma replay: "snd (ins_all kvs (snd (ins_all kvs d))) = snd (ins_all kvs d)"
  using ins_all_known [of kvs "snd (ins_all kvs d)"] by (simp add: keys_ins_all)

end

definition delivery_ids :: "db \<Rightarrow> string set" where
  "delivery_ids d = dl_id ` set (deliveries d)"

definition deliver :: "string \<Rightarrow> time \<times> string \<Rightarrow> db \<Rightarrow> bool \<times> db" where
  "deliver did v = record_delivery (fst v) (snd v) did"

interpretation delivery: keyed_insert delivery_ids deliver
  by unfold_locales (auto simp: delivery_ids_def deliver_def record_delivery_def)

text \<open>\<open>insert_dependency\<close> reports nothing, so whether the edge was new is read off the table.\<close>

definition edges :: "db \<Rightarrow> (uuid \<times> uuid) set" where
  "edges d = (\<lambda>e. (dep_task e, dep_on e)) ` set (deps d)"

definition add_edge :: "uuid \<times> uuid \<Rightarrow> time \<Rightarrow> db \<Rightarrow> bool \<times> db" where
  "add_edge k at d = (k \<notin> edges d, insert_dependency (fst k) (snd k) at d)"

interpretation edge: keyed_insert edges add_edge
  by unfold_locales (auto simp: edges_def add_edge_def insert_dependency_def)

text \<open>The webhook handler's view: one flag per delivery, \<open>True\<close> when it is to be processed.\<close>

definition deliver_all :: "(string \<times> time \<times> string) list \<Rightarrow> db \<Rightarrow> bool list \<times> db" where
  "deliver_all = delivery.ins_all"

text \<open>However often a webhook provider redelivers, a delivery is processed exactly when its id was
  never recorded before and has not appeared earlier in the sequence; replaying the whole sequence
  processes nothing and changes nothing.\<close>

theorem deliveries_processed_once:
  assumes "n < length ds"
  shows "(fst (deliver_all ds d) ! n \<longleftrightarrow>
      fst (ds ! n) \<notin> delivery_ids d \<and> fst (ds ! n) \<notin> fst ` set (take n ds)) \<and>
    deliver_all ds (snd (deliver_all ds d)) = (replicate (length ds) False, snd (deliver_all ds d))"
  using delivery.ins_all_flag [OF assms] delivery.ins_all_known [of ds "snd (deliver_all ds d)"]
    delivery.keys_ins_all [of ds d]
  by (simp add: deliver_all_def)

theorem deliveries_processed_once_witness:
  "fst (deliver_all [(''d1'', 1, ''github''), (''d1'', 2, ''github'')] empty_db) ! 0 \<and>
   \<not> fst (deliver_all [(''d1'', 1, ''github''), (''d1'', 2, ''github'')] empty_db) ! 1"
  using deliveries_processed_once [of 0 "[(''d1'', 1, ''github''), (''d1'', 2, ''github'')]" empty_db]
    deliveries_processed_once [of 1 "[(''d1'', 1, ''github''), (''d1'', 2, ''github'')]" empty_db]
  by (simp add: delivery_ids_def empty_db_def)

end
