(* ===== verification/Settings.thy ===== *)
theory Settings
  imports Model
begin

text \<open>
  The executor's part of \<open>crates/favetto-core/src/config.rs\<close>: retry policy and backoff, stale-run
  policy, concurrency, worktree retention and git signing.  Durations are 64-bit millisecond
  counts (\<open>u64\<close>), with the saturating multiplication of the backoff written out.
\<close>

datatype git_signing = SignOff | SignGpg | SignSsh

definition effective_signing :: "git_signing option \<Rightarrow> git_signing" where
  "effective_signing signing = (case signing of None \<Rightarrow> SignOff | Some m \<Rightarrow> m)"

datatype stale_run_policy = StaleFail | StaleRetry

datatype backoff = Exponential | Fixed

record retry_settings =
  max_attempts :: nat
  backoff_mode :: backoff
  initial_ms :: "64 word"
  max_ms :: "64 word"
  retry_on :: "failure_kind list"

definition default_retry :: retry_settings where
  "default_retry = \<lparr>max_attempts = 1, backoff_mode = Exponential, initial_ms = 5000,
     max_ms = 300000, retry_on = [FkInfrastructure, FkTimeout]\<rparr>"

definition should_retry :: "retry_settings \<Rightarrow> nat \<Rightarrow> failure \<Rightarrow> bool" where
  "should_retry r attempt f \<longleftrightarrow>
     attempt \<ge> 1 \<and> attempt < max_attempts r \<and> f_retryable f \<and> f_kind f \<in> set (retry_on r)"

text \<open>\<open>u64::saturating_mul\<close> and \<open>u64::checked_shl\<close>.\<close>

definition saturating_mul :: "64 word \<Rightarrow> 64 word \<Rightarrow> 64 word" where
  "saturating_mul a b = (if unat a * unat b < 2 ^ 64 then a * b else - 1)"

definition checked_shl :: "64 word \<Rightarrow> nat \<Rightarrow> 64 word option" where
  "checked_shl a n = (if n < 64 then Some (push_bit n a) else None)"

definition backoff_delay :: "retry_settings \<Rightarrow> nat \<Rightarrow> 64 word" where
  "backoff_delay r attempt =
     (let exponent = min (attempt - 1) 31;
          ms = (case backoff_mode r of
                  Fixed \<Rightarrow> initial_ms r
                | Exponential \<Rightarrow>
                    (let factor = (case checked_shl 1 exponent of Some f \<Rightarrow> f | None \<Rightarrow> - 1)
                     in saturating_mul (initial_ms r) factor))
      in min ms (max_ms r))"

record worktree_retention_settings =
  retention_days :: nat
  min_worktrees :: nat

record executor_settings =
  parallel :: bool
  max_concurrency :: nat
  worktree_on :: bool
  worktree_dir :: "string option"
  worktree_retention :: worktree_retention_settings
  keep_worktree :: bool
  max_output_bytes :: nat
  detect_awaiting_input :: bool
  awaiting_input_quiet_ms :: "64 word"
  stale_run :: stale_run_policy
  retry :: retry_settings

definition default_executor :: executor_settings where
  "default_executor = \<lparr>parallel = False, max_concurrency = 4, worktree_on = True,
     worktree_dir = None, worktree_retention = \<lparr>retention_days = 30, min_worktrees = 0\<rparr>,
     keep_worktree = False, max_output_bytes = 262144, detect_awaiting_input = True,
     awaiting_input_quiet_ms = 8000, stale_run = StaleFail, retry = default_retry\<rparr>"

definition concurrency :: "executor_settings \<Rightarrow> nat" where
  "concurrency cfg = (if parallel cfg then max (max_concurrency cfg) 1 else 1)"

lemma concurrency_pos [simp]: "concurrency cfg \<ge> 1"
  by (simp add: concurrency_def)

subsection \<open>The backoff in arithmetic without a width\<close>

lemma unat_saturating_mul: "unat (saturating_mul a b) = min (unat a * unat b) (2 ^ 64 - 1)"
proof (cases "unat a * unat b < 2 ^ 64")
  case True
  then have "unat (a * b) = unat a * unat b" by (simp add: unat_word_ariths)
  with True show ?thesis by (simp add: saturating_mul_def)
next
  case False
  then have "saturating_mul a b = - 1" by (simp add: saturating_mul_def)
  moreover have "unat (- 1 :: 64 word) = 2 ^ 64 - 1" by (simp add: unsigned_minus_1_eq_mask mask_eq_exp_minus_1)
  ultimately show ?thesis using False by simp
qed

lemma unat_checked_shl_1:
  assumes "n < 64"
  shows "\<exists>f. checked_shl 1 n = Some f \<and> unat f = 2 ^ n"
proof -
  have "(2::nat) ^ n < 2 ^ 64" using assms by (intro power_strict_increasing) auto
  then have "unat (of_nat (2 ^ n) :: 64 word) = 2 ^ n"
    by (simp only: unsigned_of_nat) (use assms in \<open>simp add: take_bit_nat_eq_self\<close>)
  then have "unat (push_bit n 1 :: 64 word) = 2 ^ n"
    by (simp add: push_bit_eq_mult)
  then show ?thesis using assms by (simp add: checked_shl_def)
qed

lemma unat_min: "unat (min a b :: 64 word) = min (unat a) (unat b)"
  by (simp add: min_def word_le_nat_alt)

definition backoff_spec :: "retry_settings \<Rightarrow> nat \<Rightarrow> nat" where
  "backoff_spec r attempt =
     min (case backoff_mode r of
            Fixed \<Rightarrow> unat (initial_ms r)
          | Exponential \<Rightarrow> unat (initial_ms r) * 2 ^ min (attempt - 1) 31)
         (unat (max_ms r))"

lemma unat_backoff_delay: "unat (backoff_delay r attempt) = backoff_spec r attempt"
proof (cases "backoff_mode r")
  case Fixed
  then show ?thesis by (simp add: backoff_delay_def backoff_spec_def unat_min)
next
  case Exponential
  obtain f where f: "checked_shl 1 (min (attempt - 1) 31) = Some f"
    and uf: "unat f = 2 ^ min (attempt - 1) 31"
    using unat_checked_shl_1 [of "min (attempt - 1) 31"] by (auto simp: min_less_iff_disj)
  have le: "unat (max_ms r) \<le> 2 ^ 64 - 1"
    using unsigned_less [of "max_ms r", where 'a = nat] by simp
  have "unat (backoff_delay r attempt)
      = min (min (unat (initial_ms r) * 2 ^ min (attempt - 1) 31) (2 ^ 64 - 1)) (unat (max_ms r))"
    using Exponential 
    by (simp add: backoff_delay_def f [simplified] uf [simplified] unat_min unat_saturating_mul)
  with Exponential le show ?thesis by (simp add: backoff_spec_def min.assoc min.absorb2)
qed

text \<open>The backoff before the next attempt is the exact value of the doubling (or fixed) delay
  capped at \<open>max_ms\<close>, without wrap-around for any 64-bit settings and any attempt; it never exceeds
  the cap and it never shrinks from one attempt to the next.\<close>

theorem backoff_delay_exact:
  "unat (backoff_delay r attempt) = backoff_spec r attempt \<and>
   backoff_delay r attempt \<le> max_ms r \<and>
   backoff_delay r attempt \<le> backoff_delay r (attempt + 1)"
proof (intro conjI)
  show "unat (backoff_delay r attempt) = backoff_spec r attempt"
    by (rule unat_backoff_delay)
  show "backoff_delay r attempt \<le> max_ms r"
    by (simp add: word_le_nat_alt unat_backoff_delay backoff_spec_def)
  have "(2::nat) ^ min (attempt - 1) 31 \<le> 2 ^ min attempt 31"
    by (rule power_increasing) auto
  then have "unat (initial_ms r) * 2 ^ min (attempt - 1) 31 \<le> unat (initial_ms r) * 2 ^ min attempt 31"
    by (rule mult_le_mono2)
  then have "backoff_spec r attempt \<le> backoff_spec r (attempt + 1)"
    by (auto simp: backoff_spec_def min_le_iff_disj split: backoff.splits)
  then show "backoff_delay r attempt \<le> backoff_delay r (attempt + 1)"
    by (simp add: word_le_nat_alt unat_backoff_delay)
qed

end
