(* ===== verification/Catalog.thy ===== *)
theory Catalog
  imports Model Settings Text
begin

text \<open>
  The task catalog, \<open>crates/favetto-core/src/tasks.rs\<close>: task definitions, the validation of their
  header, \<open>needs\<close> references, repo-qualified names, and the merge of the files on disk with the
  catalog in memory.  TOML parsing is third-party code: \<open>parse_task_md\<close> takes the header parser as
  the parameter \<open>toml_header\<close>.
\<close>

subsection \<open>Task definitions\<close>

datatype task_kind = KindAgent | KindAction

fun task_kind_as_str :: "task_kind \<Rightarrow> string" where
  "task_kind_as_str KindAgent = ''agent''"
| "task_kind_as_str KindAction = ''action''"

datatype when_op = NotEmpty | IsEmpty | Eq | Ne | Gt | Lt | Contains

fun when_op_as_str :: "when_op \<Rightarrow> string" where
  "when_op_as_str NotEmpty = ''not_empty''"
| "when_op_as_str IsEmpty = ''empty''"
| "when_op_as_str Eq = ''eq''"
| "when_op_as_str Ne = ''ne''"
| "when_op_as_str Gt = ''gt''"
| "when_op_as_str Lt = ''lt''"
| "when_op_as_str Contains = ''contains''"

definition needs_value :: "when_op \<Rightarrow> bool" where
  "needs_value op \<longleftrightarrow> op \<notin> {NotEmpty, IsEmpty}"

datatype toml =
    TString string
  | TInteger int
  | TFloat f64
  | TBoolean bool
  | TDatetime string
  | TArray "toml list"
  | TTable "(string \<times> toml) list"

text \<open>\<open>serde_json::Number::from_f64\<close> rejects the doubles whose exponent is all ones.\<close>

definition f64_finite :: "f64 \<Rightarrow> bool" where
  "f64_finite b \<longleftrightarrow> (unat b div 2 ^ 52) mod 2048 \<noteq> 2047"

definition num_of_i64 :: "int \<Rightarrow> jnum" where
  "num_of_i64 i = (if i < 0 then NegInt i else PosInt (nat i))"

fun toml_to_json :: "toml \<Rightarrow> json" where
  "toml_to_json (TString s) = JStr s"
| "toml_to_json (TInteger i) = JNum (num_of_i64 i)"
| "toml_to_json (TFloat f) = (if f64_finite f then JNum (JFloat f) else JNull)"
| "toml_to_json (TBoolean b) = JBool b"
| "toml_to_json (TDatetime s) = JStr s"
| "toml_to_json (TArray xs) = JArr (map toml_to_json xs)"
| "toml_to_json (TTable kvs) = mk_obj (map (\<lambda>(k, v). (k, toml_to_json v)) kvs)"

record when_predicate =
  w_path :: string
  w_op :: when_op
  w_value :: "toml option"

record action_def =
  a_id :: string
  a_params :: "(string \<times> toml) list"
  a_when :: "when_predicate option"
  a_spawn_input :: "toml option"

datatype var_type = VtString | VtInt | VtBool

record task_var =
  v_name :: string
  v_prompt :: string
  v_default :: "string option"
  v_required :: bool
  v_multiline :: bool
  v_type :: var_type
  v_choices :: "string list option"

record header =
  h_kind :: task_kind
  h_action :: "action_def option"
  h_agent :: "string option"
  h_provider :: "string option"
  h_model :: "string option"
  h_cwd :: "string option"
  h_schedule :: "string option"
  h_needs :: "string option"
  h_spawn :: "string option"
  h_spawn_file :: "string option"
  h_spawn_new_root :: bool
  h_sign :: "git_signing option"
  h_worktree :: "bool option"
  h_vars :: "task_var list"

record task_def =
  d_name :: string
  d_kind :: task_kind
  d_action :: "action_def option"
  d_agent :: "string option"
  d_provider :: "string option"
  d_model :: "string option"
  d_cwd :: "string option"
  d_schedule :: "string option"
  d_needs :: "string option"
  d_spawn :: "string option"
  d_spawn_file :: "string option"
  d_spawn_new_root :: bool
  d_sign :: "git_signing option"
  d_worktree :: "bool option"
  d_vars :: "task_var list"
  d_prompt :: string

subsection \<open>\<open>needs\<close> references\<close>

datatype needs_kind = NkFinished | NkSucceeded | NkFailed | NkAllFinished

definition needs_parts :: "string \<Rightarrow> string \<times> needs_kind" where
  "needs_parts needs =
     (case strip_suffix '':all_finished'' needs of Some src \<Rightarrow> (src, NkAllFinished) | None \<Rightarrow>
      (case strip_suffix '':finished'' needs of Some src \<Rightarrow> (src, NkFinished) | None \<Rightarrow>
       (case strip_suffix '':terminal'' needs of Some src \<Rightarrow> (src, NkFinished) | None \<Rightarrow>
        (case strip_suffix '':succeeded'' needs of Some src \<Rightarrow> (src, NkSucceeded) | None \<Rightarrow>
         (case strip_suffix '':failed'' needs of Some src \<Rightarrow> (src, NkFailed) | None \<Rightarrow>
          (needs, NkFinished))))))"

definition NEEDS_SUFFIXES :: "string list" where
  "NEEDS_SUFFIXES = ['':finished'', '':terminal'', '':succeeded'', '':failed'', '':all_finished'']"

definition validate_needs :: "string option \<Rightarrow> string + unit" where
  "validate_needs needs = (case needs of None \<Rightarrow> Inr () | Some n \<Rightarrow>
     (if blank n then Inl ''`needs` must not be empty''
      else if fst (needs_parts n) = [] then Inl ''`needs` must name a task before its suffix''
      else if contains_char CHR '':'' n \<and> \<not> (\<exists>sfx \<in> set NEEDS_SUFFIXES. suffix sfx n)
      then Inl (''invalid `needs` value '' @ quoted n @ '': expected '' @
        quoted ''<task>:finished'' @ '', '' @ quoted ''<task>:terminal'' @ '', '' @
        quoted ''<task>:succeeded'' @ '', '' @ quoted ''<task>:failed'' @ '' or '' @
        quoted ''<task>:all_finished'')
      else Inr ()))"

text \<open>The suffix spelling a kind, and the split of a value that carries one.\<close>

lemma suffix_append_cases: "suffix s (X @ t) \<Longrightarrow> suffix s t \<or> suffix t s"
  by (erule suffix_same_cases) (auto simp: suffix_def)

lemma needs_parts_suffix:
  "needs_parts (src @ '':all_finished'') = (src, NkAllFinished)"
  "needs_parts (src @ '':finished'') = (src, NkFinished)"
  "needs_parts (src @ '':terminal'') = (src, NkFinished)"
  "needs_parts (src @ '':succeeded'') = (src, NkSucceeded)"
  "needs_parts (src @ '':failed'') = (src, NkFailed)"
  by (auto simp: needs_parts_def strip_suffix_def suffix_def append_eq_append_conv2
      Cons_eq_append_conv append_eq_Cons_conv)

lemma needs_parts_bare:
  "(\<forall>sfx \<in> set NEEDS_SUFFIXES. \<not> suffix sfx n) \<Longrightarrow> needs_parts n = (n, NkFinished)"
  by (simp add: needs_parts_def strip_suffix_def NEEDS_SUFFIXES_def)

lemma needs_parts_cases:
  obtains (sfx) src sfx where "sfx \<in> set NEEDS_SUFFIXES" and "n = src @ sfx"
      and "fst (needs_parts n) = src"
  | (bare) "\<forall>sfx \<in> set NEEDS_SUFFIXES. \<not> suffix sfx n" and "needs_parts n = (n, NkFinished)"
proof (cases "\<exists>sfx \<in> set NEEDS_SUFFIXES. suffix sfx n")
  case True
  then obtain sfx src where "sfx \<in> set NEEDS_SUFFIXES" and "n = src @ sfx"
    by (auto simp: suffix_def)
  then show ?thesis
    by (intro sfx) (auto simp: NEEDS_SUFFIXES_def needs_parts_suffix)
next
  case False
  then show ?thesis using bare needs_parts_bare by blast
qed

text \<open>The source is always a prefix of the value, so \<open>&needs[source.len()..]\<close> is its suffix.\<close>

lemma needs_parts_prefix: "n = fst (needs_parts n) @ drop (length (fst (needs_parts n))) n"
  by (cases n rule: needs_parts_cases) auto

subsection \<open>Validation of a header\<close>

fun validate_vars_from :: "string list \<Rightarrow> task_var list \<Rightarrow> string + unit" where
  "validate_vars_from seen [] = Inr ()"
| "validate_vars_from seen (v # vs) =
     (if v_name v = [] then Inl ''input variable name must not be empty''
      else if v_name v = ''_prev'' then Inl (''input variable name '' @ quoted ''_prev'' @ '' is reserved'')
      else if \<not> list_all (\<lambda>c. is_ascii_alnum c \<or> c = CHR ''_'') (v_name v)
      then Inl (''invalid input variable name '' @ quoted (v_name v) @ '': use [a-zA-Z0-9_]'')
      else if v_name v \<in> set seen then Inl (''duplicate input variable name '' @ quoted (v_name v))
      else if blank (v_prompt v)
      then Inl (''input variable '' @ quoted (v_name v) @ '' needs a non-empty prompt'')
      else validate_vars_from (v_name v # seen) vs)"

definition validate_vars :: "task_var list \<Rightarrow> string + unit" where
  "validate_vars vars = validate_vars_from [] vars"

definition validate_when :: "when_predicate \<Rightarrow> string + unit" where
  "validate_when w =
     (if blank (w_path w) then Inl ''[action.when].path must not be empty''
      else if needs_value (w_op w) \<and> w_value w = None
      then Inl (''[action.when] op '' @ dquoted (when_op_as_str (w_op w)) @ '' requires a `value`'')
      else if \<not> needs_value (w_op w) \<and> w_value w \<noteq> None
      then Inl (''[action.when] op '' @ dquoted (when_op_as_str (w_op w)) @ '' takes no `value`'')
      else Inr ())"

definition validate_action ::
  "task_kind \<Rightarrow> string option \<Rightarrow> string option \<Rightarrow> string option \<Rightarrow> action_def option \<Rightarrow> string + unit"
where
  "validate_action kind agent provider model action =
     (case kind of
        KindAgent \<Rightarrow>
          if action \<noteq> None then Inl (''an [action] table requires kind = '' @ dquoted ''action'') else Inr ()
      | KindAction \<Rightarrow>
          (case action of
             None \<Rightarrow> Inl (''kind = '' @ dquoted ''action'' @ '' requires an [action] table with an `id`'')
           | Some a \<Rightarrow>
               if agent \<noteq> None \<or> provider \<noteq> None \<or> model \<noteq> None
               then Inl (''kind = '' @ dquoted ''action'' @ '' must not set `agent`, `provider`, or `model`'')
               else if blank (a_id a) then Inl ''[action].id must not be empty''
               else (case a_when a of None \<Rightarrow> Inr () | Some w \<Rightarrow> validate_when w)))"

text \<open>
  The front matter of a Markdown file: the lines before the first line that trims to \<open>---\<close> are the
  TOML header, the lines after it the prompt; without such a line the prompt is empty.
\<close>

fun split_header :: "string list \<Rightarrow> string list \<times> string list" where
  "split_header [] = ([], [])"
| "split_header (l # ls) =
     (if trim l = ''---'' then ([], ls)
      else (let (h, b) = split_header ls in (l # h, b)))"

definition parse_task_md ::
  "(string \<Rightarrow> string + header) \<Rightarrow> string \<Rightarrow> string \<Rightarrow> string + task_def" where
  "parse_task_md toml_header name content =
     (let (header_lines, body) = split_header (lines content)
      in case toml_header (join [CHR 0x0A] header_lines) of
           Inl e \<Rightarrow> Inl e
         | Inr h \<Rightarrow>
             (case validate_vars (h_vars h) of Inl e \<Rightarrow> Inl e | Inr _ \<Rightarrow>
             (case validate_needs (h_needs h) of Inl e \<Rightarrow> Inl e | Inr _ \<Rightarrow>
             (case validate_action (h_kind h) (h_agent h) (h_provider h) (h_model h) (h_action h) of
                Inl e \<Rightarrow> Inl e
              | Inr _ \<Rightarrow> Inr
                 \<lparr>d_name = name, d_kind = h_kind h, d_action = h_action h, d_agent = h_agent h,
                  d_provider = h_provider h, d_model = h_model h, d_cwd = h_cwd h,
                  d_schedule = h_schedule h, d_needs = h_needs h, d_spawn = h_spawn h,
                  d_spawn_file = h_spawn_file h, d_spawn_new_root = h_spawn_new_root h,
                  d_sign = h_sign h, d_worktree = h_worktree h, d_vars = h_vars h,
                  d_prompt = trim (join [CHR 0x0A] body)\<rparr>))))"

lemma validate_vars_from_ok:
  "validate_vars_from seen vs = Inr () \<Longrightarrow>
     distinct (map v_name vs) \<and> v_name ` set vs \<inter> set seen = {} \<and>
     (\<forall>v \<in> set vs. v_name v \<noteq> [] \<and> v_name v \<noteq> ''_prev'' \<and> \<not> blank (v_prompt v) \<and>
        (\<forall>c \<in> set (v_name v). is_ascii_alnum c \<or> c = CHR ''_''))"
proof (induction vs arbitrary: seen)
  case (Cons v vs)
  from Cons.prems have ok: "validate_vars_from (v_name v # seen) vs = Inr ()"
    and v: "v_name v \<noteq> []" "v_name v \<noteq> ''_prev''" "v_name v \<notin> set seen" "\<not> blank (v_prompt v)"
      "list_all (\<lambda>c. is_ascii_alnum c \<or> c = CHR ''_'') (v_name v)"
    by (auto split: if_splits)
  from Cons.IH [OF ok] v show ?case by (auto simp: list_all_iff)
qed simp

subsection \<open>Repository-qualified names\<close>

definition REPO_PREFIX :: string where
  "REPO_PREFIX = ''repo:''"

definition split_repo :: "string \<Rightarrow> (string \<times> string) option" where
  "split_repo name =
     (case strip_prefix REPO_PREFIX name of None \<Rightarrow> None
      | Some rest \<Rightarrow>
          (case split_once CHR ''/'' rest of None \<Rightarrow> None
           | Some (repo, rel) \<Rightarrow> if repo = [] \<or> rel = [] then None else Some (repo, rel)))"

definition display_name :: "string \<Rightarrow> string" where
  "display_name name = (case split_repo name of Some (_, rel) \<Rightarrow> rel | None \<Rightarrow> name)"

definition qualify :: "string \<Rightarrow> string \<Rightarrow> string" where
  "qualify repo rel = REPO_PREFIX @ repo @ ''/'' @ rel"

lemma split_repo_Some:
  "split_repo n = Some (repo, rel) \<longleftrightarrow>
     n = qualify repo rel \<and> repo \<noteq> [] \<and> rel \<noteq> [] \<and> CHR ''/'' \<notin> set repo"
proof
  assume "split_repo n = Some (repo, rel)"
  then show "n = qualify repo rel \<and> repo \<noteq> [] \<and> rel \<noteq> [] \<and> CHR ''/'' \<notin> set repo"
    by (auto simp: split_repo_def qualify_def strip_prefix_Some split_once_Some
        split: option.splits if_splits)
next
  assume "n = qualify repo rel \<and> repo \<noteq> [] \<and> rel \<noteq> [] \<and> CHR ''/'' \<notin> set repo"
  then show "split_repo n = Some (repo, rel)"
    by (simp add: split_repo_def qualify_def)
qed

lemma split_repo_qualify:
  "repo \<noteq> [] \<Longrightarrow> rel \<noteq> [] \<Longrightarrow> CHR ''/'' \<notin> set repo \<Longrightarrow> split_repo (qualify repo rel) = Some (repo, rel)"
  by (simp add: split_repo_Some)

definition resolve_needs :: "string list \<Rightarrow> string \<Rightarrow> string \<Rightarrow> string" where
  "resolve_needs names repo needs =
     (let src = fst (needs_parts needs)
      in if split_repo src = None \<and> qualify repo src \<in> set names
         then qualify repo src @ drop (length src) needs else needs)"

definition resolve_spawn :: "string list \<Rightarrow> string \<Rightarrow> string \<Rightarrow> string" where
  "resolve_spawn names repo spawn =
     (if split_repo spawn = None \<and> qualify repo spawn \<in> set names
      then qualify repo spawn else spawn)"

definition resolve_def :: "string list \<Rightarrow> task_def \<Rightarrow> task_def" where
  "resolve_def names d = (case split_repo (d_name d) of None \<Rightarrow> d
     | Some (repo, _) \<Rightarrow> d\<lparr>d_needs := map_option (resolve_needs names repo) (d_needs d),
                          d_spawn := map_option (resolve_spawn names repo) (d_spawn d)\<rparr>)"

definition resolve_repo_refs :: "task_def list \<Rightarrow> task_def list" where
  "resolve_repo_refs defs = map (resolve_def (map d_name defs)) defs"

subsection \<open>Task paths\<close>

text \<open>
  The components of a relative Unix path (\<open>Path::components\<close>): empty parts and inner \<open>.\<close> parts
  vanish; a leading \<open>.\<close> is \<open>CurDir\<close> and \<open>..\<close> is \<open>ParentDir\<close>, the two a task name may not have.
\<close>

datatype path_component = CurDir | ParentDir | Normal string

definition component_of :: "string \<Rightarrow> path_component" where
  "component_of p = (if p = ''..'' then ParentDir else Normal p)"

definition components :: "string \<Rightarrow> path_component list" where
  "components s = (let ps = split_on CHR ''/'' s in
     (if hd ps = ''.'' then [CurDir] else []) @
     map component_of (filter (\<lambda>p. p \<noteq> [] \<and> p \<noteq> ''.'') ps))"

definition is_normal :: "path_component \<Rightarrow> bool" where
  "is_normal c \<longleftrightarrow> c \<notin> {CurDir, ParentDir}"

definition validate_task_path :: "string \<Rightarrow> string + unit" where
  "validate_task_path name =
     (if name = [] then Inl ''task name must not be empty''
      else if prefix REPO_PREFIX name
      then Inl (''task name must not start with the reserved '' @ quoted REPO_PREFIX @ '' prefix'')
      else if contains_char CHR 0x5C name then Inl (''task name must use '' @ quoted ''/'' @ '' separators'')
      else if prefix ''/'' name then Inl ''task name must be relative''
      else if \<not> list_all is_normal (components name) then Inl (''invalid task path '' @ quoted name)
      else Inr ())"

subsection \<open>Loading the catalog\<close>

text \<open>
  A directory tree as the loader sees it: a directory with its readable entries (an unreadable one
  has none), or anything else with the contents it reads to, if it does.
\<close>

datatype fs_node = FsDir string "fs_node list" | FsFile string "string option"

text \<open>\<open>Path::extension\<close> and \<open>Path::file_stem\<close> of a file name: a leading dot starts no extension.\<close>

definition file_ext :: "string \<Rightarrow> (string \<times> string) option" where
  "file_ext name = (case rsplit_once CHR ''.'' name of
     None \<Rightarrow> None
   | Some (stem, ext) \<Rightarrow> if stem = [] \<or> name = ''..'' then None else Some (stem, ext))"

fun collect_task_files :: "string list \<Rightarrow> fs_node \<Rightarrow> (string list \<times> string option) list"
  and collect_all :: "string list \<Rightarrow> fs_node list \<Rightarrow> (string list \<times> string option) list" where
  "collect_task_files rel (FsDir name nodes) = collect_all (rel @ [name]) nodes"
| "collect_task_files rel (FsFile name content) =
     (if map_option snd (file_ext name) = Some ''md'' then [(rel @ [name], content)] else [])"
| "collect_all rel [] = []"
| "collect_all rel (n # ns) = collect_task_files rel n @ collect_all rel ns"

text \<open>\<open>relative_task_name\<close>: the components below the root, without the extension of the last.\<close>

definition relative_task_name :: "string list \<Rightarrow> string" where
  "relative_task_name rel = join ''/''
     (butlast rel @ [case file_ext (last rel) of Some (stem, _) \<Rightarrow> stem | None \<Rightarrow> last rel])"

definition reload_file ::
  "(string \<Rightarrow> string \<Rightarrow> string + task_def) \<Rightarrow> task_def list \<Rightarrow> string \<times> string option \<Rightarrow> task_def list"
where
  "reload_file parse prior f =
     (let name = fst f;
          previous = List.find (\<lambda>d. d_name d = name) prior;
          keep = (case previous of Some old \<Rightarrow> [old] | None \<Rightarrow> [])
      in case snd f of
           None \<Rightarrow> keep
         | Some content \<Rightarrow>
             (case parse name content of Inr d \<Rightarrow> [d] | Inl _ \<Rightarrow> keep))"

definition reload_catalog ::
  "(string \<Rightarrow> string \<Rightarrow> string + task_def) \<Rightarrow> fs_node list option \<Rightarrow> task_def list \<Rightarrow> task_def list"
where
  "reload_catalog parse dir prior =
     (case dir of
        None \<Rightarrow> prior
      | Some nodes \<Rightarrow> sort_key d_name (concat
          (map (\<lambda>(rel, content). reload_file parse prior (relative_task_name rel, content))
               (collect_all [] nodes))))"

definition load_repo_catalog ::
  "(string \<Rightarrow> string \<Rightarrow> string + task_def) \<Rightarrow> string \<Rightarrow> string \<Rightarrow> fs_node list option \<Rightarrow>
   task_def list \<Rightarrow> task_def list"
where
  "load_repo_catalog parse repo repo_root dir prior =
     (let stripped = List.map_filter (\<lambda>d. case split_repo (d_name d) of
            Some (r, rel) \<Rightarrow> if r = repo then Some (d\<lparr>d_name := rel\<rparr>) else None
          | None \<Rightarrow> None) prior;
          defs = reload_catalog parse dir stripped
      in sort_key d_name (map (\<lambda>d. d\<lparr>d_name := qualify repo (d_name d),
           d_cwd := (case d_cwd d of None \<Rightarrow> Some repo_root | Some c \<Rightarrow> Some c)\<rparr>) defs))"

definition lookup_def :: "task_def list \<Rightarrow> string \<Rightarrow> task_def option" where
  "lookup_def catalog name = List.find (\<lambda>d. d_name d = name) catalog"

subsection \<open>Facts about references\<close>

lemma needs_parts_qualified:
  assumes "repo \<noteq> []"
  shows "needs_parts (qualify repo (fst (needs_parts n)) @ drop (length (fst (needs_parts n))) n)
       = (qualify repo (fst (needs_parts n)), snd (needs_parts n))"
proof (cases n rule: needs_parts_cases)
  case (sfx src sfx)
  then show ?thesis by (auto simp: NEEDS_SUFFIXES_def needs_parts_suffix)
next
  case bare
  have "\<not> suffix sfx (qualify repo n)" if sfx: "sfx \<in> set NEEDS_SUFFIXES" for sfx
  proof
    assume "suffix sfx (qualify repo n)"
    then have "suffix sfx ((REPO_PREFIX @ repo) @ CHR ''/'' # n)" by (simp add: qualify_def)
    then have "suffix sfx n \<or> suffix (CHR ''/'' # n) sfx"
      using suffix_append_cases [of sfx "REPO_PREFIX @ repo" "CHR ''/'' # n"]
      by (auto simp: suffix_Cons)
    moreover have "CHR ''/'' \<notin> set sfx" using sfx by (auto simp: NEEDS_SUFFIXES_def)
    ultimately show False using bare(1) sfx by (auto simp: suffix_def)
  qed
  then have "needs_parts (qualify repo n) = (qualify repo n, NkFinished)"
    by (blast intro: needs_parts_bare)
  with bare(2) show ?thesis by simp
qed

lemma resolve_needs_kind:
  "repo \<noteq> [] \<Longrightarrow> snd (needs_parts (resolve_needs names repo n)) = snd (needs_parts n)"
  by (simp add: resolve_needs_def Let_def needs_parts_qualified)

lemma resolve_needs_source:
  "repo \<noteq> [] \<Longrightarrow> fst (needs_parts (resolve_needs names repo n)) =
     resolve_spawn names repo (fst (needs_parts n))"
  by (simp add: resolve_needs_def resolve_spawn_def Let_def needs_parts_qualified)

lemma resolve_spawn_idem:
  assumes "repo \<noteq> []" and "CHR ''/'' \<notin> set repo" and "qualify repo [] \<notin> set names"
  shows "resolve_spawn names repo (resolve_spawn names repo s) = resolve_spawn names repo s"
  using assms by (cases "s = []") (auto simp: resolve_spawn_def split_repo_qualify)

lemma resolve_needs_idem:
  assumes "repo \<noteq> []" and "CHR ''/'' \<notin> set repo" and "qualify repo [] \<notin> set names"
  shows "resolve_needs names repo (resolve_needs names repo n) = resolve_needs names repo n"
proof (cases "split_repo (fst (needs_parts n)) = None \<and> qualify repo (fst (needs_parts n)) \<in> set names")
  case True
  with assms have "fst (needs_parts n) \<noteq> []" by auto
  with True assms show ?thesis
    by (simp add: resolve_needs_def Let_def needs_parts_qualified split_repo_qualify)
next
  case False
  then show ?thesis by (auto simp: resolve_needs_def Let_def)
qed

lemma resolve_def_name [simp]: "d_name (resolve_def names d) = d_name d"
  by (simp add: resolve_def_def split: option.splits prod.splits)

lemma map_name_resolve [simp]: "map d_name (resolve_repo_refs defs) = map d_name defs"
  by (simp add: resolve_repo_refs_def comp_def)

lemma resolve_def_idem:
  assumes "\<And>repo. qualify repo [] \<notin> set names"
  shows "resolve_def names (resolve_def names d) = resolve_def names d"
proof (cases "split_repo (d_name d)")
  case (Some p)
  obtain repo rel where p: "p = (repo, rel)" by (cases p)
  with Some have "repo \<noteq> []" "CHR ''/'' \<notin> set repo" by (auto simp: split_repo_Some)
  with Some p assms show ?thesis
    by (simp add: resolve_def_def option.map_comp comp_def resolve_needs_idem resolve_spawn_idem)
qed (simp add: resolve_def_def)

text \<open>Resolving the bare references of repo-local tasks never renames a task and is idempotent,
  so reloading an already resolved catalog changes nothing (no task name ends in the separator,
  which no file name can).\<close>

theorem resolve_repo_refs_idem:
  assumes "\<forall>d \<in> set defs. \<forall>repo. d_name d \<noteq> qualify repo []"
  shows "map d_name (resolve_repo_refs defs) = map d_name defs \<and>
    resolve_repo_refs (resolve_repo_refs defs) = resolve_repo_refs defs"
proof -
  have "qualify repo [] \<notin> set (map d_name defs)" for repo
  proof
    assume "qualify repo [] \<in> set (map d_name defs)"
    then obtain d where "d \<in> set defs" "d_name d = qualify repo []" by auto
    with assms show False by blast
  qed
  then have "resolve_def (map d_name defs) (resolve_def (map d_name defs) d)
      = resolve_def (map d_name defs) d" for d
    by (intro resolve_def_idem)
  moreover have "resolve_repo_refs (resolve_repo_refs defs)
      = map (resolve_def (map d_name defs)) (resolve_repo_refs defs)"
    by (simp add: resolve_repo_refs_def [of "resolve_repo_refs defs"])
  ultimately show ?thesis by (simp add: resolve_repo_refs_def comp_def)
qed

text \<open>A task definition with no header fields set, for concrete instances.\<close>

definition bare_def :: "string \<Rightarrow> task_def" where
  "bare_def name = \<lparr>d_name = name, d_kind = KindAgent, d_action = None, d_agent = None,
     d_provider = None, d_model = None, d_cwd = None, d_schedule = None, d_needs = None,
     d_spawn = None, d_spawn_file = None, d_spawn_new_root = False, d_sign = None,
     d_worktree = None, d_vars = [], d_prompt = ''p''\<rparr>"

theorem resolve_repo_refs_idem_witness:
  "resolve_repo_refs (resolve_repo_refs [bare_def ''repo:r/a'', (bare_def ''repo:r/b'')\<lparr>d_needs := Some ''a:failed''\<rparr>])
   = resolve_repo_refs [bare_def ''repo:r/a'', (bare_def ''repo:r/b'')\<lparr>d_needs := Some ''a:failed''\<rparr>]"
  by (rule resolve_repo_refs_idem [THEN conjunct2])
     (auto simp: bare_def_def qualify_def REPO_PREFIX_def append_eq_Cons_conv Cons_eq_append_conv)

text \<open>Resolution keeps what a reference means: the outcome condition of \<open>needs\<close> is unchanged,
  and its source becomes the repository's own task exactly when the reference is bare and that
  repository defines it; every other source stays as it was.\<close>

theorem resolve_needs_meaning:
  assumes "split_repo (d_name d) = Some (repo, rel)" and "d_needs d = Some n"
  shows "\<exists>n'. d_needs (resolve_def names d) = Some n' \<and>
    snd (needs_parts n') = snd (needs_parts n) \<and>
    fst (needs_parts n') =
      (if split_repo (fst (needs_parts n)) = None \<and> qualify repo (fst (needs_parts n)) \<in> set names
       then qualify repo (fst (needs_parts n)) else fst (needs_parts n))"
proof -
  have "repo \<noteq> []" using assms(1) by (simp add: split_repo_Some)
  then show ?thesis
    using assms by (simp add: resolve_def_def resolve_needs_kind resolve_needs_source resolve_spawn_def)
qed

theorem resolve_needs_meaning_witness:
  "\<exists>n'. d_needs (resolve_def [''repo:r/a''] ((bare_def ''repo:r/b'')\<lparr>d_needs := Some ''a:failed''\<rparr>)) = Some n' \<and>
    snd (needs_parts n') = NkFailed \<and> fst (needs_parts n') = ''repo:r/a''"
proof -
  have split: "split_repo (d_name ((bare_def ''repo:r/b'')\<lparr>d_needs := Some ''a:failed''\<rparr>)) = Some (''r'', ''b'')"
    by code_simp
  have parts: "needs_parts ''a:failed'' = (''a'', NkFailed)" by code_simp
  have src: "split_repo ''a'' = None \<and> qualify ''r'' ''a'' \<in> set [''repo:r/a'']" "qualify ''r'' ''a'' = ''repo:r/a''"
    by code_simp+
  show ?thesis
    using resolve_needs_meaning [OF split, of "''a:failed''" "[''repo:r/a'']"] src by (simp add: parts)
qed

text \<open>A \<open>needs\<close> value that passes validation names a non-empty source task and either carries
  one of the five suffixes, with the value being exactly source and suffix, or is a bare task name
  without a colon; every other value is rejected.\<close>

theorem validate_needs_exact:
  "validate_needs (Some n) = Inr () \<longleftrightarrow>
     \<not> blank n \<and>
     ((\<exists>src sfx. sfx \<in> set NEEDS_SUFFIXES \<and> src \<noteq> [] \<and> n = src @ sfx \<and> fst (needs_parts n) = src) \<or>
      (CHR '':'' \<notin> set n \<and> needs_parts n = (n, NkFinished)))"
proof (cases n rule: needs_parts_cases)
  case (sfx src sfx)
  have colon: "CHR '':'' \<in> set n" using sfx(1,2) by (auto simp: NEEDS_SUFFIXES_def)
  have sfx': "\<exists>s \<in> set NEEDS_SUFFIXES. suffix s n" using sfx(1,2) by (auto simp: suffix_def)
  have "validate_needs (Some n) = Inr () \<longleftrightarrow> \<not> blank n \<and> src \<noteq> []"
    using sfx(3) sfx' by (simp add: validate_needs_def)
  with sfx colon show ?thesis by metis
next
  case bare
  have no: "sfx \<in> set NEEDS_SUFFIXES \<Longrightarrow> n = src @ sfx \<Longrightarrow> False" for src sfx
    using bare(1) by (auto simp: suffix_def)
  have "validate_needs (Some n) = Inr () \<longleftrightarrow> \<not> blank n \<and> CHR '':'' \<notin> set n"
    using bare by (auto simp: validate_needs_def contains_char_def blank_def)
  then show ?thesis using no bare(2) by blast
qed

subsection \<open>Facts about paths and loading\<close>

lemma is_normal_simps [simp]:
  "is_normal (Normal p)" "\<not> is_normal CurDir" "\<not> is_normal ParentDir"
  by (simp_all add: is_normal_def)

lemma normal_component:
  assumes "c \<in> set (components s)" and "is_normal c"
  shows "\<exists>p. c = Normal p \<and> p \<notin> {[], ''.'', ''..''}"
proof -
  from assms have "c \<in> component_of ` {p. p \<noteq> [] \<and> p \<noteq> ''.''}"
    unfolding components_def Let_def by (auto split: if_splits)
  then obtain p where "p \<noteq> []" "p \<noteq> ''.''" "c = component_of p" by blast
  with assms(2) show ?thesis by (simp add: component_of_def split: if_splits)
qed

text \<open>A task name accepted for a remote \<open>catalog.add\<close> or \<open>catalog.get\<close> is relative, has no
  \<open>..\<close> part and no backslash, and is not repo-qualified, so the file it denotes stays under the
  tasks root.\<close>

theorem validate_task_path_contained:
  assumes "validate_task_path name = Inr ()"
  shows "name \<noteq> [] \<and> hd name \<noteq> CHR ''/'' \<and> CHR 0x5C \<notin> set name \<and>
    ''..'' \<notin> set (split_on CHR ''/'' name) \<and> split_repo name = None \<and>
    (\<forall>c \<in> set (components name). \<exists>p. c = Normal p \<and> p \<notin> {[], ''.'', ''..''})"
proof -
  from assms have ne: "name \<noteq> []" and rp: "\<not> prefix REPO_PREFIX name" and bs: "CHR 0x5C \<notin> set name"
    and abs: "\<not> prefix ''/'' name" and norm: "list_all is_normal (components name)"
    by (auto simp: validate_task_path_def contains_char_def split: if_splits)
  have "hd name \<noteq> CHR ''/''" using ne abs by (cases name) auto
  moreover have "''..'' \<notin> set (split_on CHR ''/'' name)"
  proof
    assume "''..'' \<in> set (split_on CHR ''/'' name)"
    then have "ParentDir \<in> set (components name)"
      by (auto simp: components_def Let_def component_of_def image_iff)
    with norm show False by (auto simp: list_all_iff is_normal_def)
  qed
  moreover have "split_repo name = None" using rp by (simp add: split_repo_def strip_prefix_def)
  moreover have "\<exists>p. c = Normal p \<and> p \<notin> {[], ''.'', ''..''}" if "c \<in> set (components name)" for c
    using that norm normal_component by (simp add: list_all_iff)
  ultimately show ?thesis using ne bs by blast
qed

theorem validate_task_path_contained_witness:
  "validate_task_path ''ops/nightly'' = Inr () \<and> ''..'' \<notin> set (split_on CHR ''/'' ''ops/nightly'')"
proof -
  have ok: "validate_task_path ''ops/nightly'' = Inr ()" by code_simp
  show ?thesis using validate_task_path_contained [OF ok] ok by simp
qed

text \<open>The validation does not make names canonical: \<open>a//b\<close> and \<open>a/b\<close> are both accepted, are
  different task identities, and denote the same file.\<close>

theorem task_path_alias:
  "validate_task_path ''a//b'' = Inr () \<and> validate_task_path ''a/b'' = Inr () \<and>
   components ''a//b'' = components ''a/b'' \<and> ''a//b'' \<noteq> ''a/b''"
  by code_simp

text \<open>Reloading the catalog from a readable directory yields, sorted by name, exactly the
  definitions that parse, together with the previous definition of every file that is still there
  but cannot be read or parsed; a definition whose file is gone is dropped, and one whose file is
  momentarily broken never is.\<close>

theorem reload_catalog_merge:
  "sorted (map d_name (reload_catalog parse (Some nodes) prior)) \<and>
   set (reload_catalog parse (Some nodes) prior) =
     {d. \<exists>(rel, content) \<in> set (collect_all [] nodes).
        (\<exists>txt. content = Some txt \<and> parse (relative_task_name rel) txt = Inr d) \<or>
        ((content = None \<or> (\<exists>txt e. content = Some txt \<and> parse (relative_task_name rel) txt = Inl e)) \<and>
         List.find (\<lambda>d. d_name d = relative_task_name rel) prior = Some d)}"
proof -
  have "d \<in> set (reload_file parse prior (name, content)) \<longleftrightarrow>
      (\<exists>txt. content = Some txt \<and> parse name txt = Inr d) \<or>
      ((content = None \<or> (\<exists>txt e. content = Some txt \<and> parse name txt = Inl e)) \<and>
       List.find (\<lambda>d. d_name d = name) prior = Some d)" for d name content
    by (cases content) (auto simp: reload_file_def Let_def split: option.splits sum.splits)
  then show ?thesis by (auto simp: reload_catalog_def) blast+
qed

end
