(* ===== verification/Output.thy ===== *)
theory Output
  imports Text Model
begin

text \<open>
  What an agent run leaves behind, \<open>crates/favetto/src/executor.rs\<close>: the byte caps on UTF-8
  boundaries, the result envelope, the stored \<open>task.output\<close> and the bounded copies of it that are
  embedded in a dependent's \<open>input._prev\<close>.  \<open>ser\<close> is \<open>serde_json\<close>'s \<open>to_string\<close> and \<open>parse\<close> its
  \<open>from_str\<close>; \<open>usize\<close> arithmetic is on naturals (the sizes never approach the width).
\<close>

subsection \<open>Byte caps\<close>

fun floor_boundary_from :: "string \<Rightarrow> nat \<Rightarrow> nat" where
  "floor_boundary_from s 0 = 0"
| "floor_boundary_from s (Suc i) =
     (if is_char_boundary s (Suc i) then Suc i else floor_boundary_from s i)"

definition floor_char_boundary :: "string \<Rightarrow> nat \<Rightarrow> nat" where
  "floor_char_boundary s idx = floor_boundary_from s (min idx (length s))"

function ceil_boundary_from :: "string \<Rightarrow> nat \<Rightarrow> nat" where
  "ceil_boundary_from s i =
     (if i < length s \<and> \<not> is_char_boundary s i then ceil_boundary_from s (i + 1) else i)"
  by pat_completeness auto
termination by (relation "measure (\<lambda>(s, i). length s - i)") auto

declare ceil_boundary_from.simps [simp del]

definition ceil_char_boundary :: "string \<Rightarrow> nat \<Rightarrow> nat" where
  "ceil_char_boundary s idx = ceil_boundary_from s (min idx (length s))"

definition ellipsis :: string where
  "ellipsis = [CHR 0xE2, CHR 0x80, CHR 0xA6]"

definition truncation_marker :: "nat \<Rightarrow> string" where
  "truncation_marker removed =
     CHR 0x0A # ellipsis @ '' [truncated '' @ nat_str removed @ '' bytes] '' @ ellipsis @ [CHR 0x0A]"

definition truncate_text :: "string \<Rightarrow> nat \<Rightarrow> string \<times> bool" where
  "truncate_text s cap =
     (if length s \<le> cap \<or> cap = 0 then (s, False)
      else let head_budget = cap * 3 div 4;
               tail_budget = cap - head_budget;
               head_end = floor_char_boundary s head_budget;
               tail_start = ceil_char_boundary s (length s - tail_budget);
               removed = length s - head_end - (length s - tail_start)
           in (take head_end s @ truncation_marker removed @ drop tail_start s, True))"

definition PREV_OUTPUT_BYTES :: nat where "PREV_OUTPUT_BYTES = 48 * 1024"
definition PREV_TASKS_BYTES :: nat where "PREV_TASKS_BYTES = 64 * 1024"
definition MIN_PREV_OUTPUT_BYTES :: nat where "MIN_PREV_OUTPUT_BYTES = 512"
definition ENVELOPE_SUMMARY_BYTES :: nat where "ENVELOPE_SUMMARY_BYTES = 512"
definition MIN_ENVELOPE_FIELD_BYTES :: nat where "MIN_ENVELOPE_FIELD_BYTES = 256"

definition tail_truncate :: "string \<Rightarrow> nat \<Rightarrow> string" where
  "tail_truncate s cap =
     (if length s \<le> cap then s
      else ellipsis @ drop (ceil_char_boundary s (length s - cap)) s)"

lemma floor_boundary_from_props:
  "floor_boundary_from s i \<le> i \<and> is_char_boundary s (floor_boundary_from s i) \<and>
   (\<forall>j. floor_boundary_from s i < j \<and> j \<le> i \<longrightarrow> \<not> is_char_boundary s j)"
proof (induction i)
  case (Suc i)
  then show ?case by (auto simp: le_Suc_eq)
qed auto

lemma ceil_boundary_from_props:
  "i \<le> length s \<Longrightarrow>
   i \<le> ceil_boundary_from s i \<and> ceil_boundary_from s i \<le> length s \<and>
   is_char_boundary s (ceil_boundary_from s i) \<and>
   (\<forall>j. i \<le> j \<and> j < ceil_boundary_from s i \<longrightarrow> \<not> is_char_boundary s j)"
proof (induction s i rule: ceil_boundary_from.induct)
  case (1 s i)
  show ?case
  proof (cases "i < length s \<and> \<not> is_char_boundary s i")
    case True
    then have unf: "ceil_boundary_from s i = ceil_boundary_from s (i + 1)"
      by (subst ceil_boundary_from.simps) simp
    have "j = i \<or> i + 1 \<le> j" if "i \<le> j" for j using that by linarith
    with "1.IH" True show ?thesis unfolding unf by auto
  next
    case False
    then have "ceil_boundary_from s i = i"
      by (subst ceil_boundary_from.simps) auto
    with False "1.prems" show ?thesis by (auto simp: le_less)
  qed
qed

lemmas floor_char_boundary_props =
  floor_boundary_from_props [of s "min idx (length s)" for s idx, folded floor_char_boundary_def]

lemmas ceil_char_boundary_props =
  ceil_boundary_from_props [of "min idx (length s)" s for s idx, folded ceil_char_boundary_def, simplified]

lemma length_tail_truncate: "length (tail_truncate s cap) \<le> cap + 3"
proof -
  have "min (length s - cap) (length s) \<le> ceil_char_boundary s (length s - cap)"
    using ceil_char_boundary_props by blast
  then show ?thesis by (auto simp: tail_truncate_def ellipsis_def)
qed

lemma truncate_text_cut:
  assumes "\<not> (length s \<le> cap \<or> cap = 0)"
  shows "\<exists>h t. truncate_text s cap
          = (take h s @ truncation_marker (t - h) @ drop t s, True) \<and>
        h \<le> t \<and> t \<le> length s \<and> is_char_boundary s h \<and> is_char_boundary s t \<and>
        h \<le> cap * 3 div 4 \<and> length s - t \<le> cap - cap * 3 div 4 \<and>
        length (take h s) + (t - h) + length (drop t s) = length s"
proof -
  from assms have long: "cap < length s" and pos: "0 < cap" by auto
  define h where "h = floor_char_boundary s (cap * 3 div 4)"
  define t where "t = ceil_char_boundary s (length s - (cap - cap * 3 div 4))"
  have h: "h \<le> cap * 3 div 4" "is_char_boundary s h"
    using floor_char_boundary_props [of s "cap * 3 div 4"] by (auto simp: h_def)
  have t: "length s - (cap - cap * 3 div 4) \<le> t" "t \<le> length s" "is_char_boundary s t"
    using ceil_char_boundary_props [of "length s - (cap - cap * 3 div 4)" s]
    by (auto simp: t_def)
  have ht: "h \<le> t" using h(1) t(1) long by linarith
  have "truncate_text s cap = (take h s @ truncation_marker (t - h) @ drop t s, True)"
    using long pos ht t(2) unfolding truncate_text_def Let_def h_def [symmetric] t_def [symmetric]
    by (simp add: diff_diff_eq)
  moreover have "length (take h s) + (t - h) + length (drop t s) = length s"
    using ht t(2) by simp
  moreover have "length s - t \<le> cap - cap * 3 div 4" using t(1,2) by linarith
  ultimately show ?thesis
    using h t(2,3) ht by blast
qed

lemma length_truncation_marker: "length (truncation_marker n) = 28 + length (nat_str n)"
  by (simp add: truncation_marker_def ellipsis_def)

lemma length_truncate_text:
  assumes "cap > 0"
  shows "length (fst (truncate_text s cap)) \<le> cap + 28 + length (nat_str (length s))"
proof (cases "length s \<le> cap")
  case False
  with assms obtain h t where ht: "truncate_text s cap
      = (take h s @ truncation_marker (t - h) @ drop t s, True)" "t \<le> length s"
    "h \<le> cap * 3 div 4" "length s - t \<le> cap - cap * 3 div 4"
    using truncate_text_cut [of s cap] by auto
  have "length (nat_str (t - h)) \<le> length (nat_str (length s))"
    using ht(2) by (intro length_nat_str_mono) simp
  with ht(3,4) show ?thesis unfolding ht(1) by (simp add: length_truncation_marker)
qed (simp add: truncate_text_def)

text \<open>Capping a text to \<open>cap\<close> bytes leaves a short text alone; otherwise it keeps a head within
  three quarters of the budget and a tail within the rest, both cut on UTF-8 character boundaries and
  not overlapping, and the marker between them names exactly the number of bytes dropped.\<close>

theorem truncate_text_exact:
  "(length s \<le> cap \<or> cap = 0 \<longrightarrow> truncate_text s cap = (s, False)) \<and>
   (\<not> (length s \<le> cap \<or> cap = 0) \<longrightarrow>
     (\<exists>h t. truncate_text s cap
          = (take h s @ truncation_marker (t - h) @ drop t s, True) \<and>
        h \<le> t \<and> t \<le> length s \<and> is_char_boundary s h \<and> is_char_boundary s t \<and>
        h \<le> cap * 3 div 4 \<and> length s - t \<le> cap - cap * 3 div 4 \<and>
        length (take h s) + (t - h) + length (drop t s) = length s))"
  using truncate_text_cut [of s cap] by (auto simp: truncate_text_def)

theorem truncate_text_exact_witness:
  "\<exists>h t. truncate_text (replicate 100 CHR ''x'') 10
      = (take h (replicate 100 CHR ''x'') @ truncation_marker (t - h) @ drop t (replicate 100 CHR ''x''), True)
    \<and> h \<le> t \<and> h \<le> 7 \<and> 100 - t \<le> 3"
  using truncate_text_exact [of "replicate 100 CHR ''x''" 10] by auto

subsection \<open>Summaries and the finish event\<close>

definition synthesized_summary :: "string \<Rightarrow> string" where
  "synthesized_summary capped_raw =
     (let last = (case List.find (\<lambda>line. \<not> blank line) (rev (lines capped_raw)) of
                    Some line \<Rightarrow> trim line | None \<Rightarrow> [])
      in tail_truncate last ENVELOPE_SUMMARY_BYTES)"

definition FINISHED_SUMMARY_BYTES :: nat where
  "FINISHED_SUMMARY_BYTES = ENVELOPE_SUMMARY_BYTES"

definition nonblank :: "string option \<Rightarrow> string option" where
  "nonblank s = (case map_option trim s of
     None \<Rightarrow> None | Some t \<Rightarrow> if t = [] then None else Some t)"

definition finished_summary :: "task \<Rightarrow> string option" where
  "finished_summary tk =
     (let from_output = nonblank (do {
            out \<leftarrow> t_output tk;
            env \<leftarrow> jget out ''envelope'';
            sm \<leftarrow> jget env ''summary'';
            as_str sm })
      in case (case from_output of Some t \<Rightarrow> Some t | None \<Rightarrow> nonblank (t_error tk)) of
           None \<Rightarrow> None
         | Some txt \<Rightarrow> Some (tail_truncate txt FINISHED_SUMMARY_BYTES))"

definition finished_payload :: "task \<Rightarrow> bool \<Rightarrow> json" where
  "finished_payload tk success =
     (let base = [(''name'', JStr (t_name tk)), (''task_id'', JStr (t_id tk)),
                  (''success'', JBool success), (''status'', JStr (task_status_as_str (t_status tk))),
                  (''attempt'', jnat (t_attempt tk)),
                  (''retryable'', JBool (case t_failure tk of None \<Rightarrow> False | Some f \<Rightarrow> f_retryable f))]
      in mk_obj (base @ (case finished_summary tk of None \<Rightarrow> [] | Some s \<Rightarrow> [(''summary'', JStr s)])))"

subsection \<open>Result envelopes\<close>

definition synthesized_envelope :: "string \<Rightarrow> json" where
  "synthesized_envelope capped_raw = mk_obj
     [(''summary'', JStr (synthesized_summary capped_raw)), (''artifacts'', JArr []),
      (''findings'', JArr []), (''outputs'', JObj []), (''continuation'', JNull)]"

definition is_envelope_object :: "(string \<times> json) list \<Rightarrow> bool" where
  "is_envelope_object obj \<longleftrightarrow>
     (case map_of obj ''summary'' of None \<Rightarrow> False | Some v \<Rightarrow> is_string v)"

definition envelope_from_result :: "(string \<Rightarrow> json option) \<Rightarrow> json \<Rightarrow> json option" where
  "envelope_from_result parse result =
     (case as_object result of
        None \<Rightarrow> None
      | Some obj \<Rightarrow>
          (case map_of obj ''envelope'' of
             Some (JObj e) \<Rightarrow> Some (JObj e)
           | _ \<Rightarrow>
               if is_envelope_object obj then Some result
               else (case map_of obj ''text'' of
                       Some (JStr txt) \<Rightarrow>
                         (case parse (trim txt) of
                            Some (JObj p) \<Rightarrow> if is_envelope_object p then Some (JObj p) else None
                          | _ \<Rightarrow> None)
                     | _ \<Rightarrow> None)))"

definition or_insert_unless :: "(json \<Rightarrow> bool) \<Rightarrow> string \<Rightarrow> json \<Rightarrow> (string \<times> json) list \<Rightarrow> (string \<times> json) list" where
  "or_insert_unless ok k d obj =
     (if (case map_of obj k of None \<Rightarrow> False | Some v \<Rightarrow> ok v) then obj else obj_insert k d obj)"

fun normalize_envelope :: "json \<Rightarrow> json" where
  "normalize_envelope (JObj obj) =
     (let obj = or_insert_unless is_string ''summary'' (JStr []) obj;
          obj = fold (\<lambda>key. or_insert_unless is_array key (JArr [])) [''artifacts'', ''findings''] obj;
          obj = (if obj_has ''outputs'' obj then obj else obj_insert ''outputs'' (JObj []) obj);
          obj = (if obj_has ''continuation'' obj then obj else obj_insert ''continuation'' JNull obj)
      in JObj obj)"
| "normalize_envelope _ = synthesized_envelope []"

definition bound_summary :: "json \<Rightarrow> json" where
  "bound_summary v = (case v of JStr s \<Rightarrow> JStr (tail_truncate s ENVELOPE_SUMMARY_BYTES) | _ \<Rightarrow> v)"

definition bound_field :: "(json \<Rightarrow> string) \<Rightarrow> nat \<Rightarrow> json \<Rightarrow> json" where
  "bound_field ser per_field v =
     (if length (ser v) > per_field then JStr (fst (truncate_text (ser v) per_field)) else v)"

definition bound_envelope :: "(json \<Rightarrow> string) \<Rightarrow> (string \<times> json) list \<Rightarrow> nat \<Rightarrow> (string \<times> json) list" where
  "bound_envelope ser env budget =
     (let env = obj_update ''summary'' bound_summary env;
          per_field = max (budget div 3) MIN_ENVELOPE_FIELD_BYTES
      in fold (\<lambda>key. obj_update key (bound_field ser per_field))
           [''artifacts'', ''findings'', ''outputs''] env)"

subsection \<open>Bounded copies for \<open>input._prev\<close>\<close>

definition bounded_prev_value :: "(json \<Rightarrow> string) \<Rightarrow> json option \<Rightarrow> nat \<Rightarrow> json" where
  "bounded_prev_value ser value cap =
     (case value of
        None \<Rightarrow> JNull
      | Some v \<Rightarrow>
          if length (ser v) \<le> cap then v
          else let fallback = JStr (fst (truncate_text (ser v) cap))
          in (case v of
                JObj obj \<Rightarrow>
                  let has_output = (case map_of obj ''output'' of Some (JStr _) \<Rightarrow> True | _ \<Rightarrow> False);
                      obj1 = (if has_output
                              then obj_update ''output'' (\<lambda>w. case w of
                                     JStr txt \<Rightarrow> JStr (fst (truncate_text txt cap)) | _ \<Rightarrow> w) obj
                              else obj);
                      has_result = obj_has ''result'' obj1;
                      obj2 = obj_remove ''result'' obj1;
                      has_env = (case map_of obj2 ''envelope'' of Some (JObj _) \<Rightarrow> True | _ \<Rightarrow> False);
                      obj3 = (if has_env
                              then obj_update ''envelope'' (\<lambda>w. case w of
                                     JObj env \<Rightarrow> JObj (bound_envelope ser env cap) | _ \<Rightarrow> w) obj2
                              else obj2)
                  in if has_output \<or> has_result \<or> has_env
                     then JObj (obj_insert ''truncated'' (JBool True) obj3)
                     else fallback
              | _ \<Rightarrow> fallback))"

definition build_task_output ::
  "(json \<Rightarrow> string) \<Rightarrow> (string \<Rightarrow> json option) \<Rightarrow> string \<Rightarrow> json \<Rightarrow> string option \<Rightarrow> string option \<Rightarrow>
   string option \<Rightarrow> nat \<Rightarrow> json"
where
  "build_task_output ser parse raw parsed agent session_id session_title cap =
     (let (capped_raw, truncated) = truncate_text raw cap;
          structured = envelope_from_result parse parsed;
          duplicate = (case as_object parsed of
             None \<Rightarrow> False
           | Some obj \<Rightarrow> length obj = 1 \<and> Option.bind (map_of obj ''text'') as_str = Some raw);
          result = (if duplicate \<or> structured = Some parsed then JNull
             else if length (ser parsed) > cap
             then mk_obj [(''preview'', JStr (fst (truncate_text (ser parsed) cap))), (''truncated'', JBool True)]
             else parsed);
          envelope = (case structured of
             Some e \<Rightarrow> normalize_envelope e
           | None \<Rightarrow> normalize_envelope (synthesized_envelope capped_raw));
          envelope = (case envelope of
             JObj env \<Rightarrow> JObj (bound_envelope ser env (cap div 2)) | _ \<Rightarrow> envelope)
      in mk_obj [(''agent'', jopt_str agent), (''session_id'', jopt_str session_id),
           (''session_title'', jopt_str session_title), (''output_bytes'', jnat (length raw)),
           (''truncated'', JBool truncated), (''output'', JStr capped_raw),
           (''result'', result), (''envelope'', envelope)])"

text \<open>\<open>join_context\<close>, given the root's name as the database returned it.\<close>

definition join_context :: "(json \<Rightarrow> string) \<Rightarrow> uuid \<Rightarrow> string option \<Rightarrow> string \<Rightarrow> task list \<Rightarrow> json" where
  "join_context ser root_id root_name target tasks =
     (let count_of = (\<lambda>st. jnat (length (filter (\<lambda>t. t_status t = st) tasks)));
          per_task = max (PREV_TASKS_BYTES div max (length tasks) 1) MIN_PREV_OUTPUT_BYTES;
          entry = (\<lambda>t. mk_obj
            [(''task_id'', JStr (t_id t)), (''name'', JStr (t_name t)),
             (''status'', JStr (task_status_as_str (t_status t))),
             (''success'', JBool (t_status t = Succeeded)),
             (''session_id'', jopt_str (t_session_id t)),
             (''input'', bounded_prev_value ser (Some (t_input t)) per_task),
             (''output'', bounded_prev_value ser (t_output t) per_task)])
      in mk_obj [(''_prev'', mk_obj
           [(''kind'', JStr ''all_finished''),
            (''root'', mk_obj [(''task_id'', JStr root_id), (''name'', jopt_str root_name)]),
            (''target'', JStr target),
            (''count'', jnat (length tasks)),
            (''succeeded'', count_of Succeeded), (''failed'', count_of Failed),
            (''cancelled'', count_of Cancelled),
            (''tasks'', JArr (map entry tasks))])])"


subsection \<open>Facts about envelopes\<close>

lemma or_insert_unless_other [simp]:
  "k' \<noteq> k \<Longrightarrow> map_of (or_insert_unless ok k d obj) k' = map_of obj k'"
  by (simp add: or_insert_unless_def)

lemma or_insert_unless_self:
  "ok d \<Longrightarrow> \<exists>v. map_of (or_insert_unless ok k d obj) k = Some v \<and> ok v"
  by (auto simp: or_insert_unless_def split: option.splits)

lemma or_insert_unless_id:
  "map_of obj k = Some v \<Longrightarrow> ok v \<Longrightarrow> or_insert_unless ok k d obj = obj"
  by (simp add: or_insert_unless_def)

definition envelope_shape :: "(string \<times> json) list \<Rightarrow> bool" where
  "envelope_shape env \<longleftrightarrow>
     (\<exists>s. map_of env ''summary'' = Some (JStr s)) \<and>
     (\<exists>xs. map_of env ''artifacts'' = Some (JArr xs)) \<and>
     (\<exists>xs. map_of env ''findings'' = Some (JArr xs)) \<and>
     map_of env ''outputs'' \<noteq> None \<and> map_of env ''continuation'' \<noteq> None"

lemma normalize_obj_shape: "\<exists>env. normalize_envelope (JObj obj) = JObj env \<and> envelope_shape env \<and>
   (\<forall>k. k \<notin> {''summary'', ''artifacts'', ''findings'', ''outputs'', ''continuation''} \<longrightarrow>
      map_of env k = map_of obj k) \<and>
   (\<forall>v. map_of obj ''outputs'' = Some v \<longrightarrow> map_of env ''outputs'' = Some v) \<and>
   (\<forall>v. map_of obj ''continuation'' = Some v \<longrightarrow> map_of env ''continuation'' = Some v)"
proof -
  define o1 where "o1 = or_insert_unless is_string ''summary'' (JStr []) obj"
  define o2 where "o2 = or_insert_unless is_array ''artifacts'' (JArr []) o1"
  define o3 where "o3 = or_insert_unless is_array ''findings'' (JArr []) o2"
  define o4 where "o4 = (if obj_has ''outputs'' o3 then o3 else obj_insert ''outputs'' (JObj []) o3)"
  define o5 where "o5 = (if obj_has ''continuation'' o4 then o4 else obj_insert ''continuation'' JNull o4)"
  have n: "normalize_envelope (JObj obj) = JObj o5"
    by (simp add: o1_def o2_def o3_def o4_def o5_def Let_def)
  have 5: "k \<noteq> ''continuation'' \<Longrightarrow> map_of o5 k = map_of o4 k"
    and 4: "k \<noteq> ''outputs'' \<Longrightarrow> map_of o4 k = map_of o3 k"
    and 3: "k \<noteq> ''findings'' \<Longrightarrow> map_of o3 k = map_of o2 k"
    and 2: "k \<noteq> ''artifacts'' \<Longrightarrow> map_of o2 k = map_of o1 k"
    and 1: "k \<noteq> ''summary'' \<Longrightarrow> map_of o1 k = map_of obj k" for k
    by (simp_all add: o1_def o2_def o3_def o4_def o5_def)
  have s: "\<exists>s. map_of o1 ''summary'' = Some (JStr s)"
    using or_insert_unless_self [of is_string "JStr []" "''summary''" obj] by (auto simp: o1_def is_string_iff)
  have a: "\<exists>xs. map_of o2 ''artifacts'' = Some (JArr xs)"
    using or_insert_unless_self [of is_array "JArr []" "''artifacts''" o1] by (auto simp: o2_def is_array_iff)
  have f: "\<exists>xs. map_of o3 ''findings'' = Some (JArr xs)"
    using or_insert_unless_self [of is_array "JArr []" "''findings''" o2] by (auto simp: o3_def is_array_iff)
  have op: "map_of o4 ''outputs'' \<noteq> None" by (simp add: o4_def obj_has_def)
  have c: "map_of o5 ''continuation'' \<noteq> None" by (simp add: o5_def obj_has_def)
  have "envelope_shape o5" using s a f op c by (simp add: envelope_shape_def 5 4 3 2)
  moreover have "map_of obj ''outputs'' = Some v \<Longrightarrow> map_of o5 ''outputs'' = Some v" for v
    by (simp add: 5) (simp add: o4_def obj_has_def 3 2 1)
  moreover have "map_of obj ''continuation'' = Some v \<Longrightarrow> map_of o5 ''continuation'' = Some v" for v
    by (simp add: o5_def obj_has_def 4 3 2 1)
  moreover have "map_of o5 k = map_of obj k"
    if "k \<notin> {''summary'', ''artifacts'', ''findings'', ''outputs'', ''continuation''}" for k
  proof -
    from that have "k \<noteq> ''summary''" "k \<noteq> ''artifacts''" "k \<noteq> ''findings''" "k \<noteq> ''outputs''"
      "k \<noteq> ''continuation''" by simp_all
    then show ?thesis by (simp add: 5 4 3 2 1)
  qed
  ultimately show ?thesis using n by blast
qed

lemma normalize_shape_id: "envelope_shape env \<Longrightarrow> normalize_envelope (JObj env) = JObj env"
  unfolding envelope_shape_def
  by (elim conjE exE) (simp add: Let_def or_insert_unless_def obj_has_def)

lemma normalize_is_shape: "\<exists>env. normalize_envelope e = JObj env \<and> envelope_shape env"
proof (cases e)
  case (JObj obj)
  then show ?thesis using normalize_obj_shape [of obj] by blast
qed (auto simp: synthesized_envelope_def mk_obj_def envelope_shape_def map_of_fold_insert)




subsection \<open>Facts about bounded copies\<close>

definition text_cap :: "nat \<Rightarrow> nat \<Rightarrow> nat" where
  "text_cap cap n = cap + 28 + length (nat_str n)"

lemma truncate_text_cap: "cap > 0 \<Longrightarrow> length (fst (truncate_text s cap)) \<le> text_cap cap (length s)"
  using length_truncate_text by (simp add: text_cap_def)

lemma bound_envelope_fields:
  "map_of (bound_envelope ser env budget) k =
     (if k \<in> {''artifacts'', ''findings'', ''outputs''}
      then map_option (bound_field ser (max (budget div 3) MIN_ENVELOPE_FIELD_BYTES)) (map_of env k)
      else if k = ''summary'' then map_option bound_summary (map_of env k)
      else map_of env k)"
  by (simp add: bound_envelope_def Let_def)

lemma bound_field_cases:
  assumes "per_field > 0"
  shows "(length (ser v) \<le> per_field \<and> bound_field ser per_field v = v) \<or>
    (\<exists>s. bound_field ser per_field v = JStr s \<and> length s \<le> text_cap per_field (length (ser v)))"
  using truncate_text_cap [OF assms] by (auto simp: bound_field_def)

lemma bound_summary_cap: "bound_summary v = JStr s \<Longrightarrow> length s \<le> ENVELOPE_SUMMARY_BYTES + 3"
  using length_tail_truncate by (auto simp: bound_summary_def split: json.splits)

text \<open>Bounding an envelope caps the summary at 515 bytes and replaces each of \<open>artifacts\<close>,
  \<open>findings\<close> and \<open>outputs\<close> whose serialised form exceeds its share of the budget by a capped string,
  and touches nothing else.\<close>

theorem bound_envelope_caps:
  fixes ser :: "json \<Rightarrow> string"
  defines "share budget \<equiv> max (budget div 3) MIN_ENVELOPE_FIELD_BYTES"
  shows "(\<forall>s. map_of (bound_envelope ser env budget) ''summary'' = Some (JStr s) \<longrightarrow> length s \<le> 515) \<and>
   (\<forall>k \<in> {''artifacts'', ''findings'', ''outputs''}. \<forall>v. map_of env k = Some v \<longrightarrow>
      (length (ser v) \<le> share budget \<and> map_of (bound_envelope ser env budget) k = Some v) \<or>
      (\<exists>s. map_of (bound_envelope ser env budget) k = Some (JStr s) \<and>
         length s \<le> text_cap (share budget) (length (ser v)))) \<and>
   (\<forall>k. k \<notin> {''summary'', ''artifacts'', ''findings'', ''outputs''} \<longrightarrow>
      map_of (bound_envelope ser env budget) k = map_of env k)"
proof (intro conjI)
  show "\<forall>s. map_of (bound_envelope ser env budget) ''summary'' = Some (JStr s) \<longrightarrow> length s \<le> 515"
    using bound_summary_cap by (auto simp: bound_envelope_fields ENVELOPE_SUMMARY_BYTES_def)
  have "share budget > 0" by (simp add: share_def MIN_ENVELOPE_FIELD_BYTES_def)
  then show "\<forall>k \<in> {''artifacts'', ''findings'', ''outputs''}. \<forall>v. map_of env k = Some v \<longrightarrow>
      (length (ser v) \<le> share budget \<and> map_of (bound_envelope ser env budget) k = Some v) \<or>
      (\<exists>s. map_of (bound_envelope ser env budget) k = Some (JStr s) \<and>
         length s \<le> text_cap (share budget) (length (ser v)))"
    using bound_field_cases [of "share budget" ser]
    by (simp add: bound_envelope_fields share_def [symmetric])
qed (simp add: bound_envelope_fields)

theorem bound_envelope_caps_witness:
  "\<exists>s. map_of (bound_envelope (\<lambda>_. replicate 300 CHR ''x'') [(''findings'', JArr []), (''z'', JNull)] 0) ''findings''
       = Some (JStr s) \<and> length s \<le> text_cap 256 300 \<and>
     map_of (bound_envelope (\<lambda>_. replicate 300 CHR ''x'') [(''findings'', JArr []), (''z'', JNull)] 0) ''z'' = Some JNull"
  using bound_envelope_caps [of "\<lambda>_. replicate 300 CHR ''x''" "[(''findings'', JArr []), (''z'', JNull)]" 0]
  by (simp add: MIN_ENVELOPE_FIELD_BYTES_def)

text \<open>The object branch, after the three rewrites.\<close>

lemma bounded_prev_object:
  assumes "length (ser (JObj obj)) > cap"
  obtains (kept) obj' where "bounded_prev_value ser (Some (JObj obj)) cap = JObj obj'"
      and "map_of obj' ''truncated'' = Some (JBool True)" and "map_of obj' ''result'' = None"
      and "\<And>txt. map_of obj ''output'' = Some (JStr txt) \<Longrightarrow>
             map_of obj' ''output'' = Some (JStr (fst (truncate_text txt cap)))"
      and "\<And>env. map_of obj ''envelope'' = Some (JObj env) \<Longrightarrow>
             map_of obj' ''envelope'' = Some (JObj (bound_envelope ser env cap))"
      and "\<And>k. k \<notin> {''truncated'', ''result'', ''output'', ''envelope''} \<Longrightarrow> map_of obj' k = map_of obj k"
  | (fallback) "bounded_prev_value ser (Some (JObj obj)) cap = JStr (fst (truncate_text (ser (JObj obj)) cap))"
      and "map_of obj ''result'' = None" and "\<nexists>txt. map_of obj ''output'' = Some (JStr txt)"
      and "\<nexists>env. map_of obj ''envelope'' = Some (JObj env)"
proof -
  define has_output where "has_output \<longleftrightarrow> (\<exists>txt. map_of obj ''output'' = Some (JStr txt))"
  define obj1 where "obj1 = (if has_output then obj_update ''output'' (\<lambda>w. case w of
      JStr txt \<Rightarrow> JStr (fst (truncate_text txt cap)) | _ \<Rightarrow> w) obj else obj)"
  define obj2 where "obj2 = obj_remove ''result'' obj1"
  define has_env where "has_env \<longleftrightarrow> (\<exists>env. map_of obj2 ''envelope'' = Some (JObj env))"
  define obj3 where "obj3 = (if has_env then obj_update ''envelope'' (\<lambda>w. case w of
      JObj env \<Rightarrow> JObj (bound_envelope ser env cap) | _ \<Rightarrow> w) obj2 else obj2)"
  have out: "(case map_of obj ''output'' of Some (JStr _) \<Rightarrow> True | _ \<Rightarrow> False) = has_output"
    by (auto simp: has_output_def split: option.splits json.splits)
  have env: "(case map_of obj2 ''envelope'' of Some (JObj _) \<Rightarrow> True | _ \<Rightarrow> False) = has_env"
    by (auto simp: has_env_def split: option.splits json.splits)
  have m2: "map_of obj2 = (map_of obj1)(''result'' := None)"
    by (simp add: obj2_def map_of_obj_remove)
  have m1: "k \<noteq> ''output'' \<Longrightarrow> map_of obj1 k = map_of obj k" for k by (simp add: obj1_def)
  have m3: "k \<noteq> ''envelope'' \<Longrightarrow> map_of obj3 k = map_of obj2 k" for k by (simp add: obj3_def)
  have res: "bounded_prev_value ser (Some (JObj obj)) cap =
     (if has_output \<or> obj_has ''result'' obj1 \<or> has_env
      then JObj (obj_insert ''truncated'' (JBool True) obj3)
      else JStr (fst (truncate_text (ser (JObj obj)) cap)))"
    using assms unfolding bounded_prev_value_def Let_def option.case json.case out
    unfolding obj1_def [symmetric] obj2_def [symmetric] env unfolding obj3_def [symmetric] by simp
  show ?thesis
  proof (cases "has_output \<or> obj_has ''result'' obj1 \<or> has_env")
    case True
    show ?thesis
    proof (rule kept)
      show "bounded_prev_value ser (Some (JObj obj)) cap = JObj (obj_insert ''truncated'' (JBool True) obj3)"
        using res True by simp
    qed (auto simp: m3 m2 m1 obj1_def has_output_def obj3_def has_env_def)
  next
    case False
    show ?thesis
      by (rule fallback)
         (use False res in \<open>auto simp: has_output_def has_env_def obj_has_def m1 m2\<close>)
  qed
qed


text \<open>The copy of a finished task's output that is embedded in a dependent's prompt is the value
  itself when it fits; otherwise it is either a string within the cap, or the object flagged
  \<open>truncated\<close> with its \<open>result\<close> dropped, its text \<open>output\<close> capped and its \<open>envelope\<close> bounded.\<close>

theorem bounded_prev_value_bounded:
  assumes "cap > 0"
  shows "bounded_prev_value ser None cap = JNull \<and>
    (length (ser v) \<le> cap \<longrightarrow> bounded_prev_value ser (Some v) cap = v) \<and>
    (length (ser v) > cap \<longrightarrow>
      (\<exists>s. bounded_prev_value ser (Some v) cap = JStr s \<and> length s \<le> text_cap cap (length (ser v))) \<or>
      (\<exists>obj obj'. v = JObj obj \<and> bounded_prev_value ser (Some v) cap = JObj obj' \<and>
         map_of obj' ''truncated'' = Some (JBool True) \<and> map_of obj' ''result'' = None \<and>
         (\<forall>txt. map_of obj ''output'' = Some (JStr txt) \<longrightarrow>
            (\<exists>s. map_of obj' ''output'' = Some (JStr s) \<and> length s \<le> text_cap cap (length txt))) \<and>
         (\<forall>env. map_of obj ''envelope'' = Some (JObj env) \<longrightarrow>
            map_of obj' ''envelope'' = Some (JObj (bound_envelope ser env cap)))))"
proof (intro conjI impI)
  assume big: "length (ser v) > cap"
  show "(\<exists>s. bounded_prev_value ser (Some v) cap = JStr s \<and> length s \<le> text_cap cap (length (ser v))) \<or>
      (\<exists>obj obj'. v = JObj obj \<and> bounded_prev_value ser (Some v) cap = JObj obj' \<and>
         map_of obj' ''truncated'' = Some (JBool True) \<and> map_of obj' ''result'' = None \<and>
         (\<forall>txt. map_of obj ''output'' = Some (JStr txt) \<longrightarrow>
            (\<exists>s. map_of obj' ''output'' = Some (JStr s) \<and> length s \<le> text_cap cap (length txt))) \<and>
         (\<forall>env. map_of obj ''envelope'' = Some (JObj env) \<longrightarrow>
            map_of obj' ''envelope'' = Some (JObj (bound_envelope ser env cap))))"
  proof (cases "\<exists>obj. v = JObj obj")
    case True
    then obtain obj where v: "v = JObj obj" by blast
    with big have "length (ser (JObj obj)) > cap" by simp
    then show ?thesis
    proof (cases rule: bounded_prev_object)
      case (kept obj')
      then show ?thesis using v truncate_text_cap [OF assms] by blast
    next
      case fallback
      then show ?thesis using v truncate_text_cap [OF assms] by blast
    qed
  next
    case False
    with big have "bounded_prev_value ser (Some v) cap = JStr (fst (truncate_text (ser v) cap))"
      by (cases v) (auto simp: bounded_prev_value_def Let_def)
    then show ?thesis using truncate_text_cap [OF assms] by blast
  qed
qed (auto simp: bounded_prev_value_def)

theorem bounded_prev_value_bounded_witness:
  "\<exists>s. bounded_prev_value (\<lambda>_. replicate 600 CHR ''x'') (Some (JArr [])) 512 = JStr s \<and>
     length s \<le> text_cap 512 600"
  using bounded_prev_value_bounded [of 512 "\<lambda>_. replicate 600 CHR ''x''" "JArr []"] by auto

text \<open>The bound does not reach the envelope's \<open>continuation\<close>: whatever the cap and however long
  it is, the embedded copy carries it whole.\<close>

theorem bounded_prev_continuation_unbounded:
  assumes "map_of obj ''envelope'' = Some (JObj env)"
  shows "\<exists>env'. jget (bounded_prev_value ser (Some (JObj obj)) cap) ''envelope'' = Some (JObj env') \<and>
    map_of env' ''continuation'' = map_of env ''continuation''"
proof (cases "length (ser (JObj obj)) > cap")
  case True
  then show ?thesis
    by (cases rule: bounded_prev_object) (use assms in \<open>auto simp: bound_envelope_fields\<close>)
qed (use assms in \<open>auto simp: bounded_prev_value_def\<close>)

theorem bounded_prev_continuation_unbounded_witness:
  "\<exists>env'. jget (bounded_prev_value (\<lambda>_. replicate 200000 CHR ''x'')
       (Some (JObj [(''envelope'', JObj [(''continuation'', JStr (replicate 200000 CHR ''x''))])])) PREV_OUTPUT_BYTES)
     ''envelope'' = Some (JObj env') \<and>
     map_of env' ''continuation'' = Some (JStr (replicate 200000 CHR ''x''))"
  using bounded_prev_continuation_unbounded
    [of "[(''envelope'', JObj [(''continuation'', JStr (replicate 200000 CHR ''x''))])]"
        "[(''continuation'', JStr (replicate 200000 CHR ''x''))]"
        "\<lambda>_. replicate 200000 CHR ''x''" PREV_OUTPUT_BYTES]
  by simp

subsection \<open>Facts about stored outputs and finish events\<close>

lemma finished_summary_cap: "finished_summary tk = Some s \<Longrightarrow> length s \<le> 515"
  using length_tail_truncate [of _ 512]
  by (auto simp: finished_summary_def FINISHED_SUMMARY_BYTES_def ENVELOPE_SUMMARY_BYTES_def Let_def
      split: option.splits)

lemma envelope_from_result_object:
  "envelope_from_result parse r = Some e \<Longrightarrow> \<exists>obj. e = JObj obj"
  by (cases r) (auto simp: envelope_from_result_def split: option.splits json.splits if_splits)

text \<open>Every stored task output is an object that reports the size of the raw text, its capped
  copy and whether it was capped, and an envelope with the five documented keys, whose summary is at
  most 515 bytes; a structured envelope in the agent's result is preferred over a synthesised one.\<close>

theorem build_task_output_shape:
  "let out = build_task_output ser parse raw parsed agent sid title cap in
     jget out ''output_bytes'' = Some (jnat (length raw)) \<and>
     jget out ''output'' = Some (JStr (fst (truncate_text raw cap))) \<and>
     jget out ''truncated'' = Some (JBool (snd (truncate_text raw cap))) \<and>
     (\<exists>env s. jget out ''envelope'' = Some (JObj env) \<and>
        map_of env ''summary'' = Some (JStr s) \<and> length s \<le> 515 \<and>
        (\<forall>k \<in> {''artifacts'', ''findings'', ''outputs'', ''continuation''}. map_of env k \<noteq> None) \<and>
        (\<forall>obj k. envelope_from_result parse parsed = Some (JObj obj) \<and>
           k \<notin> {''summary'', ''artifacts'', ''findings'', ''outputs'', ''continuation''} \<longrightarrow>
           map_of env k = map_of obj k))"
proof -
  define e where "e = (case envelope_from_result parse parsed of Some e \<Rightarrow> e
    | None \<Rightarrow> synthesized_envelope (fst (truncate_text raw cap)))"
  obtain env0 where env0: "normalize_envelope e = JObj env0" "envelope_shape env0"
    using normalize_is_shape by blast
  define env where "env = bound_envelope ser env0 (cap div 2)"
  have keep: "map_of env k = map_of obj k" if "envelope_from_result parse parsed = Some (JObj obj)"
    and k: "k \<notin> {''summary'', ''artifacts'', ''findings'', ''outputs'', ''continuation''}" for obj k
  proof -
    have "e = JObj obj" using that by (simp add: e_def)
    with env0(1) normalize_obj_shape [of obj] k have "map_of env0 k = map_of obj k" by auto
    moreover have "k \<notin> {''artifacts'', ''findings'', ''outputs''}" "k \<noteq> ''summary''" using k by auto
    ultimately show ?thesis by (simp add: env_def bound_envelope_fields del: insert_iff)
  qed
  obtain s where s: "map_of env0 ''summary'' = Some (JStr s)"
    using env0(2) by (auto simp: envelope_shape_def)
  have sum: "map_of env ''summary'' = Some (bound_summary (JStr s))"
    by (simp add: env_def bound_envelope_fields s)
  have sum_cap: "length (tail_truncate s ENVELOPE_SUMMARY_BYTES) \<le> 515"
    using length_tail_truncate [of s ENVELOPE_SUMMARY_BYTES] by (simp add: ENVELOPE_SUMMARY_BYTES_def)
  have keys: "\<forall>k \<in> {''artifacts'', ''findings'', ''outputs'', ''continuation''}. map_of env k \<noteq> None"
    using env0(2) by (auto simp: env_def bound_envelope_fields envelope_shape_def)
  have norm: "(case envelope_from_result parse parsed of
             Some e \<Rightarrow> normalize_envelope e
           | None \<Rightarrow> normalize_envelope (synthesized_envelope (fst (truncate_text raw cap)))) = JObj env0"
    using env0(1) by (simp add: e_def split: option.splits)
  have out: "jget (build_task_output ser parse raw parsed agent sid title cap) ''envelope'' = Some (JObj env)"
    by (simp add: build_task_output_def Let_def split_def norm env_def)
  show ?thesis
    unfolding Let_def
    using out sum sum_cap keys keep
    by (auto simp: build_task_output_def Let_def split_def bound_summary_def)
qed

theorem build_task_output_shape_witness:
  "\<exists>env. jget (build_task_output (\<lambda>_. []) (\<lambda>_. None) ''done'' (JObj [(''summary'', JStr ''s''), (''x'', JNull)])
       None None None 100) ''envelope'' = Some (JObj env) \<and>
     map_of env ''x'' = Some JNull \<and> map_of env ''continuation'' \<noteq> None"
proof -
  have "envelope_from_result (\<lambda>_. None) (JObj [(''summary'', JStr ''s''), (''x'', JNull)])
      = Some (JObj [(''summary'', JStr ''s''), (''x'', JNull)])"
    by code_simp
  moreover obtain env where
    "jget (build_task_output (\<lambda>_. []) (\<lambda>_. None) ''done'' (JObj [(''summary'', JStr ''s''), (''x'', JNull)])
       None None None 100) ''envelope'' = Some (JObj env)"
    "\<forall>k \<in> {''artifacts'', ''findings'', ''outputs'', ''continuation''}. map_of env k \<noteq> None"
    and k: "\<forall>obj k. envelope_from_result (\<lambda>_. None) (JObj [(''summary'', JStr ''s''), (''x'', JNull)]) = Some (JObj obj) \<and>
           k \<notin> {''summary'', ''artifacts'', ''findings'', ''outputs'', ''continuation''} \<longrightarrow>
           map_of env k = map_of obj k"
    using build_task_output_shape [of "\<lambda>_. []" "\<lambda>_. None" "''done''"
      "JObj [(''summary'', JStr ''s''), (''x'', JNull)]" None None None 100]
    unfolding Let_def by (elim conjE exE)
  ultimately show ?thesis
    using k [rule_format, of "[(''summary'', JStr ''s''), (''x'', JNull)]" "''x''"]
    by (intro exI [of _ env]) simp
qed

end
