(* ===== verification/AgentState.thy ===== *)
theory AgentState
  imports Model
begin

text \<open>
  What an agent session reports (\<open>crates/favetto-wire/src/agent_state.rs\<close>), the live snapshot the daemon
  folds from it (\<open>crates/favetto/src/agents/state.rs\<close>), and the debouncer that turns what the terminal
  screen looks like, poll after poll, into the edges the attention tracker acts on
  (\<open>crates/favetto/src/attention.rs\<close>).
\<close>

datatype awaiting_kind = AwPermission | AwConfirmation | AwChoice | AwPinentry | AwOther

record awaiting_reason =
  aw_kind :: awaiting_kind
  aw_message :: string
  aw_request_id :: "string option"
  aw_options :: "string list"
  aw_allow_always :: bool

record input_request =
  iq_id :: string
  iq_kind :: awaiting_kind
  iq_message :: string
  iq_options :: "string list"
  iq_allow_always :: bool

definition reason_of :: "input_request \<Rightarrow> awaiting_reason" where
  "reason_of req = \<lparr>aw_kind = iq_kind req, aw_message = iq_message req, aw_request_id = Some (iq_id req),
     aw_options = iq_options req, aw_allow_always = iq_allow_always req\<rparr>"

datatype agent_activity =
    Starting
  | Thinking
  | Responding
  | ToolActivity string "string option"
  | Waiting input_request
  | IdleActivity
  | ExitedActivity "int option"

datatype message_role = RoleSystem | RoleUser | RoleAssistant | RoleTool

datatype idle_outcome = IdleSucceeded | IdleFailed | IdleInterrupted

datatype agent_event =
    SessionEvent "string option" "string option" "string option"
  | TurnStarted
  | TextDelta message_role string
  | ReasoningDelta string
  | ToolStarted string string json
  | ToolUpdated string json
  | ToolFinished string string bool "json option"
  | InputRequested input_request
  | InputResolved string
  | UsageEvent agent_usage
  | TitleEvent string
  | IdleEvent idle_outcome
  | ErrorEvent string

record live_state =
  lv_activity :: "agent_activity option"
  lv_usage :: "agent_usage option"

fun apply_event :: "(f64 \<Rightarrow> f64 \<Rightarrow> f64) \<Rightarrow> agent_event \<Rightarrow> live_state \<Rightarrow> live_state" where
  "apply_event fadd TurnStarted st = st\<lparr>lv_activity := Some Thinking\<rparr>"
| "apply_event fadd (ReasoningDelta _) st = st\<lparr>lv_activity := Some Thinking\<rparr>"
| "apply_event fadd (TextDelta _ _) st = st\<lparr>lv_activity := Some Responding\<rparr>"
| "apply_event fadd (ToolStarted _ name _) st = st\<lparr>lv_activity := Some (ToolActivity name None)\<rparr>"
| "apply_event fadd (ToolUpdated _ _) st = st"
| "apply_event fadd (ToolFinished _ _ _ _) st = st\<lparr>lv_activity := Some Thinking\<rparr>"
| "apply_event fadd (InputRequested req) st = st\<lparr>lv_activity := Some (Waiting req)\<rparr>"
| "apply_event fadd (InputResolved _) st = st\<lparr>lv_activity := Some IdleActivity\<rparr>"
| "apply_event fadd (IdleEvent _) st = st\<lparr>lv_activity := Some IdleActivity\<rparr>"
| "apply_event fadd (UsageEvent u) st = st\<lparr>lv_usage := Some (usage_merge fadd
     (case lv_usage st of None \<Rightarrow> usage_default | Some v \<Rightarrow> v) u)\<rparr>"
| "apply_event fadd (ErrorEvent _) st = st"
| "apply_event fadd (SessionEvent _ _ _) st = st"
| "apply_event fadd (TitleEvent _) st = st"

subsection \<open>The debouncer\<close>

definition MARK_STREAK :: nat where "MARK_STREAK = 2"
definition CLEAR_STREAK :: nat where "CLEAR_STREAK = 3"

datatype edge = Mark awaiting_reason | Clear

record debouncer =
  db_confirmed :: "awaiting_reason option"
  db_match_streak :: nat
  db_clear_streak :: nat

definition debouncer_default :: debouncer where
  "debouncer_default = \<lparr>db_confirmed = None, db_match_streak = 0, db_clear_streak = 0\<rparr>"

fun observe :: "awaiting_reason option \<Rightarrow> debouncer \<Rightarrow> edge option \<times> debouncer" where
  "observe (Some reason) d =
     (let d = d\<lparr>db_clear_streak := 0\<rparr>
      in if db_confirmed d \<noteq> None
         then (None, d\<lparr>db_match_streak := 0, db_confirmed := Some reason\<rparr>)
         else let n = db_match_streak d + 1
              in if n \<ge> MARK_STREAK
                 then (Some (Mark reason), d\<lparr>db_match_streak := 0, db_confirmed := Some reason\<rparr>)
                 else (None, d\<lparr>db_match_streak := n\<rparr>))"
| "observe None d =
     (let d = d\<lparr>db_match_streak := 0\<rparr>
      in if db_confirmed d = None then (None, d)
         else let n = db_clear_streak d + 1
              in if n \<ge> CLEAR_STREAK
                 then (Some Clear, d\<lparr>db_clear_streak := 0, db_confirmed := None\<rparr>)
                 else (None, d\<lparr>db_clear_streak := n\<rparr>))"

fun observe_all :: "awaiting_reason option list \<Rightarrow> debouncer \<Rightarrow> debouncer" where
  "observe_all [] d = d"
| "observe_all (x # xs) d = observe_all xs (snd (observe x d))"

lemma observe_all_snoc: "observe_all (xs @ [x]) d = snd (observe x (observe_all xs d))"
  by (induction xs arbitrary: d) simp_all

text \<open>The streaks count the last observations: matches while nothing is confirmed, misses while something is.\<close>

definition trailing :: "('a \<Rightarrow> bool) \<Rightarrow> 'a list \<Rightarrow> nat" where
  "trailing P xs = length (takeWhile P (rev xs))"

lemma trailing_snoc: "trailing P (xs @ [x]) = (if P x then trailing P xs + 1 else 0)"
  by (simp add: trailing_def)

lemma trailing_ge:
  "n \<le> trailing P xs \<longleftrightarrow> (\<exists>ys zs. xs = ys @ zs \<and> length zs = n \<and> (\<forall>z \<in> set zs. P z))"
proof
  assume n: "n \<le> trailing P xs"
  let ?t = "takeWhile P (rev xs)"
  have "rev xs = take n ?t @ drop n ?t @ dropWhile P (rev xs)"
    by (metis append_take_drop_id append_assoc takeWhile_dropWhile_id)
  then have "xs = rev (drop n ?t @ dropWhile P (rev xs)) @ rev (take n ?t)" by (metis rev_append rev_rev_ident append_assoc)
  moreover have "\<forall>z \<in> set (rev (take n ?t)). P z" by (auto dest: in_set_takeD set_takeWhileD)
  moreover have "length (rev (take n ?t)) = n" using n by (simp add: trailing_def)
  ultimately show "\<exists>ys zs. xs = ys @ zs \<and> length zs = n \<and> (\<forall>z \<in> set zs. P z)" by blast
next
  assume "\<exists>ys zs. xs = ys @ zs \<and> length zs = n \<and> (\<forall>z \<in> set zs. P z)"
  then obtain ys zs where zs: "xs = ys @ zs" "length zs = n" "\<forall>z \<in> set zs. P z" by blast
  then have "takeWhile P (rev xs) = rev zs @ takeWhile P (rev ys)" using takeWhile_append2 [of "rev zs" P "rev ys"] by simp
  then show "n \<le> trailing P xs" using zs(2) by (simp add: trailing_def)
qed

definition debounced :: "awaiting_reason option list \<Rightarrow> debouncer \<Rightarrow> bool" where
  "debounced xs d \<longleftrightarrow>
     (case db_confirmed d of
        None \<Rightarrow> db_match_streak d = trailing (\<lambda>x. x \<noteq> None) xs \<and> trailing (\<lambda>x. x \<noteq> None) xs < MARK_STREAK
      | Some r \<Rightarrow> db_match_streak d = 0 \<and> db_clear_streak d = trailing (\<lambda>x. x = None) xs \<and>
          trailing (\<lambda>x. x = None) xs < CLEAR_STREAK \<and>
          (\<exists>ys. xs = ys @ Some r # replicate (db_clear_streak d) None)) \<and>
     (db_confirmed d = None \<longrightarrow> db_clear_streak d = 0)"

lemma debounced_step: "debounced xs d \<Longrightarrow> debounced (xs @ [x]) (snd (observe x d))"
  by (cases x; cases "db_confirmed d")
     (auto simp: debounced_def trailing_snoc MARK_STREAK_def CLEAR_STREAK_def Let_def replicate_append_same
        simp flip: replicate_Suc)

lemma debounced_all: "debounced xs (observe_all xs debouncer_default)"
proof (induction xs rule: rev_induct)
  case Nil
  then show ?case by (simp add: debounced_def debouncer_default_def trailing_def MARK_STREAK_def)
next
  case (snoc x xs)
  then show ?case by (simp add: observe_all_snoc debounced_step)
qed

text \<open>Over any sequence of polls, the debouncer marks exactly at the second of two consecutive matches while
  nothing is confirmed, clears exactly at the third of three consecutive misses while something is, and
  in between stays with the last reason it saw; so no single frame raises or clears the signal.\<close>

theorem debouncer_hysteresis:
  fixes xs :: "awaiting_reason option list" and x :: "awaiting_reason option"
  defines "d \<equiv> observe_all xs debouncer_default"
  shows "(fst (observe x d) = Some (Mark r) \<longleftrightarrow>
      db_confirmed d = None \<and> x = Some r \<and> (\<exists>ys zs. xs @ [x] = ys @ zs \<and> length zs = 2 \<and> None \<notin> set zs)) \<and>
    (fst (observe x d) = Some Clear \<longleftrightarrow>
      db_confirmed d \<noteq> None \<and> (\<exists>ys. xs @ [x] = ys @ [None, None, None])) \<and>
    (fst (observe x d) = None \<longrightarrow> (db_confirmed (snd (observe x d)) = None \<longleftrightarrow> db_confirmed d = None)) \<and>
    (\<forall>r. db_confirmed d = Some r \<longrightarrow> (\<exists>ys k. k < 3 \<and> xs = ys @ Some r # replicate k None))"
proof -
  have d: "debounced xs d" unfolding d_def by (rule debounced_all)
  have miss: "trailing (\<lambda>x. x = None) (xs @ [x]) \<ge> 3 \<longleftrightarrow> (\<exists>ys. xs @ [x] = ys @ [None, None, None])"
  proof
    show "\<exists>ys. xs @ [x] = ys @ [None, None, None]" if "trailing (\<lambda>x. x = None) (xs @ [x]) \<ge> 3"
      using that unfolding trailing_ge by (auto simp: eval_nat_numeral length_Suc_conv)
    show "trailing (\<lambda>x. x = None) (xs @ [x]) \<ge> 3" if "\<exists>ys. xs @ [x] = ys @ [None, None, None]"
      using that by (auto simp: trailing_def)
  qed
  have match: "trailing (\<lambda>x. x \<noteq> None) (xs @ [x]) \<ge> 2 \<longleftrightarrow>
      (\<exists>ys zs. xs @ [x] = ys @ zs \<and> length zs = 2 \<and> None \<notin> set zs)"
    unfolding trailing_ge by metis
  have "\<exists>ys k. k < 3 \<and> xs = ys @ Some r # replicate k None" if "db_confirmed d = Some r" for r
  proof -
    from d that obtain ys where "xs = ys @ Some r # replicate (db_clear_streak d) None" "db_clear_streak d < 3"
      by (auto simp: debounced_def CLEAR_STREAK_def)
    then show ?thesis by blast
  qed
  then show ?thesis
    unfolding miss [symmetric] match [symmetric] using d
    by (cases x; cases "db_confirmed d")
       (auto simp: debounced_def trailing_snoc MARK_STREAK_def CLEAR_STREAK_def Let_def)
qed

definition sample_reason :: awaiting_reason where
  "sample_reason = \<lparr>aw_kind = AwPermission, aw_message = ''allow edit?'', aw_request_id = None, aw_options = [],
     aw_allow_always = False\<rparr>"

theorem debouncer_hysteresis_witness:
  "fst (observe (Some sample_reason) (observe_all [None, Some sample_reason] debouncer_default)) = Some (Mark sample_reason)"
proof -
  have "db_confirmed (observe_all [None, Some sample_reason] debouncer_default) = None"
    by (simp add: debouncer_default_def MARK_STREAK_def)
  moreover have "\<exists>ys zs. [None, Some sample_reason] @ [Some sample_reason] = ys @ zs \<and> length zs = 2 \<and> None \<notin> set zs"
    by (rule exI [of _ "[None]"], rule exI [of _ "[Some sample_reason, Some sample_reason]"]) simp
  ultimately show ?thesis
    using debouncer_hysteresis [where xs = "[None, Some sample_reason]" and x = "Some sample_reason" and r = sample_reason]
    by blast
qed

end
