(* ===== verification/Daemon.thy ===== *)
theory Daemon
  imports EventBus Keyed Catalog Settings Output AgentState
begin

text \<open>
  The daemon's shared state (\<open>crates/favetto/src/state.rs\<close>) as its handlers use it: the database, the
  pushes published on the bus so far, the metrics, the catalog, the configuration, and what the
  environment will answer: whether each further database or file operation fails, the ids that
  \<open>Uuid::new_v4\<close> will return, the files, the git commands run so far with the exit codes git will
  give, the tasks whose agent sessions were told to close, and the agent sessions with what each waits for.  A handler is a state-monad program that mirrors the
  source call by call; it may be interleaved with others only between programs.
\<close>

datatype git_cmd =
    GitWorktreeAdd string string string
  | GitWorktreeRemove string string
  | GitWorktreePrune string
  | GitBranchDelete string string

record daemon =
  dn_db :: db
  dn_pushes :: "server_push list"
  dn_tasks_total :: nat
  dn_events_total :: nat
  dn_catalog :: "task_def list"
  dn_cfg :: executor_settings
  dn_faults :: "bool list"
  dn_uuids :: "uuid list"
  dn_files :: "(string \<times> string) list"
  dn_git :: "git_cmd list"
  dn_git_answers :: "bool list"
  dn_closed :: "uuid list"
  dn_sessions :: "(string \<times> awaiting_reason option) list"

type_synonym 'a handler = "(daemon, 'a) prog"

text \<open>A failing call has no effect; when the script is used up, no further call fails.\<close>

definition take_fault :: "bool handler" where
  "take_fault = State (\<lambda>s. case dn_faults s of
     [] \<Rightarrow> (False, s) | f # fs \<Rightarrow> (f, s\<lparr>dn_faults := fs\<rparr>))"

definition db_call :: "(db \<Rightarrow> 'a \<times> db) \<Rightarrow> 'a option handler" where
  "db_call f = do {
     failed \<leftarrow> take_fault;
     if failed then ret None
     else State (\<lambda>s. let (x, d) = f (dn_db s) in (Some x, s\<lparr>dn_db := d\<rparr>)) }"

abbreviation db_read :: "(db \<Rightarrow> 'a) \<Rightarrow> 'a option handler" where
  "db_read f \<equiv> db_call (\<lambda>d. (f d, d))"

abbreviation db_exec :: "(db \<Rightarrow> db) \<Rightarrow> unit option handler" where
  "db_exec f \<equiv> db_call (\<lambda>d. ((), f d))"

definition publish :: "server_push \<Rightarrow> unit handler" where
  "publish p = modify (\<lambda>s. s\<lparr>dn_pushes := dn_pushes s @ [p]\<rparr>)"

definition inc_tasks :: "unit handler" where
  "inc_tasks = modify (\<lambda>s. s\<lparr>dn_tasks_total := dn_tasks_total s + 1\<rparr>)"

definition inc_events :: "unit handler" where
  "inc_events = modify (\<lambda>s. s\<lparr>dn_events_total := dn_events_total s + 1\<rparr>)"

text \<open>Running a git command: it is logged, and succeeds unless the environment says otherwise.\<close>

definition git :: "git_cmd \<Rightarrow> bool handler" where
  "git c = State (\<lambda>s. case dn_git_answers s of
     [] \<Rightarrow> (True, s\<lparr>dn_git := dn_git s @ [c]\<rparr>)
   | a # as \<Rightarrow> (a, s\<lparr>dn_git := dn_git s @ [c], dn_git_answers := as\<rparr>))"

text \<open>\<open>agents.close_by_task\<close>: the agent sessions of the task are terminated.\<close>

definition close_by_task :: "uuid \<Rightarrow> unit handler" where
  "close_by_task tid = modify (\<lambda>s. s\<lparr>dn_closed := dn_closed s @ [tid]\<rparr>)"

text \<open>\<open>agents.set_awaiting_input\<close>: the slot of a session that exists.\<close>

definition set_awaiting_input :: "string \<Rightarrow> awaiting_reason option \<Rightarrow> unit handler" where
  "set_awaiting_input sid reason = modify (\<lambda>s. s\<lparr>dn_sessions :=
     map (\<lambda>(k, r). (k, if k = sid then reason else r)) (dn_sessions s)\<rparr>)"

text \<open>What the handlers ask the environment without changing it.\<close>

record env =
  env_live :: "uuid \<Rightarrow> bool"
  env_toplevel :: "string \<Rightarrow> string option"
  env_worktree_list :: "string \<Rightarrow> string option"
  env_branch_list :: "string \<Rightarrow> string option"
  env_path_exists :: "string \<Rightarrow> bool"
  env_parse_uuid :: "string \<Rightarrow> uuid option"
  env_current_dir :: "string option"
  env_home :: "string option"
  env_data_dir :: string

text \<open>\<open>serde_json\<close>.\<close>

record serde =
  sd_ser :: "json \<Rightarrow> string"
  sd_parse :: "string \<Rightarrow> json option"
  sd_pointer :: "json \<Rightarrow> string \<Rightarrow> json option"

definition nil_uuid :: uuid where
  "nil_uuid = ''00000000-0000-0000-0000-000000000000''"

definition new_uuid :: "uuid handler" where
  "new_uuid = State (\<lambda>s. case dn_uuids s of
     [] \<Rightarrow> (nil_uuid, s) | u # us \<Rightarrow> (u, s\<lparr>dn_uuids := us\<rparr>))"

text \<open>\<open>State::emit_event\<close>: persist first, publish only what was persisted.\<close>

definition emit_event :: "time \<Rightarrow> event_kind \<Rightarrow> json \<Rightarrow> unit handler" where
  "emit_event now kind payload = do {
     let e = \<lparr>e_id = 0, e_kind = kind, e_payload = payload, e_created_at = now\<rparr>;
     r \<leftarrow> db_call (insert_event e);
     case r of
       Some n \<Rightarrow> do { inc_events; publish (PEvent (e\<lparr>e_id := n\<rparr>)) }
     | None \<Rightarrow> ret () }"

text \<open>A daemon at rest on a database, and an environment in which nothing exists, for concrete instances.\<close>

definition idle_daemon :: "db \<Rightarrow> daemon" where
  "idle_daemon d = \<lparr>dn_db = d, dn_pushes = [], dn_tasks_total = 0, dn_events_total = 0, dn_catalog = [],
     dn_cfg = default_executor, dn_faults = [], dn_uuids = [], dn_files = [], dn_git = [], dn_git_answers = [],
     dn_closed = [], dn_sessions = []\<rparr>"

definition quiet_env :: env where
  "quiet_env = \<lparr>env_live = (\<lambda>_. False), env_toplevel = (\<lambda>_. None), env_worktree_list = (\<lambda>_. None),
     env_branch_list = (\<lambda>_. None), env_path_exists = (\<lambda>_. False), env_parse_uuid = Some,
     env_current_dir = None, env_home = None, env_data_dir = ''/data''\<rparr>"

subsection \<open>Running handlers\<close>

lemma run_bind [run_simps]: "run_state (m \<bind> f) s = (case run_state m s of (x, s') \<Rightarrow> run_state (f x) s')"
  by simp

lemma run_db_call_ok [run_simps]:
  "dn_faults s = [] \<Longrightarrow>
   run_state (db_call f) s = (Some (fst (f (dn_db s))), s\<lparr>dn_db := snd (f (dn_db s))\<rparr>)"
  by (simp add: db_call_def take_fault_def split_def Let_def)

lemma run_db_call_fault:
  "dn_faults s = True # fs \<Longrightarrow> run_state (db_call f) s = (None, s\<lparr>dn_faults := fs\<rparr>)"
  by (simp add: db_call_def take_fault_def)

lemma run_db_call_pass:
  "dn_faults s = False # fs \<Longrightarrow>
   run_state (db_call f) s = (Some (fst (f (dn_db s))), s\<lparr>dn_faults := fs, dn_db := snd (f (dn_db s))\<rparr>)"
  by (simp add: db_call_def take_fault_def split_def Let_def)

lemma run_publish [run_simps]: "run_state (publish p) s = ((), s\<lparr>dn_pushes := dn_pushes s @ [p]\<rparr>)"
  by (simp add: publish_def)

lemma run_inc_tasks [run_simps]: "run_state inc_tasks s = ((), s\<lparr>dn_tasks_total := dn_tasks_total s + 1\<rparr>)"
  by (simp add: inc_tasks_def)

lemma run_inc_events [run_simps]: "run_state inc_events s = ((), s\<lparr>dn_events_total := dn_events_total s + 1\<rparr>)"
  by (simp add: inc_events_def)

lemma run_close_by_task [run_simps]: "run_state (close_by_task tid) s = ((), s\<lparr>dn_closed := dn_closed s @ [tid]\<rparr>)"
  by (simp add: close_by_task_def)

lemma run_set_awaiting_input [run_simps]:
  "run_state (set_awaiting_input sid reason) s =
     ((), s\<lparr>dn_sessions := map (\<lambda>(k, r). (k, if k = sid then reason else r)) (dn_sessions s)\<rparr>)"
  by (simp add: set_awaiting_input_def)

lemma run_emit_event [run_simps]:
  "dn_faults s = [] \<Longrightarrow>
   run_state (emit_event now kind payload) s =
     (let n = event_seq (dn_db s) + 1;
          e = \<lparr>e_id = n, e_kind = kind, e_payload = payload, e_created_at = now\<rparr>
      in ((), s\<lparr>dn_db := (dn_db s)\<lparr>events := events (dn_db s) @ [e], event_seq := n\<rparr>,
               dn_events_total := dn_events_total s + 1, dn_pushes := dn_pushes s @ [PEvent e]\<rparr>))"
  by (simp add: emit_event_def run_simps insert_event_def Let_def)

subsection \<open>Invariants of handlers\<close>

text \<open>
  An invariant of the database and the bus is kept by a database call whose query keeps it, and by
  everything that touches neither.
\<close>

definition db_inv :: "(db \<Rightarrow> bool) \<Rightarrow> daemon \<Rightarrow> bool" where
  "db_inv I s \<longleftrightarrow> I (dn_db s)"

lemma keeps_db_call:
  assumes "\<And>d. I d \<Longrightarrow> I (snd (f d))"
  shows "keeps (db_inv I) (db_call f)"
  using assms unfolding db_call_def take_fault_def
  by (intro keepsI) (auto simp: db_inv_def split_def Let_def split: list.splits)

lemma keeps_db_read [keeps_intros]: "keeps (db_inv I) (db_call (\<lambda>d. (f d, d)))"
  by (rule keeps_db_call) simp

lemma keeps_bus [keeps_intros]:
  "keeps (db_inv I) (publish p)" "keeps (db_inv I) inc_tasks" "keeps (db_inv I) inc_events"
  "keeps (db_inv I) take_fault" "keeps (db_inv I) new_uuid" "keeps (db_inv I) (close_by_task tid)"
  "keeps (db_inv I) (set_awaiting_input sid reason)"
  by (auto simp: close_by_task_def set_awaiting_input_def publish_def inc_tasks_def inc_events_def take_fault_def new_uuid_def db_inv_def
      intro!: keepsI split: list.splits)

lemma keeps_emit_event [keeps_intros]:
  assumes "\<And>e d. I d \<Longrightarrow> I (snd (insert_event e d))"
  shows "keeps (db_inv I) (emit_event now kind payload)"
  unfolding emit_event_def Let_def by (intro keeps_intros keeps_db_call) (rule assms)

text \<open>The database as a whole, followed through a handler: reads keep it and may fail.\<close>

lemma yields_db_call:
  assumes fault: "\<And>s fs. P s \<Longrightarrow> Q None (s\<lparr>dn_faults := fs\<rparr>)"
    and pass: "\<And>s fs. P s \<Longrightarrow> Q (Some (fst (f (dn_db s)))) (s\<lparr>dn_faults := fs, dn_db := snd (f (dn_db s))\<rparr>)"
  shows "yields P (db_call f) Q"
proof (rule yieldsI)
  fix s assume P: "P s"
  show "Q (fst (run_state (db_call f) s)) (snd (run_state (db_call f) s))"
  proof (cases "dn_faults s")
    case Nil
    have "s\<lparr>dn_faults := dn_faults s, dn_db := x\<rparr> = s\<lparr>dn_db := x\<rparr>" for x by simp
    with pass [OF P, of "dn_faults s"] show ?thesis by (simp only: run_db_call_ok [OF Nil] fst_conv snd_conv)
  next
    case (Cons x fs)
    with fault [OF P, of fs] pass [OF P, of fs] show ?thesis
      by (cases x) (auto simp: run_db_call_fault run_db_call_pass)
  qed
qed

text \<open>Every published event is a row of the log, under the id it was published with.\<close>

definition bus_durable :: "daemon \<Rightarrow> bool" where
  "bus_durable s \<longleftrightarrow> (\<forall>e. PEvent e \<in> set (dn_pushes s) \<longrightarrow> e \<in> set (events (dn_db s)))"

lemma emit_event_durable:
  assumes "bus_durable s"
  shows "bus_durable (snd (run_state (emit_event now kind payload) s))"
  using assms
  by (auto simp: emit_event_def db_call_def take_fault_def publish_def inc_events_def insert_event_def
      bus_durable_def Let_def split: list.splits)

text \<open>An event reaches subscribers only after it was persisted, under the id of its row; when the
  insert fails, nothing is published, and the log and the bus are as before.\<close>

theorem emit_event_persists_first:
  fixes s :: daemon and now :: time and kind :: event_kind and payload :: json
  defines "s' \<equiv> snd (run_state (emit_event now kind payload) s)"
  shows "(dn_pushes s' = dn_pushes s \<and> dn_db s' = dn_db s) \<or>
    (\<exists>e. dn_pushes s' = dn_pushes s @ [PEvent e] \<and> events (dn_db s') = events (dn_db s) @ [e] \<and>
       e_id e = event_seq (dn_db s) + 1 \<and> event_seq (dn_db s') = e_id e \<and>
       e_kind e = kind \<and> e_payload e = payload)"
  by (auto simp: s'_def emit_event_def db_call_def take_fault_def publish_def inc_events_def
      insert_event_def Let_def split: list.splits)

end
