(* ===== verification/Worktrees.thy ===== *)
theory Worktrees
  imports Daemon "HOL-Library.Product_Lexorder"
begin

text \<open>
  Git worktrees, \<open>crates/favetto/src/executor.rs\<close> (and \<open>paths.rs\<close>): the directory and branch of a
  task, the plan of a run, retention of tracked worktrees and the sweep of untracked ones.  The git
  commands themselves are external: the trace \<open>dn_git\<close> lists what is run, and an \<open>env\<close> answers the
  queries.  A path is its text; two texts with the same components denote the same path.
\<close>

subsection \<open>Paths\<close>

definition is_absolute :: "string \<Rightarrow> bool" where
  "is_absolute p \<longleftrightarrow> prefix ''/'' p"

text \<open>\<open>Path::join\<close>.\<close>

definition join_path :: "string \<Rightarrow> string \<Rightarrow> string" where
  "join_path base p =
     (if is_absolute p \<or> base = [] then p
      else if last base = CHR ''/'' then base @ p else base @ ''/'' @ p)"

text \<open>\<open>Path::starts_with\<close>: whole components.\<close>

definition path_starts_with :: "string \<Rightarrow> string \<Rightarrow> bool" where
  "path_starts_with p root \<longleftrightarrow>
     is_absolute p = is_absolute root \<and> prefix (components root) (components p)"

definition file_name :: "string \<Rightarrow> string option" where
  "file_name p = (case rev (components p) of Normal n # _ \<Rightarrow> Some n | _ \<Rightarrow> None)"

fun component_text :: "path_component \<Rightarrow> string" where
  "component_text CurDir = ''.''"
| "component_text ParentDir = ''..''"
| "component_text (Normal s) = s"

definition expand_tilde :: "string option \<Rightarrow> string \<Rightarrow> string" where
  "expand_tilde home p =
     (case (is_absolute p, components p) of
        (False, Normal t # rest) \<Rightarrow>
          if t \<noteq> ''~'' then p
          else (case home of None \<Rightarrow> p
                | Some h \<Rightarrow> if rest = [] then h else join_path h (join ''/'' (map component_text rest)))
      | _ \<Rightarrow> p)"

subsection \<open>Names\<close>

definition slug_char :: "char \<Rightarrow> char" where
  "slug_char c = (if is_ascii_alnum c \<or> c = CHR ''-'' \<or> c = CHR ''_'' then c else CHR ''-'')"

text \<open>\<open>name.chars()\<close>: one slug character per character, that is per byte that begins one.\<close>

definition branch_name :: "task \<Rightarrow> string" where
  "branch_name t = ''favetto/'' @ take 40 (map slug_char (lead_bytes (t_name t))) @ ''-'' @ take 8 (t_id t)"

definition task_id_prefix :: "uuid \<Rightarrow> string" where
  "task_id_prefix tid = take 8 tid"

definition branch_suffix :: "string \<Rightarrow> string option" where
  "branch_suffix branch =
     (case strip_prefix ''favetto/'' branch of None \<Rightarrow> None
      | Some rest \<Rightarrow>
          (case rsplit_once CHR ''-'' rest of None \<Rightarrow> None
           | Some (_, sfx) \<Rightarrow> if length sfx = 8 \<and> list_all is_hexdigit sfx then Some sfx else None))"

text \<open>The canonical text of a UUID begins with eight hexadecimal digits.\<close>

definition is_uuid :: "uuid \<Rightarrow> bool" where
  "is_uuid u \<longleftrightarrow> length u = 36 \<and> list_all is_hexdigit (take 8 u)"

lemma hexdigit_not_dash: "is_hexdigit c \<Longrightarrow> c \<noteq> CHR ''-''"
  by (auto simp: is_hexdigit_def is_digit_def)

text \<open>The sweep recovers from a worktree branch exactly the id prefix of the task it was created
  for, whatever the task is called.\<close>

theorem branch_suffix_roundtrip:
  assumes "is_uuid (t_id t)"
  shows "branch_suffix (branch_name t) = Some (task_id_prefix (t_id t))"
proof -
  have hex: "list_all is_hexdigit (take 8 (t_id t))" and len: "length (take 8 (t_id t)) = 8"
    using assms by (simp_all add: is_uuid_def)
  have "CHR ''-'' \<notin> set (take 8 (t_id t))"
    using hex hexdigit_not_dash by (auto simp: list_all_iff)
  then have "rsplit_once CHR ''-'' (take 40 (map slug_char (lead_bytes (t_name t))) @ ''-'' @ take 8 (t_id t))
      = Some (take 40 (map slug_char (lead_bytes (t_name t))), take 8 (t_id t))"
    by (simp add: rsplit_once_Some)
  with hex len show ?thesis
    by (simp add: branch_suffix_def branch_name_def task_id_prefix_def strip_prefix_def)
qed

theorem branch_suffix_roundtrip_witness:
  "branch_suffix (branch_name (sample_task ''0a1b2c3d-0000-4000-8000-000000000000'' ''ops/night-ly'')) = Some ''0a1b2c3d''"
proof -
  have "is_uuid (t_id (sample_task ''0a1b2c3d-0000-4000-8000-000000000000'' ''ops/night-ly''))"
    unfolding sample_task_def by code_simp
  then show ?thesis
    using branch_suffix_roundtrip by (simp add: task_id_prefix_def sample_task_def)
qed


text \<open>The order of paths: component by component, an absolute one first.\<close>

fun component_rank :: "path_component \<Rightarrow> nat" where
  "component_rank CurDir = 0"
| "component_rank ParentDir = 1"
| "component_rank (Normal s) = 2"

lemma component_key_inj:
  "component_rank a = component_rank b \<Longrightarrow> component_text a = component_text b \<Longrightarrow> a = b"
  by (cases a; cases b) simp_all

instantiation path_component :: linorder
begin

definition less_eq_path_component :: "path_component \<Rightarrow> path_component \<Rightarrow> bool" where
  "less_eq_path_component a b \<longleftrightarrow>
     (component_rank a, component_text a) \<le> (component_rank b, component_text b)"

definition less_path_component :: "path_component \<Rightarrow> path_component \<Rightarrow> bool" where
  "less_path_component a b \<longleftrightarrow>
     (component_rank a, component_text a) < (component_rank b, component_text b)"

instance
  by standard
     (auto simp: less_eq_path_component_def less_path_component_def intro: component_key_inj)

end

definition path_key :: "string \<Rightarrow> bool \<times> path_component list" where
  "path_key p = (\<not> is_absolute p, components p)"

fun dedup_paths :: "string list \<Rightarrow> string list" where
  "dedup_paths (a # b # ps) =
     (if path_key a = path_key b then dedup_paths (a # ps) else a # dedup_paths (b # ps))"
| "dedup_paths ps = ps"

subsection \<open>Creating and removing worktrees\<close>

record worktree =
  w_repo :: string
  w_path' :: string
  w_branch :: string

record plan =
  pl_cwd :: string
  pl_needs_lock :: bool
  pl_worktree :: "worktree option"

definition worktree_root :: "env \<Rightarrow> executor_settings \<Rightarrow> string \<Rightarrow> string" where
  "worktree_root env cfg repo =
     (let root = (case map_option (expand_tilde (env_home env)) (worktree_dir cfg) of
                    Some r \<Rightarrow> r | None \<Rightarrow> join_path (env_data_dir env) ''worktrees'')
      in if is_absolute root then root else join_path repo root)"

definition worktree_path :: "env \<Rightarrow> executor_settings \<Rightarrow> string \<Rightarrow> task \<Rightarrow> string" where
  "worktree_path env cfg repo t = join_path (worktree_root env cfg repo) (t_id t)"

text \<open>\<open>create_worktree\<close>: an existing directory is reused; creating its parent may fail.\<close>

definition create_worktree :: "env \<Rightarrow> string \<Rightarrow> string \<Rightarrow> string \<Rightarrow> bool handler" where
  "create_worktree env repo path branch =
     (if env_path_exists env path then ret True
      else do {
        mkdir_failed \<leftarrow> take_fault;
        if mkdir_failed then ret False else git (GitWorktreeAdd repo branch path) })"

definition delete_branch :: "string \<Rightarrow> string \<Rightarrow> bool handler" where
  "delete_branch repo branch = git (GitBranchDelete repo branch)"

definition prune_repo :: "string \<Rightarrow> unit handler" where
  "prune_repo repo = do { _ \<leftarrow> git (GitWorktreePrune repo); ret () }"

definition remove_worktree :: "uuid \<Rightarrow> string \<Rightarrow> string \<Rightarrow> string \<Rightarrow> unit handler" where
  "remove_worktree tid repo path branch = do {
     _ \<leftarrow> git (GitWorktreeRemove repo path);
     prune_repo repo;
     ok \<leftarrow> delete_branch repo branch;
     (if ok then ret () else do { prune_repo repo; _ \<leftarrow> delete_branch repo branch; ret () });
     _ \<leftarrow> db_exec (forget_worktree tid);
     ret () }"

text \<open>A plan, or \<open>None\<close> when the worktree could not be set up.\<close>

definition make_plan :: "env \<Rightarrow> time \<Rightarrow> string \<Rightarrow> task \<Rightarrow> bool \<Rightarrow> plan option handler" where
  "make_plan env now base t worktree_enabled = do {
     cfg \<leftarrow> gets dn_cfg;
     let in_base = \<lparr>pl_cwd = base, pl_needs_lock = True, pl_worktree = None\<rparr>;
     if worktree_enabled \<and> parallel cfg \<and> worktree_on cfg then
       (case env_toplevel env base of
          None \<Rightarrow> ret (Some in_base)
        | Some repo \<Rightarrow> do {
            let path = worktree_path env cfg repo t;
            let branch = branch_name t;
            created \<leftarrow> create_worktree env repo path branch;
            if \<not> created then ret None
            else do {
              _ \<leftarrow> db_exec (record_worktree \<lparr>wt_task = t_id t, wt_repo = repo, wt_path = path,
                     wt_branch = branch, wt_created_at = now\<rparr>);
              ret (Some \<lparr>pl_cwd = path, pl_needs_lock = False,
                pl_worktree = Some \<lparr>w_repo = repo, w_path' = path, w_branch = branch\<rparr>\<rparr>) }})
     else ret (Some in_base) }"

subsection \<open>Retention of tracked worktrees\<close>

definition age_candidate ::
  "(uuid \<Rightarrow> (task_status \<times> time option) option) \<Rightarrow> time option \<Rightarrow> bool \<Rightarrow> worktree_record \<Rightarrow>
   (time \<times> worktree_record) option"
where
  "age_candidate owners cutoff keep r =
     (case owners (wt_task r) of
        None \<Rightarrow> None
      | Some (st, finished_at) \<Rightarrow>
          if \<not> is_terminal st \<or> \<not> keep then None
          else (case cutoff of
                  None \<Rightarrow> None
                | Some c \<Rightarrow>
                    let when = (case finished_at of Some f \<Rightarrow> f | None \<Rightarrow> wt_created_at r)
                    in if when < c then Some (when, r) else None))"

definition select_prunable ::
  "worktree_record list \<Rightarrow> (uuid \<Rightarrow> (task_status \<times> time option) option) \<Rightarrow> time option \<Rightarrow> bool \<Rightarrow> nat \<Rightarrow>
   worktree_record list"
where
  "select_prunable records owners cutoff keep newest =
     (let unconditional = filter (\<lambda>r. case owners (wt_task r) of
              None \<Rightarrow> True
            | Some (st, _) \<Rightarrow> is_terminal st \<and> \<not> keep) records;
          age_candidates = List.map_filter (age_candidate owners cutoff keep) records;
          aged = map snd (drop newest (sort_key (\<lambda>(when, _). - when) age_candidates))
      in retain_first wt_task [] (unconditional @ aged))"

definition prunable :: "(uuid \<Rightarrow> (task_status \<times> time option) option) \<Rightarrow> worktree_record \<Rightarrow> bool" where
  "prunable owners r \<longleftrightarrow> (case owners (wt_task r) of None \<Rightarrow> True | Some (st, _) \<Rightarrow> is_terminal st)"

lemma age_candidate_Some: "age_candidate owners cutoff keep r = Some p \<Longrightarrow> snd p = r \<and> prunable owners r"
  by (auto simp: age_candidate_def prunable_def Let_def split: option.splits if_splits)

lemma set_map_filter: "set (List.map_filter f xs) = {y. \<exists>x \<in> set xs. f x = Some y}"
  by (induction xs) (auto simp: List.map_filter_def)

text \<open>Retention only ever selects tracked worktrees whose task is gone or has ended, each task once;
  every orphan is selected, and with \<open>keep_worktree\<close> off so is every ended task's worktree.\<close>

theorem select_prunable_spares_active:
  "(\<forall>r \<in> set (select_prunable records owners cutoff keep n). r \<in> set records \<and> prunable owners r) \<and>
   distinct (map wt_task (select_prunable records owners cutoff keep n)) \<and>
   (\<forall>r \<in> set records. (owners (wt_task r) = None \<or> (\<not> keep \<and> prunable owners r)) \<longrightarrow>
      wt_task r \<in> wt_task ` set (select_prunable records owners cutoff keep n))"
proof -
  define un where "un = filter (\<lambda>r. case owners (wt_task r) of
              None \<Rightarrow> True
            | Some (st, _) \<Rightarrow> is_terminal st \<and> \<not> keep) records"
  define age where "age = List.map_filter (age_candidate owners cutoff keep) records"
  define aged where "aged = map snd (drop n (sort_key (\<lambda>(when, _). - when) age))"
  have sel: "select_prunable records owners cutoff keep n = retain_first wt_task [] (un @ aged)"
    by (simp add: select_prunable_def un_def age_def aged_def)
  have un: "set un \<subseteq> {r \<in> set records. prunable owners r}"
    by (auto simp: un_def prunable_def split: option.splits)
  have "snd ` set age \<subseteq> {r \<in> set records. prunable owners r}"
    using age_candidate_Some by (fastforce simp: age_def set_map_filter)
  moreover have "set aged \<subseteq> snd ` set age"
    using set_drop_subset [of n "sort_key (\<lambda>(when, _). - when) age"] by (auto simp: aged_def)
  ultimately have "set (un @ aged) \<subseteq> {r \<in> set records. prunable owners r}" using un by auto
  then have "\<forall>r \<in> set (retain_first wt_task [] (un @ aged)). r \<in> set records \<and> prunable owners r"
    using retain_first_subset [of wt_task "[]" "un @ aged"] by blast
  moreover have "r \<in> set un" if "r \<in> set records" "owners (wt_task r) = None \<or> (\<not> keep \<and> prunable owners r)" for r
    using that by (auto simp: un_def prunable_def split: option.splits)
  moreover have "wt_task ` set (retain_first wt_task [] (un @ aged)) = wt_task ` set (un @ aged)"
    by (simp add: retain_first_keys)
  ultimately show ?thesis
    unfolding sel using retain_first_distinct by auto
qed


theorem select_prunable_spares_active_witness:
  "''o'' \<in> wt_task ` set (select_prunable
      [\<lparr>wt_task = ''r'', wt_repo = ''/w'', wt_path = ''/p'', wt_branch = ''b'', wt_created_at = 0\<rparr>,
       \<lparr>wt_task = ''o'', wt_repo = ''/w'', wt_path = ''/q'', wt_branch = ''c'', wt_created_at = 0\<rparr>]
      ((\<lambda>_. None)(''r'' := Some (Running, None))) None False 0)"
  using select_prunable_spares_active
    [of "[\<lparr>wt_task = ''r'', wt_repo = ''/w'', wt_path = ''/p'', wt_branch = ''b'', wt_created_at = 0\<rparr>,
       \<lparr>wt_task = ''o'', wt_repo = ''/w'', wt_path = ''/q'', wt_branch = ''c'', wt_created_at = 0\<rparr>]"
      "(\<lambda>_. None)(''r'' := Some (Running, None))" None False 0]
  by simp

subsection \<open>The sweep\<close>

record sweep_stats =
  branches_removed :: nat
  worktrees_removed :: nat

definition sweep_default :: sweep_stats where
  "sweep_default = \<lparr>branches_removed = 0, worktrees_removed = 0\<rparr>"

text \<open>The blocks of \<open>git worktree list --porcelain\<close>.\<close>

fun parse_entries :: "(string \<times> string option) list \<Rightarrow> string list \<Rightarrow> (string \<times> string option) list" where
  "parse_entries entries [] = entries"
| "parse_entries entries (line # ls) =
     (case strip_prefix ''worktree '' line of
        Some path \<Rightarrow> parse_entries (entries @ [(path, None)]) ls
      | None \<Rightarrow>
          (case strip_prefix ''branch refs/heads/'' line of
             Some branch \<Rightarrow> parse_entries
               (if entries = [] then [] else butlast entries @ [(fst (last entries), Some branch)]) ls
           | None \<Rightarrow> parse_entries entries ls))"

text \<open>Which listed worktrees the sweep looks at, and which of those an active owner keeps.\<close>

definition sweep_skips :: "string \<Rightarrow> string set \<Rightarrow> string \<Rightarrow> string \<Rightarrow> bool" where
  "sweep_skips root tracked path branch \<longleftrightarrow>
     \<not> prefix ''favetto/'' branch \<or> \<not> path_starts_with path root \<or> branch \<in> tracked"

definition suffix_active :: "string set \<Rightarrow> string \<Rightarrow> bool" where
  "suffix_active active branch \<longleftrightarrow> (case branch_suffix branch of None \<Rightarrow> False | Some p \<Rightarrow> p \<in> active)"

definition entry_task :: "env \<Rightarrow> string \<Rightarrow> uuid option" where
  "entry_task env path = Option.bind (file_name path) (env_parse_uuid env)"

definition entry_owned :: "env \<Rightarrow> string set \<Rightarrow> string \<Rightarrow> string \<Rightarrow> bool" where
  "entry_owned env active path branch \<longleftrightarrow>
     suffix_active active branch \<or>
     (case entry_task env path of
        None \<Rightarrow> False
      | Some tid \<Rightarrow> task_id_prefix tid \<in> active \<or> env_live env tid)"

fun sweep_entries ::
  "env \<Rightarrow> string \<Rightarrow> string \<Rightarrow> string set \<Rightarrow> string set \<Rightarrow> (string \<times> string option) list \<Rightarrow> string list \<Rightarrow>
   sweep_stats \<Rightarrow> (string list \<times> sweep_stats) handler"
where
  "sweep_entries env repo root active tracked [] handled stats = ret (handled, stats)"
| "sweep_entries env repo root active tracked ((path, None) # es) handled stats =
     sweep_entries env repo root active tracked es handled stats"
| "sweep_entries env repo root active tracked ((path, Some branch) # es) handled stats =
     (if sweep_skips root tracked path branch
      then sweep_entries env repo root active tracked es handled stats
      else if entry_owned env active path branch
      then sweep_entries env repo root active tracked es (branch # handled) stats
      else do {
        remove_worktree (case entry_task env path of Some tid \<Rightarrow> tid | None \<Rightarrow> nil_uuid) repo path branch;
        sweep_entries env repo root active tracked es (branch # handled)
          \<lparr>branches_removed = branches_removed stats + 1, worktrees_removed = worktrees_removed stats + 1\<rparr> })"

fun sweep_branches ::
  "string \<Rightarrow> string set \<Rightarrow> string set \<Rightarrow> string set \<Rightarrow> string list \<Rightarrow> sweep_stats \<Rightarrow> sweep_stats handler"
where
  "sweep_branches repo active tracked kept [] stats = ret stats"
| "sweep_branches repo active tracked kept (b # bs) stats =
     (if b \<in> kept \<or> b \<in> tracked \<or> suffix_active active b
      then sweep_branches repo active tracked kept bs stats
      else do {
        ok \<leftarrow> delete_branch repo b;
        sweep_branches repo active tracked kept bs
          (if ok then stats\<lparr>branches_removed := branches_removed stats + 1\<rparr> else stats) })"

definition sweep_repo :: "env \<Rightarrow> string \<Rightarrow> string \<Rightarrow> string set \<Rightarrow> string set \<Rightarrow> sweep_stats handler" where
  "sweep_repo env repo root active tracked = do {
     prune_repo repo;
     (case env_worktree_list env repo of
        None \<Rightarrow> ret sweep_default
      | Some listing \<Rightarrow> do {
          let entries = parse_entries [] (lines listing);
          let linked = set (List.map_filter snd entries);
          (handled, stats) \<leftarrow> sweep_entries env repo root active tracked entries [] sweep_default;
          (case env_branch_list env repo of
             None \<Rightarrow> ret stats
           | Some branch_list \<Rightarrow>
               sweep_branches repo active tracked (set handled \<union> linked)
                 (filter (\<lambda>b. b \<noteq> []) (map trim (lines branch_list))) stats) }) }"

text \<open>An invariant of the git log, carried through every handler that only runs allowed commands.\<close>

definition git_inv :: "(git_cmd \<Rightarrow> bool) \<Rightarrow> daemon \<Rightarrow> bool" where
  "git_inv P s \<longleftrightarrow> (\<forall>c \<in> set (dn_git s). P c)"

lemma keeps_git: "P c \<Longrightarrow> keeps (git_inv P) (git c)"
  by (auto simp: git_def git_inv_def intro!: keepsI split: list.splits)

lemma keeps_git_db_call [keeps_intros]: "keeps (git_inv P) (db_call f)"
  by (auto simp: db_call_def take_fault_def git_inv_def split_def Let_def intro!: keepsI split: list.splits)

lemma keeps_prune_repo: "P (GitWorktreePrune repo) \<Longrightarrow> keeps (git_inv P) (prune_repo repo)"
  unfolding prune_repo_def by (intro keeps_intros keeps_git)

lemma keeps_remove_worktree:
  "P (GitWorktreePrune repo) \<Longrightarrow> P (GitWorktreeRemove repo path) \<Longrightarrow> P (GitBranchDelete repo branch) \<Longrightarrow>
   keeps (git_inv P) (remove_worktree tid repo path branch)"
  unfolding remove_worktree_def delete_branch_def
  by (intro keeps_intros keeps_git keeps_prune_repo)

definition sweep_allowed :: "env \<Rightarrow> string \<Rightarrow> string set \<Rightarrow> string set \<Rightarrow> git_cmd \<Rightarrow> bool" where
  "sweep_allowed env root active tracked c = (case c of
      GitWorktreePrune repo \<Rightarrow> True
    | GitBranchDelete repo b \<Rightarrow> b \<notin> tracked \<and> \<not> suffix_active active b
    | GitWorktreeRemove repo path \<Rightarrow> path_starts_with path root \<and>
        (\<forall>tid. entry_task env path = Some tid \<longrightarrow> task_id_prefix tid \<notin> active \<and> \<not> env_live env tid)
    | GitWorktreeAdd _ _ _ \<Rightarrow> False)"

lemma keeps_sweep_entries:
  "keeps (git_inv (\<lambda>c. old c \<or> sweep_allowed env root active tracked c))
     (sweep_entries env repo root active tracked es handled stats)"
proof (induction env repo root active tracked es handled stats rule: sweep_entries.induct)
  case (3 env repo root active tracked path branch es handled stats)
  show ?case
    unfolding sweep_entries.simps
    by (intro keeps_if "3.IH" keeps_bind keeps_remove_worktree)
       (auto simp: sweep_allowed_def sweep_skips_def entry_owned_def split: option.splits)
qed (auto intro: keeps_intros)

lemma keeps_sweep_branches:
  "keeps (git_inv (\<lambda>c. old c \<or> sweep_allowed env root active tracked c))
     (sweep_branches repo active tracked kept bs stats)"
proof (induction bs arbitrary: stats)
  case (Cons b bs)
  show ?case
    unfolding sweep_branches.simps delete_branch_def
    by (intro keeps_if Cons.IH keeps_bind keeps_git) (auto simp: sweep_allowed_def)
qed (auto intro: keeps_intros)

text \<open>C6: every command the sweep of a repository adds is safe: it deletes no branch that a tracked
  worktree or an active task owns, and removes no worktree outside the configured root, of an active
  task, or in which an interactive session is live.\<close>

theorem sweep_repo_safe:
  assumes "c \<in> set (dn_git (snd (run_state (sweep_repo env repo root active tracked) s)))"
    and "c \<notin> set (dn_git s)"
  shows "sweep_allowed env root active tracked c"
proof -
  define old where "old = (\<lambda>c. c \<in> set (dn_git s))"
  have "keeps (git_inv (\<lambda>c. old c \<or> sweep_allowed env root active tracked c))
      (sweep_repo env repo root active tracked)"
    unfolding sweep_repo_def Let_def
    by (intro keeps_intros keeps_prune_repo keeps_sweep_entries keeps_sweep_branches)
       (simp add: sweep_allowed_def)
  moreover have "git_inv (\<lambda>c. old c \<or> sweep_allowed env root active tracked c) s"
    by (simp add: git_inv_def old_def)
  ultimately have "git_inv (\<lambda>c. old c \<or> sweep_allowed env root active tracked c)
      (snd (run_state (sweep_repo env repo root active tracked) s))"
    by (rule keepsD)
  with assms show ?thesis by (auto simp: git_inv_def old_def)
qed


theorem sweep_repo_safe_witness:
  "sweep_allowed (quiet_env\<lparr>env_worktree_list := (\<lambda>_. Some []), env_branch_list := (\<lambda>_. Some ''favetto/x-deadbeef'')\<rparr>)
     ''/data/worktrees'' {''0a1b2c3d''} {} (GitBranchDelete ''/r'' ''favetto/x-deadbeef'')"
proof (rule sweep_repo_safe)
  show "GitBranchDelete ''/r'' ''favetto/x-deadbeef'' \<in> set (dn_git (snd (run_state
     (sweep_repo (quiet_env\<lparr>env_worktree_list := (\<lambda>_. Some []), env_branch_list := (\<lambda>_. Some ''favetto/x-deadbeef'')\<rparr>)
       ''/r'' ''/data/worktrees'' {''0a1b2c3d''} {}) (idle_daemon empty_db))))"
  proof -
    have "filter (\<lambda>b. b \<noteq> []) (map trim (lines ''favetto/x-deadbeef'')) = [''favetto/x-deadbeef'']" "lines [] = []"
      "\<not> suffix_active {''0a1b2c3d''} ''favetto/x-deadbeef''"
      by code_simp+
    then show ?thesis
      by (simp add: sweep_repo_def quiet_env_def idle_daemon_def prune_repo_def git_def delete_branch_def Let_def
          List.map_filter_def)
  qed
  show "GitBranchDelete ''/r'' ''favetto/x-deadbeef'' \<notin> set (dn_git (idle_daemon empty_db))"
    by (simp add: idle_daemon_def)
qed

subsection \<open>The retention pass\<close>

text \<open>The directory a task starts from.\<close>

definition resolve_base_dir :: "env \<Rightarrow> task_def \<Rightarrow> task \<Rightarrow> string" where
  "resolve_base_dir env def t =
     (case Option.bind (jget (t_input t) ''cwd'') as_str of
        Some c \<Rightarrow> c
      | None \<Rightarrow> (case d_cwd def of
          Some c \<Rightarrow> c
        | None \<Rightarrow> (case env_current_dir env of Some c \<Rightarrow> c | None \<Rightarrow> ''.'')))"

record worktree_prune_stats =
  wp_removed :: nat
  wp_orphans :: nat
  wp_repos_pruned :: nat
  wp_branches_removed :: nat
  wp_untracked_removed :: nat

definition wp_default :: worktree_prune_stats where
  "wp_default = \<lparr>wp_removed = 0, wp_orphans = 0, wp_repos_pruned = 0, wp_branches_removed = 0,
     wp_untracked_removed = 0\<rparr>"

text \<open>A task whose lookup fails is entered like one that does not exist: not at all.\<close>

fun task_owners ::
  "worktree_record list \<Rightarrow> (uuid \<times> task_status \<times> time option) list \<Rightarrow>
   (uuid \<times> task_status \<times> time option) list handler"
where
  "task_owners [] acc = ret acc"
| "task_owners (r # rs) acc = do {
     t \<leftarrow> db_read (\<lambda>d. get_task d (wt_task r));
     task_owners rs (case t of
        Some (Some t) \<Rightarrow> (wt_task r, t_status t, t_finished_at t) # acc
      | _ \<Rightarrow> acc) }"

fun remove_selected ::
  "(uuid \<Rightarrow> (task_status \<times> time option) option) \<Rightarrow> worktree_record list \<Rightarrow> string list \<Rightarrow>
   worktree_prune_stats \<Rightarrow> (string list \<times> worktree_prune_stats) handler"
where
  "remove_selected owners [] rs stats = ret (rs, stats)"
| "remove_selected owners (w # ws) rs stats = do {
     remove_worktree (wt_task w) (wt_repo w) (wt_path w) (wt_branch w);
     remove_selected owners ws
       (if path_key (wt_repo w) \<in> path_key ` set rs then rs else rs @ [wt_repo w])
       (stats\<lparr>wp_orphans := wp_orphans stats + (if owners (wt_task w) = None then 1 else 0),
              wp_removed := wp_removed stats + 1\<rparr>) }"

fun prune_each :: "string list \<Rightarrow> unit handler" where
  "prune_each [] = ret ()"
| "prune_each (r # rs) = do { prune_repo r; prune_each rs }"

fun sweep_each ::
  "env \<Rightarrow> string set \<Rightarrow> string set \<Rightarrow> string list \<Rightarrow> worktree_prune_stats \<Rightarrow> worktree_prune_stats handler"
where
  "sweep_each env active tracked [] stats = ret stats"
| "sweep_each env active tracked (repo # rs) stats = do {
     cfg \<leftarrow> gets dn_cfg;
     sweep \<leftarrow> sweep_repo env repo (worktree_root env cfg repo) active tracked;
     sweep_each env active tracked rs
       (stats\<lparr>wp_branches_removed := wp_branches_removed stats + branches_removed sweep,
              wp_untracked_removed := wp_untracked_removed stats + worktrees_removed sweep\<rparr>) }"

definition prune_worktrees :: "env \<Rightarrow> time \<Rightarrow> worktree_prune_stats option handler" where
  "prune_worktrees env now = do {
     cfg \<leftarrow> gets dn_cfg;
     let retention = worktree_retention cfg;
     all \<leftarrow> db_read list_worktrees;
     (case all of None \<Rightarrow> ret None | Some all_records \<Rightarrow> do {
        let records = filter (\<lambda>r. \<not> env_live env (wt_task r)) all_records;
        owners \<leftarrow> task_owners records [];
        let cutoff = (if retention_days retention > 0
                      then Some (now - int (retention_days retention) * DAY_MS) else None);
        let selected = select_prunable records (map_of owners) cutoff (keep_worktree cfg)
                         (min_worktrees retention);
        (pruned, stats) \<leftarrow> remove_selected (map_of owners) selected [] wp_default;
        prune_each pruned;
        let stats = stats\<lparr>wp_repos_pruned := length pruned\<rparr>;
        tracked \<leftarrow> db_read list_worktrees;
        (case tracked of None \<Rightarrow> ret None | Some tracked \<Rightarrow> do {
           act \<leftarrow> db_read list_active_tasks;
           (case act of None \<Rightarrow> ret None | Some act \<Rightarrow> do {
              pending \<leftarrow> db_read list_pending_tasks;
              (case pending of None \<Rightarrow> ret None | Some pending \<Rightarrow> do {
                 ts \<leftarrow> db_read (\<lambda>d. list_tasks d (2 ^ 63 - 1));
                 (case ts of None \<Rightarrow> ret None | Some ts \<Rightarrow> do {
                    catalog \<leftarrow> gets dn_catalog;
                    let bases = remdups (List.map_filter (\<lambda>t.
                          map_option (\<lambda>def. resolve_base_dir env def t) (lookup_def catalog (t_name t))) ts);
                    let repos = dedup_paths (sort_key path_key
                          (map wt_repo all_records @ List.map_filter (env_toplevel env) bases));
                    stats \<leftarrow> sweep_each env (task_id_prefix ` t_id ` set (act @ pending))
                       (wt_branch ` set tracked) repos stats;
                    ret (Some stats) }) }) }) }) }) }"


lemma keeps_git_mono [keeps_intros]: "keeps (\<lambda>s. c \<in> set (dn_git s)) (git c')"
  by (auto simp: git_def intro!: keepsI split: list.splits)

lemma keeps_git_mono_db [keeps_intros]: "keeps (\<lambda>s. c \<in> set (dn_git s)) (db_call f)"
  by (auto simp: db_call_def take_fault_def split_def Let_def intro!: keepsI split: list.splits)

lemma keeps_git_mono_worktree [keeps_intros]:
  "keeps (\<lambda>s. c \<in> set (dn_git s)) (prune_repo repo)"
  "keeps (\<lambda>s. c \<in> set (dn_git s)) (delete_branch repo b)"
  "keeps (\<lambda>s. c \<in> set (dn_git s)) (remove_worktree tid repo path b)"
  unfolding remove_worktree_def prune_repo_def delete_branch_def by (intro keeps_intros)+

lemma keeps_git_mono_sweep [keeps_intros]:
  "keeps (\<lambda>s. c \<in> set (dn_git s)) (sweep_repo env repo root active tracked)"
proof -
  have 1: "keeps (\<lambda>s. c \<in> set (dn_git s)) (sweep_entries env repo root active tracked es handled stats)"
    for es handled stats
    by (induction env repo root active tracked es handled stats rule: sweep_entries.induct)
       (auto intro!: keeps_intros)
  have 2: "keeps (\<lambda>s. c \<in> set (dn_git s)) (sweep_branches repo active tracked kept bs stats)"
    for kept bs stats
    by (induction bs arbitrary: stats) (auto intro!: keeps_intros)
  show ?thesis unfolding sweep_repo_def Let_def by (intro keeps_intros 1 2)
qed

lemma keeps_git_mono_prune_each [keeps_intros]: "keeps (\<lambda>s. c \<in> set (dn_git s)) (prune_each rs)"
  by (induction rs) (auto intro!: keeps_intros)

lemma keeps_git_mono_remove [keeps_intros]:
  "keeps (\<lambda>s. c \<in> set (dn_git s)) (remove_selected owners ws rs stats)"
  by (induction ws arbitrary: rs stats) (auto intro!: keeps_intros)

lemma keeps_git_mono_sweep_each [keeps_intros]:
  "keeps (\<lambda>s. c \<in> set (dn_git s)) (sweep_each env active tracked rs stats)"
  by (induction rs arbitrary: stats) (auto intro!: keeps_intros)

lemma git_logs: "c \<in> set (dn_git (snd (run_state (git c) s)))"
  by (simp add: git_def split: list.splits)

lemma run_bind_snd: "snd (run_state (m \<bind> f) s) = snd (run_state (f (fst (run_state m s))) (snd (run_state m s)))"
  by (simp add: split_def)

lemma bind_keeps_logged:
  assumes "c \<in> set (dn_git (snd (run_state m s)))" and "\<And>x. keeps (\<lambda>s. c \<in> set (dn_git s)) (f x)"
  shows "c \<in> set (dn_git (snd (run_state (m \<bind> f) s)))"
  unfolding run_bind_snd by (rule keepsD [where I = "\<lambda>s. c \<in> set (dn_git s)", OF assms(2) assms(1)])

lemma remove_worktree_logs:
  "GitWorktreeRemove repo path \<in> set (dn_git (snd (run_state (remove_worktree tid repo path b) s)))"
  unfolding remove_worktree_def by (intro bind_keeps_logged git_logs keeps_intros)

text \<open>The retention pass treats a failed lookup of a worktree's task like a missing task: when that
  one query fails, the worktree of a running task is force-removed as an orphan.\<close>

theorem prune_worktrees_lookup_failure:
  assumes "worktrees (dn_db s) = [w]" and "\<not> env_live env (wt_task w)"
    and "task_status_of (dn_db s) (wt_task w) = Some Running"
    and "dn_faults s = [False, True]"
  shows "GitWorktreeRemove (wt_repo w) (wt_path w) \<in> set (dn_git (snd (run_state (prune_worktrees env now) s)))"
proof -
  define s1 where "s1 = s\<lparr>dn_faults := [True]\<rparr>"
  have 1: "run_state (db_read list_worktrees) s = (Some [w], s1)"
    using assms(1,4) by (simp add: run_db_call_pass list_worktrees_def s1_def)
  have 2: "run_state (db_read (\<lambda>d. get_task d (wt_task w))) s1 = (None, s1\<lparr>dn_faults := []\<rparr>)"
    by (simp add: run_db_call_fault s1_def)
  have sel: "select_prunable [w] (map_of []) cutoff keep n = [w]" for cutoff keep n
    by (simp add: select_prunable_def List.map_filter_def age_candidate_def)
  have rem: "GitWorktreeRemove (wt_repo w) (wt_path w) \<in>
      set (dn_git (snd (run_state (remove_selected owners [w] [] wp_default) s')))" for owners s'
    unfolding remove_selected.simps
    by (intro bind_keeps_logged remove_worktree_logs keeps_intros)
  have 3: "run_state (task_owners [w] []) s1 = ([], s1\<lparr>dn_faults := []\<rparr>)"
    by (simp add: 2)
  have flt: "filter (\<lambda>r. \<not> env_live env (wt_task r)) [w] = [w]" using assms(2) by simp
  show ?thesis
    unfolding prune_worktrees_def Let_def
    apply (subst run_bind_snd)
    apply (subst run_bind_snd)
    apply (simp only: state.sel fst_conv snd_conv 1 option.case flt)
    apply (subst run_bind_snd)
    apply (simp only: 3 fst_conv snd_conv sel)
    apply (rule bind_keeps_logged [OF rem])
    apply (intro keeps_intros)
    done
qed


definition busy_db :: db where
  "busy_db = empty_db\<lparr>tasks := [row_of_task ((sample_task ''a'' ''build'')\<lparr>t_status := Running\<rparr>)],
     worktrees := [\<lparr>wt_task = ''a'', wt_repo = ''/r'', wt_path = ''/w/a'', wt_branch = ''favetto/build-a'', wt_created_at = 0\<rparr>]\<rparr>"

theorem prune_worktrees_lookup_failure_witness:
  "GitWorktreeRemove ''/r'' ''/w/a'' \<in> set (dn_git (snd (run_state (prune_worktrees quiet_env 0)
     ((idle_daemon busy_db)\<lparr>dn_faults := [False, True]\<rparr>))))"
  using prune_worktrees_lookup_failure
    [of "(idle_daemon busy_db)\<lparr>dn_faults := [False, True]\<rparr>"
        "\<lparr>wt_task = ''a'', wt_repo = ''/r'', wt_path = ''/w/a'', wt_branch = ''favetto/build-a'', wt_created_at = 0\<rparr>"
        quiet_env 0]
  by (simp add: idle_daemon_def busy_db_def quiet_env_def task_status_of_def get_row_def lookup_row_def sample_task_def)

end
