(* ===== verification/Template.thy ===== *)
theory Template
  imports Output Catalog
begin

text \<open>
  The two places where a task reads another's data: the prompt template
  (\<open>crates/favetto/src/template.rs\<close>) and the \<open>[action.when]\<close> predicate
  (\<open>crates/favetto/src/actions/when.rs\<close>).  \<open>ser\<close> is \<open>serde_json\<close>'s \<open>to_string\<close> and \<open>pointer\<close> its
  \<open>Value::pointer\<close>.
\<close>

subsection \<open>Templates\<close>

fun find_sub :: "string \<Rightarrow> string \<Rightarrow> nat option" where
  "find_sub pat s = (if prefix pat s then Some 0
     else (case s of [] \<Rightarrow> None | _ # t \<Rightarrow> map_option Suc (find_sub pat t)))"

declare find_sub.simps [simp del]

fun resolve_from :: "json \<Rightarrow> string list \<Rightarrow> json option" where
  "resolve_from current [] = Some current"
| "resolve_from current (part # parts) =
     (case jget current part of Some v \<Rightarrow> resolve_from v parts | None \<Rightarrow> None)"

definition resolve :: "(json \<Rightarrow> string) \<Rightarrow> json \<Rightarrow> string \<Rightarrow> string" where
  "resolve ser ctx path =
     (case resolve_from ctx (filter (\<lambda>p. p \<noteq> []) (split_on CHR ''.'' path)) of
        None \<Rightarrow> []
      | Some (JStr s) \<Rightarrow> s
      | Some JNull \<Rightarrow> []
      | Some other \<Rightarrow> ser other)"

function render :: "(json \<Rightarrow> string) \<Rightarrow> json \<Rightarrow> string \<Rightarrow> string" where
  "render ser ctx [] = []"
| "render ser ctx (c # s) =
     (case (if prefix ''{{'' (c # s) then find_sub ''}}'' (drop 2 (c # s)) else None) of
        Some n \<Rightarrow> resolve ser ctx (trim (take n (drop 2 (c # s)))) @ render ser ctx (drop (n + 4) (c # s))
      | None \<Rightarrow> c # render ser ctx s)"
  by pat_completeness auto
termination by (relation "measure (\<lambda>(ser, ctx, s). length s)") auto

lemma find_sub_Some:
  "find_sub pat s = Some n \<Longrightarrow> prefix pat (drop n s) \<and> n \<le> length s \<and> (\<forall>k < n. \<not> prefix pat (drop k s))"
proof (induction s arbitrary: n)
  case Nil
  then show ?case by (subst (asm) find_sub.simps) (auto split: if_splits)
next
  case (Cons c s)
  show ?case
  proof (cases "prefix pat (c # s)")
    case True
    with Cons.prems show ?thesis by (subst (asm) find_sub.simps) simp
  next
    case False
    then obtain m where m: "n = Suc m" "find_sub pat s = Some m"
      using Cons.prems by (subst (asm) find_sub.simps) auto
    have "\<not> prefix pat (drop k (c # s))" if "k < n" for k
      using that Cons.IH [OF m(2)] False m(1) by (cases k) auto
    with Cons.IH [OF m(2)] m(1) show ?thesis by simp
  qed
qed

lemma find_sub_first:
  assumes "\<forall>k < length p. \<not> prefix pat (drop k (p @ s))" and "prefix pat s"
  shows "find_sub pat (p @ s) = Some (length p)"
  using assms(1)
proof (induction p)
  case Nil
  then show ?case using assms(2) by (subst find_sub.simps) simp
next
  case (Cons c p)
  have "\<forall>k < length p. \<not> prefix pat (drop k (p @ s))"
    using Cons.prems by (metis Suc_less_eq append_Cons drop_Suc_Cons length_Cons)
  moreover have "\<not> prefix pat (c # (p @ s))" using Cons.prems by (metis append_Cons drop0 length_Cons zero_less_Suc)
  ultimately show ?case using Cons.IH by (subst find_sub.simps) simp
qed

text \<open>Where a string has no opening braces, a step of \<open>render\<close> copies one byte.\<close>

definition opens_at :: "string \<Rightarrow> nat \<Rightarrow> bool" where
  "opens_at s k \<longleftrightarrow> prefix ''{{'' (drop k s)"

lemma render_plain: "\<not> prefix ''{{'' (c # s) \<Longrightarrow> render ser ctx (c # s) = c # render ser ctx s"
  by (subst render.simps) (simp only: if_False option.case)

lemma render_copy:
  "(\<forall>k < length a. \<not> opens_at (a @ s) k) \<Longrightarrow> render ser ctx (a @ s) = a @ render ser ctx s"
proof (induction a)
  case (Cons c a)
  have "\<forall>k < length a. \<not> opens_at (a @ s) k"
    using Cons.prems unfolding opens_at_def by (metis Suc_less_eq append_Cons drop_Suc_Cons length_Cons)
  moreover have "\<not> prefix ''{{'' (c # a @ s)"
    using Cons.prems unfolding opens_at_def by (metis append_Cons drop0 length_Cons zero_less_Suc)
  ultimately show ?case using Cons.IH render_plain [of c "a @ s"] by simp
qed simp

lemma render_hole_at:
  assumes "find_sub ''}}'' (p @ ''}}'' @ b) = Some (length p)"
  shows "render ser ctx (''{{'' @ p @ ''}}'' @ b) = resolve ser ctx (trim p) @ render ser ctx b"
proof -
  define x where "x = ''{{'' @ p @ ''}}''"
  have len: "length x = length p + 4" by (simp add: x_def)
  have "drop (length x) (x @ b) = b" by simp
  then have "drop (length p + 4) (''{{'' @ p @ ''}}'' @ b) = b"
    unfolding len by (simp only: x_def append_assoc)
  with assms show ?thesis by simp
qed

text \<open>Rendering replaces exactly the first placeholder by the value its trimmed path resolves to and
  goes on behind it: the text before it is copied byte for byte, and the inserted value is never
  scanned for placeholders again, so data cannot inject template code.\<close>

theorem render_replaces_hole:
  assumes "\<forall>k < length a. \<not> opens_at (a @ ''{{'' @ p @ ''}}'' @ b) k"
    and "\<forall>k < length p. \<not> prefix ''}}'' (drop k (p @ ''}}'' @ b))"
  shows "render ser ctx (a @ ''{{'' @ p @ ''}}'' @ b) = a @ resolve ser ctx (trim p) @ render ser ctx b"
proof -
  have "prefix ''}}'' (''}}'' @ b)" by simp
  with assms(2) have "find_sub ''}}'' (p @ ''}}'' @ b) = Some (length p)" by (rule find_sub_first)
  then show ?thesis using render_copy [OF assms(1)] render_hole_at by simp
qed

theorem render_replaces_hole_witness:
  "render (\<lambda>_. []) (mk_obj [(''x'', JStr ''{{y}}''), (''y'', JStr ''boom'')]) ''a {{ x }}!'' = ''a {{y}}!''"
proof -
  have "render (\<lambda>_. []) (mk_obj [(''x'', JStr ''{{y}}''), (''y'', JStr ''boom'')]) (''a '' @ ''{{'' @ '' x '' @ ''}}'' @ ''!'')
      = ''a '' @ resolve (\<lambda>_. []) (mk_obj [(''x'', JStr ''{{y}}''), (''y'', JStr ''boom'')]) (trim '' x '')
        @ render (\<lambda>_. []) (mk_obj [(''x'', JStr ''{{y}}''), (''y'', JStr ''boom'')]) ''!''"
    by (rule render_replaces_hole) (auto simp: opens_at_def less_Suc_eq numeral_eq_Suc)
  moreover have "resolve (\<lambda>_. []) (mk_obj [(''x'', JStr ''{{y}}''), (''y'', JStr ''boom'')]) (trim '' x '') = ''{{y}}''"
    by code_simp
  ultimately show ?thesis by simp
qed


subsection \<open>The \<open>[action.when]\<close> predicate\<close>

text \<open>
  Doubles by their bits: the magnitude of a finite one is \<open>f64_mag\<close> in units of \<open>2 ^ -1074\<close>.
  \<open>Number::as_f64\<close> rounds an integer to 53 significant bits, ties to even.
\<close>

definition f64_mag :: "f64 \<Rightarrow> nat" where
  "f64_mag b = (let e = (unat b div 2 ^ 52) mod 2048; f = unat b mod 2 ^ 52
     in if e = 0 then f else (2 ^ 52 + f) * 2 ^ (e - 1))"

definition f64_key :: "f64 \<Rightarrow> int" where
  "f64_key b = (if unat b < 2 ^ 63 then int (f64_mag b) else - int (f64_mag b))"

fun bit_len :: "nat \<Rightarrow> nat" where
  "bit_len n = (if n = 0 then 0 else Suc (bit_len (n div 2)))"

declare bit_len.simps [simp del]

definition round53 :: "nat \<Rightarrow> nat" where
  "round53 n = (let k = bit_len n - 53; q = n div 2 ^ k; r = n mod 2 ^ k; twice = 2 * r
     in if k = 0 then n
        else if twice > 2 ^ k \<or> (twice = 2 ^ k \<and> odd q) then (q + 1) * 2 ^ k else q * 2 ^ k)"

fun num_key :: "jnum \<Rightarrow> int" where
  "num_key (PosInt n) = int (round53 n) * 2 ^ 1074"
| "num_key (NegInt i) = - int (round53 (nat (- i))) * 2 ^ 1074"
| "num_key (JFloat b) = f64_key b"

text \<open>Equality of \<open>Value\<close>: numbers of different representation differ; the two zero doubles are equal.\<close>

fun jnum_eq :: "jnum \<Rightarrow> jnum \<Rightarrow> bool" where
  "jnum_eq (JFloat a) (JFloat b) = (f64_key a = f64_key b)"
| "jnum_eq a b = (a = b)"

fun json_eq :: "json \<Rightarrow> json \<Rightarrow> bool" and json_list_eq :: "json list \<Rightarrow> json list \<Rightarrow> bool"
  and json_obj_eq :: "(string \<times> json) list \<Rightarrow> (string \<times> json) list \<Rightarrow> bool" where
  "json_eq (JNum a) (JNum b) = jnum_eq a b"
| "json_eq (JArr xs) (JArr ys) = json_list_eq xs ys"
| "json_eq (JObj xs) (JObj ys) = json_obj_eq xs ys"
| "json_eq (JStr a) (JStr b) = (a = b)"
| "json_eq (JBool a) (JBool b) = (a = b)"
| "json_eq JNull JNull = True"
| "json_eq _ _ = False"
| "json_list_eq [] [] = True"
| "json_list_eq (x # xs) (y # ys) = (json_eq x y \<and> json_list_eq xs ys)"
| "json_list_eq _ _ = False"
| "json_obj_eq [] [] = True"
| "json_obj_eq ((k, x) # xs) ((l, y) # ys) = (k = l \<and> json_eq x y \<and> json_obj_eq xs ys)"
| "json_obj_eq _ _ = False"

fun is_empty_value :: "json \<Rightarrow> bool" where
  "is_empty_value JNull = True"
| "is_empty_value (JStr s) = (s = [])"
| "is_empty_value (JArr xs) = (xs = [])"
| "is_empty_value (JObj kvs) = (kvs = [])"
| "is_empty_value _ = False"

datatype ordering = Less | Equal | Greater

definition cmp_of :: "'a::linorder \<Rightarrow> 'a \<Rightarrow> ordering" where
  "cmp_of a b = (if a < b then Less else if a = b then Equal else Greater)"

fun compare_ordering :: "json \<Rightarrow> json \<Rightarrow> ordering option" where
  "compare_ordering (JNum x) (JNum y) = Some (cmp_of (num_key x) (num_key y))"
| "compare_ordering (JStr x) (JStr y) = Some (cmp_of x y)"
| "compare_ordering _ _ = None"

definition str_contains :: "string \<Rightarrow> string \<Rightarrow> bool" where
  "str_contains s n = (find_sub n s \<noteq> None)"

definition json_contains :: "json \<Rightarrow> json \<Rightarrow> bool" where
  "json_contains haystack needle = (case haystack of
      JStr s \<Rightarrow> (case as_str needle of Some n \<Rightarrow> str_contains s n | None \<Rightarrow> False)
    | JArr items \<Rightarrow> list_ex (\<lambda>i. json_eq i needle) items
    | JObj kvs \<Rightarrow> (case as_str needle of Some k \<Rightarrow> obj_has k kvs | None \<Rightarrow> False)
    | _ \<Rightarrow> False)"

text \<open>\<open>str::parse::<usize>\<close>: an optional plus sign, at least one digit, below \<open>2 ^ 64\<close>.\<close>

definition parse_usize :: "string \<Rightarrow> nat option" where
  "parse_usize s = (let ds = (case s of c # t \<Rightarrow> if c = CHR ''+'' then t else s | [] \<Rightarrow> [])
     in if ds \<noteq> [] \<and> list_all is_digit ds \<and> digits_val ds < 2 ^ 64 then Some (digits_val ds) else None)"

fun resolve_segments :: "json \<Rightarrow> string list \<Rightarrow> json option" where
  "resolve_segments current [] = Some current"
| "resolve_segments current (seg # segs) =
     (if seg = [] then resolve_segments current segs
      else case current of
          JObj kvs \<Rightarrow> (case map_of kvs seg of Some v \<Rightarrow> resolve_segments v segs | None \<Rightarrow> None)
        | JArr items \<Rightarrow>
            (case parse_usize seg of
               Some i \<Rightarrow> if i < length items then resolve_segments (items ! i) segs else None
             | None \<Rightarrow> None)
        | _ \<Rightarrow> None)"

definition resolve_path :: "(json \<Rightarrow> string \<Rightarrow> json option) \<Rightarrow> json \<Rightarrow> string \<Rightarrow> json option" where
  "resolve_path pointer root path =
     (let p = trim path
      in if p = [] then Some root
         else if prefix ''/'' p then pointer root p
         else resolve_segments root (split_on CHR ''.'' p))"

definition evaluate_when :: "(json \<Rightarrow> string \<Rightarrow> json option) \<Rightarrow> when_predicate \<Rightarrow> json \<Rightarrow> bool" where
  "evaluate_when pointer w outputs =
     (let resolved = (case resolve_path pointer outputs (w_path w) of Some v \<Rightarrow> v | None \<Rightarrow> JNull);
          operand = (case w_value w of Some v \<Rightarrow> toml_to_json v | None \<Rightarrow> JNull)
      in case w_op w of
           NotEmpty \<Rightarrow> \<not> is_empty_value resolved
         | IsEmpty \<Rightarrow> is_empty_value resolved
         | Eq \<Rightarrow> json_eq resolved operand
         | Ne \<Rightarrow> \<not> json_eq resolved operand
         | Gt \<Rightarrow> compare_ordering resolved operand = Some Greater
         | Lt \<Rightarrow> compare_ordering resolved operand = Some Less
         | Contains \<Rightarrow> json_contains resolved operand)"

lemma bit_len_small: "n < 2 ^ k \<Longrightarrow> bit_len n \<le> k"
proof (induction n arbitrary: k rule: bit_len.induct)
  case (1 n)
  show ?case
  proof (cases "n = 0")
    case True
    then show ?thesis by (subst bit_len.simps) simp
  next
    case False
    then obtain k' where k: "k = Suc k'" using "1.prems" by (cases k) auto
    then have "n div 2 < 2 ^ k'" using "1.prems" by (simp add: less_mult_imp_div_less mult.commute)
    with "1.IH" [OF False] k False show ?thesis by (subst bit_len.simps) simp
  qed
qed

lemma round53_exact: "n < 2 ^ 53 \<Longrightarrow> round53 n = n"
  using bit_len_small [of n 53] by (simp add: round53_def)

lemma cmp_of_flip: "cmp_of a b = Greater \<longleftrightarrow> cmp_of b a = Less"
  by (auto simp: cmp_of_def)

lemma compare_ordering_flip: "compare_ordering a b = Some Greater \<longleftrightarrow> compare_ordering b a = Some Less"
  by (cases "(a, b)" rule: compare_ordering.cases) (simp_all add: cmp_of_flip)


lemma num_key_less:
  "m < 2 ^ 53 \<Longrightarrow> n < 2 ^ 53 \<Longrightarrow> num_key (PosInt m) < num_key (PosInt n) \<longleftrightarrow> m < n"
  by (simp add: round53_exact)

lemma num_key_eq:
  "m < 2 ^ 53 \<Longrightarrow> n < 2 ^ 53 \<Longrightarrow> num_key (PosInt m) = num_key (PosInt n) \<longleftrightarrow> m = n"
  by (simp add: round53_exact)

declare num_key.simps [simp del]

text \<open>The six comparisons of an \<open>[action.when]\<close> predicate are consistent for every path and value:
  \<open>empty\<close> and \<open>ne\<close> are the complements of \<open>not_empty\<close> and \<open>eq\<close>, \<open>gt\<close> excludes \<open>lt\<close>; an absent path is
  empty and satisfies no comparison; and on non-negative integers that a double represents exactly,
  \<open>gt\<close>, \<open>lt\<close> and \<open>eq\<close> are the integer comparisons.\<close>

theorem when_predicate_consistent:
  fixes w :: when_predicate and outputs :: json and pointer :: "json \<Rightarrow> string \<Rightarrow> json option"
  defines "holds \<equiv> \<lambda>op. evaluate_when pointer (w\<lparr>w_op := op\<rparr>) outputs"
  shows "(holds IsEmpty \<longleftrightarrow> \<not> holds NotEmpty) \<and> (holds Ne \<longleftrightarrow> \<not> holds Eq) \<and> \<not> (holds Gt \<and> holds Lt) \<and>
    (resolve_path pointer outputs (w_path w) = None \<longrightarrow>
       holds IsEmpty \<and> \<not> holds Gt \<and> \<not> holds Lt \<and> \<not> holds Contains) \<and>
    (\<forall>m n. m < 2 ^ 53 \<and> n < 2 ^ 53 \<and> resolve_path pointer outputs (w_path w) = Some (JNum (PosInt m)) \<and>
       w_value w = Some (TInteger (int n)) \<longrightarrow>
         (holds Gt \<longleftrightarrow> n < m) \<and> (holds Lt \<longleftrightarrow> m < n) \<and> (holds Eq \<longleftrightarrow> m = n))"
proof (intro conjI allI impI)
  fix m n
  assume a: "m < 2 ^ 53 \<and> n < 2 ^ 53 \<and> resolve_path pointer outputs (w_path w) = Some (JNum (PosInt m)) \<and>
       w_value w = Some (TInteger (int n))"
  then have r: "resolve_path pointer outputs (w_path w) = Some (JNum (PosInt m))"
    and v: "w_value w = Some (TInteger (int n))" and mn: "m < 2 ^ 53" "n < 2 ^ 53" by simp_all
  show "holds Gt \<longleftrightarrow> n < m"
    by (auto simp: holds_def evaluate_when_def r v num_of_i64_def cmp_of_def num_key_less [OF mn] num_key_eq [OF mn])
  show "holds Lt \<longleftrightarrow> m < n"
    by (auto simp: holds_def evaluate_when_def r v num_of_i64_def cmp_of_def num_key_less [OF mn] num_key_eq [OF mn])
  show "holds Eq \<longleftrightarrow> m = n"
    by (simp add: holds_def evaluate_when_def r v num_of_i64_def)
qed (auto simp: holds_def evaluate_when_def Let_def json_contains_def)

theorem when_predicate_consistent_witness:
  "evaluate_when (\<lambda>_ _. None) \<lparr>w_path = ''n'', w_op = Gt, w_value = Some (TInteger 2)\<rparr> (JObj [(''n'', JNum (PosInt 3))])"
proof -
  have "resolve_path (\<lambda>_ _. None) (JObj [(''n'', JNum (PosInt 3))]) ''n'' = Some (JNum (PosInt 3))"
    by code_simp
  then show ?thesis
    using when_predicate_consistent [of "\<lambda>_ _. None" "\<lparr>w_path = ''n'', w_op = Gt, w_value = Some (TInteger 2)\<rparr>"
        "JObj [(''n'', JNum (PosInt 3))]"]
    by (force dest: spec [of _ 3] spec [of _ 2])
qed

end
