(* ===== verification/Executor.thy ===== *)
theory Executor
  imports Worktrees Template
begin

text \<open>
  The executor, first part (\<open>crates/favetto/src/executor.rs\<close>): the outcome of a run, enqueueing with and
  without predecessors, the automatic retry, and the startup reconciler.
  One \<open>now\<close> stands for the clock readings of a handler.  \<open>sd\<close> is \<open>serde_json\<close> and \<open>env\<close> the
  environment.  What an agent does during a run is the \<open>outcome\<close> it reports.
\<close>

subsection \<open>Outcomes of a run\<close>

record run_outcome =
  ro_output :: json
  ro_session_id :: "string option"
  ro_session_title :: "string option"
  ro_exit_code :: "int option"
  ro_usage :: "agent_usage option"
  ro_failure :: "failure option"
  ro_alive :: bool

record run_error =
  re_kind :: failure_kind
  re_message :: string

definition record_run_outcome :: "task \<Rightarrow> run_error + run_outcome \<Rightarrow> task \<times> bool" where
  "record_run_outcome t outcome = (case outcome of
     Inr run \<Rightarrow>
       (let t = t\<lparr>t_session_id := ro_session_id run, t_session_title := ro_session_title run\<rparr>
        in case ro_failure run of
             Some fl \<Rightarrow> (t\<lparr>t_status := Failed, t_error := Some (f_message fl), t_failure := Some fl,
                          t_output := Some (ro_output run)\<rparr>, False)
           | None \<Rightarrow> (t\<lparr>t_status := Succeeded, t_output := Some (ro_output run), t_error := None,
                       t_failure := None\<rparr>, True))
   | Inl e \<Rightarrow> (t\<lparr>t_status := Failed, t_error := Some (re_message e),
                 t_failure := Some (failure_new (re_kind e) (re_message e))\<rparr>, False))"

text \<open>\<open>reported_usage\<close>: \<open>summary_usage\<close> is the deserialisation of a \<open>RunSummary\<close>, if it is one.\<close>

definition reported_usage ::
  "(json \<Rightarrow> agent_usage option) \<Rightarrow> json \<Rightarrow> agent_usage option \<Rightarrow> agent_usage option"
where
  "reported_usage summary_usage output live =
     (let u = (case summary_usage output of Some u \<Rightarrow> u | None \<Rightarrow> usage_default);
          u = (if usage_is_empty u then (case live of Some l \<Rightarrow> l | None \<Rightarrow> u) else u)
      in if usage_is_empty u then None else Some u)"

lemma record_run_outcome_simps [simp]:
  "t_id (fst (record_run_outcome t oc)) = t_id t"
  "t_name (fst (record_run_outcome t oc)) = t_name t"
  "t_attempt (fst (record_run_outcome t oc)) = t_attempt t"
  "t_root_id (fst (record_run_outcome t oc)) = t_root_id t"
  "t_status (fst (record_run_outcome t oc)) = (if snd (record_run_outcome t oc) then Succeeded else Failed)"
  by (simp_all add: record_run_outcome_def Let_def split: sum.splits option.splits)

subsection \<open>Enqueueing\<close>

record lineage =
  l_parent :: "uuid option"
  l_root :: "uuid option"

definition no_lineage :: lineage where
  "no_lineage = \<lparr>l_parent = None, l_root = None\<rparr>"

definition child_of :: "task \<Rightarrow> lineage" where
  "child_of parent = \<lparr>l_parent = Some (t_id parent), l_root = Some (root_or_self parent)\<rparr>"

definition idle_payload :: "string \<Rightarrow> uuid \<Rightarrow> json" where
  "idle_payload name tid = mk_obj [(''name'', JStr name), (''task_id'', JStr tid)]"

definition new_task ::
  "time \<Rightarrow> uuid \<Rightarrow> string \<Rightarrow> json \<Rightarrow> string option \<Rightarrow> lineage \<Rightarrow> bool \<Rightarrow> task"
where
  "new_task now tid name input dedupe lin interactive =
     \<lparr>t_id = tid, t_name = name, t_status = Pending, t_attempt = 0, t_input = input, t_output = None,
      t_dedupe_key = dedupe, t_created_at = now, t_started_at = None, t_finished_at = None,
      t_error = None, t_failure = None, t_session_id = None, t_session_title = None,
      t_parent_id = l_parent lin, t_root_id = l_root lin, t_interactive = interactive\<rparr>"

definition enqueue_with_id ::
  "time \<Rightarrow> uuid \<Rightarrow> string \<Rightarrow> json \<Rightarrow> string option \<Rightarrow> lineage \<Rightarrow> bool \<Rightarrow> task option handler"
where
  "enqueue_with_id now tid name input dedupe lin interactive = do {
     let t = new_task now tid name input dedupe lin interactive;
     r \<leftarrow> db_exec (insert_task t);
     (case r of
        None \<Rightarrow> ret None
      | Some _ \<Rightarrow> do {
          inc_tasks;
          publish (PTaskUpdated (task_summary t));
          emit_event now EvTaskIdle (idle_payload name tid);
          ret (Some t) }) }"

definition enqueue_with_lineage ::
  "time \<Rightarrow> string \<Rightarrow> json \<Rightarrow> string option \<Rightarrow> lineage \<Rightarrow> bool \<Rightarrow> task option handler"
where
  "enqueue_with_lineage now name input dedupe lin interactive = do {
     tid \<leftarrow> new_uuid;
     enqueue_with_id now tid name input dedupe lin interactive }"

definition enqueue_task :: "time \<Rightarrow> string \<Rightarrow> json \<Rightarrow> string option \<Rightarrow> bool \<Rightarrow> task option handler" where
  "enqueue_task now name input dedupe interactive =
     enqueue_with_lineage now name input dedupe no_lineage interactive"

fun record_dependencies :: "time \<Rightarrow> uuid \<Rightarrow> uuid list \<Rightarrow> unit option handler" where
  "record_dependencies now tid [] = ret (Some ())"
| "record_dependencies now tid (p # ps) = do {
     r \<leftarrow> db_exec (insert_dependency tid p now);
     (case r of None \<Rightarrow> ret None | Some _ \<Rightarrow> record_dependencies now tid ps) }"

record dynamic_node =
  dy_id :: uuid
  dy_name :: string
  dy_input :: json
  dy_dedupe_key :: "string option"
  dy_root_id :: uuid
  dy_parent_id :: "uuid option"
  dy_depends_on :: "uuid list"

definition enqueue_dynamic :: "time \<Rightarrow> dynamic_node \<Rightarrow> task option handler" where
  "enqueue_dynamic now node = do {
     t \<leftarrow> enqueue_with_id now (dy_id node) (dy_name node) (dy_input node) (dy_dedupe_key node)
            \<lparr>l_parent = dy_parent_id node, l_root = Some (dy_root_id node)\<rparr> False;
     (case t of
        None \<Rightarrow> ret None
      | Some t \<Rightarrow> do {
          r \<leftarrow> record_dependencies now (t_id t) (dy_depends_on node);
          ret (map_option (\<lambda>_. t) r) }) }"

definition spawn_dynamic ::
  "time \<Rightarrow> string \<Rightarrow> json \<Rightarrow> uuid option \<Rightarrow> uuid list \<Rightarrow> string option \<Rightarrow> task option handler"
where
  "spawn_dynamic now name input root_id depends_on dedupe = do {
     known \<leftarrow> (case dedupe of
        None \<Rightarrow> ret (Some None)
      | Some key \<Rightarrow> db_read (\<lambda>d. get_task_by_dedupe_key d key));
     (case known of
        None \<Rightarrow> ret None
      | Some (Some existing) \<Rightarrow> ret (Some existing)
      | Some None \<Rightarrow> do {
          t \<leftarrow> enqueue_with_lineage now name input dedupe \<lparr>l_parent = root_id, l_root = root_id\<rparr> False;
          (case t of
             None \<Rightarrow> ret None
           | Some t \<Rightarrow> do {
               r \<leftarrow> record_dependencies now (t_id t) depends_on;
               ret (map_option (\<lambda>_. t) r) }) }) }"

subsection \<open>What an enqueue does to the task table\<close>

lemma tasks_emit_event [simp]:
  "tasks (dn_db (snd (run_state (emit_event now k p) s))) = tasks (dn_db s)"
  by (auto simp: emit_event_def db_call_def take_fault_def publish_def inc_events_def insert_event_def
      Let_def split: list.splits)

lemma tasks_publish [simp]: "dn_db (snd (run_state (publish p) s)) = dn_db s"
  by (simp add: publish_def)

definition dedupe_free :: "string option \<Rightarrow> db \<Rightarrow> bool" where
  "dedupe_free key d \<longleftrightarrow> key = None \<or> key \<notin> t_dedupe_key ` set (tasks d)"

lemma tasks_insert_task:
  "tasks (insert_task t d) = tasks d @
     (if t_id t \<notin> t_id ` set (tasks d) \<and> dedupe_free (t_dedupe_key t) d then [row_of_task t] else [])"
  by (auto simp: insert_task_def dedupe_free_def)

lemma new_task_simps [simp]:
  "t_id (new_task now tid name input key lin i) = tid"
  "t_name (new_task now tid name input key lin i) = name"
  "t_status (new_task now tid name input key lin i) = Pending"
  "t_input (new_task now tid name input key lin i) = input"
  "t_dedupe_key (new_task now tid name input key lin i) = key"
  "t_parent_id (new_task now tid name input key lin i) = l_parent lin"
  "t_root_id (new_task now tid name input key lin i) = l_root lin"
  by (simp_all add: new_task_def)

text \<open>With a fault anywhere in its calls, an enqueue still adds nothing or exactly its row.\<close>

lemma tasks_enqueue_with_id:
  "tasks (dn_db (snd (run_state (enqueue_with_id now tid name input key lin i) s))) = tasks (dn_db s) \<or>
   (tid \<notin> t_id ` set (tasks (dn_db s)) \<and> dedupe_free key (dn_db s) \<and>
    tasks (dn_db (snd (run_state (enqueue_with_id now tid name input key lin i) s))) =
      tasks (dn_db s) @ [row_of_task (new_task now tid name input key lin i)])"
  by (auto simp: enqueue_with_id_def db_call_def take_fault_def inc_tasks_def Let_def split_def
      tasks_insert_task split: list.splits)

lemma tasks_enqueue:
  "tasks (dn_db (snd (run_state (enqueue_with_lineage now name input key lin i) s))) = tasks (dn_db s) \<or>
   (\<exists>tid. tid \<notin> t_id ` set (tasks (dn_db s)) \<and> dedupe_free key (dn_db s) \<and>
    tasks (dn_db (snd (run_state (enqueue_with_lineage now name input key lin i) s))) =
      tasks (dn_db s) @ [row_of_task (new_task now tid name input key lin i)])"
proof -
  obtain tid s1 where u: "run_state new_uuid s = (tid, s1)" by (cases "run_state new_uuid s")
  have "dn_db s1 = dn_db s" using u by (auto simp: new_uuid_def split: list.splits)
  moreover have "run_state (enqueue_with_lineage now name input key lin i) s =
      run_state (enqueue_with_id now tid name input key lin i) s1"
    by (simp add: enqueue_with_lineage_def u)
  ultimately show ?thesis using tasks_enqueue_with_id [of now tid name input key lin i s1] by auto
qed

text \<open>Without faults, the whole effect.\<close>

lemma run_enqueue [run_simps]:
  fixes s :: daemon and now :: time and tid :: uuid and name :: string and input :: json
    and key :: "string option" and lin :: lineage and i :: bool
  assumes "dn_faults s = []" and "dn_uuids s = tid # us"
  defines "t \<equiv> new_task now tid name input key lin i"
  defines "e \<equiv> \<lparr>e_id = event_seq (dn_db s) + 1, e_kind = EvTaskIdle, e_payload = idle_payload name tid,
      e_created_at = now\<rparr>"
  shows "run_state (enqueue_with_lineage now name input key lin i) s = (Some t,
    s\<lparr>dn_uuids := us, dn_tasks_total := dn_tasks_total s + 1,
      dn_db := (insert_task t (dn_db s))\<lparr>events := events (dn_db s) @ [e], event_seq := e_id e\<rparr>,
      dn_pushes := dn_pushes s @ [PTaskUpdated (task_summary t), PEvent e],
      dn_events_total := dn_events_total s + 1\<rparr>)"
  using assms
  by (simp add: enqueue_with_lineage_def new_uuid_def enqueue_with_id_def run_simps Let_def insert_task_def
      split del: if_split) (simp add: insert_task_def)

text \<open>An enqueue whose deduplication key is taken inserts no row, and yet returns a task, counts it,
  and announces it as idle to every client under an id that no row has.\<close>

theorem enqueue_ghost:
  fixes s :: daemon and now :: time and tid :: uuid and name :: string and input :: json
    and key :: string and lin :: lineage and i :: bool
  assumes "dn_faults s = []" and "dn_uuids s = tid # us"
    and "tid \<notin> t_id ` set (tasks (dn_db s))" and "Some key \<in> t_dedupe_key ` set (tasks (dn_db s))"
  defines "s' \<equiv> snd (run_state (enqueue_with_lineage now name input (Some key) lin i) s)"
  shows "tasks (dn_db s') = tasks (dn_db s) \<and> get_task (dn_db s') tid = None \<and>
    map_option t_id (fst (run_state (enqueue_with_lineage now name input (Some key) lin i) s)) = Some tid \<and>
    dn_tasks_total s' = dn_tasks_total s + 1 \<and>
    (\<exists>t e. dn_pushes s' = dn_pushes s @ [PTaskUpdated t, PEvent e] \<and> t_id t = tid \<and>
       e \<in> set (events (dn_db s')) \<and> e_kind e = EvTaskIdle \<and> e_payload e = idle_payload name tid)"
proof -
  have ins: "insert_task (new_task now tid name input (Some key) lin i) (dn_db s) = dn_db s"
    using assms(4) by (simp add: insert_task_def)
  have "get_task (dn_db s) tid = None" using assms(3) by (simp add: get_task_def lookup_row_None)
  then show ?thesis
    unfolding s'_def run_enqueue [OF assms(1,2)] ins by (simp add: get_task_def)
qed

theorem enqueue_ghost_witness:
  "dn_tasks_total (snd (run_state (enqueue_with_lineage 5 ''join'' JNull (Some ''k'') no_lineage False)
     ((idle_daemon (insert_task (new_task 1 ''a'' ''join'' JNull (Some ''k'') no_lineage False) empty_db))
        \<lparr>dn_uuids := [''b'']\<rparr>))) = 1"
  using enqueue_ghost [of "(idle_daemon (insert_task (new_task 1 ''a'' ''join'' JNull (Some ''k'') no_lineage False) empty_db))
        \<lparr>dn_uuids := [''b'']\<rparr>" "''b''" "[]" "''k''" 5 "''join''" JNull no_lineage False]
  by (simp add: idle_daemon_def insert_task_def empty_db_def)


subsection \<open>Automatic retries\<close>

text \<open>\<open>chrono::Duration::from_std\<close>: out of range means no delay.\<close>

definition retry_deadline :: "time \<Rightarrow> 64 word \<Rightarrow> time" where
  "retry_deadline now delay = now + (if unat delay < 2 ^ 63 then int (unat delay) else 0)"

definition schedule_auto_retry :: "time \<Rightarrow> task \<Rightarrow> retry_settings \<Rightarrow> bool handler" where
  "schedule_auto_retry now t rs =
     (case t_failure t of
        None \<Rightarrow> ret False
      | Some fl \<Rightarrow>
          if \<not> should_retry rs (t_attempt t) fl then ret False
          else do {
            r \<leftarrow> db_call (schedule_task_retry (t_id t) (retry_deadline now (backoff_delay rs (t_attempt t))));
            (case r of
               Some True \<Rightarrow> do {
                 fresh \<leftarrow> db_read (\<lambda>d. get_task d (t_id t));
                 (case fresh of
                    Some (Some fresh) \<Rightarrow> do {
                      publish (PTaskUpdated (task_summary fresh));
                      emit_event now EvTaskIdle (idle_payload (t_name fresh) (t_id fresh)) }
                  | _ \<Rightarrow> ret ());
                 ret True }
             | _ \<Rightarrow> ret False) })"

subsection \<open>The startup reconciler\<close>

record reconcile_report =
  runs_interrupted :: nat
  tasks_failed :: nat
  tasks_retried :: nat
  tasks_invalidated :: nat

definition INTERRUPTED_ERROR :: string where
  "INTERRUPTED_ERROR = ''interrupted by daemon restart''"

definition interrupted_failure :: failure where
  "interrupted_failure = failure_new FkInfrastructure INTERRUPTED_ERROR"

text \<open>A loop of conditional updates that counts the hits and stops at the first failing query.\<close>

fun count_hits :: "('a \<Rightarrow> db \<Rightarrow> bool \<times> db) \<Rightarrow> 'a list \<Rightarrow> nat \<Rightarrow> nat option handler" where
  "count_hits f [] n = ret (Some n)"
| "count_hits f (x # xs) n = do {
     r \<leftarrow> db_call (f x);
     (case r of None \<Rightarrow> ret None | Some hit \<Rightarrow> count_hits f xs (if hit then n + 1 else n)) }"

definition vanished_message :: "string \<Rightarrow> string" where
  "vanished_message name = ''task '' @ quoted name @ '' not found in the catalog''"

definition fail_vanished :: "time \<Rightarrow> task \<Rightarrow> db \<Rightarrow> bool \<times> db" where
  "fail_vanished now t = fail_pending_task now (t_id t) (vanished_message (t_name t))
     (failure_new FkInvalidInput (vanished_message (t_name t)))"

definition recover_stale :: "stale_run_policy \<Rightarrow> time \<Rightarrow> task \<Rightarrow> db \<Rightarrow> bool \<times> db" where
  "recover_stale p now t = (case p of
     StaleFail \<Rightarrow> fail_stale_task now (t_id t) INTERRUPTED_ERROR interrupted_failure
   | StaleRetry \<Rightarrow> retry_stale_task (t_id t))"

definition reconcile :: "time \<Rightarrow> reconcile_report option handler" where
  "reconcile now = do {
     runs \<leftarrow> db_read list_active_task_runs;
     (case runs of None \<Rightarrow> ret None | Some runs \<Rightarrow> do {
        ri \<leftarrow> count_hits (\<lambda>run. interrupt_run now (r_id run) INTERRUPTED_ERROR interrupted_failure) runs 0;
        (case ri of None \<Rightarrow> ret None | Some ri \<Rightarrow> do {
           act \<leftarrow> db_read list_active_tasks;
           (case act of None \<Rightarrow> ret None | Some act \<Rightarrow> do {
              cfg \<leftarrow> gets dn_cfg;
              st \<leftarrow> count_hits (recover_stale (stale_run cfg) now) act 0;
              (case st of None \<Rightarrow> ret None | Some st \<Rightarrow> do {
                 catalog \<leftarrow> gets dn_catalog;
                 pending \<leftarrow> db_read list_pending_tasks;
                 (case pending of None \<Rightarrow> ret None | Some pending \<Rightarrow> do {
                    invalid \<leftarrow> count_hits (fail_vanished now)
                      (filter (\<lambda>t. t_name t \<notin> d_name ` set catalog) pending) 0;
                    (case invalid of None \<Rightarrow> ret None | Some invalid \<Rightarrow>
                       ret (Some \<lparr>runs_interrupted = ri,
                         tasks_failed = (if stale_run cfg = StaleFail then st else 0),
                         tasks_retried = (if stale_run cfg = StaleRetry then st else 0),
                         tasks_invalidated = invalid\<rparr>)) }) }) }) }) }) }"


subsection \<open>What the reconciler leaves behind\<close>

text \<open>A loop of conditional updates on a keyed table, as a function of its rows.\<close>

fun cas_list ::
  "('r \<Rightarrow> 'k) \<Rightarrow> ('r \<Rightarrow> bool) \<Rightarrow> ('x \<Rightarrow> 'k) \<Rightarrow> ('x \<Rightarrow> 'r \<Rightarrow> 'r) \<Rightarrow> 'x list \<Rightarrow> nat \<Rightarrow> 'r list \<Rightarrow> nat \<times> 'r list"
where
  "cas_list k P kx g [] n rows = (n, rows)"
| "cas_list k P kx g (x # xs) n rows =
     cas_list k P kx g xs (if affected (\<lambda>r. k r = kx x \<and> P r) rows = 1 then n + 1 else n)
       (update_rows (\<lambda>r. k r = kx x \<and> P r) (g x) rows)"

lemma cas_list_all:
  assumes "distinct (map k rows)" and "distinct (map kx xs)"
    and "\<forall>x \<in> set xs. \<exists>r \<in> set rows. k r = kx x \<and> P r"
    and "\<forall>x \<in> set xs. \<forall>r \<in> set rows. k r = kx x \<and> P r \<longrightarrow> g x r = h r"
    and "\<And>r. k (h r) = k r"
  shows "cas_list k P kx g xs n rows =
    (n + length xs, map (\<lambda>r. if P r \<and> k r \<in> kx ` set xs then h r else r) rows)"
  using assms(1-4)
proof (induction xs arbitrary: n rows)
  case (Cons x xs)
  define hit where "hit r \<longleftrightarrow> k r = kx x \<and> P r" for r
  have ne: "kx y \<noteq> kx x" if "y \<in> set xs" for y
    using that Cons.prems(2) by (metis distinct.simps(2) image_eqI list.simps(9) list.set_map)
  have upd: "update_rows hit (g x) rows = map (\<lambda>r. if hit r then h r else r) rows"
    using Cons.prems(4) by (simp add: update_rows_def hit_def)
  have keys: "map k (map (\<lambda>r. if hit r then h r else r) rows) = map k rows"
    by (simp add: assms(5))
  have "cas_list k P kx g xs (n + 1) (map (\<lambda>r. if hit r then h r else r) rows) =
      (n + 1 + length xs,
       map (\<lambda>r. if P r \<and> k r \<in> kx ` set xs then h r else r) (map (\<lambda>r. if hit r then h r else r) rows))"
  proof (rule Cons.IH)
    show "distinct (map k (map (\<lambda>r. if hit r then h r else r) rows))"
      unfolding keys by (rule Cons.prems(1))
    show "\<forall>y \<in> set xs. \<exists>r \<in> set (map (\<lambda>r. if hit r then h r else r) rows). k r = kx y \<and> P r"
    proof
      fix y assume y: "y \<in> set xs"
      then obtain r where r: "r \<in> set rows" "k r = kx y" "P r" using Cons.prems(3) by auto
      moreover have "\<not> hit r" using ne [OF y] r(2) by (simp add: hit_def)
      ultimately show "\<exists>r \<in> set (map (\<lambda>r. if hit r then h r else r) rows). k r = kx y \<and> P r"
        by (auto intro!: bexI [of _ r] rev_image_eqI [of r])
    qed
    show "\<forall>y \<in> set xs. \<forall>r \<in> set (map (\<lambda>r. if hit r then h r else r) rows). k r = kx y \<and> P r \<longrightarrow> g y r = h r"
      using Cons.prems(4) by (auto simp: hit_def assms(5) dest: ne)
  qed (use Cons.prems(2) in simp)
  moreover have "affected hit rows = 1"
    unfolding hit_def using Cons.prems(1,3) by (subst affected_eq_one) auto
  moreover have "map (\<lambda>r. if P r \<and> k r \<in> kx ` set xs then h r else r) (map (\<lambda>r. if hit r then h r else r) rows) =
      map (\<lambda>r. if P r \<and> k r \<in> kx ` set (x # xs) then h r else r) rows"
    by (auto simp: hit_def assms(5) dest: ne)
  ultimately show ?case
    by (simp add: upd flip: hit_def)
qed simp


text \<open>The three loops, without failing calls.\<close>

lemma run_count_hits:
  assumes "dn_faults s = []"
    and f: "\<And>x d. f x d = (affected (\<lambda>r. k r = kx x \<and> P r) (tbl d) = 1,
      put (update_rows (\<lambda>r. k r = kx x \<and> P r) (g x) (tbl d)) d)"
    and table: "\<And>t d. tbl (put t d) = t" "\<And>t u d. put t (put u d) = put t d" "\<And>d. put (tbl d) d = d"
  shows "run_state (count_hits f xs n) s =
    (case cas_list k P kx g xs n (tbl (dn_db s)) of (m, t) \<Rightarrow> (Some m, s\<lparr>dn_db := put t (dn_db s)\<rparr>))"
  using assms(1)
  by (induction xs arbitrary: n s) (simp_all add: run_simps f table split_def)

definition interrupted :: "time \<Rightarrow> task_run \<Rightarrow> task_run" where
  "interrupted now r = r\<lparr>r_status := RunInterrupted, r_finished_at := Some now,
     r_error := Some INTERRUPTED_ERROR, r_failure := Some interrupted_failure\<rparr>"

definition recovered :: "stale_run_policy \<Rightarrow> time \<Rightarrow> task_row \<Rightarrow> task_row" where
  "recovered p now r = (case p of
     StaleFail \<Rightarrow> r\<lparr>t_status := Failed, t_error := Some INTERRUPTED_ERROR,
       t_failure := Some interrupted_failure, t_finished_at := Some now\<rparr>
   | StaleRetry \<Rightarrow> r\<lparr>t_status := Pending, t_started_at := None, t_finished_at := None,
       t_error := None, t_failure := None, t_retry_at := None\<rparr>)"

definition vanished :: "time \<Rightarrow> task_row \<Rightarrow> task_row" where
  "vanished now r = r\<lparr>t_status := Failed, t_error := Some (vanished_message (t_name r)),
     t_failure := Some (failure_new FkInvalidInput (vanished_message (t_name r))), t_finished_at := Some now\<rparr>"

lemma reconciled_simps [simp]:
  "r_id (interrupted now run) = r_id run" "r_status (interrupted now run) = RunInterrupted"
  "t_id (recovered p now r) = t_id r" "t_name (recovered p now r) = t_name r"
  "t_status (recovered p now r) \<noteq> Running" "t_status (recovered p now r) \<noteq> AwaitingInput"
  "t_id (vanished now r) = t_id r" "t_status (vanished now r) = Failed"
  by (simp_all add: interrupted_def recovered_def vanished_def split: stale_run_policy.split)

definition interrupt_active :: "time \<Rightarrow> db \<Rightarrow> db" where
  "interrupt_active now d = d\<lparr>task_runs := map (\<lambda>r. if run_active r then interrupted now r else r) (task_runs d)\<rparr>"

definition recover_active :: "stale_run_policy \<Rightarrow> time \<Rightarrow> db \<Rightarrow> db" where
  "recover_active p now d = d\<lparr>tasks := map (\<lambda>r. if in_flight (t_status r) then recovered p now r else r) (tasks d)\<rparr>"

definition fail_unknown :: "string set \<Rightarrow> time \<Rightarrow> db \<Rightarrow> db" where
  "fail_unknown known now d = d\<lparr>tasks := map (\<lambda>r. if t_status r = Pending \<and> t_name r \<notin> known
     then vanished now r else r) (tasks d)\<rparr>"

lemma run_interrupt_all:
  assumes "dn_faults s = []" and "distinct (map r_id (task_runs (dn_db s)))"
  shows "run_state (count_hits (\<lambda>run. interrupt_run now (r_id run) INTERRUPTED_ERROR interrupted_failure)
      (list_active_task_runs (dn_db s)) 0) s =
    (Some (length (filter run_active (task_runs (dn_db s)))), s\<lparr>dn_db := interrupt_active now (dn_db s)\<rparr>)"
proof -
  let ?xs = "list_active_task_runs (dn_db s)"
  have "cas_list r_id run_active r_id (\<lambda>_. interrupted now) ?xs 0 (task_runs (dn_db s)) =
      (0 + length ?xs, map (\<lambda>r. if run_active r \<and> r_id r \<in> r_id ` set ?xs then interrupted now r else r)
        (task_runs (dn_db s)))"
    using assms(2) by (intro cas_list_all) (auto simp: list_active_task_runs_def distinct_map inj_on_def)
  moreover have "r_id r \<in> r_id ` set ?xs" if "r \<in> set (task_runs (dn_db s))" "run_active r" for r
    using that by (auto simp: list_active_task_runs_def)
  ultimately have "cas_list r_id run_active r_id (\<lambda>_. interrupted now) ?xs 0 (task_runs (dn_db s)) =
      (length (filter run_active (task_runs (dn_db s))), task_runs (interrupt_active now (dn_db s)))"
    by (auto simp: list_active_task_runs_def interrupt_active_def)
  then show ?thesis
    by (subst run_count_hits [where tbl = task_runs and put = "\<lambda>t d. d\<lparr>task_runs := t\<rparr>" and k = r_id
          and P = run_active and kx = r_id and g = "\<lambda>_. interrupted now"])
       (use assms(1) in \<open>auto simp: interrupt_run_def interrupted_def [abs_def] interrupt_active_def Let_def\<close>)
qed


lemma run_cas_tasks:
  assumes "dn_faults s = []" and "distinct (map t_id (tasks (dn_db s)))"
    and "\<And>r. t_id (h r) = t_id r" and "xs = map row_without_output (sort_key key (filter Q (tasks (dn_db s))))"
    and "\<And>r. Q r \<Longrightarrow> t_status r \<in> froms"
    and "\<And>t. f t = cas_task (t_id t) froms (g t)"
    and "\<And>r. g (row_without_output r) r = h r"
  shows "run_state (count_hits f xs 0) s = (Some (length (filter Q (tasks (dn_db s)))),
    s\<lparr>dn_db := (dn_db s)\<lparr>tasks := map (\<lambda>r. if Q r then h r else r) (tasks (dn_db s))\<rparr>\<rparr>)"
proof -
  let ?P = "\<lambda>r. t_status r \<in> froms" and ?ts = "tasks (dn_db s)"
  have id: "t_id (row_without_output r) = t_id r" for r by (simp add: row_without_output_def)
  have same: "r = r'" if "r \<in> set ?ts" "r' \<in> set ?ts" "t_id r = t_id r'" for r r'
    using that assms(2) by (metis distinct_map inj_onD)
  have hit: "?P r \<and> t_id r \<in> t_id ` set xs \<longleftrightarrow> Q r" if "r \<in> set ?ts" for r
    using that assms(5) by (auto simp: assms(4) id image_image dest: same)
  have "cas_list t_id ?P t_id g xs 0 ?ts =
      (0 + length xs, map (\<lambda>r. if ?P r \<and> t_id r \<in> t_id ` set xs then h r else r) ?ts)"
  proof (rule cas_list_all)
    show "distinct (map t_id xs)"
      using assms(2) by (auto simp: assms(4) id distinct_map inj_on_def)
    show "\<forall>t \<in> set xs. \<exists>r \<in> set ?ts. t_id r = t_id t \<and> ?P r"
      using assms(5) by (auto simp: assms(4) id)
    show "\<forall>t \<in> set xs. \<forall>r \<in> set ?ts. t_id r = t_id t \<and> ?P r \<longrightarrow> g t r = h r"
      using same assms(7) by (auto simp: assms(4) id)
  qed (use assms in auto)
  also have "\<dots> = (length (filter Q ?ts), map (\<lambda>r. if Q r then h r else r) ?ts)"
    using hit by (simp add: assms(4) cong: if_cong)
  finally show ?thesis
    by (subst run_count_hits [where tbl = tasks and put = "\<lambda>t d. d\<lparr>tasks := t\<rparr>" and k = t_id
          and P = ?P and kx = t_id and g = g])
       (use assms(1) in \<open>auto simp: assms(6) cas_task_def Let_def\<close>)
qed

lemma run_recover_all:
  assumes "dn_faults s = []" and "distinct (map t_id (tasks (dn_db s)))"
  shows "run_state (count_hits (recover_stale p now) (list_active_tasks (dn_db s)) 0) s =
    (Some (length (filter (\<lambda>r. in_flight (t_status r)) (tasks (dn_db s)))),
     s\<lparr>dn_db := recover_active p now (dn_db s)\<rparr>)"
  unfolding recover_active_def
  by (rule run_cas_tasks [where froms = "{Running, AwaitingInput}" and g = "\<lambda>_. recovered p now" and key = t_created_at])
     (use assms in \<open>auto simp: list_active_tasks_def recover_stale_def fail_stale_task_def
        retry_stale_task_def recovered_def [abs_def] split: stale_run_policy.split\<close>)

lemma run_fail_unknown:
  assumes "dn_faults s = []" and "distinct (map t_id (tasks (dn_db s)))"
  shows "run_state (count_hits (fail_vanished now)
      (filter (\<lambda>t. t_name t \<notin> known) (list_pending_tasks (dn_db s))) 0) s =
    (Some (length (filter (\<lambda>r. t_status r = Pending \<and> t_name r \<notin> known) (tasks (dn_db s)))),
     s\<lparr>dn_db := fail_unknown known now (dn_db s)\<rparr>)"
  unfolding fail_unknown_def
proof (rule run_cas_tasks [where froms = "{Pending}" and key = t_created_at
      and g = "\<lambda>t r. r\<lparr>t_status := Failed, t_error := Some (vanished_message (t_name t)),
        t_failure := Some (failure_new FkInvalidInput (vanished_message (t_name t))), t_finished_at := Some now\<rparr>"])
  show "filter (\<lambda>t. t_name t \<notin> known) (list_pending_tasks (dn_db s)) =
      map row_without_output (sort_key t_created_at
        (filter (\<lambda>r. t_status r = Pending \<and> t_name r \<notin> known) (tasks (dn_db s))))"
    by (simp add: list_pending_tasks_def filter_map comp_def row_without_output_def filter_sort_key conj_commute)
qed (use assms in \<open>auto simp: fail_vanished_def fail_pending_task_def vanished_def row_without_output_def\<close>)

lemma run_reconcile:
  fixes s :: daemon and now :: time
  assumes "dn_faults s = []" and "distinct (map t_id (tasks (dn_db s)))" and "distinct (map r_id (task_runs (dn_db s)))"
  defines "d1 \<equiv> interrupt_active now (dn_db s)" and "p \<equiv> stale_run (dn_cfg s)"
    and "known \<equiv> d_name ` set (dn_catalog s)"
  defines "d2 \<equiv> recover_active p now d1"
  defines "st \<equiv> length (filter (\<lambda>r. in_flight (t_status r)) (tasks (dn_db s)))"
  shows "run_state (reconcile now) s =
    (Some \<lparr>runs_interrupted = length (filter run_active (task_runs (dn_db s))),
        tasks_failed = (if p = StaleFail then st else 0), tasks_retried = (if p = StaleRetry then st else 0),
        tasks_invalidated = length (filter (\<lambda>r. t_status r = Pending \<and> t_name r \<notin> known) (tasks d2))\<rparr>,
     s\<lparr>dn_db := fail_unknown known now d2\<rparr>)"
proof -
  have t1: "tasks d1 = tasks (dn_db s)" by (simp add: d1_def interrupt_active_def)
  have "map t_id (tasks d2) = map t_id (tasks (dn_db s))"
    by (auto simp: d2_def recover_active_def t1)
  with assms(2) have wf2: "distinct (map t_id (tasks d2))" by simp
  have "run_state (count_hits (recover_stale p now) (list_active_tasks d1) 0) (s\<lparr>dn_db := d1\<rparr>) =
      (Some st, s\<lparr>dn_db := d2\<rparr>)"
    using run_recover_all [of "s\<lparr>dn_db := d1\<rparr>" p now] assms(1,2) by (simp add: t1 st_def d2_def)
  moreover have "run_state (count_hits (fail_vanished now)
        (filter (\<lambda>t. t_name t \<notin> known) (list_pending_tasks d2)) 0) (s\<lparr>dn_db := d2\<rparr>) =
      (Some (length (filter (\<lambda>r. t_status r = Pending \<and> t_name r \<notin> known) (tasks d2))),
       s\<lparr>dn_db := fail_unknown known now d2\<rparr>)"
    using run_fail_unknown [of "s\<lparr>dn_db := d2\<rparr>" now known] assms(1) wf2 by simp
  ultimately show ?thesis
    using run_interrupt_all [OF assms(1,3), of now] assms(1)
    by (simp add: reconcile_def run_simps flip: d1_def p_def known_def)
qed



end
