(* ===== verification/Dependents.thy ===== *)
theory Dependents
  imports Executor
begin

text \<open>
  What a finished task starts (\<open>crates/favetto/src/executor.rs\<close>): the children its manifest names
  (\<open>spawn\<close>), the dependents its event triggers (\<open>needs\<close>), and the fan-in barriers
  (\<open>:all_finished\<close>).  Files are read and written through \<open>dn_files\<close>.
\<close>

subsection \<open>Prompts and manifests\<close>

definition render_context :: "task \<Rightarrow> json" where
  "render_context t = mk_obj
     ([(''task'', mk_obj [(''id'', JStr (t_id t)), (''name'', JStr (t_name t))]), (''input'', t_input t)]
      @ (case jget (t_input t) ''_prev'' of None \<Rightarrow> [] | Some prev \<Rightarrow> [(''prev'', prev)]))"

definition render_task_prompt :: "serde \<Rightarrow> task_def \<Rightarrow> task \<Rightarrow> string" where
  "render_task_prompt sd d t = render (sd_ser sd) (render_context t) (d_prompt d)"

definition read_file :: "string \<Rightarrow> string option handler" where
  "read_file path = do {
     failed \<leftarrow> take_fault;
     if failed then ret None else gets (\<lambda>s. map_of (dn_files s) path) }"

definition write_file :: "string \<Rightarrow> string \<Rightarrow> bool handler" where
  "write_file path txt = do {
     failed \<leftarrow> take_fault;
     if failed then ret False
     else do { modify (\<lambda>s. s\<lparr>dn_files := (path, txt) # dn_files s\<rparr>); ret True } }"

datatype manifest_error =
    NoSpawnTask
  | NoSpawnFile
  | CannotRead string
  | NotJson string
  | CannotCreateDir string
  | CannotWrite string

text \<open>\<open>spawn_file\<close>, rendered and taken relative to the run's directory.\<close>

definition manifest_path :: "serde \<Rightarrow> string \<Rightarrow> string \<Rightarrow> task \<Rightarrow> string" where
  "manifest_path sd cwd spawn_file t =
     (let rendered = render (sd_ser sd) (render_context t) spawn_file
      in if is_absolute rendered then rendered else join_path cwd rendered)"

fun manifest_items :: "json \<Rightarrow> json list" where
  "manifest_items (JArr items) = items"
| "manifest_items JNull = []"
| "manifest_items other = [other]"

definition spawn_key :: "uuid \<Rightarrow> nat \<Rightarrow> string" where
  "spawn_key tid i = ''spawn:'' @ tid @ '':'' @ nat_str i"

fun enqueue_children ::
  "time \<Rightarrow> string \<Rightarrow> uuid \<Rightarrow> lineage \<Rightarrow> nat \<Rightarrow> json list \<Rightarrow> unit handler"
where
  "enqueue_children now child tid lin i [] = ret ()"
| "enqueue_children now child tid lin i (item # items) = do {
     _ \<leftarrow> enqueue_with_lineage now child item (Some (spawn_key tid i)) lin False;
     enqueue_children now child tid lin (i + 1) items }"

definition spawn_from_manifest ::
  "serde \<Rightarrow> time \<Rightarrow> task \<Rightarrow> task_def \<Rightarrow> string \<Rightarrow> (manifest_error + unit) handler"
where
  "spawn_from_manifest sd now t d cwd =
     (case (d_spawn d, d_spawn_file d) of
        (None, _) \<Rightarrow> ret (Inl NoSpawnTask)
      | (Some child, None) \<Rightarrow> ret (Inl NoSpawnFile)
      | (Some child, Some spawn_file) \<Rightarrow> do {
          let path = manifest_path sd cwd spawn_file t;
          raw \<leftarrow> read_file path;
          (case raw of
             None \<Rightarrow> ret (Inl (CannotRead path))
           | Some raw \<Rightarrow>
               (case sd_parse sd raw of
                  None \<Rightarrow> ret (Inl (NotJson path))
                | Some value \<Rightarrow> do {
                    let items = manifest_items value;
                    if items = [] then ret (Inr ())
                    else do {
                      let lin = (if d_spawn_new_root d then no_lineage else child_of t);
                      enqueue_children now child (t_id t) lin 0 items;
                      ret (Inr ()) } })) })"

definition write_action_manifest ::
  "serde \<Rightarrow> task \<Rightarrow> task_def \<Rightarrow> string \<Rightarrow> (manifest_error + unit) handler"
where
  "write_action_manifest sd t d cwd =
     (case d_spawn_file d of
        None \<Rightarrow> ret (Inl NoSpawnFile)
      | Some spawn_file \<Rightarrow> do {
          let items = (case Option.bind (d_action d) a_spawn_input of
                         Some v \<Rightarrow> [toml_to_json v] | None \<Rightarrow> [JObj []]);
          let path = manifest_path sd cwd spawn_file t;
          mkdir_failed \<leftarrow> (if components path = [] then ret False else take_fault);
          if mkdir_failed then ret (Inl (CannotCreateDir path))
          else do {
            written \<leftarrow> write_file path (sd_ser sd (JArr items));
            ret (if written then Inr () else Inl (CannotWrite path)) } })"

definition run_outputs :: "task \<Rightarrow> json" where
  "run_outputs t = (case do { out \<leftarrow> t_output t; env \<leftarrow> jget out ''envelope''; jget env ''outputs'' } of
     Some v \<Rightarrow> v | None \<Rightarrow> JNull)"

definition action_spawn_ready ::
  "serde \<Rightarrow> task \<Rightarrow> task_def \<Rightarrow> string \<Rightarrow> (manifest_error + bool) handler"
where
  "action_spawn_ready sd t d cwd =
     (if d_kind d \<noteq> KindAction then ret (Inr True)
      else case Option.bind (d_action d) a_when of
        Some w \<Rightarrow>
          (if \<not> evaluate_when (sd_pointer sd) w (run_outputs t) then ret (Inr False)
           else do { r \<leftarrow> write_action_manifest sd t d cwd; ret (map_sum (\<lambda>e. e) (\<lambda>_. True) r) })
      | None \<Rightarrow> do { r \<leftarrow> write_action_manifest sd t d cwd; ret (map_sum (\<lambda>e. e) (\<lambda>_. True) r) })"

subsection \<open>Fan-in barriers\<close>

definition join_key :: "string \<Rightarrow> uuid \<Rightarrow> string" where
  "join_key dep root = ''join:'' @ dep @ '':'' @ root"

text \<open>\<open>join_context\<close> reads the root's name itself; a failed query counts as no name.\<close>

definition root_name :: "uuid \<Rightarrow> string option handler" where
  "root_name root = do {
     t \<leftarrow> db_read (\<lambda>d. get_task d root);
     ret (map_option t_name (Option.bind t (\<lambda>x. x))) }"

definition maybe_start_join ::
  "serde \<Rightarrow> time \<Rightarrow> string \<Rightarrow> string \<Rightarrow> uuid \<Rightarrow> uuid option \<Rightarrow> unit handler"
where
  "maybe_start_join sd now dep target root parent = do {
     active \<leftarrow> db_read (\<lambda>d. list_active_tasks_in_root d root target);
     (case active of
        None \<Rightarrow> ret ()
      | Some (_ # _) \<Rightarrow> ret ()
      | Some [] \<Rightarrow> do {
          ts \<leftarrow> db_read (\<lambda>d. list_tasks_in_root d root target);
          (case ts of
             None \<Rightarrow> ret ()
           | Some ts \<Rightarrow> do {
               nm \<leftarrow> root_name root;
               _ \<leftarrow> enqueue_with_lineage now dep (join_context (sd_ser sd) root nm target ts)
                      (Some (join_key dep root)) \<lparr>l_parent = parent, l_root = Some root\<rparr> False;
               ret () }) }) }"

definition needs_of :: "task_def \<Rightarrow> (string \<times> needs_kind) option" where
  "needs_of d = map_option needs_parts (d_needs d)"

definition joins_of :: "task_def list \<Rightarrow> string \<Rightarrow> string list" where
  "joins_of catalog target = map d_name (filter (\<lambda>d. needs_of d = Some (target, NkAllFinished)) catalog)"

definition evaluate_join_barriers ::
  "serde \<Rightarrow> time \<Rightarrow> string \<Rightarrow> uuid \<Rightarrow> uuid option \<Rightarrow> unit handler"
where
  "evaluate_join_barriers sd now target root parent = do {
     catalog \<leftarrow> gets dn_catalog;
     for_each (\<lambda>dep. maybe_start_join sd now dep target root parent) (joins_of catalog target) }"

subsection \<open>Dependents of a finished task\<close>

definition triggered :: "task_def list \<Rightarrow> string \<Rightarrow> bool option \<Rightarrow> string list" where
  "triggered catalog name success = map d_name (filter (\<lambda>d.
     needs_of d = Some (name, NkFinished) \<or>
     (needs_of d = Some (name, NkSucceeded) \<and> success = Some True) \<or>
     (needs_of d = Some (name, NkFailed) \<and> success = Some False)) catalog)"

definition prev_input :: "serde \<Rightarrow> task option \<Rightarrow> json" where
  "prev_input sd prev = (case prev of
     None \<Rightarrow> JObj []
   | Some p \<Rightarrow> mk_obj [(''_prev'', mk_obj
       [(''name'', JStr (t_name p)), (''task_id'', JStr (t_id p)),
        (''status'', JStr (task_status_as_str (t_status p))),
        (''output'', bounded_prev_value (sd_ser sd) (t_output p) PREV_OUTPUT_BYTES),
        (''session_id'', jopt_str (t_session_id p))])])"

text \<open>Event ids are positive.\<close>

definition needs_key :: "string \<Rightarrow> int \<Rightarrow> string" where
  "needs_key dep eid = ''needs:'' @ dep @ '':'' @ nat_str (nat eid)"

definition start_dependents :: "env \<Rightarrow> serde \<Rightarrow> time \<Rightarrow> event \<Rightarrow> unit handler" where
  "start_dependents env sd now fe =
     (case Option.bind (jget (e_payload fe) ''name'') as_str of
        None \<Rightarrow> ret ()
      | Some name \<Rightarrow> do {
          let success = Option.bind (jget (e_payload fe) ''success'') as_bool;
          catalog \<leftarrow> gets dn_catalog;
          let dependents = triggered catalog name success;
          let joins = joins_of catalog name;
          prev \<leftarrow> (case Option.bind (Option.bind (jget (e_payload fe) ''task_id'') as_str) (env_parse_uuid env) of
             None \<Rightarrow> ret None
           | Some tid \<Rightarrow> do { r \<leftarrow> db_read (\<lambda>d. get_task d tid); ret (Option.bind r (\<lambda>x. x)) });
          for_each (\<lambda>dep. do {
              _ \<leftarrow> enqueue_with_lineage now dep (prev_input sd prev) (Some (needs_key dep (e_id fe)))
                     (case prev of Some p \<Rightarrow> child_of p | None \<Rightarrow> no_lineage) False;
              ret () }) dependents;
          (case prev of
             None \<Rightarrow> ret ()
           | Some p \<Rightarrow> for_each (\<lambda>dep. maybe_start_join sd now dep name (root_or_self p) (Some (t_id p))) joins) })"


subsection \<open>Children of a manifest\<close>

definition child_rows ::
  "time \<Rightarrow> string \<Rightarrow> uuid \<Rightarrow> lineage \<Rightarrow> nat \<Rightarrow> uuid list \<Rightarrow> json list \<Rightarrow> task_row list"
where
  "child_rows now child tid lin i us items = map (\<lambda>(k, u, item).
     row_of_task (new_task now u child item (Some (spawn_key tid k)) lin False))
     (zip [i..<i + length items] (zip us items))"

lemma child_rows_Cons:
  "child_rows now child tid lin i (u # us) (x # xs) =
     row_of_task (new_task now u child x (Some (spawn_key tid i)) lin False)
       # child_rows now child tid lin (i + 1) us xs"
  by (simp add: child_rows_def upt_rec)

lemma spawn_key_inj [simp]: "spawn_key tid i = spawn_key tid j \<longleftrightarrow> i = j"
  using nat_str_inj by (auto simp: spawn_key_def)

lemma tasks_enqueue_children:
  assumes "dn_faults s = []" and "take (length items) (dn_uuids s) = us" and "length us = length items"
    and "distinct us" and "set us \<inter> t_id ` set (tasks (dn_db s)) = {}"
    and "\<And>k. i \<le> k \<Longrightarrow> Some (spawn_key tid k) \<notin> t_dedupe_key ` set (tasks (dn_db s))"
  shows "tasks (dn_db (snd (run_state (enqueue_children now child tid lin i items) s))) =
    tasks (dn_db s) @ child_rows now child tid lin i us items"
  using assms
proof (induction items arbitrary: s i us)
  case Nil
  then show ?case by (simp add: child_rows_def)
next
  case (Cons item items)
  then obtain u us' where us: "us = u # us'" by (cases us) auto
  with Cons.prems(2,3) obtain rest where rest: "dn_uuids s = u # rest" "take (length items) rest = us'"
    by (cases "dn_uuids s") auto
  define t where "t = new_task now u child item (Some (spawn_key tid i)) lin False"
  define s1 where "s1 = snd (run_state (enqueue_with_lineage now child item (Some (spawn_key tid i)) lin False) s)"
  have "dedupe_free (Some (spawn_key tid i)) (dn_db s)" "u \<notin> t_id ` set (tasks (dn_db s))"
    using Cons.prems(5,6) us by (auto simp: dedupe_free_def)
  then have s1: "dn_faults s1 = []" "dn_uuids s1 = rest"
      "tasks (dn_db s1) = tasks (dn_db s) @ [row_of_task t]"
    using Cons.prems(1) by (simp_all add: s1_def run_enqueue [OF Cons.prems(1) rest(1)] tasks_insert_task t_def)
  have "tasks (dn_db (snd (run_state (enqueue_children now child tid lin (i + 1) items) s1))) =
      tasks (dn_db s1) @ child_rows now child tid lin (i + 1) us' items"
  proof (rule Cons.IH)
    show "Some (spawn_key tid k) \<notin> t_dedupe_key ` set (tasks (dn_db s1))" if "i + 1 \<le> k" for k
      using Cons.prems(6) [of k] that by (auto simp: s1(3) t_def)
    show "set us' \<inter> t_id ` set (tasks (dn_db s1)) = {}"
      using Cons.prems(4,5) us by (auto simp: s1(3) t_def)
  qed (use Cons.prems us rest s1 in auto)
  then show ?case
    by (simp add: s1(3) us child_rows_Cons t_def split_def flip: s1_def)
qed

text \<open>Once every key is taken, enqueueing the children again adds no row, whatever fails meanwhile.\<close>

lemma tasks_enqueue_children_again:
  assumes "\<forall>k < length items. Some (spawn_key tid (i + k)) \<in> t_dedupe_key ` set (tasks (dn_db s))"
  shows "tasks (dn_db (snd (run_state (enqueue_children now child tid lin i items) s))) = tasks (dn_db s)"
  using assms
proof (induction items arbitrary: s i)
  case (Cons item items)
  define s1 where "s1 = snd (run_state (enqueue_with_lineage now child item (Some (spawn_key tid i)) lin False) s)"
  have "Some (spawn_key tid i) \<in> t_dedupe_key ` set (tasks (dn_db s))" using Cons.prems by fastforce
  then have s1: "tasks (dn_db s1) = tasks (dn_db s)"
    using tasks_enqueue [of now child item "Some (spawn_key tid i)" lin False s]
    by (auto simp: s1_def dedupe_free_def)
  have "tasks (dn_db (snd (run_state (enqueue_children now child tid lin (i + 1) items) s1))) = tasks (dn_db s1)"
  proof (rule Cons.IH)
    show "\<forall>k < length items. Some (spawn_key tid (i + 1 + k)) \<in> t_dedupe_key ` set (tasks (dn_db s1))"
      using Cons.prems by (auto simp: s1 dest: spec [of _ "Suc _"])
  qed
  then show ?case by (simp add: s1 split_def flip: s1_def)
qed simp

lemma run_read_file [run_simps]:
  "dn_faults s = [] \<Longrightarrow> run_state (read_file p) s = (map_of (dn_files s) p, s)"
  by (simp add: read_file_def take_fault_def)

definition manifest_of :: "serde \<Rightarrow> task \<Rightarrow> task_def \<Rightarrow> string \<Rightarrow> daemon \<Rightarrow> json list option" where
  "manifest_of sd t d cwd s = do {
     spawn_file \<leftarrow> d_spawn_file d;
     raw \<leftarrow> map_of (dn_files s) (manifest_path sd cwd spawn_file t);
     map_option manifest_items (sd_parse sd raw) }"

text \<open>C8: a readable manifest of \<open>n\<close> items makes exactly \<open>n\<close> pending children, the \<open>i\<close>-th with the
  \<open>i\<close>-th item as its input and the spawning task's lineage (or none, for a new root); handing the same
  manifest off again, in any later state that still has those children, adds nothing, even when calls
  fail.\<close>

theorem spawn_from_manifest_exact:
  fixes sd :: serde and now :: time and t :: task and d :: task_def and cwd :: string and s :: daemon
  assumes "d_spawn d = Some child" and "manifest_of sd t d cwd s = Some items" and "dn_faults s = []"
    and "length items \<le> length (dn_uuids s)" and "distinct (dn_uuids s)"
    and "set (dn_uuids s) \<inter> t_id ` set (tasks (dn_db s)) = {}"
    and "\<And>k. Some (spawn_key (t_id t) k) \<notin> t_dedupe_key ` set (tasks (dn_db s))"
  defines "s' \<equiv> snd (run_state (spawn_from_manifest sd now t d cwd) s)"
    and "lin \<equiv> (if d_spawn_new_root d then no_lineage else child_of t)"
  shows "tasks (dn_db s') = tasks (dn_db s) @
      child_rows now child (t_id t) lin 0 (take (length items) (dn_uuids s)) items \<and>
    (\<forall>s2 now2. set (map t_dedupe_key (tasks (dn_db s'))) \<subseteq> t_dedupe_key ` set (tasks (dn_db s2)) \<and>
       manifest_of sd t d cwd s2 = Some items \<longrightarrow>
       tasks (dn_db (snd (run_state (spawn_from_manifest sd now2 t d cwd) s2))) = tasks (dn_db s2))"
proof -
  obtain sf raw v where m: "d_spawn_file d = Some sf" "map_of (dn_files s) (manifest_path sd cwd sf t) = Some raw"
      "sd_parse sd raw = Some v" "items = manifest_items v"
    using assms(2) by (auto simp: manifest_of_def bind_eq_Some_conv)
  let ?new = "child_rows now child (t_id t) lin 0 (take (length items) (dn_uuids s)) items"
  have "s' = snd (run_state (enqueue_children now child (t_id t) lin 0 items) s)"
    using assms(1,3) m by (auto simp: s'_def spawn_from_manifest_def run_simps lin_def split_def Let_def)
  moreover have "set (take (length items) (dn_uuids s)) \<subseteq> set (dn_uuids s)" by (rule set_take_subset)
  ultimately have tasks: "tasks (dn_db s') = tasks (dn_db s) @ ?new"
    using assms by (auto intro!: tasks_enqueue_children)
  have keys: "Some (spawn_key (t_id t) k) \<in> t_dedupe_key ` set ?new" if "k < length items" for k
  proof -
    have "k < length ?new" using that assms(4) by (simp add: child_rows_def)
    moreover have "t_dedupe_key (?new ! k) = Some (spawn_key (t_id t) k)"
      using that assms(4) by (simp add: child_rows_def)
    ultimately show ?thesis using nth_mem by (metis image_eqI)
  qed
  have "tasks (dn_db (snd (run_state (spawn_from_manifest sd now2 t d cwd) s2))) = tasks (dn_db s2)"
    if sub: "set (map t_dedupe_key (tasks (dn_db s'))) \<subseteq> t_dedupe_key ` set (tasks (dn_db s2))"
      and m2: "manifest_of sd t d cwd s2 = Some items" for s2 now2
  proof -
    obtain raw2 v2 where r: "map_of (dn_files s2) (manifest_path sd cwd sf t) = Some raw2"
        "sd_parse sd raw2 = Some v2" "items = manifest_items v2"
      using m2 m(1) by (auto simp: manifest_of_def bind_eq_Some_conv)
    have "tasks (dn_db (snd (run_state (enqueue_children now2 child (t_id t) lin 0 items) s3))) = tasks (dn_db s2)"
      if "dn_db s3 = dn_db s2" for s3
      using keys sub that by (subst tasks_enqueue_children_again) (auto simp: tasks)
    then show ?thesis
      using assms(1) m(1) r
      by (auto simp: spawn_from_manifest_def read_file_def take_fault_def lin_def split_def Let_def
          split: list.splits)
  qed
  with tasks show ?thesis by simp
qed


text \<open>A \<open>serde_json\<close> that knows one document, and a task definition that spawns.\<close>

definition sample_serde :: serde where
  "sample_serde = \<lparr>sd_ser = (\<lambda>_. ''x''),
     sd_parse = (\<lambda>txt. if txt = ''two'' then Some (JArr [JNull, JBool True]) else None),
     sd_pointer = (\<lambda>_ _. None)\<rparr>"

definition spawning_def :: task_def where
  "spawning_def = (bare_def ''plan'')\<lparr>d_spawn := Some ''work'', d_spawn_file := Some ''/m''\<rparr>"

lemma sample_parse [simp]: "sd_parse sample_serde ''two'' = Some (JArr [JNull, JBool True])"
  by (simp add: sample_serde_def)

lemma spawning_def_simps [simp]:
  "d_spawn spawning_def = Some ''work''" "d_spawn_file spawning_def = Some ''/m''"
  "d_spawn_new_root spawning_def = False"
  by (simp_all add: spawning_def_def bare_def_def)

lemma sample_manifest_path: "manifest_path sample_serde ''/w'' ''/m'' t = ''/m''"
  by (simp add: manifest_path_def render_plain find_sub.simps is_absolute_def)

theorem spawn_from_manifest_exact_witness:
  "length (tasks (dn_db (snd (run_state (spawn_from_manifest sample_serde 7 (sample_task ''p'' ''plan'') spawning_def ''/w'')
     ((idle_daemon empty_db)\<lparr>dn_uuids := [''a'', ''b''], dn_files := [(''/m'', ''two'')]\<rparr>))))) = 2"
  using spawn_from_manifest_exact
    [of spawning_def "''work''" sample_serde "sample_task ''p'' ''plan''" "''/w''"
      "(idle_daemon empty_db)\<lparr>dn_uuids := [''a'', ''b''], dn_files := [(''/m'', ''two'')]\<rparr>" "[JNull, JBool True]" 7]
  by (simp add: manifest_of_def sample_manifest_path idle_daemon_def empty_db_def child_rows_def upt_rec)


subsection \<open>Fan-in barriers start once\<close>

definition in_workflow :: "uuid \<Rightarrow> string \<Rightarrow> task_row \<Rightarrow> bool" where
  "in_workflow root name r \<longleftrightarrow> (t_root_id r = Some root \<or> t_id r = root) \<and> t_name r = name"

definition barrier_open :: "uuid \<Rightarrow> string \<Rightarrow> db \<Rightarrow> bool" where
  "barrier_open root target d \<longleftrightarrow>
     (\<forall>r \<in> set (tasks d). in_workflow root target r \<longrightarrow> is_terminal (t_status r))"

lemma list_active_in_root_empty:
  "list_active_tasks_in_root d root target = [] \<longleftrightarrow> barrier_open root target d"
proof -
  have "is_terminal st \<longleftrightarrow> st \<notin> {Pending, Running, AwaitingInput}" for st
    by (cases st) simp_all
  then show ?thesis
    by (auto simp: list_active_tasks_in_root_def barrier_open_def in_workflow_def filter_empty_conv
        set_empty [symmetric] simp del: set_empty)
qed

text \<open>The row a join is inserted with, whatever its id and input.\<close>

definition join_row :: "string \<Rightarrow> uuid \<Rightarrow> uuid option \<Rightarrow> task_row \<Rightarrow> bool" where
  "join_row dep root parent r \<longleftrightarrow> t_name r = dep \<and> t_status r = Pending \<and>
     t_dedupe_key r = Some (join_key dep root) \<and> t_root_id r = Some root \<and> t_parent_id r = parent"

lemma yields_enqueue:
  "yields (\<lambda>s. tasks (dn_db s) = ts) (enqueue_with_lineage now name input key lin i)
     (\<lambda>_ s. tasks (dn_db s) = ts \<or> (\<exists>tid. key \<notin> t_dedupe_key ` set ts - {None} \<and>
        tasks (dn_db s) = ts @ [row_of_task (new_task now tid name input key lin i)]))"
proof (rule yieldsI)
  fix s :: daemon assume "tasks (dn_db s) = ts"
  then show "tasks (dn_db (snd (run_state (enqueue_with_lineage now name input key lin i) s))) = ts \<or>
     (\<exists>tid. key \<notin> t_dedupe_key ` set ts - {None} \<and>
        tasks (dn_db (snd (run_state (enqueue_with_lineage now name input key lin i) s))) =
          ts @ [row_of_task (new_task now tid name input key lin i)])"
    using tasks_enqueue [of now name input key lin i s] by (auto simp: dedupe_free_def)
qed

lemma yields_root_name: "yields (\<lambda>s. dn_db s = d) (root_name root) (\<lambda>_ s. dn_db s = d)"
  unfolding root_name_def by (intro yields_intros yields_db_call) simp_all

lemma yields_maybe_start_join:
  "yields (\<lambda>s. dn_db s = d) (maybe_start_join sd now dep target root parent)
     (\<lambda>_ s. tasks (dn_db s) = tasks d \<or>
       (barrier_open root target d \<and> dedupe_free (Some (join_key dep root)) d \<and>
        (\<exists>row. join_row dep root parent row \<and> tasks (dn_db s) = tasks d @ [row])))"
proof -
  let ?Q = "\<lambda>s. tasks (dn_db s) = tasks d \<or>
       (barrier_open root target d \<and> dedupe_free (Some (join_key dep root)) d \<and>
        (\<exists>row. join_row dep root parent row \<and> tasks (dn_db s) = tasks d @ [row]))"
  have enq: "yields (\<lambda>s. dn_db s = d) (enqueue_with_lineage now dep input (Some (join_key dep root))
      \<lparr>l_parent = parent, l_root = Some root\<rparr> False) (\<lambda>_. ?Q)" if "barrier_open root target d" for input
    by (rule yields_conseq [OF yields_enqueue [of "tasks d"]])
       (use that in \<open>auto simp: dedupe_free_def join_row_def\<close>)
  have "yields (\<lambda>s. dn_db s = d) (do {
          ts \<leftarrow> db_read (\<lambda>d. list_tasks_in_root d root target);
          (case ts of
             None \<Rightarrow> ret ()
           | Some ts \<Rightarrow> do {
               nm \<leftarrow> root_name root;
               _ \<leftarrow> enqueue_with_lineage now dep (join_context (sd_ser sd) root nm target ts)
                      (Some (join_key dep root)) \<lparr>l_parent = parent, l_root = Some root\<rparr> False;
               ret () }) }) (\<lambda>_. ?Q)" if "barrier_open root target d"
    by (rule yields_bind [where R = "\<lambda>_ s. dn_db s = d"], rule yields_db_call, simp, simp,
        rule yields_option, rule yields_ret, simp, rule yields_bind [OF yields_root_name],
        rule yields_bind [OF enq [OF that]], rule yields_ret)
  then show ?thesis
    unfolding maybe_start_join_def
    by (intro yields_bind [where R = "\<lambda>x s. dn_db s = d \<and> (x = Some [] \<longrightarrow> barrier_open root target d)"]
        yields_db_call) (auto simp: list_active_in_root_empty yields_def split: option.splits list.splits)
qed


lemma fan_in_safe:
  fixes sd :: serde and now :: time and dep target :: string and root :: uuid and parent :: "uuid option"
    and s :: daemon
  defines "s' \<equiv> snd (run_state (maybe_start_join sd now dep target root parent) s)"
  shows "tasks (dn_db s') = tasks (dn_db s) \<or>
      (barrier_open root target (dn_db s) \<and> dedupe_free (Some (join_key dep root)) (dn_db s) \<and>
       (\<exists>row. join_row dep root parent row \<and> tasks (dn_db s') = tasks (dn_db s) @ [row]))"
  using yieldsD [OF yields_maybe_start_join refl surjective_pairing, of sd now dep target root parent s]
  by (simp only: s'_def)

text \<open>C9: however its calls fail, resolving a fan-in barrier adds at most one task, the pending join of
  that workflow, and only when every task the barrier waits for has ended and no join was started
  before; with no failure and a fresh id it adds the join exactly then.\<close>

theorem fan_in_exact:
  fixes sd :: serde and now :: time and dep target :: string and root :: uuid and parent :: "uuid option"
    and s :: daemon
  defines "d \<equiv> dn_db s" and "s' \<equiv> snd (run_state (maybe_start_join sd now dep target root parent) s)"
  shows "(tasks (dn_db s') = tasks d \<or>
      (barrier_open root target d \<and> dedupe_free (Some (join_key dep root)) d \<and>
       (\<exists>row. join_row dep root parent row \<and> tasks (dn_db s') = tasks d @ [row]))) \<and>
    (dn_faults s = [] \<and> dn_uuids s = tid # us \<and> tid \<notin> t_id ` set (tasks d) \<longrightarrow>
      (tasks (dn_db s') \<noteq> tasks d \<longleftrightarrow> barrier_open root target d \<and> dedupe_free (Some (join_key dep root)) d))"
proof -
  have safe: "tasks (dn_db s') = tasks d \<or>
      (barrier_open root target d \<and> dedupe_free (Some (join_key dep root)) d \<and>
       (\<exists>row. join_row dep root parent row \<and> tasks (dn_db s') = tasks d @ [row]))"
    unfolding s'_def d_def by (rule fan_in_safe)
  have "tasks (dn_db s') \<noteq> tasks d"
    if ok: "dn_faults s = []" "dn_uuids s = tid # us" "tid \<notin> t_id ` set (tasks d)"
      and fire: "barrier_open root target d" "dedupe_free (Some (join_key dep root)) d"
    using that
    by (simp add: s'_def d_def maybe_start_join_def root_name_def run_simps tasks_insert_task
        list_active_in_root_empty [THEN iffD2])
  with safe show ?thesis by blast
qed

theorem fan_in_exact_witness:
  "tasks (dn_db (snd (run_state (maybe_start_join sample_serde 3 ''sum'' ''work'' ''r'' None)
     ((idle_daemon empty_db)\<lparr>dn_uuids := [''j'']\<rparr>)))) \<noteq> []"
  using fan_in_exact [of sample_serde 3 "''sum''" "''work''" "''r''" None
      "(idle_daemon empty_db)\<lparr>dn_uuids := [''j'']\<rparr>" "''j''" "[]"]
  by (simp add: idle_daemon_def empty_db_def barrier_open_def dedupe_free_def)


text \<open>The barrier does not wait for children its manifest has not enqueued yet: when the children
  enqueued so far have ended, resolving it starts the join with their results only; a child enqueued
  next is pending beside that join, and no later resolution starts another.\<close>

theorem fan_in_misses_late_child:
  fixes sd :: serde and s :: daemon and dep target p :: string and root :: uuid and item :: json
    and parent :: "uuid option" and now :: time and lin :: lineage and k :: nat
  assumes ok: "dn_faults s = []" "dn_uuids s = j # c # us" and "j \<noteq> c" and "{j, c} \<inter> t_id ` set (tasks (dn_db s)) = {}"
    and "barrier_open root target (dn_db s)" and "dedupe_free (Some (join_key dep root)) (dn_db s)"
    and "dedupe_free (Some (spawn_key p k)) (dn_db s)" and "l_root lin = Some root"
  defines "s1 \<equiv> snd (run_state (maybe_start_join sd now dep target root parent) s)"
  defines "s2 \<equiv> snd (run_state (enqueue_with_lineage now target item (Some (spawn_key p k)) lin False) s1)"
  shows "\<exists>join child. join \<in> set (tasks (dn_db s2)) \<and> child \<in> set (tasks (dn_db s2)) \<and>
    join_row dep root parent join \<and>
    (\<exists>nm. t_input join = join_context (sd_ser sd) root nm target (list_tasks_in_root (dn_db s) root target)) \<and>
    in_workflow root target child \<and> \<not> is_terminal (t_status child) \<and>
    t_id child \<notin> t_id ` set (list_tasks_in_root (dn_db s) root target) \<and>
    (\<forall>s3 now' parent'. t_dedupe_key join \<in> t_dedupe_key ` set (tasks (dn_db s3)) \<longrightarrow>
       tasks (dn_db (snd (run_state (maybe_start_join sd now' dep target root parent') s3))) = tasks (dn_db s3))"
proof -
  define nm where "nm = map_option t_name (get_task (dn_db s) root)"
  define input where "input = join_context (sd_ser sd) root nm target (list_tasks_in_root (dn_db s) root target)"
  define jt where "jt = new_task now j dep input (Some (join_key dep root)) \<lparr>l_parent = parent, l_root = Some root\<rparr> False"
  define ct where "ct = new_task now c target item (Some (spawn_key p k)) lin False"
  have ne: "join_key dep root \<noteq> spawn_key p k" by (simp add: join_key_def spawn_key_def)
  have s1: "dn_faults s1 = []" "dn_uuids s1 = c # us" "tasks (dn_db s1) = tasks (dn_db s) @ [row_of_task jt]"
    using assms(1-6)
    by (simp_all add: s1_def maybe_start_join_def root_name_def run_simps tasks_insert_task
        list_active_in_root_empty [THEN iffD2] jt_def input_def nm_def)
  have "tasks (dn_db s2) = tasks (dn_db s1) @ [row_of_task ct]"
    using assms(3,4,7) ne
    by (auto simp: s2_def run_enqueue [OF s1(1,2)] tasks_insert_task s1(3) ct_def jt_def dedupe_free_def)
  then have "row_of_task jt \<in> set (tasks (dn_db s2))" "row_of_task ct \<in> set (tasks (dn_db s2))"
    by (simp_all add: s1(3))
  moreover have "c \<notin> t_id ` set (list_tasks_in_root (dn_db s) root target)"
    using assms(4) by (auto simp: list_tasks_in_root_def)
  moreover have "tasks (dn_db (snd (run_state (maybe_start_join sd now' dep target root parent') s3))) = tasks (dn_db s3)"
    if "Some (join_key dep root) \<in> t_dedupe_key ` set (tasks (dn_db s3))" for s3 now' parent'
    using fan_in_safe [of sd now' dep target root parent' s3] that by (auto simp: dedupe_free_def)
  ultimately show ?thesis
    using assms(8)
    by (intro exI [of _ "row_of_task jt"] exI [of _ "row_of_task ct"])
       (auto simp: jt_def ct_def join_row_def in_workflow_def input_def row_of_task_def task.defs new_task_def)
qed

theorem fan_in_misses_late_child_witness:
  "\<exists>child \<in> set (tasks (dn_db (snd (run_state (enqueue_with_lineage 4 ''work'' JNull (Some (spawn_key ''r'' 1))
       \<lparr>l_parent = Some ''r'', l_root = Some ''r''\<rparr> False)
     (snd (run_state (maybe_start_join sample_serde 4 ''sum'' ''work'' ''r'' None)
       ((idle_daemon empty_db)\<lparr>dn_uuids := [''j'', ''c'']\<rparr>))))))). \<not> is_terminal (t_status child)"
  using fan_in_misses_late_child [where s = "(idle_daemon empty_db)\<lparr>dn_uuids := [''j'', ''c'']\<rparr>" and j = "''j''"
      and c = "''c''" and us = "[]" and root = "''r''" and target = "''work''" and dep = "''sum''" and p = "''r''"
      and k = 1 and lin = "\<lparr>l_parent = Some ''r'', l_root = Some ''r''\<rparr>" and sd = sample_serde and now = 4
      and parent = None and item = JNull]
  by (auto simp: idle_daemon_def empty_db_def barrier_open_def dedupe_free_def)

end
