(* ===== verification/Runs.thy ===== *)
theory Runs
  imports Dependents
begin

text \<open>
  One run of a task (\<open>crates/favetto/src/executor.rs\<close>): the failure of a task that cannot be started,
  the built-in actions, and \<open>run_one\<close> in its two halves, before and after the agent ran.  What the
  agent's process reported is a parameter; other handlers may run between the halves.
\<close>

subsection \<open>Required variables\<close>

definition missing_required_vars :: "task_def \<Rightarrow> json \<Rightarrow> string list" where
  "missing_required_vars d input = map v_name (filter (\<lambda>v. case jget input (v_name v) of
       None \<Rightarrow> True | Some JNull \<Rightarrow> True | Some (JStr s) \<Rightarrow> s = [] | _ \<Rightarrow> False)
     (filter v_required (d_vars d)))"

subsection \<open>Claims\<close>

text \<open>The run's id is drawn inside the transaction; the result is \<open>None\<close> when the transaction failed.\<close>

definition claim :: "time \<Rightarrow> task \<Rightarrow> task_run option option handler" where
  "claim now t = do {
     failed \<leftarrow> take_fault;
     if failed then ret None
     else State (\<lambda>s. let (rid, s') = run_state new_uuid s in
       (case claim_task now rid t (dn_db s) of
          None \<Rightarrow> (None, s')
        | Some (None, d) \<Rightarrow> (Some None, s\<lparr>dn_db := d\<rparr>)
        | Some (Some run, d) \<Rightarrow> (Some (Some run), s'\<lparr>dn_db := d\<rparr>))) }"

text \<open>\<open>fail_task\<close>: a task that cannot be started still gets its attempt and its failed run.\<close>

definition fail_task :: "time \<Rightarrow> task \<Rightarrow> failure_kind \<Rightarrow> string \<Rightarrow> unit handler" where
  "fail_task now t kind err = do {
     claimed \<leftarrow> claim now t;
     let claimed = Option.bind claimed (\<lambda>r. r);
     let t = (case claimed of None \<Rightarrow> t
              | Some run \<Rightarrow> t\<lparr>t_attempt := r_attempt run, t_started_at := r_started_at run\<rparr>);
     let t = t\<lparr>t_status := Failed, t_error := Some err, t_failure := Some (failure_new kind err),
               t_finished_at := Some now\<rparr>;
     fin \<leftarrow> db_call (finish_active_task t);
     let finished = (fin = Some True);
     (case claimed of
        None \<Rightarrow> ret ()
      | Some run \<Rightarrow> do {
          _ \<leftarrow> db_call (finalize_task_run (run\<lparr>r_status := (if finished then RunFailed else RunCancelled),
                 r_finished_at := t_finished_at t, r_error := t_error t, r_failure := t_failure t\<rparr>));
          ret () });
     if \<not> finished then ret ()
     else do {
       publish (PTaskUpdated (task_summary t));
       cfg \<leftarrow> gets dn_cfg;
       retrying \<leftarrow> schedule_auto_retry now t (retry cfg);
       if retrying then ret () else emit_event now EvTaskFinished (finished_payload t False) } }"

subsection \<open>Outcomes\<close>

text \<open>
  \<open>run_action_task\<close>: \<open>actions\<close> is the registry with the effect of each action on its parameters, \<open>ids\<close>
  the sorted registered ids.
\<close>

definition run_action_task ::
  "serde \<Rightarrow> (string \<Rightarrow> (json \<Rightarrow> run_error + string \<times> json) option) \<Rightarrow> string list \<Rightarrow> nat \<Rightarrow> task_def \<Rightarrow>
   run_error + run_outcome"
where
  "run_action_task sd actions ids cap d = (case d_action d of
     None \<Rightarrow> Inl \<lparr>re_kind = FkInvalidInput, re_message = ''task '' @ quoted (d_name d) @
       '' is kind = '' @ dquoted ''action'' @ '' but has no [action] table''\<rparr>
   | Some a \<Rightarrow> (case actions (a_id a) of
       None \<Rightarrow> Inl \<lparr>re_kind = FkInvalidInput, re_message = ''task '' @ quoted (d_name d) @
         '' references unknown action '' @ quoted (a_id a) @ '' (known: '' @ join '', '' ids @ '')''\<rparr>
     | Some execute \<Rightarrow> (case execute (toml_to_json (TTable (a_params a))) of
         Inl e \<Rightarrow> Inl e
       | Inr (summary, outputs) \<Rightarrow>
           Inr \<lparr>ro_output = build_task_output (sd_ser sd) (sd_parse sd) (sd_ser sd outputs)
                  (mk_obj [(''summary'', JStr summary), (''outputs'', outputs)]) None None None cap,
                ro_session_id = None, ro_session_title = None, ro_exit_code = Some 0, ro_usage = None,
                ro_failure = None, ro_alive = False\<rparr>)))"

record agent_result =
  ar_raw :: string
  ar_output :: json
  ar_session_id :: "string option"
  ar_exit_code :: "int option"

definition int_str :: "int \<Rightarrow> string" where
  "int_str i = (if i < 0 then ''-'' @ nat_str (nat (- i)) else nat_str (nat i))"

text \<open>The part of \<open>run_agent_task\<close> after the process ended or finished its turn.\<close>

definition agent_run_outcome ::
  "serde \<Rightarrow> (json \<Rightarrow> agent_usage option) \<Rightarrow> nat \<Rightarrow> string \<Rightarrow> string \<Rightarrow> agent_result \<Rightarrow> string option \<Rightarrow>
   agent_usage option \<Rightarrow> bool \<Rightarrow> bool \<Rightarrow> run_outcome"
where
  "agent_run_outcome sd summary_usage cap agent raw res title live interactive turn_finished =
     \<lparr>ro_output = build_task_output (sd_ser sd) (sd_parse sd) (ar_raw res) (ar_output res) (Some agent)
        (ar_session_id res) title cap,
      ro_session_id = ar_session_id res, ro_session_title = title, ro_exit_code = ar_exit_code res,
      ro_usage = reported_usage summary_usage (ar_output res) live,
      ro_failure = (case ar_exit_code res of
          Some c \<Rightarrow>
            if c = 0 then None
            else if turn_finished
            then Some (failure_new FkAgent (''agent '' @ quoted agent @ '' finished the task unsuccessfully''))
            else Some (failure_new FkAgent (''agent '' @ quoted agent @ '' exited with '' @ int_str c @ '':''
                   @ [CHR 0x0A] @ raw))
        | None \<Rightarrow> Some (failure_new FkInfrastructure (''agent '' @ quoted agent @ '' session disappeared''))),
      ro_alive = interactive \<and> turn_finished\<rparr>"

subsection \<open>\<open>run_one\<close>\<close>

definition task_payload :: "task \<Rightarrow> json" where
  "task_payload t = mk_obj [(''name'', JStr (t_name t)), (''task_id'', JStr (t_id t))]"

definition run_started :: "time \<Rightarrow> task \<Rightarrow> task_run \<Rightarrow> task handler" where
  "run_started now t run = do {
     let t = t\<lparr>t_status := Running, t_attempt := r_attempt run,
               t_started_at := (case r_started_at run of Some at \<Rightarrow> Some at | None \<Rightarrow> Some now)\<rparr>;
     publish (PTaskUpdated (task_summary t));
     emit_event now EvTaskStarted (task_payload t);
     ret t }"

definition runner_of :: "string option \<Rightarrow> task_def \<Rightarrow> string option" where
  "runner_of default_agent d = (case d_kind d of
     KindAction \<Rightarrow> map_option a_id (d_action d)
   | KindAgent \<Rightarrow> (case d_agent d of Some a \<Rightarrow> Some a | None \<Rightarrow> default_agent))"

definition no_agent_error :: "task_def \<Rightarrow> run_error" where
  "no_agent_error d = \<lparr>re_kind = FkInvalidInput, re_message = ''task '' @ quoted (d_name d) @
     '' has no agent: set `agent` in the task or `[agent].default` in the config''\<rparr>"

text \<open>The step in the middle: \<open>agent\<close> is what running the named agent comes to.\<close>

definition execute_run ::
  "serde \<Rightarrow> (string \<Rightarrow> (json \<Rightarrow> run_error + string \<times> json) option) \<Rightarrow> string list \<Rightarrow> nat \<Rightarrow> string option \<Rightarrow>
   (string \<Rightarrow> string + run_outcome) \<Rightarrow> task_def \<Rightarrow> run_error + run_outcome"
where
  "execute_run sd actions ids cap default_agent agent d = (case d_kind d of
     KindAction \<Rightarrow> run_action_task sd actions ids cap d
   | KindAgent \<Rightarrow> (case (case d_agent d of Some a \<Rightarrow> Some a | None \<Rightarrow> default_agent) of
       None \<Rightarrow> Inl (no_agent_error d)
     | Some name \<Rightarrow> map_sum (\<lambda>msg. \<lparr>re_kind = FkInfrastructure, re_message = msg\<rparr>) (\<lambda>ro. ro) (agent name)))"

text \<open>The run's row as it is finalised.\<close>

definition finished_run :: "string option \<Rightarrow> task_def \<Rightarrow> task \<Rightarrow> run_error + run_outcome \<Rightarrow> bool \<Rightarrow> bool \<Rightarrow>
  task_run \<Rightarrow> task_run"
where
  "finished_run default_agent d t outcome finished success run = run\<lparr>
     r_status := (if \<not> finished then RunCancelled else if success then RunSucceeded else RunFailed),
     r_session_id := t_session_id t, r_finished_at := t_finished_at t,
     r_exit_code := (case outcome of Inr ro \<Rightarrow> ro_exit_code ro | Inl _ \<Rightarrow> None),
     r_error := t_error t, r_failure := t_failure t, r_agent := runner_of default_agent d,
     r_model := (case d_kind d of KindAgent \<Rightarrow> d_model d | KindAction \<Rightarrow> None),
     r_usage := (case outcome of Inr ro \<Rightarrow> ro_usage ro | Inl _ \<Rightarrow> None)\<rparr>"

text \<open>The handoff of a task that succeeded.\<close>

definition hand_off :: "serde \<Rightarrow> time \<Rightarrow> task \<Rightarrow> task_def \<Rightarrow> string \<Rightarrow> unit handler" where
  "hand_off sd now t d cwd = (case d_spawn d of
     None \<Rightarrow> ret ()
   | Some child \<Rightarrow> do {
       gate \<leftarrow> action_spawn_ready sd t d cwd;
       (if gate = Inr True then do { _ \<leftarrow> spawn_from_manifest sd now t d cwd; ret () } else ret ());
       (if d_spawn_new_root d then ret ()
        else evaluate_join_barriers sd now child (root_or_self t) (Some (t_id t))) })"

definition announce_finish :: "serde \<Rightarrow> time \<Rightarrow> task \<Rightarrow> bool \<Rightarrow> task_def \<Rightarrow> string \<Rightarrow> unit handler" where
  "announce_finish sd now t success d cwd = do {
     publish (PTaskUpdated (task_summary t));
     cfg \<leftarrow> gets dn_cfg;
     retrying \<leftarrow> (if success then ret False else schedule_auto_retry now t (retry cfg));
     if retrying then ret ()
     else do {
       emit_event now (if success then EvTaskCompleted else EvTaskFailed)
         (mk_obj [(''task_id'', JStr (t_id t))]);
       emit_event now EvTaskFinished (finished_payload t success);
       if success then hand_off sd now t d cwd else ret () } }"

definition reclaim :: "bool \<Rightarrow> task \<Rightarrow> plan \<Rightarrow> unit handler" where
  "reclaim session_alive t pl = do {
     cfg \<leftarrow> gets dn_cfg;
     (case pl_worktree pl of
        None \<Rightarrow> ret ()
      | Some wt \<Rightarrow> if keep_worktree cfg \<or> session_alive then ret ()
          else remove_worktree (t_id t) (w_repo wt) (w_path' wt) (w_branch wt)) }"

definition run_finished ::
  "env \<Rightarrow> serde \<Rightarrow> string option \<Rightarrow> time \<Rightarrow> task \<Rightarrow> task_run \<Rightarrow> task_def \<Rightarrow> plan \<Rightarrow> run_error + run_outcome \<Rightarrow>
   unit handler"
where
  "run_finished env sd default_agent now t run d pl outcome = do {
     let session_alive = ((case outcome of Inr ro \<Rightarrow> ro_alive ro | Inl _ \<Rightarrow> False) \<or> env_live env (t_id t));
     let (t, success) = record_run_outcome t outcome;
     let t = t\<lparr>t_finished_at := Some now\<rparr>;
     fin \<leftarrow> db_call (finish_active_task t);
     let finished = (fin = Some True);
     _ \<leftarrow> db_call (finalize_task_run (finished_run default_agent d t outcome finished success run));
     (if finished then announce_finish sd now t success d (pl_cwd pl) else ret ());
     reclaim session_alive t pl }"


subsection \<open>What a handoff keeps\<close>

text \<open>
  The handlers behind a finished run add task rows and events other than \<open>TaskFinished\<close>, and move
  files and worktrees; whatever survives that survives them.
\<close>

locale handoff_inv =
  fixes I :: "db \<Rightarrow> bool"
  assumes insert: "I d \<Longrightarrow> I (insert_task t d)"
    and event: "e_kind e \<noteq> EvTaskFinished \<Longrightarrow> I d \<Longrightarrow> I (snd (insert_event e d))"
    and forget: "I d \<Longrightarrow> I (forget_worktree tid d)"
begin

lemma emit [keeps_intros]: "k \<noteq> EvTaskFinished \<Longrightarrow> keeps (db_inv I) (emit_event now k p)"
  unfolding emit_event_def Let_def by (intro keeps_intros keeps_db_call event) simp_all

lemma world [keeps_intros]:
  "keeps (db_inv I) (git c)" "keeps (db_inv I) (modify (\<lambda>s. s\<lparr>dn_files := h s\<rparr>))"
  by (auto simp: git_def db_inv_def intro!: keepsI split: list.splits)

lemma enqueue [keeps_intros]: "keeps (db_inv I) (enqueue_with_lineage now name input key lin i)"
  unfolding enqueue_with_lineage_def enqueue_with_id_def Let_def
  by (intro keeps_intros keeps_db_call) (simp_all add: insert)

lemma children [keeps_intros]: "keeps (db_inv I) (enqueue_children now child tid lin i items)"
  by (induction items arbitrary: i) (auto intro!: keeps_intros)

lemma files [keeps_intros]: "keeps (db_inv I) (read_file p)" "keeps (db_inv I) (write_file p txt)"
  unfolding read_file_def write_file_def by (intro keeps_intros)+

lemma manifest [keeps_intros]:
  "keeps (db_inv I) (spawn_from_manifest sd now t d cwd)"
  "keeps (db_inv I) (action_spawn_ready sd t d cwd)"
  unfolding spawn_from_manifest_def action_spawn_ready_def write_action_manifest_def Let_def
  by (auto intro!: keeps_intros split: option.splits)

lemma join [keeps_intros]:
  "keeps (db_inv I) (maybe_start_join sd now dep target root parent)"
  "keeps (db_inv I) (evaluate_join_barriers sd now target root parent)"
  unfolding maybe_start_join_def evaluate_join_barriers_def root_name_def
  by (auto intro!: keeps_intros split: option.splits list.splits)

lemma handed_off [keeps_intros]: "keeps (db_inv I) (hand_off sd now t d cwd)"
  unfolding hand_off_def by (auto intro!: keeps_intros split: option.splits)

lemma reclaimed [keeps_intros]: "keeps (db_inv I) (reclaim alive t pl)"
  unfolding reclaim_def remove_worktree_def delete_branch_def prune_repo_def
  by (auto intro!: keeps_intros keeps_db_call forget split: option.splits)

end

definition finish_log :: "db \<Rightarrow> event list" where
  "finish_log d = filter (\<lambda>e. e_kind e = EvTaskFinished) (events d)"

interpretation unfinished: handoff_inv "\<lambda>d. J (finish_log d)" for J
  by unfold_locales (auto simp: finish_log_def insert_task_def insert_event_def forget_worktree_def Let_def)

interpretation rows_stay: handoff_inv "\<lambda>d. prefix rows (tasks d)" for rows
  by unfold_locales (auto simp: insert_task_def insert_event_def forget_worktree_def Let_def)

lemma finish_log_simps [simp]:
  "finish_log (d\<lparr>tasks := ts\<rparr>) = finish_log d" "finish_log (d\<lparr>task_runs := rs\<rparr>) = finish_log d"
  "finish_log (snd (cas_task i from f d)) = finish_log d"
  "finish_log (snd (finalize_task_run r d)) = finish_log d"
  by (simp_all add: finish_log_def cas_task_def finalize_task_run_def Let_def)

lemma unfinished_retry [keeps_intros]: "keeps (db_inv (\<lambda>d. J (finish_log d))) (schedule_auto_retry now t rs)"
  unfolding schedule_auto_retry_def schedule_task_retry_def
  by (auto intro!: keeps_intros keeps_db_call split: option.splits bool.splits)

subsection \<open>A run ends at most once\<close>

lemma finish_log_emit:
  "finish_log (dn_db (snd (run_state (emit_event now EvTaskFinished p) s))) = finish_log (dn_db s) \<or>
   (\<exists>e. finish_log (dn_db (snd (run_state (emit_event now EvTaskFinished p) s))) = finish_log (dn_db s) @ [e] \<and>
      e_payload e = p)"
  by (auto simp: emit_event_def db_call_def take_fault_def publish_def inc_events_def insert_event_def
      finish_log_def Let_def split: list.splits)

definition one_finish :: "event list \<Rightarrow> json \<Rightarrow> event list \<Rightarrow> bool" where
  "one_finish evs p log \<longleftrightarrow> log = evs \<or> (\<exists>e. log = evs @ [e] \<and> e_payload e = p)"

lemma yields_emit_finished:
  "yields (db_inv (\<lambda>d. finish_log d = evs)) (emit_event now EvTaskFinished p)
     (\<lambda>_. db_inv (\<lambda>d. one_finish evs p (finish_log d)))"
proof (rule yieldsI)
  fix s assume "db_inv (\<lambda>d. finish_log d = evs) s"
  then show "db_inv (\<lambda>d. one_finish evs p (finish_log d)) (snd (run_state (emit_event now EvTaskFinished p) s))"
    using finish_log_emit [of now p s] by (simp add: db_inv_def one_finish_def)
qed

lemma yields_announce:
  "yields (db_inv (\<lambda>d. finish_log d = evs)) (announce_finish sd now t success d cwd)
     (\<lambda>_. db_inv (\<lambda>d. one_finish evs (finished_payload t success) (finish_log d)))"
proof -
  let ?same = "db_inv (\<lambda>d. finish_log d = evs)"
    and ?one = "db_inv (\<lambda>d. one_finish evs (finished_payload t success) (finish_log d))"
  have weak: "\<And>s. ?same s \<Longrightarrow> ?one s" by (simp add: db_inv_def one_finish_def)
  have pre: "keeps ?same (publish p)" "keeps ?same (gets f)"
      "keeps ?same (if success then ret False else schedule_auto_retry now t rs)"
      "keeps ?same (emit_event now (if success then EvTaskCompleted else EvTaskFailed) p')" for p f rs p'
    by (intro keeps_intros unfinished_retry [where J = "\<lambda>l. l = evs"] unfinished.emit [where J = "\<lambda>l. l = evs"]; simp)+
  have "keeps ?one (if success then hand_off sd now t d cwd else ret ())"
    by (intro keeps_intros unfinished.handed_off)
  then show ?thesis
    unfolding announce_finish_def
    by (intro yields_bind [OF yields_keeps [OF pre(1)]] yields_bind [OF yields_keeps [OF pre(2)]]
        yields_bind [OF yields_keeps [OF pre(3)]] yields_if yields_bind [OF yields_keeps [OF pre(4)]]
        yields_bind [OF yields_emit_finished] yields_keeps yields_ret weak)
qed


lemma reclaim_keeps:
  assumes "\<And>d tid. I d \<Longrightarrow> I (forget_worktree tid d)"
  shows "keeps (db_inv I) (reclaim alive t pl)"
proof -
  have g: "keeps (db_inv I) (git c)" for c
    by (auto simp: git_def db_inv_def intro!: keepsI split: list.splits)
  show ?thesis
    unfolding reclaim_def remove_worktree_def delete_branch_def prune_repo_def
    by (auto intro!: keeps_intros g keeps_db_call assms split: option.splits)
qed

lemma cas_task_not_hit:
  assumes "tables_wf d" and "task_status_of d i \<notin> Some ` froms"
  shows "cas_task i froms f d = (False, d)"
proof -
  have "\<not> fst (cas_task i froms f d)" using cas_task_hit [OF assms(1), of i froms f] assms(2) by auto
  with cas_task_miss [OF assms(1) this] show ?thesis by (metis prod.collapse)
qed

text \<open>C10: however its calls fail, the end of a run announces at most one \<open>TaskFinished\<close>, of this task and
  with the outcome it announces as its status; and when the task is no longer in flight, because a
  cancellation won, the task table and the event log stay as they were.\<close>

theorem run_ends_once:
  fixes env :: env and sd :: serde and default_agent :: "string option" and now :: time and t :: task
    and run :: task_run and df :: task_def and pl :: plan and outcome :: "run_error + run_outcome" and s :: daemon
  assumes "tables_wf (dn_db s)"
  defines "d \<equiv> dn_db s"
    and "s' \<equiv> snd (run_state (run_finished env sd default_agent now t run df pl outcome) s)"
  shows "(task_status_of d (t_id t) \<notin> {Some Running, Some AwaitingInput} \<longrightarrow>
       tasks (dn_db s') = tasks d \<and> events (dn_db s') = events d) \<and>
    (finish_log (dn_db s') = finish_log d \<or>
     (\<exists>e tf. finish_log (dn_db s') = finish_log d @ [e] \<and>
        e_payload e = finished_payload tf (t_status tf = Succeeded) \<and>
        t_id tf = t_id t \<and> t_status tf \<in> {Succeeded, Failed}))"
proof -
  define t2 where "t2 = (fst (record_run_outcome t outcome))\<lparr>t_finished_at := Some now\<rparr>"
  define success where "success = snd (record_run_outcome t outcome)"
  have t2: "t_id t2 = t_id t" "t_status t2 = (if success then Succeeded else Failed)"
    by (simp_all add: t2_def success_def)
  let ?alive = "(case outcome of Inr ro \<Rightarrow> ro_alive ro | Inl _ \<Rightarrow> False) \<or> env_live env (t_id t)"
  have unfold: "run_finished env sd default_agent now t run df pl outcome = do {
     fin \<leftarrow> db_call (finish_active_task t2);
     _ \<leftarrow> db_call (finalize_task_run (finished_run default_agent df t2 outcome (fin = Some True) success run));
     (if fin = Some True then announce_finish sd now t2 success df (pl_cwd pl) else ret ());
     reclaim ?alive t2 pl }"
    by (simp only: run_finished_def split_def t2_def success_def Let_def)
  let ?K = "db_inv (\<lambda>d'. tasks d' = tasks d \<and> events d' = events d)"
  have A: "?K s'" if "task_status_of d (t_id t) \<notin> {Some Running, Some AwaitingInput}"
  proof -
    have "yields (\<lambda>s. dn_db s = d) (db_call (finish_active_task t2)) (\<lambda>x s. x \<noteq> Some True \<and> ?K s)"
      using cas_task_not_hit [OF assms(1), of "t_id t" "{Running, AwaitingInput}"] that
      by (intro yields_db_call) (auto simp: db_inv_def finish_active_task_def t2(1) d_def)
    moreover have "yields ?K (reclaim ?alive t2 pl) (\<lambda>_. ?K)"
      by (intro yields_keeps reclaim_keeps) (simp add: forget_worktree_def)
    moreover have "yields (\<lambda>s. x \<noteq> Some True \<and> ?K s)
        (db_call (finalize_task_run (finished_run default_agent df t2 outcome (x = Some True) success run)))
        (\<lambda>_ s. x \<noteq> Some True \<and> ?K s)" for x
      by (rule yields_db_call) (simp_all add: finalize_task_run_def Let_def db_inv_def)
    moreover have "yields (\<lambda>s. x \<noteq> Some True \<and> ?K s)
        (if x = Some True then announce_finish sd now t2 success df (pl_cwd pl) else ret ()) (\<lambda>_. ?K)" for x
      by (auto simp: yields_def)
    ultimately have "yields (\<lambda>s. dn_db s = d) (run_finished env sd default_agent now t run df pl outcome) (\<lambda>_. ?K)"
      unfolding unfold by (intro yields_bind)
    then show ?thesis
      using yieldsD [OF _ _ surjective_pairing] by (simp add: s'_def d_def yields_def)
  qed
  have "yields (db_inv (\<lambda>d'. finish_log d' = finish_log d)) (run_finished env sd default_agent now t run df pl outcome)
      (\<lambda>_. db_inv (\<lambda>d'. one_finish (finish_log d) (finished_payload t2 success) (finish_log d')))"
    unfolding unfold
  proof (intro yields_bind)
    let ?same = "db_inv (\<lambda>d'. finish_log d' = finish_log d)"
      and ?one = "db_inv (\<lambda>d'. one_finish (finish_log d) (finished_payload t2 success) (finish_log d'))"
    show "yields ?same (db_call (finish_active_task t2)) (\<lambda>_. ?same)"
      by (intro yields_keeps keeps_db_call) (simp add: finish_active_task_def)
    show "yields ?same (db_call (finalize_task_run r)) (\<lambda>_. ?same)" for r
      by (intro yields_keeps keeps_db_call) simp
    show "yields ?same (if x = Some True then announce_finish sd now t2 success df (pl_cwd pl) else ret ())
        (\<lambda>_. ?one)" for x
      by (intro yields_if yields_announce yields_ret) (simp add: db_inv_def one_finish_def)
    show "yields ?one (reclaim alive t2 pl) (\<lambda>_. ?one)" for alive
      by (intro yields_keeps reclaim_keeps) (simp add: finish_log_def forget_worktree_def)
  qed
  then have "one_finish (finish_log d) (finished_payload t2 success) (finish_log (dn_db s'))"
    by (simp add: s'_def d_def yields_def db_inv_def)
  moreover have "\<exists>tf. finished_payload t2 success = finished_payload tf (t_status tf = Succeeded) \<and>
      t_id tf = t_id t \<and> t_status tf \<in> {Succeeded, Failed}"
    using t2 by (intro exI [of _ t2]) simp
  ultimately show ?thesis
    using A unfolding one_finish_def db_inv_def by metis
qed


theorem run_ends_once_witness:
  "events (dn_db (snd (run_state (run_finished quiet_env sample_serde None 5 (sample_task ''a'' ''build'')
     (new_run 1 ''r'' (sample_task ''a'' ''build'')) (bare_def ''build'')
     \<lparr>pl_cwd = ''/w'', pl_needs_lock = True, pl_worktree = None\<rparr>
     (Inl \<lparr>re_kind = FkAgent, re_message = ''x''\<rparr>)) (idle_daemon sample_db)))) = []"
  using run_ends_once [of "idle_daemon sample_db" "sample_task ''a'' ''build''" quiet_env sample_serde None 5
      "new_run 1 ''r'' (sample_task ''a'' ''build'')" "bare_def ''build''"
      "\<lparr>pl_cwd = ''/w'', pl_needs_lock = True, pl_worktree = None\<rparr>" "Inl \<lparr>re_kind = FkAgent, re_message = ''x''\<rparr>"]
    sample_db_wf
  by (simp add: idle_daemon_def) (simp add: sample_task_def sample_db_def insert_task_def empty_db_def)

subsection \<open>A run is never lost\<close>

lemma task_status_prefix:
  "prefix (tasks d) (tasks d') \<Longrightarrow> task_status_of d i = Some st \<Longrightarrow> task_status_of d' i = Some st"
proof -
  have "List.find P (xs @ ys) = Some r" if "List.find P xs = Some r" for P xs ys and r :: task_row
    using that by (induction xs) (auto split: if_splits)
  then show "prefix (tasks d) (tasks d') \<Longrightarrow> task_status_of d i = Some st \<Longrightarrow> ?thesis"
    by (auto simp: prefix_def task_status_of_def get_row_def lookup_row_def)
qed

lemma cas_task_status:
  assumes "tables_wf d" and "\<And>r. t_id (f r) = t_id r" and "\<And>r. t_status (f r) = st"
    and "task_status_of d i \<in> Some ` froms"
  shows "task_status_of (snd (cas_task i froms f d)) i = Some st"
proof -
  obtain r where r: "get_row d i = Some r" "t_status r \<in> froms"
    using assms(4) by (auto simp: task_status_of_def)
  then have "t_id r = i" using get_row_SomeD by blast
  with r show ?thesis by (simp add: task_status_of_def cas_task_row assms(2,3))
qed

lemma auto_retry_effect:
  assumes "tables_wf (dn_db s)" and "dn_faults s = []" and "task_status_of (dn_db s) (t_id t) = Some Failed"
    and "t_failure t = Some fl" and "should_retry rs (t_attempt t) fl"
  shows "fst (run_state (schedule_auto_retry now t rs) s) \<and>
    task_status_of (dn_db (snd (run_state (schedule_auto_retry now t rs) s))) (t_id t) = Some Pending"
proof -
  define d' where "d' = snd (schedule_task_retry (t_id t) (retry_deadline now (backoff_delay rs (t_attempt t))) (dn_db s))"
  have hit: "fst (schedule_task_retry (t_id t) at (dn_db s))" for at
    using cas_task_hit [OF assms(1)] assms(3) by (simp add: schedule_task_retry_def)
  have st: "task_status_of d' (t_id t) = Some Pending"
    unfolding d'_def schedule_task_retry_def using assms(1,3) by (intro cas_task_status) auto
  have "task_status_of (d'\<lparr>events := es, event_seq := n\<rparr>) (t_id t) = task_status_of d' (t_id t)" for es n
    by (simp add: task_status_of_def get_row_def)
  with st hit show ?thesis
    using assms(2,4,5)
    by (simp add: schedule_auto_retry_def run_simps Let_def split: option.split flip: d'_def)
qed

lemma no_auto_retry:
  "\<not> (\<exists>fl. t_failure t = Some fl \<and> should_retry rs (t_attempt t) fl) \<Longrightarrow>
   schedule_auto_retry now t rs = ret False"
  by (auto simp: schedule_auto_retry_def split: option.split)

text \<open>C11: when no call fails, the end of a run whose task is still in flight does exactly one of two
  things: the task is pending again, for an automatic retry, which happens exactly when the run failed
  with a failure its policy retries, or it has its final status and one \<open>TaskFinished\<close> was announced.\<close>

theorem run_settles:
  fixes env :: env and sd :: serde and default_agent :: "string option" and now :: time and t :: task
    and run :: task_run and df :: task_def and pl :: plan and outcome :: "run_error + run_outcome" and s :: daemon
  assumes "tables_wf (dn_db s)" and "dn_faults s = []"
    and "task_status_of (dn_db s) (t_id t) \<in> {Some Running, Some AwaitingInput}"
  defines "d \<equiv> dn_db s" and "success \<equiv> snd (record_run_outcome t outcome)"
    and "failure \<equiv> t_failure (fst (record_run_outcome t outcome))"
    and "s' \<equiv> snd (run_state (run_finished env sd default_agent now t run df pl outcome) s)"
  shows "if \<not> success \<and> (\<exists>fl. failure = Some fl \<and> should_retry (retry (dn_cfg s)) (t_attempt t) fl)
    then task_status_of (dn_db s') (t_id t) = Some Pending \<and> finish_log (dn_db s') = finish_log d
    else task_status_of (dn_db s') (t_id t) = Some (if success then Succeeded else Failed) \<and>
      (\<exists>e. finish_log (dn_db s') = finish_log d @ [e])"
proof -
  define t2 where "t2 = (fst (record_run_outcome t outcome))\<lparr>t_finished_at := Some now\<rparr>"
  have t2: "t_id t2 = t_id t" "t_status t2 = (if success then Succeeded else Failed)"
      "t_failure t2 = failure" "t_attempt t2 = t_attempt t"
    by (simp_all add: t2_def success_def failure_def)
  define d2 where "d2 = snd (finalize_task_run (finished_run default_agent df t2 outcome True success run)
      (snd (finish_active_task t2 d)))"
  have hit: "fst (finish_active_task t2 d)"
    using assms(3) cas_task_hit [OF assms(1)] by (auto simp: finish_active_task_def d_def t2(1))
  have d2: "tasks d2 = tasks (snd (finish_active_task t2 d))" "finish_log d2 = finish_log d"
    by (simp_all add: d2_def finish_active_task_def finalize_task_run_def Let_def)
  have wf: "tables_wf (snd (finish_active_task t2 d))"
    using assms(1) by (simp add: finish_active_task_def cas_task_wf d_def)
  have wf2: "tables_wf d2"
    unfolding d2_def by (rule finalize_task_run_wf [OF wf])
  have "task_status_of (snd (finish_active_task t2 d)) (t_id t) = Some (t_status t2)"
    unfolding finish_active_task_def t2(1) d_def using assms(1,3)
    by (intro cas_task_status) (auto simp: t2(1))
  then have st2: "task_status_of d2 (t_id t) = Some (t_status t2)"
    by (simp add: task_status_of_def get_row_def d2(1))
  define s3 where "s3 = s\<lparr>dn_db := d2, dn_pushes := dn_pushes s @ [PTaskUpdated (task_summary t2)]\<rparr>"
  have s3: "dn_faults s3 = []" "dn_db s3 = d2" "dn_cfg s3 = dn_cfg s" using assms(2) by (simp_all add: s3_def)
  let ?retry = "if success then ret False else schedule_auto_retry now t2 (retry (dn_cfg s))"
  define s4 where "s4 = snd (run_state (announce_finish sd now t2 success df (pl_cwd pl)) (s\<lparr>dn_db := d2\<rparr>))"
  have ann: "s4 = snd (run_state (?retry \<bind> (\<lambda>retrying. if retrying then ret () else do {
       emit_event now (if success then EvTaskCompleted else EvTaskFailed) (mk_obj [(''task_id'', JStr (t_id t2))]);
       emit_event now EvTaskFinished (finished_payload t2 success);
       if success then hand_off sd now t2 df (pl_cwd pl) else ret () })) s3)"
    by (simp add: s4_def announce_finish_def run_publish s3_def)
  obtain alive where s': "s' = snd (run_state (reclaim alive t2 pl) s4)"
    using assms(2) hit
    by (simp add: s'_def run_finished_def split_def t2_def [symmetric] success_def [symmetric] run_simps
        s4_def d2_def d_def Let_def)
  have "db_inv (\<lambda>d'. tasks d' = tasks (dn_db s4) \<and> finish_log d' = finish_log (dn_db s4)) s'"
    unfolding s' by (rule keepsD [OF reclaim_keeps]) (simp_all add: db_inv_def forget_worktree_def finish_log_def)
  then have same: "task_status_of (dn_db s') (t_id t) = task_status_of (dn_db s4) (t_id t)"
      "finish_log (dn_db s') = finish_log (dn_db s4)"
    by (simp_all add: db_inv_def task_status_of_def get_row_def)
  show ?thesis
  proof (cases "\<not> success \<and> (\<exists>fl. failure = Some fl \<and> should_retry (retry (dn_cfg s)) (t_attempt t) fl)")
    case True
    then obtain fl where fl: "\<not> success" "failure = Some fl" "should_retry (retry (dn_cfg s)) (t_attempt t) fl" by auto
    have r: "fst (run_state (schedule_auto_retry now t2 (retry (dn_cfg s))) s3) \<and>
        task_status_of (dn_db (snd (run_state (schedule_auto_retry now t2 (retry (dn_cfg s))) s3))) (t_id t2) = Some Pending"
      using fl st2 s3 wf2 by (intro auto_retry_effect) (auto simp: t2)
    then have "s4 = snd (run_state (schedule_auto_retry now t2 (retry (dn_cfg s))) s3)"
      using fl(1) by (simp add: ann split_def)
    moreover have "db_inv (\<lambda>d'. finish_log d' = finish_log d)
        (snd (run_state (schedule_auto_retry now t2 (retry (dn_cfg s))) s3))"
      by (rule keepsD [OF unfinished_retry [where J = "\<lambda>l. l = finish_log d"]]) (simp add: db_inv_def s3 d2)
    ultimately show ?thesis using True r same by (simp add: db_inv_def t2(1))
  next
    case False
    then have "?retry = ret False" using no_auto_retry [of t2] t2 by auto
    then have "s4 = snd (run_state (do {
       emit_event now (if success then EvTaskCompleted else EvTaskFailed) (mk_obj [(''task_id'', JStr (t_id t2))]);
       emit_event now EvTaskFinished (finished_payload t2 success);
       if success then hand_off sd now t2 df (pl_cwd pl) else ret () }) s3)"
      unfolding ann by simp
    moreover define s5 where "s5 = snd (run_state (do {
       emit_event now (if success then EvTaskCompleted else EvTaskFailed) (mk_obj [(''task_id'', JStr (t_id t2))]);
       emit_event now EvTaskFinished (finished_payload t2 success) }) s3)"
    ultimately have s4: "s4 = snd (run_state (if success then hand_off sd now t2 df (pl_cwd pl) else ret ()) s5)"
      by (simp add: split_def)
    obtain e where s5: "tasks (dn_db s5) = tasks d2" "finish_log (dn_db s5) = finish_log d @ [e]"
      using s3 d2(2) by (cases success) (auto simp: s5_def run_emit_event Let_def finish_log_def)
    have "keeps (db_inv (\<lambda>d'. prefix (tasks d2) (tasks d'))) (if success then hand_off sd now t2 df (pl_cwd pl) else ret ())"
        "keeps (db_inv (\<lambda>d'. finish_log d' = finish_log d @ [e])) (if success then hand_off sd now t2 df (pl_cwd pl) else ret ())"
      by (intro keeps_intros rows_stay.handed_off unfinished.handed_off [where J = "\<lambda>l. l = finish_log d @ [e]"])+
    then have "prefix (tasks d2) (tasks (dn_db s4))" "finish_log (dn_db s4) = finish_log d @ [e]"
      using s5 by (auto simp: s4 keeps_def db_inv_def)
    then show ?thesis
      using task_status_prefix [OF _ st2] same False by (simp add: t2(2))
  qed
qed


definition running_db :: db where
  "running_db = snd (the (claim_task 1 ''r'' (sample_task ''a'' ''build'') sample_db))"

lemma running_db_wf: "tables_wf running_db" "task_status_of running_db ''a'' = Some Running"
  by (simp_all add: running_db_def claim_task_def cas_task_def insert_task_run_def sample_db_def sample_task_def
      insert_task_def empty_db_def tables_wf_def tasks_wf_def task_status_of_def get_row_def lookup_row_def
      affected_def update_rows_def row_of_task_def task.defs task_row.defs Let_def)

theorem run_settles_witness:
  "\<exists>e. finish_log (dn_db (snd (run_state (run_finished quiet_env sample_serde None 5 (sample_task ''a'' ''build'')
     (new_run 1 ''r'' (sample_task ''a'' ''build'')) (bare_def ''build'')
     \<lparr>pl_cwd = ''/w'', pl_needs_lock = True, pl_worktree = None\<rparr>
     (Inr \<lparr>ro_output = JNull, ro_session_id = None, ro_session_title = None, ro_exit_code = Some 0,
        ro_usage = None, ro_failure = None, ro_alive = False\<rparr>)) (idle_daemon running_db)))) = finish_log running_db @ [e]"
  using run_settles [of "idle_daemon running_db" "sample_task ''a'' ''build''" "Inr \<lparr>ro_output = JNull,
        ro_session_id = None, ro_session_title = None, ro_exit_code = Some 0, ro_usage = None,
        ro_failure = None, ro_alive = False\<rparr>"] running_db_wf
  by (simp add: idle_daemon_def record_run_outcome_def sample_task_def)




end
