(* ===== verification/Handlers.thy ===== *)
theory Handlers
  imports Runs
begin

text \<open>
  The daemon's handlers refine the life cycle of the database layer: whatever calls fail, a handler
  changes the database only by operations of \<open>db_op\<close> that meet their callers' obligations, and never
  changes the configuration.  \<open>handler_inv\<close> is that contract for an invariant; every handler of the
  executor keeps such an invariant.
\<close>

lemma claim_task_lost_same: "claim_task now rid t d = Some (None, d') \<Longrightarrow> d' = d"
  by (auto simp: claim_task_def Let_def split_def split: if_splits)

lemma claim_effect:
  fixes s :: daemon and now :: time and t :: task
  defines "s' \<equiv> snd (run_state (claim now t) s)"
  shows "dn_cfg s' = dn_cfg s \<and> (dn_db s' = dn_db s \<or> (\<exists>rid. dn_db s' = snd (claim_won now rid t (dn_db s))))"
proof -
  define m where "m = (State (\<lambda>s. let (rid, s') = run_state new_uuid s in
       (case claim_task now rid t (dn_db s) of
          None \<Rightarrow> (None, s')
        | Some (None, d) \<Rightarrow> (Some None, s\<lparr>dn_db := d\<rparr>)
        | Some (Some run, d) \<Rightarrow> (Some (Some run), s'\<lparr>dn_db := d\<rparr>))) :: task_run option option handler)"
  have m: "dn_cfg (snd (run_state m s1)) = dn_cfg s1 \<and> (dn_db (snd (run_state m s1)) = dn_db s1 \<or>
      (\<exists>rid. dn_db (snd (run_state m s1)) = snd (claim_won now rid t (dn_db s1))))" for s1
  proof -
    obtain rid s2 where u: "run_state new_uuid s1 = (rid, s2)" "dn_cfg s2 = dn_cfg s1" "dn_db s2 = dn_db s1"
      by (cases "run_state new_uuid s1") (auto simp: new_uuid_def split: list.splits)
    show ?thesis
    proof (cases "claim_task now rid t (dn_db s1)")
      case None
      then show ?thesis by (simp add: m_def u)
    next
      case (Some p)
      obtain r d where p: "p = (r, d)" by (cases p)
      show ?thesis
      proof (cases r)
        case None
        with Some p claim_task_lost_same [of now rid t "dn_db s1" d] show ?thesis by (simp add: m_def u)
      next
        case (Some run)
        with \<open>claim_task now rid t (dn_db s1) = Some p\<close> p have "snd (claim_won now rid t (dn_db s1)) = d"
            "run_state m s1 = (Some (Some run), s2\<lparr>dn_db := d\<rparr>)"
          by (simp_all add: m_def u claim_won_def)
        then show ?thesis using u(2) by (auto intro: exI [of _ rid])
      qed
    qed
  qed
  have "claim now t = take_fault \<bind> (\<lambda>failed. if failed then ret None else m)"
    by (simp only: claim_def m_def)
  then show ?thesis
    using m [of s] m [of "s\<lparr>dn_faults := tl (dn_faults s)\<rparr>"]
    by (auto simp: s'_def take_fault_def split: list.splits)
qed

locale handler_inv =
  fixes J :: "daemon \<Rightarrow> bool"
  assumes world: "J s \<Longrightarrow> dn_db s' = dn_db s \<Longrightarrow> dn_cfg s' = dn_cfg s \<Longrightarrow> J s'"
    and operation: "J s \<Longrightarrow> op_ok op \<Longrightarrow> dn_db s' = apply_op op (dn_db s) \<Longrightarrow> dn_cfg s' = dn_cfg s \<Longrightarrow> J s'"
begin

lemma call:
  assumes "\<And>d. snd (f d) = d \<or> (\<exists>op. op_ok op \<and> snd (f d) = apply_op op d)"
  shows "keeps J (db_call f)"
proof (rule keepsI)
  fix s assume J: "J s"
  define s' where "s' = snd (run_state (db_call f) s)"
  have "dn_cfg s' = dn_cfg s" "dn_db s' = dn_db s \<or> dn_db s' = snd (f (dn_db s))"
    by (auto simp: s'_def db_call_def take_fault_def split_def Let_def split: list.splits)
  then show "J s'"
    using assms [of "dn_db s"] J world [OF J, of s'] operation [OF J, of _ s'] by metis
qed

lemma read [keeps_intros]: "keeps J (db_call (\<lambda>d. (h d, d)))"
  by (rule call) simp

lemma op_call:
  assumes "\<And>d. snd (f d) = apply_op op d" and "op_ok op"
  shows "keeps J (db_call f)"
  by (rule call) (use assms in blast)

lemma plain [keeps_intros]:
  "keeps J (publish p)" "keeps J inc_tasks" "keeps J inc_events" "keeps J take_fault" "keeps J new_uuid"
  "keeps J (git c)" "keeps J (close_by_task tid)" "keeps J (set_awaiting_input sid reason)"
  "keeps J (modify (\<lambda>s. s\<lparr>dn_files := h s\<rparr>))"
  by (auto simp: publish_def inc_tasks_def inc_events_def take_fault_def new_uuid_def git_def close_by_task_def
      set_awaiting_input_def
      intro!: keepsI elim!: world split: list.splits)

lemma emit [keeps_intros]: "keeps J (emit_event now k p)"
  unfolding emit_event_def Let_def
  by (intro keeps_intros op_call [where op = "OpEvent \<lparr>e_id = 0, e_kind = k, e_payload = p, e_created_at = now\<rparr>"])
     simp_all

lemma enqueue [keeps_intros]:
  "keeps J (enqueue_with_id now tid name input key lin i)"
  "keeps J (enqueue_with_lineage now name input key lin i)"
proof -
  show *: "keeps J (enqueue_with_id now tid name input key lin i)" for tid
    unfolding enqueue_with_id_def Let_def
    by (intro keeps_intros op_call [where op = "OpInsert (new_task now tid name input key lin i)"])
       (simp_all add: new_task_def)
  show "keeps J (enqueue_with_lineage now name input key lin i)"
    unfolding enqueue_with_lineage_def by (intro keeps_intros *)
qed

lemma dependencies [keeps_intros]: "keeps J (record_dependencies now tid ps)"
proof (induction ps)
  case (Cons p ps)
  have "keeps J (db_exec (insert_dependency tid p now))"
    by (rule op_call [where op = "OpDependency tid p now"]) simp_all
  then show ?case by (simp, intro keeps_intros Cons.IH)
qed (simp, intro keeps_intros)

lemma dynamic [keeps_intros]:
  "keeps J (enqueue_dynamic now node)" "keeps J (spawn_dynamic now name input root on key)"
  unfolding enqueue_dynamic_def spawn_dynamic_def
  by (auto intro!: keeps_intros split: option.splits)

lemma auto_retry [keeps_intros]: "keeps J (schedule_auto_retry now t rs)"
proof -
  have "keeps J (db_call (schedule_task_retry i at))" for i at
    by (rule op_call [where op = "OpScheduleRetry i at"]) simp_all
  then show ?thesis
    unfolding schedule_auto_retry_def by (auto intro!: keeps_intros split: option.splits bool.splits)
qed

lemma claimed [keeps_intros]: "keeps J (claim now t)"
proof (rule keepsI)
  fix s assume J: "J s"
  show "J (snd (run_state (claim now t) s))"
  proof (cases "dn_db (snd (run_state (claim now t) s)) = dn_db s")
    case True
    then show ?thesis using world [OF J] claim_effect [of now t s] by blast
  next
    case False
    then obtain rid where "dn_db (snd (run_state (claim now t) s)) = apply_op (OpClaim now rid t) (dn_db s)"
      using claim_effect [of now t s] by auto
    then show ?thesis using operation [OF J, of "OpClaim now rid t"] claim_effect [of now t s] by simp
  qed
qed

lemma files [keeps_intros]: "keeps J (read_file p)" "keeps J (write_file p txt)"
  unfolding read_file_def write_file_def by (intro keeps_intros)+

lemma children [keeps_intros]: "keeps J (enqueue_children now child tid lin i items)"
  by (induction items arbitrary: i) (auto intro!: keeps_intros)

lemma manifest [keeps_intros]:
  "keeps J (spawn_from_manifest sd now t d cwd)" "keeps J (action_spawn_ready sd t d cwd)"
  unfolding spawn_from_manifest_def action_spawn_ready_def write_action_manifest_def Let_def
  by (auto intro!: keeps_intros split: option.splits)

lemma join [keeps_intros]:
  "keeps J (maybe_start_join sd now dep target root parent)"
  "keeps J (evaluate_join_barriers sd now target root parent)"
  unfolding maybe_start_join_def evaluate_join_barriers_def root_name_def
  by (auto intro!: keeps_intros split: option.splits list.splits)

lemma dependents [keeps_intros]: "keeps J (start_dependents env sd now e)"
  unfolding start_dependents_def Let_def
  by (auto intro!: keeps_intros split: option.splits)

lemma handed_off [keeps_intros]: "keeps J (hand_off sd now t d cwd)"
  unfolding hand_off_def by (auto intro!: keeps_intros split: option.splits)

lemma worktrees [keeps_intros]:
  "keeps J (remove_worktree tid repo path branch)" "keeps J (make_plan env now base t enabled)"
proof -
  have "keeps J (db_exec (forget_worktree tid))" "keeps J (db_exec (record_worktree wt))" for wt
    by (rule op_call [where op = "OpForgetWorktree tid"] op_call [where op = "OpWorktree wt"]; simp)+
  then show "keeps J (remove_worktree tid repo path branch)" "keeps J (make_plan env now base t enabled)"
    unfolding remove_worktree_def delete_branch_def prune_repo_def make_plan_def create_worktree_def Let_def
    by (auto intro!: keeps_intros split: option.splits)
qed

lemma reclaimed [keeps_intros]: "keeps J (reclaim alive t pl)"
  unfolding reclaim_def by (auto intro!: keeps_intros split: option.splits)

lemma announced [keeps_intros]: "keeps J (announce_finish sd now t success d cwd)"
  unfolding announce_finish_def by (intro keeps_intros)

lemma finish [keeps_intros]:
  "is_terminal (t_status t) \<Longrightarrow> keeps J (db_call (finish_active_task t))"
  "keeps J (db_call (finalize_task_run run))"
  by (rule op_call [where op = "OpFinish t"] op_call [where op = "OpFinalizeRun run"]; simp)+

lemma failed [keeps_intros]: "keeps J (fail_task now t kind err)"
  unfolding fail_task_def Let_def
  by (auto intro!: keeps_intros split: option.splits)

lemma run_halves [keeps_intros]:
  "keeps J (run_started now t run)"
  "keeps J (run_finished env sd default_agent now t run df pl outcome)"
  unfolding run_started_def run_finished_def Let_def split_def
  by (intro keeps_intros; simp)+

lemma hits: "(\<And>x. keeps J (db_call (f x))) \<Longrightarrow> keeps J (count_hits f xs n)"
  by (induction xs arbitrary: n) (auto intro!: keeps_intros split: option.splits)

lemma reconciled [keeps_intros]: "keeps J (reconcile now)"
proof -
  have "keeps J (db_call (interrupt_run now i err fl))" "keeps J (db_call (recover_stale p now t))"
      "keeps J (db_call (fail_vanished now t))" for i err fl p t
    by (rule op_call [where op = "OpInterruptRun now i err fl"]
        op_call [where op = "case p of StaleFail \<Rightarrow> OpFailStale now (t_id t) INTERRUPTED_ERROR interrupted_failure
          | StaleRetry \<Rightarrow> OpRetryStale (t_id t)"]
        op_call [where op = "OpFailPending now (t_id t) (vanished_message (t_name t))
          (failure_new FkInvalidInput (vanished_message (t_name t)))"];
        simp add: recover_stale_def fail_vanished_def split: stale_run_policy.split)+
  then show ?thesis
    unfolding reconcile_def by (auto intro!: keeps_intros hits split: option.splits)
qed

end


subsection \<open>The handlers refine the life cycle\<close>

definition db_trace :: "daemon \<Rightarrow> daemon \<Rightarrow> bool" where
  "db_trace s s' \<longleftrightarrow> (\<exists>ops. list_all op_ok ops \<and> dn_db s' = fold apply_op ops (dn_db s)) \<and> dn_cfg s' = dn_cfg s"

lemma db_trace_refl: "db_trace s s"
  by (auto simp: db_trace_def intro: exI [of _ "[]"])

lemma db_traceI: "keeps (db_trace s) m \<Longrightarrow> db_trace s (snd (run_state m s))"
  using keepsD [of "db_trace s" m s] db_trace_refl by blast

interpretation trace: handler_inv "db_trace s0" for s0
proof
  fix s s' :: daemon assume "db_trace s0 s" "dn_db s' = dn_db s" "dn_cfg s' = dn_cfg s"
  then show "db_trace s0 s'" by (simp add: db_trace_def)
next
  fix s s' :: daemon and op assume s: "db_trace s0 s" and op: "op_ok op" "dn_db s' = apply_op op (dn_db s)" "dn_cfg s' = dn_cfg s"
  then obtain ops where "list_all op_ok ops" "dn_db s = fold apply_op ops (dn_db s0)"
    by (auto simp: db_trace_def)
  with op show "db_trace s0 s'"
    using s by (auto simp: db_trace_def intro!: exI [of _ "ops @ [op]"])
qed

interpretation alive: handler_inv "\<lambda>s. dn_cfg s = cfg \<and> reachable (dn_db s)" for cfg
  by unfold_locales (auto intro: reachable.step)


end
