(* ===== verification/Dispatch.thy ===== *)
theory Dispatch
  imports Handlers
begin

text \<open>
  The dispatcher (\<open>dispatch_loop\<close> in \<open>crates/favetto/src/executor.rs\<close>): one pass over the queue with the
  concurrency limit and the per-directory locks, the directory a session is resumed in, and the
  dispatcher as a step relation whose steps interleave with the runs it started and with every other
  handler's database operations.
\<close>

subsection \<open>One pass\<close>

text \<open>A job is a run that holds a permit and, without worktree isolation, the lock of its directory.\<close>

record job =
  jb_task :: task
  jb_run :: task_run
  jb_def :: task_def
  jb_plan :: plan
  jb_lock :: "string option"

text \<open>\<open>DirLocks\<close>: paths that are equal as paths share a lock.\<close>

definition held :: "job list \<Rightarrow> (bool \<times> path_component list) list" where
  "held jobs = map path_key (List.map_filter jb_lock jobs)"

definition try_lock :: "job list \<Rightarrow> string \<Rightarrow> bool" where
  "try_lock jobs dir \<longleftrightarrow> path_key dir \<notin> set (held jobs)"

definition worktree_enabled :: "task_def \<Rightarrow> bool" where
  "worktree_enabled d = (case d_worktree d of Some b \<Rightarrow> b | None \<Rightarrow> d_kind d = KindAgent)"

text \<open>
  What happens to a queued task once a permit is free: \<open>None\<close> is the \<open>continue\<close> of the loop.  \<open>err\<close> is the
  message of a failed worktree setup.
\<close>

definition start_task :: "env \<Rightarrow> time \<Rightarrow> string \<Rightarrow> job list \<Rightarrow> task \<Rightarrow> job option handler" where
  "start_task env now err jobs t = do {
     catalog \<leftarrow> gets dn_catalog;
     (case lookup_def catalog (t_name t) of
        None \<Rightarrow> do {
          fail_task now t FkInvalidInput ''task not found in the catalog'';
          ret None }
      | Some d \<Rightarrow>
          (case missing_required_vars d (t_input t) of
             missing # _ \<Rightarrow> do {
               fail_task now t FkInvalidInput (''task '' @ quoted (d_name d) @
                 '' requires input variable '' @ quoted missing);
               ret None }
           | [] \<Rightarrow> do {
               let base = resolve_base_dir env d t;
               pl \<leftarrow> make_plan env now base t (worktree_enabled d);
               (case pl of
                  None \<Rightarrow> do {
                    fail_task now t FkInfrastructure (''worktree setup failed: '' @ err);
                    ret None }
                | Some pl \<Rightarrow>
                    if pl_needs_lock pl \<and> \<not> try_lock jobs base then ret None
                    else do {
                      run \<leftarrow> claim now t;
                      (case Option.bind run (\<lambda>r. r) of
                         None \<Rightarrow> do {
                           (case pl_worktree pl of None \<Rightarrow> ret ()
                            | Some wt \<Rightarrow> remove_worktree (t_id t) (w_repo wt) (w_path' wt) (w_branch wt));
                           ret None }
                       | Some run \<Rightarrow> ret (Some \<lparr>jb_task = t, jb_run = run, jb_def = d, jb_plan = pl,
                           jb_lock = (if pl_needs_lock pl then Some base else None)\<rparr>)) }) })) }"

fun dispatch_tasks :: "env \<Rightarrow> time \<Rightarrow> string \<Rightarrow> nat \<Rightarrow> task list \<Rightarrow> job list \<Rightarrow> job list handler" where
  "dispatch_tasks env now err permits [] jobs = ret jobs"
| "dispatch_tasks env now err permits (t # ts) jobs =
     (if length jobs \<ge> permits then ret jobs
      else do {
        j \<leftarrow> start_task env now err jobs t;
        dispatch_tasks env now err permits ts (case j of None \<Rightarrow> jobs | Some j \<Rightarrow> j # jobs) })"

definition dispatch_tick :: "env \<Rightarrow> time \<Rightarrow> string \<Rightarrow> job list \<Rightarrow> job list handler" where
  "dispatch_tick env now err jobs = do {
     cfg \<leftarrow> gets dn_cfg;
     pending \<leftarrow> db_read (\<lambda>d. next_pending_tasks now d (int (concurrency cfg) * 4));
     (case pending of
        None \<Rightarrow> ret jobs
      | Some ts \<Rightarrow> dispatch_tasks env now err (concurrency cfg) ts jobs) }"

text \<open>\<open>resume_cwd\<close>: the directory of a reopened session.\<close>

definition resume_cwd :: "env \<Rightarrow> time \<Rightarrow> uuid \<Rightarrow> string option handler" where
  "resume_cwd env now tid = do {
     t \<leftarrow> db_read (\<lambda>d. get_task d tid);
     (case Option.bind t (\<lambda>x. x) of
        None \<Rightarrow> ret None
      | Some t \<Rightarrow> do {
          catalog \<leftarrow> gets dn_catalog;
          (case lookup_def catalog (t_name t) of
             None \<Rightarrow> ret None
           | Some d \<Rightarrow> do {
               pl \<leftarrow> make_plan env now (resolve_base_dir env d t) t
                       (case d_worktree d of Some b \<Rightarrow> b | None \<Rightarrow> True);
               ret (map_option pl_cwd pl) }) }) }"

subsection \<open>The dispatcher among the other handlers\<close>

text \<open>
  A start works on any task (the queue was read earlier), a job ends with any outcome, and between two
  steps any operation of the database layer may happen; the configuration never changes.
\<close>

inductive dispatch_step :: "env \<Rightarrow> serde \<Rightarrow> daemon \<times> job list \<Rightarrow> daemon \<times> job list \<Rightarrow> bool" for env sd where
  start: "length jobs < concurrency (dn_cfg s) \<Longrightarrow> run_state (start_task env now err jobs t) s = (j, s') \<Longrightarrow>
    dispatch_step env sd (s, jobs) (s', case j of None \<Rightarrow> jobs | Some j \<Rightarrow> j # jobs)"
| finish: "j \<in> set jobs \<Longrightarrow>
    s' = snd (run_state (run_finished env sd default_agent now t run (jb_def j) (jb_plan j) outcome) s) \<Longrightarrow>
    dispatch_step env sd (s, jobs) (s', remove1 j jobs)"
| other: "dn_db s' = dn_db s \<or> (\<exists>op. op_ok op \<and> dn_db s' = apply_op op (dn_db s)) \<Longrightarrow> dn_cfg s' = dn_cfg s \<Longrightarrow>
    dispatch_step env sd (s, jobs) (s', jobs)"

inductive dispatched :: "env \<Rightarrow> serde \<Rightarrow> daemon \<times> job list \<Rightarrow> bool" for env sd where
  boot: "reachable (dn_db s) \<Longrightarrow> dispatched env sd (s, [])"
| step: "dispatched env sd c \<Longrightarrow> dispatch_step env sd c c' \<Longrightarrow> dispatched env sd c'"

text \<open>What a start returns, given the locks that are held.\<close>

definition job_ok :: "job list \<Rightarrow> job \<Rightarrow> bool" where
  "job_ok jobs j \<longleftrightarrow> (pl_worktree (jb_plan j) = None \<longleftrightarrow> jb_lock j \<noteq> None) \<and>
     (\<forall>dir. jb_lock j = Some dir \<longrightarrow> pl_cwd (jb_plan j) = dir \<and> try_lock jobs dir)"

lemma yields_True: "(\<And>s. Q (fst (run_state m s))) \<Longrightarrow> yields P m (\<lambda>x _. Q x)"
  by (simp add: yields_def)

lemma yields_any: "yields P m (\<lambda>_ _. True)"
  by (simp add: yields_def)

lemma make_plan_shape:
  "yields (\<lambda>_. True) (make_plan env now base t enabled)
     (\<lambda>pl _. \<forall>p. pl = Some p \<longrightarrow> (pl_needs_lock p \<longleftrightarrow> pl_worktree p = None) \<and> (pl_needs_lock p \<longrightarrow> pl_cwd p = base))"
  unfolding make_plan_def Let_def
  by (intro yields_bind [OF yields_any] yields_if yields_option yields_ret) simp_all

lemma start_task_shape:
  "yields (\<lambda>_. True) (start_task env now err jobs t) (\<lambda>j _. \<forall>x. j = Some x \<longrightarrow> job_ok jobs x)"
proof -
  have plan: "yields (\<lambda>_. True) (make_plan env now base t (worktree_enabled d))
     (\<lambda>pl _. \<forall>p. pl = Some p \<longrightarrow> (pl_needs_lock p \<longleftrightarrow> pl_worktree p = None) \<and> (pl_needs_lock p \<longrightarrow> pl_cwd p = base))"
    for base d by (rule make_plan_shape)
  have run: "yields (\<lambda>_. \<forall>q. y = Some q \<longrightarrow> (pl_needs_lock q \<longleftrightarrow> pl_worktree q = None) \<and> (pl_needs_lock q \<longrightarrow> pl_cwd q = base))
      (if pl_needs_lock p \<and> \<not> try_lock jobs base then ret None
       else do {
         run \<leftarrow> claim now t;
         (case Option.bind run (\<lambda>r. r) of
            None \<Rightarrow> do {
              (case pl_worktree p of None \<Rightarrow> ret ()
               | Some wt \<Rightarrow> remove_worktree (t_id t) (w_repo wt) (w_path' wt) (w_branch wt));
              ret None }
          | Some run \<Rightarrow> ret (Some \<lparr>jb_task = t, jb_run = run, jb_def = d, jb_plan = p,
              jb_lock = (if pl_needs_lock p then Some base else None)\<rparr>)) })
      (\<lambda>j _. \<forall>x. j = Some x \<longrightarrow> job_ok jobs x)" if "y = Some p" for y p d base
    using that by (auto simp: yields_def job_ok_def split_def split: option.split)
  show ?thesis
    unfolding start_task_def Let_def
    by (intro yields_bind [OF plan] yields_bind [OF yields_any] run yields_option yields_list yields_ret)
       simp_all
qed

context handler_inv
begin

lemma started [keeps_intros]: "keeps J (start_task env now err jobs t)"
  unfolding start_task_def Let_def
  by (auto intro!: keeps_intros split: option.splits list.splits)

lemma resumed [keeps_intros]: "keeps J (resume_cwd env now tid)"
  unfolding resume_cwd_def by (auto intro!: keeps_intros split: option.splits)

end

text \<open>The shape of the jobs that run, and their locks.\<close>

definition in_base :: "job \<Rightarrow> bool" where
  "in_base j \<longleftrightarrow> pl_worktree (jb_plan j) = None"

definition jobs_ok :: "job list \<Rightarrow> bool" where
  "jobs_ok jobs \<longleftrightarrow> (\<forall>j \<in> set jobs. jb_lock j = (if in_base j then Some (pl_cwd (jb_plan j)) else None)) \<and>
     distinct (held jobs)"

lemma held_dirs:
  "\<forall>j \<in> set jobs. jb_lock j = (if in_base j then Some (pl_cwd (jb_plan j)) else None) \<Longrightarrow>
   held jobs = map (\<lambda>j. path_key (pl_cwd (jb_plan j))) (filter in_base jobs)"
  by (induction jobs) (auto simp: held_def List.map_filter_simps)

lemma held_remove1: "distinct (held jobs) \<Longrightarrow> distinct (held (remove1 j jobs))"
proof (induction jobs)
  case (Cons a jobs)
  have "set (held (remove1 j jobs)) \<subseteq> set (held jobs)"
    using set_remove1_subset [of j jobs] by (fastforce simp: held_def List.map_filter_def)
  with Cons show ?case
    by (cases "jb_lock a") (auto simp: held_def List.map_filter_simps)
qed (simp add: held_def)

lemma jobs_ok_Cons: "jobs_ok jobs \<Longrightarrow> job_ok jobs j \<Longrightarrow> jobs_ok (j # jobs)"
  by (cases "jb_lock j") (auto simp: jobs_ok_def job_ok_def in_base_def try_lock_def held_def List.map_filter_simps)

lemma dispatched_inv:
  assumes "dispatched env sd c"
  shows "length (snd c) \<le> concurrency (dn_cfg (fst c)) \<and> jobs_ok (snd c) \<and> reachable (dn_db (fst c))"
  using assms
proof induction
  case (boot s)
  then show ?case by (simp add: jobs_ok_def held_def List.map_filter_simps)
next
  case (step c c')
  from step.hyps(2) step.IH show ?case
  proof (cases rule: dispatch_step.cases)
    case (start jobs s now err t j s')
    have alive: "dn_cfg s' = dn_cfg s \<and> reachable (dn_db s')"
      using keepsD [OF alive.started [of "dn_cfg s" env now err jobs t], of s] step.IH start by simp
    show ?thesis
    proof (cases j)
      case None
      with start alive step.IH show ?thesis by simp
    next
      case (Some x)
      then have "job_ok jobs x"
        using yieldsD [OF start_task_shape TrueI start(4)] by blast
      with start Some alive step.IH jobs_ok_Cons show ?thesis by simp
    qed
  next
    case (finish j jobs s' default_agent now t run outcome s)
    have "dn_cfg s' = dn_cfg s \<and> reachable (dn_db s')"
      using keepsD [OF alive.run_halves(2) [of "dn_cfg s" env sd default_agent now t run "jb_def j" "jb_plan j" outcome], of s]
        step.IH finish by simp
    moreover have "jobs_ok (remove1 j jobs)"
      using step.IH finish set_remove1_subset [of j jobs] held_remove1 by (auto simp: jobs_ok_def)
    ultimately show ?thesis using step.IH finish by (auto simp: length_remove1)
  next
    case (other s' s jobs)
    then show ?thesis using step.IH by (auto intro: reachable.step)
  qed
qed

text \<open>A pass of the dispatcher is a sequence of those steps.\<close>

lemma dispatch_tasks_steps:
  assumes "permits = concurrency (dn_cfg s)"
  shows "(dispatch_step env sd)\<^sup>*\<^sup>* (s, jobs)
    (snd (run_state (dispatch_tasks env now err permits ts jobs) s),
     fst (run_state (dispatch_tasks env now err permits ts jobs) s))"
  using assms
proof (induction ts arbitrary: s jobs)
  case (Cons t ts)
  obtain j s1 where j: "run_state (start_task env now err jobs t) s = (j, s1)" by fastforce
  have cfg: "dn_cfg s1 = dn_cfg s"
    using keepsD [OF trace.started [of s env now err jobs t] db_trace_refl] by (simp add: db_trace_def j)
  let ?jobs = "case j of None \<Rightarrow> jobs | Some j \<Rightarrow> j # jobs"
  show ?case
  proof (cases "length jobs \<ge> permits")
    case False
    then have "dispatch_step env sd (s, jobs) (s1, ?jobs)"
      using dispatch_step.start [OF _ j] Cons.prems by auto
    moreover have "(dispatch_step env sd)\<^sup>*\<^sup>* (s1, ?jobs)
        (snd (run_state (dispatch_tasks env now err permits ts ?jobs) s1),
         fst (run_state (dispatch_tasks env now err permits ts ?jobs) s1))"
      using Cons.IH [of s1 ?jobs] cfg Cons.prems by simp
    ultimately show ?thesis using False by (simp add: j)
  qed simp
qed simp

lemma dispatch_tick_steps:
  "(dispatch_step env sd)\<^sup>*\<^sup>* (s, jobs)
    (snd (run_state (dispatch_tick env now err jobs) s), fst (run_state (dispatch_tick env now err jobs) s))"
proof -
  define p where "p = run_state (db_read (\<lambda>d. next_pending_tasks now d (int (concurrency (dn_cfg s)) * 4))) s"
  have p: "dn_db (snd p) = dn_db s \<and> dn_cfg (snd p) = dn_cfg s"
    by (auto simp: p_def db_call_def take_fault_def split: list.splits)
  then have "dispatch_step env sd (s, jobs) (snd p, jobs)" by (intro dispatch_step.other) auto
  then show ?thesis
    using dispatch_tasks_steps [of "concurrency (dn_cfg s)" "snd p" env sd jobs now err] p
    by (auto simp: dispatch_tick_def split_def simp flip: p_def split: option.split
        intro: converse_rtranclp_into_rtranclp)
qed

text \<open>C13: whatever interleaving of dispatcher passes, runs that end with any outcome, failing calls and
  other handlers' database operations: never more runs than the concurrency limit, and no two runs
  without a worktree of their own in the same directory; the database stays within its life cycle, and
  all of this holds again after one more whole pass.\<close>

theorem dispatcher_limits:
  fixes env :: env and sd :: serde and s :: daemon and jobs :: "job list" and now :: time and err :: string
  assumes "dispatched env sd (s, jobs)"
  defines "jobs' \<equiv> fst (run_state (dispatch_tick env now err jobs) s)"
    and "s' \<equiv> snd (run_state (dispatch_tick env now err jobs) s)"
  shows "length jobs \<le> concurrency (dn_cfg s) \<and> reachable (dn_db s) \<and>
    distinct (map (\<lambda>j. path_key (pl_cwd (jb_plan j))) (filter in_base jobs)) \<and>
    length jobs' \<le> concurrency (dn_cfg s') \<and> reachable (dn_db s') \<and>
    distinct (map (\<lambda>j. path_key (pl_cwd (jb_plan j))) (filter in_base jobs'))"
proof -
  have "dispatched env sd c'" if "(dispatch_step env sd)\<^sup>*\<^sup>* c c'" "dispatched env sd c" for c c'
    using that by induction (auto intro: dispatched.step)
  from this [OF dispatch_tick_steps assms(1)] have "dispatched env sd (s', jobs')"
    by (simp add: s'_def jobs'_def)
  from dispatched_inv [OF this] dispatched_inv [OF assms(1)] held_dirs [of jobs] held_dirs [of jobs']
  show ?thesis by (simp add: jobs_ok_def)
qed

theorem dispatcher_limits_witness:
  "length (fst (run_state (dispatch_tick quiet_env 5 [] []) (idle_daemon empty_db)))
     \<le> concurrency (dn_cfg (snd (run_state (dispatch_tick quiet_env 5 [] []) (idle_daemon empty_db))))"
  using dispatcher_limits [OF dispatched.boot [of "idle_daemon empty_db" quiet_env sample_serde],
      where now = 5 and err = "[]"] reachable.start
  by (simp add: idle_daemon_def)

end
