(* ===== verification/Kahn.thy ===== *)
theory Kahn
  imports Prelude
begin

text \<open>
  The cycle check of \<open>validate_create_dag\<close> (\<open>crates/favetto/src/server.rs\<close>): Kahn's algorithm on a
  stack of ready keys.  A degree that would drop below zero is a panic (\<open>None\<close>).  The algorithm ends,
  never panics on the degrees the caller computed, and visits every key exactly when the graph has no
  cycle, in whatever order the hash map yields the first ready keys.
\<close>

definition successors :: "('a \<times> 'a) list \<Rightarrow> 'a \<Rightarrow> 'a list" where
  "successors edges key = map snd (filter (\<lambda>(d, _). d = key) edges)"

fun release :: "'a list \<Rightarrow> ('a \<Rightarrow> nat) \<Rightarrow> 'a list \<Rightarrow> (('a \<Rightarrow> nat) \<times> 'a list) option" where
  "release [] deg ready = Some (deg, ready)"
| "release (s # ss) deg ready =
     (if deg s = 0 then None
      else let d = deg s - 1 in release ss (deg(s := d)) (if d = 0 then ready @ [s] else ready))"

lemma release_measure:
  assumes "release ss deg ready = Some (deg', ready')" and "finite A" and "set ss \<subseteq> A"
  shows "sum deg' A + length ready' \<le> sum deg A + length ready"
  using assms
proof (induction ss deg ready rule: release.induct)
  case (2 s ss deg ready)
  then have s: "s \<in> A" "deg s > 0" by (auto split: if_splits)
  let ?deg = "deg(s := deg s - 1)" and ?ready = "if deg s - 1 = 0 then ready @ [s] else ready"
  have "sum ?deg A + 1 = sum deg A"
    using s "2.prems"(2) by (simp add: sum.remove [of A s])
  moreover have "sum deg' A + length ready' \<le> sum ?deg A + length ?ready"
    using "2.IH" "2.prems" s by (simp add: Let_def del: fun_upd_apply)
  ultimately show ?case by (auto simp del: fun_upd_apply split: if_splits)
qed simp

function kahn :: "('a \<times> 'a) list \<Rightarrow> ('a \<Rightarrow> nat) \<Rightarrow> 'a list \<Rightarrow> nat \<Rightarrow> nat option" where
  "kahn edges deg [] visited = Some visited"
| "kahn edges deg (r # rs) visited =
     (case release (successors edges (last (r # rs))) deg (butlast (r # rs)) of
        None \<Rightarrow> None
      | Some (deg', ready') \<Rightarrow> kahn edges deg' ready' (visited + 1))"
  by pat_completeness auto
termination
proof (relation "measure (\<lambda>(edges, deg, ready, _). sum deg (snd ` set edges) + length ready)", goal_cases)
  case (2 edges deg r rs visited p deg' ready')
  then have "release (successors edges (last (r # rs))) deg (butlast (r # rs)) = Some (deg', ready')" by simp
  moreover have "set (successors edges (last (r # rs))) \<subseteq> snd ` set edges" by (auto simp: successors_def)
  ultimately have "sum deg' (snd ` set edges) + length ready' \<le>
      sum deg (snd ` set edges) + length (butlast (r # rs))"
    by (intro release_measure) auto
  then show ?case by (simp only: in_measure split_conv length_butlast list.size)
qed simp

subsection \<open>One step\<close>

lemma release_Some:
  assumes "\<And>s. count_list ss s \<le> deg s"
  shows "\<exists>new. release ss deg ready = Some (\<lambda>s. deg s - count_list ss s, ready @ new) \<and>
    set new = {s \<in> set ss. deg s = count_list ss s} \<and> distinct new"
  using assms
proof (induction ss arbitrary: deg ready)
  case (Cons s ss)
  have pos: "deg s > 0" using Cons.prems [of s] by simp
  let ?deg = "deg(s := deg s - 1)"
  have "count_list ss x \<le> ?deg x" for x using Cons.prems [of x] by (auto split: if_splits)
  from Cons.IH [OF this, of "if deg s - 1 = 0 then ready @ [s] else ready"] obtain new where
    new: "release ss ?deg (if deg s - 1 = 0 then ready @ [s] else ready) =
      Some (\<lambda>x. ?deg x - count_list ss x, (if deg s - 1 = 0 then ready @ [s] else ready) @ new)"
    "set new = {x \<in> set ss. ?deg x = count_list ss x}" "distinct new"
    by blast
  have eq: "(\<lambda>x. ?deg x - count_list ss x) = (\<lambda>x. deg x - count_list (s # ss) x)" by auto
  show ?case
  proof (cases "deg s = 1")
    case True
    then have "s \<notin> set ss" using Cons.prems [of s] by (simp add: count_list_0_iff)
    moreover have "set (s # new) = {x \<in> set (s # ss). deg x = count_list (s # ss) x}"
      using True \<open>s \<notin> set ss\<close> new(2) by (auto simp: count_list_0_iff)
    moreover have "release (s # ss) deg ready = Some (\<lambda>x. deg x - count_list (s # ss) x, ready @ (s # new))"
      using True new(1) eq by (simp add: Let_def del: fun_upd_apply)
    ultimately show ?thesis using new(2,3) by (intro exI [of _ "s # new"]) auto
  next
    case False
    then have "deg s - 1 \<noteq> 0" using pos by linarith
    then have "release (s # ss) deg ready = Some (\<lambda>x. deg x - count_list (s # ss) x, ready @ new)"
      using pos new(1) eq by (simp add: Let_def del: fun_upd_apply)
    moreover have "set new = {x \<in> set (s # ss). deg x = count_list (s # ss) x}"
    proof -
      have "s \<in> set new \<longleftrightarrow> s \<in> set ss \<and> deg s = count_list (s # ss) s"
        using new(2) pos by auto
      moreover have "s \<in> set ss" if "deg s = count_list (s # ss) s"
        using that \<open>deg s - 1 \<noteq> 0\<close> by (auto simp: count_list_0_iff intro: ccontr)
      moreover have "x \<in> set new \<longleftrightarrow> x \<in> set ss \<and> deg x = count_list (s # ss) x" if "x \<noteq> s" for x
        using new(2) that by auto
      ultimately show ?thesis by auto
    qed
    ultimately show ?thesis using new(3) by blast
  qed
qed auto

definition indegree :: "('a \<times> 'a) list \<Rightarrow> 'a set \<Rightarrow> 'a \<Rightarrow> nat" where
  "indegree edges popped k = length (filter (\<lambda>(d, t). t = k \<and> d \<notin> popped) edges)"

lemma count_successors: "count_list (successors edges x) k = length (filter (\<lambda>(d, t). t = k \<and> d = x) edges)"
  by (induction edges) (auto simp: successors_def)

lemma indegree_insert:
  "x \<notin> popped \<Longrightarrow> indegree edges popped k = indegree edges (insert x popped) k + count_list (successors edges x) k"
  by (induction edges) (auto simp: indegree_def successors_def)

lemma indegree_zero: "indegree edges popped k = 0 \<longleftrightarrow> (\<forall>d. (d, k) \<in> set edges \<longrightarrow> d \<in> popped)"
  by (auto simp: indegree_def filter_empty_conv)

definition kahn_inv :: "('a \<times> 'a) list \<Rightarrow> 'a set \<Rightarrow> 'a set \<Rightarrow> 'a list \<Rightarrow> nat \<Rightarrow> ('a \<Rightarrow> nat) \<Rightarrow> bool" where
  "kahn_inv edges K popped ready n rank \<longleftrightarrow>
     popped \<subseteq> K \<and> card popped = n \<and> distinct ready \<and>
     set ready = {k \<in> K. k \<notin> popped \<and> indegree edges popped k = 0} \<and>
     (\<forall>d\<in>popped. rank d < n) \<and>
     (\<forall>d k. (d, k) \<in> set edges \<longrightarrow> k \<in> popped \<longrightarrow> d \<in> popped \<and> rank d < rank k)"

lemma set_butlast_distinct: "distinct xs \<Longrightarrow> set (butlast xs) = set xs - {last xs}"
  by (induction xs rule: rev_induct) auto

lemma successors_member: "s \<in> set (successors edges x) \<longleftrightarrow> (x, s) \<in> set edges"
  by (force simp: successors_def)

lemma kahn_inv_step:
  assumes inv: "kahn_inv edges K popped (r # rs) n rank"
    and K: "finite K" "snd ` set edges \<subseteq> K"
  defines "x \<equiv> last (r # rs)"
  shows "\<exists>ready'. release (successors edges x) (indegree edges popped) (butlast (r # rs)) =
      Some (indegree edges (insert x popped), ready') \<and>
    kahn_inv edges K (insert x popped) ready' (n + 1) (rank(x := n))"
proof -
  let ?R = "r # rs" and ?P = "insert x popped"
  define B where B: "B = butlast ?R"
  have R: "set ?R = {k \<in> K. k \<notin> popped \<and> indegree edges popped k = 0}" and dist: "distinct ?R"
    and P: "popped \<subseteq> K" "card popped = n"
    and low: "d \<in> popped \<Longrightarrow> rank d < n"
    and closed: "(d, k) \<in> set edges \<Longrightarrow> k \<in> popped \<Longrightarrow> d \<in> popped \<and> rank d < rank k" for d k
    using inv by (auto simp only: kahn_inv_def)
  have "x \<in> set ?R" unfolding x_def by (rule last_in_set) simp
  then have x: "x \<in> K" "x \<notin> popped" "indegree edges popped x = 0" unfolding R by simp_all
  have preds: "(d, x) \<in> set edges \<Longrightarrow> d \<in> popped" for d using x(3) by (simp add: indegree_zero)
  then have self: "(x, x) \<notin> set edges" using x(2) by blast
  have split: "indegree edges popped k = indegree edges ?P k + count_list (successors edges x) k" for k
    using x(2) by (rule indegree_insert)
  obtain new where new: "release (successors edges x) (indegree edges popped) B =
      Some (\<lambda>s. indegree edges popped s - count_list (successors edges x) s, B @ new)"
    "set new = {s \<in> set (successors edges x). indegree edges popped s = count_list (successors edges x) s}"
    "distinct new"
    using release_Some [of "successors edges x" "indegree edges popped" "B"] split by fastforce
  have new_set: "s \<in> set new \<longleftrightarrow> (x, s) \<in> set edges \<and> indegree edges ?P s = 0" for s
    using split [of s] by (auto simp: new(2) successors_member)
  have but: "set B = {k \<in> K. k \<notin> ?P \<and> indegree edges popped k = 0}"
    unfolding B set_butlast_distinct [OF dist] x_def [symmetric] R by blast
  have B_dist: "distinct B" unfolding B by (rule distinct_butlast [OF dist])
  have count: "count_list (successors edges x) k = 0 \<longleftrightarrow> (x, k) \<notin> set edges" for k
    by (simp add: count_list_0_iff successors_member)
  have fresh: "s \<in> K \<and> s \<notin> ?P" if "(x, s) \<in> set edges" for s
    using that K(2) closed [OF that] preds x(2) by force
  have "set (B @ new) = {k \<in> K. k \<notin> ?P \<and> indegree edges ?P k = 0}"
    using split count fresh self by (auto simp: but new_set)
  moreover have "distinct (B @ new)"
  proof -
    have "indegree edges popped s \<noteq> 0" if "s \<in> set new" for s
      using that split [of s] count [of s] by (simp add: new_set)
    then have "set B \<inter> set new = {}" using but by fastforce
    then show ?thesis using new(3) B_dist by simp
  qed
  moreover have "card ?P = n + 1"
    using P x(2) finite_subset [OF P(1) K(1)] by simp
  moreover have "d \<in> ?P \<and> (rank(x := n)) d < (rank(x := n)) k"
    if "(d, k) \<in> set edges" "k \<in> ?P" for d k
    using that preds [of d] closed [of d k] low [of d] x(2) by (cases "k = x") auto
  moreover have "(rank(x := n)) d < n + 1" if "d \<in> ?P" for d
    using that low [of d] by (auto simp: less_Suc_eq)
  ultimately have "kahn_inv edges K ?P (B @ new) (n + 1) (rank(x := n))"
    using P(1) x(1) by (simp add: kahn_inv_def)
  moreover have "(\<lambda>s. indegree edges popped s - count_list (successors edges x) s) = indegree edges ?P"
    by (rule ext) (simp add: split)
  ultimately show ?thesis using new(1) by (intro exI [of _ "B @ new"]) (simp add: B del: butlast.simps)
qed

lemma kahn_runs:
  assumes "kahn_inv edges K popped ready n rank" and "deg = indegree edges popped"
    and "finite K" and "snd ` set edges \<subseteq> K"
  shows "\<exists>popped' rank'. kahn edges deg ready n = Some (card popped') \<and>
    kahn_inv edges K popped' [] (card popped') rank'"
  using assms
proof (induction edges deg ready n arbitrary: popped rank rule: kahn.induct)
  case (1 edges deg visited)
  then show ?case by (auto simp: kahn_inv_def)
next
  case (2 edges deg r rs visited)
  from kahn_inv_step [OF "2.prems"(1,3,4)] obtain ready' where step:
    "release (successors edges (last (r # rs))) deg (butlast (r # rs)) =
       Some (indegree edges (insert (last (r # rs)) popped), ready')"
    "kahn_inv edges K (insert (last (r # rs)) popped) ready' (visited + 1) (rank(last (r # rs) := visited))"
    by (auto simp only: "2.prems"(2))
  have "kahn edges deg (r # rs) visited =
      kahn edges (indegree edges (insert (last (r # rs)) popped)) ready' (visited + 1)"
    by (simp only: kahn.simps step(1) option.case prod.case)
  with "2.IH" [OF step(1) refl step(2) refl "2.prems"(3,4)] show ?case by simp
qed

lemma no_cycle_if_ranked:
  assumes "\<And>d k. (d, k) \<in> r \<Longrightarrow> rank d < (rank k :: nat)"
  shows "acyclic r"
proof -
  have "r \<subseteq> measure rank" using assms by auto
  then show ?thesis using wf_acyclic [OF wf_measure] acyclic_subset by blast
qed

lemma kahn_correct:
  assumes "distinct ready" and "set ready = {k \<in> K. indegree edges {} k = 0}"
    and K: "finite K" "\<And>d k. (d, k) \<in> set edges \<Longrightarrow> d \<in> K \<and> k \<in> K"
  shows "\<exists>v. kahn edges (indegree edges {}) ready 0 = Some v \<and> (v = card K \<longleftrightarrow> acyclic (set edges))"
proof -
  have init: "kahn_inv edges K {} ready 0 (\<lambda>_. 0)" using assms(1,2) by (simp add: kahn_inv_def)
  have "snd ` set edges \<subseteq> K" using K(2) by auto
  from kahn_runs [OF init refl K(1) this] obtain P rank where
    run: "kahn edges (indegree edges {}) ready 0 = Some (card P)" "kahn_inv edges K P [] (card P) rank"
    by blast
  then have P: "P \<subseteq> K"
    and stuck: "k \<in> K \<Longrightarrow> k \<notin> P \<Longrightarrow> \<exists>d. (d, k) \<in> set edges \<and> d \<notin> P"
    and ranked: "(d, k) \<in> set edges \<Longrightarrow> k \<in> P \<Longrightarrow> rank d < rank k" for d k
    by (auto simp: kahn_inv_def indegree_zero)
  have "P = K" if "acyclic (set edges)"
  proof (rule ccontr)
    assume "P \<noteq> K"
    then obtain y where "y \<in> K - P" using P by blast
    moreover have "wf (set edges)" using that by (intro finite_acyclic_wf) simp_all
    ultimately obtain k where "k \<in> K - P" "\<And>d. (d, k) \<in> set edges \<Longrightarrow> d \<notin> K - P"
      by (meson wfE_min)
    then show False using stuck K(2) by blast
  qed
  moreover have "acyclic (set edges)" if "P = K"
    using ranked K(2) that by (intro no_cycle_if_ranked [of _ rank]) blast
  moreover have "card P = card K \<longleftrightarrow> P = K" using P K(1) by (metis card_subset_eq)
  ultimately show ?thesis using run(1) by auto
qed

end
