(* ===== verification/Workflow.thy ===== *)
theory Workflow
  imports Dispatch Kahn
begin

text \<open>
  The task and workflow methods of the JSON-RPC server (\<open>crates/favetto/src/server.rs\<close>): validating and
  creating a graph of tasks, spawning one, inspecting and cancelling a workflow, cancelling and retrying
  a task.  The text of a database error is not modelled (\<open>Internal None\<close>); a panic is \<open>None\<close>.
\<close>

datatype rpc_error =
    ParseError string
  | InvalidRequest string
  | MethodNotFound string
  | InvalidParams string
  | Internal "string option"
  | Unauthorized string

subsection \<open>Validating a graph\<close>

record create_task =
  ct_key :: string
  ct_name :: string
  ct_input :: "json option"
  ct_depends_on :: "string list option"

definition dependencies_of :: "create_task \<Rightarrow> string list" where
  "dependencies_of spec = (case ct_depends_on spec of None \<Rightarrow> [] | Some ks \<Rightarrow> ks)"

fun check_nodes :: "string set \<Rightarrow> string set \<Rightarrow> create_task list \<Rightarrow> rpc_error + string set" where
  "check_nodes catalog keys [] = Inr keys"
| "check_nodes catalog keys (spec # specs) =
     (if trim (ct_key spec) = [] then Inl (InvalidParams ''workflow.create task keys must be non-empty'')
      else if ct_key spec \<in> keys
      then Inl (InvalidParams (''workflow.create duplicate task key '' @ quoted (ct_key spec)))
      else if ct_name spec \<notin> catalog
      then Inl (InvalidParams (''unknown task '' @ quoted (ct_name spec)))
      else check_nodes catalog (insert (ct_key spec) keys) specs)"

fun check_edges :: "string set \<Rightarrow> string \<Rightarrow> string list \<Rightarrow> rpc_error + (string \<times> string) list" where
  "check_edges keys key [] = Inr []"
| "check_edges keys key (dep # ds) =
     (if dep \<notin> keys
      then Inl (InvalidParams (''workflow.create task '' @ quoted key @ '' depends on unknown key '' @ quoted dep))
      else map_sum (\<lambda>e. e) ((#) (dep, key)) (check_edges keys key ds))"

fun collect_edges :: "string set \<Rightarrow> create_task list \<Rightarrow> rpc_error + (string \<times> string) list" where
  "collect_edges keys [] = Inr []"
| "collect_edges keys (spec # specs) =
     (case check_edges keys (ct_key spec) (dependencies_of spec) of
        Inl e \<Rightarrow> Inl e
      | Inr es \<Rightarrow> map_sum (\<lambda>e. e) ((@) es) (collect_edges keys specs))"

text \<open>\<open>order\<close> is the order in which the hash map of degrees yields its keys.\<close>

definition validate_create_dag ::
  "(string list \<Rightarrow> string list) \<Rightarrow> string set \<Rightarrow> create_task list \<Rightarrow> (rpc_error + unit) option"
where
  "validate_create_dag order catalog specs =
     (if specs = [] then Some (Inl (InvalidParams ''workflow.create requires at least one task''))
      else case check_nodes catalog {} specs of
        Inl e \<Rightarrow> Some (Inl e)
      | Inr keys \<Rightarrow>
          (case collect_edges keys specs of
             Inl e \<Rightarrow> Some (Inl e)
           | Inr arcs \<Rightarrow>
               let indegree = count_list (map snd arcs);
                   ready = filter (\<lambda>k. indegree k = 0) (order (map ct_key specs))
               in (case kahn arcs indegree ready 0 of
                     None \<Rightarrow> None
                   | Some visited \<Rightarrow> Some (
                       if visited \<noteq> length specs
                       then Inl (InvalidParams ''workflow.create task graph contains a cycle'')
                       else Inr ()))))"

text \<open>The graph of a request, as its keys and its edges from predecessor to successor.\<close>

definition request_edges :: "create_task list \<Rightarrow> (string \<times> string) set" where
  "request_edges specs = {(dep, ct_key spec) | dep spec. spec \<in> set specs \<and> dep \<in> set (dependencies_of spec)}"

definition well_formed_request :: "string set \<Rightarrow> create_task list \<Rightarrow> bool" where
  "well_formed_request catalog specs \<longleftrightarrow>
     specs \<noteq> [] \<and> distinct (map ct_key specs) \<and>
     (\<forall>spec \<in> set specs. trim (ct_key spec) \<noteq> [] \<and> ct_name spec \<in> catalog \<and>
        set (dependencies_of spec) \<subseteq> ct_key ` set specs) \<and>
     acyclic (request_edges specs)"

lemma check_nodes_Inr:
  "check_nodes catalog keys specs = Inr keys' \<longleftrightarrow>
     keys' = keys \<union> ct_key ` set specs \<and> distinct (map ct_key specs) \<and> keys \<inter> ct_key ` set specs = {} \<and>
     (\<forall>spec \<in> set specs. trim (ct_key spec) \<noteq> [] \<and> ct_name spec \<in> catalog)"
  by (induction specs arbitrary: keys) auto

lemma map_sum_Inr: "map_sum f g x = Inr y \<longleftrightarrow> (\<exists>z. x = Inr z \<and> y = g z)"
  by (cases x) auto

lemma check_edges_Inr:
  "check_edges keys key ds = Inr es \<longleftrightarrow> set ds \<subseteq> keys \<and> es = map (\<lambda>d. (d, key)) ds"
  by (induction ds arbitrary: es) (auto simp: map_sum_Inr)

lemma collect_edges_Inr:
  "collect_edges keys specs = Inr es \<longleftrightarrow> (\<forall>spec \<in> set specs. set (dependencies_of spec) \<subseteq> keys) \<and>
     es = concat (map (\<lambda>spec. map (\<lambda>d. (d, ct_key spec)) (dependencies_of spec)) specs)"
proof (induction specs arbitrary: es)
  case (Cons spec specs)
  show ?case
  proof (cases "check_edges keys (ct_key spec) (dependencies_of spec)")
    case (Inl e)
    then have "\<not> set (dependencies_of spec) \<subseteq> keys" 
      using check_edges_Inr [of keys "ct_key spec" "dependencies_of spec"
          "map (\<lambda>d. (d, ct_key spec)) (dependencies_of spec)"] by simp
    with Inl show ?thesis by simp
  next
    case (Inr es1)
    then have "set (dependencies_of spec) \<subseteq> keys" "es1 = map (\<lambda>d. (d, ct_key spec)) (dependencies_of spec)"
      by (simp_all add: check_edges_Inr)
    with Inr Cons.IH show ?thesis by (auto simp: map_sum_Inr)
  qed
qed auto

lemma degrees: "count_list (map snd arcs) k = indegree arcs {} k"
  by (induction arcs) (auto simp: indegree_def)


lemma validate_create_dag_iff:
  fixes specs :: "create_task list" and catalog :: "string set" and order :: "string list \<Rightarrow> string list"
  assumes order: "\<And>ks. mset (order ks) = mset ks"
  shows "\<exists>r. validate_create_dag order catalog specs = Some r \<and>
    (r = Inr () \<longleftrightarrow> well_formed_request catalog specs)"
proof (cases "specs = [] \<or> (\<exists>e. check_nodes catalog {} specs = Inl e)")
  case True
  then have "\<not> well_formed_request catalog specs"
    using check_nodes_Inr [of catalog "{}" specs "ct_key ` set specs"]
    by (auto simp: well_formed_request_def)
  with True show ?thesis by (auto simp: validate_create_dag_def)
next
  case False
  then obtain keys where nodes: "specs \<noteq> []" "check_nodes catalog {} specs = Inr keys"
    by (cases "check_nodes catalog {} specs") auto
  then have keys: "keys = ct_key ` set specs" "distinct (map ct_key specs)"
    "\<forall>spec \<in> set specs. trim (ct_key spec) \<noteq> [] \<and> ct_name spec \<in> catalog"
    by (simp_all add: check_nodes_Inr)
  show ?thesis
  proof (cases "collect_edges keys specs")
    case (Inl e)
    then have "\<not> well_formed_request catalog specs"
      using collect_edges_Inr [of keys specs] keys(1) by (auto simp: well_formed_request_def)
    with Inl nodes show ?thesis by (simp add: validate_create_dag_def)
  next
    case (Inr arcs)
    then have deps: "\<forall>spec \<in> set specs. set (dependencies_of spec) \<subseteq> keys"
      and arcs: "set arcs = request_edges specs"
      by (auto simp: collect_edges_Inr request_edges_def)
    define ready where "ready = filter (\<lambda>k. indegree arcs {} k = 0) (order (map ct_key specs))"
    have "set (order (map ct_key specs)) = keys" "distinct (order (map ct_key specs))"
      using order [of "map ct_key specs"] keys(1,2) by (metis mset_eq_setD list.set_map, metis mset_eq_imp_distinct_iff)
    then have "distinct ready" "set ready = {k \<in> keys. indegree arcs {} k = 0}" by (auto simp: ready_def)
    moreover have "d \<in> keys \<and> k \<in> keys" if "(d, k) \<in> set arcs" for d k
      using that deps keys(1) by (auto simp: arcs request_edges_def)
    ultimately obtain v where v: "kahn arcs (indegree arcs {}) ready 0 = Some v"
        "v = card keys \<longleftrightarrow> acyclic (set arcs)"
      using kahn_correct [of ready keys arcs] keys(1) by auto
    have "card keys = length specs" using keys(1,2) by (metis distinct_card length_map list.set_map)
    moreover have "count_list (map snd arcs) = indegree arcs {}" by (rule ext) (rule degrees)
    ultimately have "validate_create_dag order catalog specs = Some (if acyclic (request_edges specs) then Inr ()
        else Inl (InvalidParams ''workflow.create task graph contains a cycle''))"
      using nodes Inr v by (simp add: validate_create_dag_def Let_def flip: ready_def arcs)
    then show ?thesis using nodes keys deps by (auto simp: well_formed_request_def)
  qed
qed

lemma validate_create_dag_accepts:
  assumes "\<And>ks. mset (order ks) = mset ks" and "well_formed_request catalog specs"
  shows "validate_create_dag order catalog specs = Some (Inr ())"
  using validate_create_dag_iff [of order, OF assms(1)] assms(2) by blast

text \<open>C15: a request to create a workflow is accepted exactly when it is not empty, its keys are distinct
  and not blank, its names are in the catalog, its dependencies are keys of the request, and its graph
  has no cycle, whatever order the hash map yields the keys in; the check never panics.\<close>

theorem validate_create_dag_exact:
  fixes specs :: "create_task list" and catalog :: "string set" and order :: "string list \<Rightarrow> string list"
  assumes order: "\<And>ks. mset (order ks) = mset ks"
  shows "\<exists>r. validate_create_dag order catalog specs = Some r \<and>
    (r = Inr () \<longleftrightarrow> well_formed_request catalog specs)"
  by (rule validate_create_dag_iff) (rule order)

definition diamond :: "create_task list" where
  "diamond = [\<lparr>ct_key = ''d'', ct_name = ''t'', ct_input = None, ct_depends_on = Some [''b'', ''c'']\<rparr>,
     \<lparr>ct_key = ''b'', ct_name = ''t'', ct_input = None, ct_depends_on = Some [''a'']\<rparr>,
     \<lparr>ct_key = ''c'', ct_name = ''t'', ct_input = None, ct_depends_on = Some [''a'', ''a'']\<rparr>,
     \<lparr>ct_key = ''a'', ct_name = ''t'', ct_input = None, ct_depends_on = None\<rparr>]"

theorem validate_create_dag_exact_witness:
  "\<exists>r. validate_create_dag rev {''t''} diamond = Some r \<and> (r = Inr () \<longleftrightarrow> well_formed_request {''t''} diamond)"
  using validate_create_dag_exact [of rev "{''t''}" diamond] by simp


subsection \<open>Creating and extending a workflow\<close>

text \<open>The \<open>?\<close> operator, and \<open>map_err\<close> of a database error.\<close>

definition attempt :: "(rpc_error + 'a) handler \<Rightarrow> ('a \<Rightarrow> (rpc_error + 'b) handler) \<Rightarrow> (rpc_error + 'b) handler" where
  "attempt m f = do { r \<leftarrow> m; (case r of Inl e \<Rightarrow> ret (Inl e) | Inr x \<Rightarrow> f x) }"

definition internal :: "'a option handler \<Rightarrow> (rpc_error + 'a) handler" where
  "internal m = do { r \<leftarrow> m; ret (case r of None \<Rightarrow> Inl (Internal None) | Some x \<Rightarrow> Inr x) }"

definition node_key :: "string \<Rightarrow> create_task \<Rightarrow> string" where
  "node_key ik spec = ''workflow:'' @ ik @ '':'' @ ct_key spec"

fun resolve_ids ::
  "string \<Rightarrow> create_task list \<Rightarrow> (string \<rightharpoonup> uuid) \<Rightarrow> uuid set \<Rightarrow> (rpc_error + (string \<rightharpoonup> uuid) \<times> uuid set) handler"
where
  "resolve_ids ik [] ids existing = ret (Inr (ids, existing))"
| "resolve_ids ik (spec # specs) ids existing =
     attempt (internal (db_read (\<lambda>d. get_task_by_dedupe_key d (node_key ik spec)))) (\<lambda>t. case t of
        Some t \<Rightarrow> resolve_ids ik specs (ids(ct_key spec \<mapsto> t_id t)) (insert (t_id t) existing)
      | None \<Rightarrow> do { u \<leftarrow> new_uuid; resolve_ids ik specs (ids(ct_key spec \<mapsto> u)) existing })"

definition ids_unresolved :: rpc_error where
  "ids_unresolved = Internal (Some ''workflow.create: task ids unresolved'')"

fun insert_nodes ::
  "time \<Rightarrow> string \<Rightarrow> (string \<rightharpoonup> uuid) \<Rightarrow> uuid set \<Rightarrow> uuid \<Rightarrow> create_task list \<Rightarrow> (rpc_error + unit) handler"
where
  "insert_nodes now ik ids existing root [] = ret (Inr ())"
| "insert_nodes now ik ids existing root (spec # specs) =
     (case (ids (ct_key spec), those (map ids (dependencies_of spec))) of
        (Some tid, Some depends_on) \<Rightarrow>
          if tid \<in> existing
          then attempt (internal (record_dependencies now tid depends_on))
                 (\<lambda>_. insert_nodes now ik ids existing root specs)
          else attempt (internal (enqueue_dynamic now
                 \<lparr>dy_id = tid, dy_name = ct_name spec,
                  dy_input = (case ct_input spec of None \<Rightarrow> JNull | Some v \<Rightarrow> v),
                  dy_dedupe_key = Some (node_key ik spec), dy_root_id = root,
                  dy_parent_id = (if tid = root then None else Some root), dy_depends_on = depends_on\<rparr>))
                 (\<lambda>_. insert_nodes now ik ids existing root specs)
      | _ \<Rightarrow> ret (Inl ids_unresolved))"

record create_params =
  cw_idempotency_key :: string
  cw_root_id :: "uuid option"
  cw_tasks :: "create_task list option"

record node_ref =
  nr_key :: string
  nr_id :: uuid
  nr_name :: string

definition check_root :: "uuid option \<Rightarrow> (rpc_error + unit) handler" where
  "check_root root = (case root of
     None \<Rightarrow> ret (Inr ())
   | Some root \<Rightarrow> attempt (internal (db_read (\<lambda>d. get_task d root))) (\<lambda>t. ret (case t of
       None \<Rightarrow> Inl (InvalidParams (''workflow root '' @ quoted root @ '' not found'')) | Some _ \<Rightarrow> Inr ())))"

definition create_nodes ::
  "time \<Rightarrow> create_params \<Rightarrow> create_task list \<Rightarrow> (rpc_error + uuid \<times> node_ref list) handler"
where
  "create_nodes now p specs =
     attempt (check_root (cw_root_id p)) (\<lambda>_.
     attempt (resolve_ids (cw_idempotency_key p) specs Map.empty {}) (\<lambda>(ids, existing).
     (case (case cw_root_id p of Some root \<Rightarrow> Some root | None \<Rightarrow> ids (ct_key (hd specs))) of
        None \<Rightarrow> ret (Inl ids_unresolved)
      | Some root \<Rightarrow>
          attempt (insert_nodes now (cw_idempotency_key p) ids existing root specs) (\<lambda>_.
          ret (case those (map (\<lambda>spec. map_option (\<lambda>tid.
                      \<lparr>nr_key = ct_key spec, nr_id = tid, nr_name = ct_name spec\<rparr>) (ids (ct_key spec))) specs) of
                 None \<Rightarrow> Inl ids_unresolved
               | Some refs \<Rightarrow> Inr (root, refs))))))"

definition create_workflow ::
  "(string list \<Rightarrow> string list) \<Rightarrow> time \<Rightarrow> create_params \<Rightarrow> (rpc_error + uuid \<times> node_ref list) option handler"
where
  "create_workflow order now p = do {
     let specs = (case cw_tasks p of None \<Rightarrow> [] | Some ts \<Rightarrow> ts);
     names \<leftarrow> gets (\<lambda>s. d_name ` set (dn_catalog s));
     (case validate_create_dag order names specs of
        None \<Rightarrow> ret None
      | Some (Inl e) \<Rightarrow> ret (Some (Inl e))
      | Some (Inr _) \<Rightarrow> do { r \<leftarrow> create_nodes now p specs; ret (Some r) }) }"

fun check_predecessors :: "uuid option \<Rightarrow> uuid list \<Rightarrow> (rpc_error + unit) handler" where
  "check_predecessors root [] = ret (Inr ())"
| "check_predecessors root (p # ps) =
     attempt (internal (db_read (\<lambda>d. get_task d p))) (\<lambda>t. case t of
        None \<Rightarrow> ret (Inl (InvalidParams (''dependency task '' @ quoted p @ '' not found'')))
      | Some t \<Rightarrow>
          (case root of
             Some r \<Rightarrow> if root_or_self t \<noteq> r
               then ret (Inl (InvalidParams (''dependency task '' @ quoted p @ '' does not belong to root '' @ quoted r)))
               else check_predecessors root ps
           | None \<Rightarrow> check_predecessors root ps))"

record spawn_params =
  sw_name :: string
  sw_input :: "json option"
  sw_root_id :: "uuid option"
  sw_depends_on :: "uuid list option"
  sw_dedupe_key :: "string option"

definition spawn_workflow :: "time \<Rightarrow> spawn_params \<Rightarrow> (rpc_error + task) handler" where
  "spawn_workflow now p = do {
     names \<leftarrow> gets (\<lambda>s. d_name ` set (dn_catalog s));
     if sw_name p \<notin> names then ret (Inl (InvalidParams (''unknown task '' @ quoted (sw_name p))))
     else attempt (check_root (sw_root_id p)) (\<lambda>_.
       let depends_on = (case sw_depends_on p of None \<Rightarrow> [] | Some ps \<Rightarrow> ps)
       in attempt (check_predecessors (sw_root_id p) depends_on) (\<lambda>_.
            internal (spawn_dynamic now (sw_name p)
              (case sw_input p of None \<Rightarrow> JNull | Some v \<Rightarrow> v) (sw_root_id p) depends_on (sw_dedupe_key p)))) }"

subsection \<open>Inspecting a workflow\<close>

record task_view =
  tv_id :: uuid
  tv_name :: string
  tv_status :: task_status
  tv_attempt :: nat
  tv_summary :: "string option"

datatype wf_state = WfRunning | WfSucceeded | WfFailed | WfCancelled

definition workflow_state :: "task_view list \<Rightarrow> wf_state" where
  "workflow_state views =
     (if \<exists>t \<in> set views. tv_status t \<in> {Pending, Running, AwaitingInput} then WfRunning
      else if \<exists>t \<in> set views. tv_status t = Failed then WfFailed
      else if \<exists>t \<in> set views. tv_status t = Cancelled then WfCancelled
      else WfSucceeded)"

record workflow_inspect =
  wi_root_id :: uuid
  wi_root_task :: string
  wi_state :: wf_state
  wi_tasks :: "task_view list"
  wi_ready :: "uuid list"
  wi_running :: "uuid list"
  wi_failed :: "uuid list"
  wi_blocked :: "uuid list"

definition needs_by_name :: "task_def list \<Rightarrow> (string \<rightharpoonup> string)" where
  "needs_by_name catalog = map_of (rev (map (\<lambda>d. (d_name d, the (d_needs d)))
     (filter (\<lambda>d. d_needs d \<noteq> None) catalog)))"

abbreviation unsettled :: "task_status \<Rightarrow> bool" where
  "unsettled st \<equiv> st \<in> {Pending, Running, AwaitingInput}"

definition waits_for :: "task_def list \<Rightarrow> (uuid \<times> uuid) list \<Rightarrow> task list \<Rightarrow> task \<Rightarrow> bool" where
  "waits_for catalog runtime_deps ts t \<longleftrightarrow>
     (case needs_by_name catalog (t_name t) of
        None \<Rightarrow> False
      | Some needs \<Rightarrow> \<exists>x \<in> set ts. unsettled (t_status x) \<and> t_name x = fst (needs_parts needs)) \<or>
     (\<exists>x \<in> set ts. unsettled (t_status x) \<and> (t_id t, t_id x) \<in> set runtime_deps)"

definition view_of :: "task \<Rightarrow> task_view" where
  "view_of t = \<lparr>tv_id = t_id t, tv_name = t_name t, tv_status = t_status t, tv_attempt = t_attempt t,
     tv_summary = t_error t\<rparr>"

definition inspection :: "uuid \<Rightarrow> task_def list \<Rightarrow> task list \<Rightarrow> (uuid \<times> uuid) list \<Rightarrow> workflow_inspect" where
  "inspection root catalog ts runtime_deps =
     (let bucket = (\<lambda>P. map t_id (filter P ts));
          blocked = waits_for catalog runtime_deps ts
      in \<lparr>wi_root_id = root,
          wi_root_task = (case List.find (\<lambda>t. t_id t = root) ts of
             Some t \<Rightarrow> t_name t | None \<Rightarrow> (case ts of [] \<Rightarrow> [] | t # _ \<Rightarrow> t_name t)),
          wi_state = workflow_state (map view_of ts), wi_tasks = map view_of ts,
          wi_ready = bucket (\<lambda>t. t_status t = Pending \<and> \<not> blocked t),
          wi_running = bucket (\<lambda>t. t_status t = Running \<or> t_status t = AwaitingInput),
          wi_failed = bucket (\<lambda>t. t_status t = Failed),
          wi_blocked = bucket (\<lambda>t. t_status t = Pending \<and> blocked t)\<rparr>)"

definition root_not_found :: rpc_error where
  "root_not_found = InvalidParams ''workflow root not found''"

definition inspect_workflow :: "uuid \<Rightarrow> (rpc_error + workflow_inspect) handler" where
  "inspect_workflow root =
     attempt (internal (db_read (\<lambda>d. list_root_tasks d root))) (\<lambda>ts.
     if ts = [] then ret (Inl root_not_found)
     else do {
       catalog \<leftarrow> gets dn_catalog;
       attempt (internal (db_read (\<lambda>d. list_root_dependencies d root))) (\<lambda>runtime_deps.
       ret (Inr (inspection root catalog ts runtime_deps))) })"

subsection \<open>Cancelling and retrying\<close>

definition announce_cancelled :: "time \<Rightarrow> task \<Rightarrow> unit handler" where
  "announce_cancelled now t = do {
     publish (PTaskUpdated (task_summary t));
     let e = \<lparr>e_id = 0, e_kind = EvTaskCancelled, e_payload = mk_obj [(''task_id'', JStr (t_id t))],
              e_created_at = now\<rparr>;
     r \<leftarrow> db_call (insert_event e);
     (case r of Some n \<Rightarrow> publish (PEvent (e\<lparr>e_id := n\<rparr>)) | None \<Rightarrow> ret ()) }"

text \<open>\<open>tasks.cancel\<close>; \<open>None\<close> is an error, either of the database or \<open>task not found\<close>.\<close>

definition cancel_task :: "time \<Rightarrow> uuid \<Rightarrow> task option handler" where
  "cancel_task now tid = do {
     found \<leftarrow> db_read (\<lambda>d. get_task d tid);
     (case found of
        Some (Some t) \<Rightarrow> do {
          won \<leftarrow> db_call (cancel_active_task now tid);
          (case won of
             None \<Rightarrow> ret None
           | Some False \<Rightarrow> ret (Some (task_summary t))
           | Some True \<Rightarrow> do {
               close_by_task tid;
               fresh \<leftarrow> db_read (\<lambda>d. get_task d tid);
               (case fresh of
                  None \<Rightarrow> ret None
                | Some fresh \<Rightarrow> do {
                    let cancelled = (case fresh of Some c \<Rightarrow> c | None \<Rightarrow> t);
                    announce_cancelled now cancelled;
                    ret (Some (task_summary cancelled)) }) }) }
      | _ \<Rightarrow> ret None) }"

fun cancel_each :: "time \<Rightarrow> task list \<Rightarrow> (rpc_error + uuid list) handler" where
  "cancel_each now [] = ret (Inr [])"
| "cancel_each now (t # ts) =
     (if is_terminal (t_status t) then cancel_each now ts
      else attempt (internal (db_call (cancel_active_task now (t_id t)))) (\<lambda>won.
        if \<not> won then cancel_each now ts
        else do {
          close_by_task (t_id t);
          fresh \<leftarrow> db_read (\<lambda>d. get_task d (t_id t));
          (case fresh of Some (Some fresh) \<Rightarrow> announce_cancelled now fresh | _ \<Rightarrow> ret ());
          attempt (cancel_each now ts) (\<lambda>cancelled. ret (Inr (t_id t # cancelled))) }))"

definition cancel_workflow :: "time \<Rightarrow> uuid \<Rightarrow> (rpc_error + uuid list) handler" where
  "cancel_workflow now root =
     attempt (internal (db_read (\<lambda>d. list_root_tasks d root))) (\<lambda>ts.
     if ts = [] then ret (Inl root_not_found) else cancel_each now ts)"

definition retry_task :: "time \<Rightarrow> uuid \<Rightarrow> (rpc_error + task) handler" where
  "retry_task now tid =
     attempt (internal (db_read (\<lambda>d. get_task d tid))) (\<lambda>found.
     case found of
       None \<Rightarrow> ret (Inl (InvalidParams ''task not found''))
     | Some t \<Rightarrow> do {
         live \<leftarrow> db_read (\<lambda>d. get_active_task_run d tid);
         (case live of
            Some (Some run) \<Rightarrow> ret (Inl (InvalidParams (''task '' @ quoted (t_name t) @
              '' still has a live run (attempt '' @ nat_str (r_attempt run) @ '')'')))
          | _ \<Rightarrow>
              if \<not> is_terminal (t_status t)
              then ret (Inl (InvalidParams (''task '' @ quoted (t_name t) @ '' is not terminal (status '' @
                     quoted (task_status_as_str (t_status t)) @ '')'')))
              else attempt (internal (db_call (requeue_terminal_task tid))) (\<lambda>won.
                if \<not> won
                then ret (Inl (InvalidParams (''task '' @ quoted (t_name t) @ '' could not be re-enqueued'')))
                else attempt (internal (db_read (\<lambda>d. get_task d tid))) (\<lambda>fresh.
                case fresh of
                  None \<Rightarrow> ret (Inl (Internal (Some ''task disappeared after retry'')))
                | Some fresh \<Rightarrow> do {
                    publish (PTaskUpdated (task_summary fresh));
                    emit_event now EvTaskIdle (idle_payload (t_name fresh) (t_id fresh));
                    ret (Inr (task_summary fresh)) }))) })"

subsection \<open>Creating a workflow twice\<close>

lemma run_attempt [run_simps]:
  "run_state (attempt m f) s =
     (case run_state m s of (Inl e, s') \<Rightarrow> (Inl e, s') | (Inr x, s') \<Rightarrow> run_state (f x) s')"
  by (simp add: attempt_def split: prod.splits sum.splits)

lemma run_internal [run_simps]:
  "run_state (internal m) s =
     (case run_state m s of (None, s') \<Rightarrow> (Inl (Internal None), s') | (Some x, s') \<Rightarrow> (Inr x, s'))"
  by (simp add: internal_def split: prod.splits option.splits)

lemma run_read_ok:
  "dn_faults s = [] \<Longrightarrow> run_state (internal (db_call (\<lambda>d. (f d, d)))) s = (Inr (f (dn_db s)), s)"
  by (simp add: run_simps)

definition depend_on :: "time \<Rightarrow> uuid \<Rightarrow> uuid list \<Rightarrow> db \<Rightarrow> db" where
  "depend_on now tid ps d = fold (\<lambda>p. insert_dependency tid p now) ps d"

lemma run_record_dependencies [run_simps]:
  "dn_faults s = [] \<Longrightarrow>
   run_state (record_dependencies now tid ps) s = (Some (), s\<lparr>dn_db := depend_on now tid ps (dn_db s)\<rparr>)"
  by (induction ps arbitrary: s) (simp_all add: run_simps depend_on_def)

lemma depend_on_tasks [simp]: "tasks (depend_on now tid ps d) = tasks d"
  by (induction ps arbitrary: d) (simp_all add: depend_on_def insert_dependency_def)

lemma depend_on_edges: "edges (depend_on now tid ps d) = edges d \<union> {tid} \<times> set ps"
  by (induction ps arbitrary: d) (auto simp: depend_on_def insert_dependency_def edges_def)

lemma depend_on_id: "{tid} \<times> set ps \<subseteq> edges d \<Longrightarrow> depend_on now tid ps d = d"
  by (induction ps) (auto simp: depend_on_def insert_dependency_def edges_def)

lemma run_enqueue_dynamic:
  assumes "dn_faults s = []" and "dy_id node \<notin> t_id ` set (tasks (dn_db s))"
    and "dedupe_free (dy_dedupe_key node) (dn_db s)"
  obtains t s' where "run_state (enqueue_dynamic now node) s = (Some t, s')" "dn_faults s' = []"
    "dn_catalog s' = dn_catalog s"
    "tasks (dn_db s') = tasks (dn_db s) @ [row_of_task (new_task now (dy_id node) (dy_name node) (dy_input node)
       (dy_dedupe_key node) \<lparr>l_parent = dy_parent_id node, l_root = Some (dy_root_id node)\<rparr> False)]"
    "edges (dn_db s') = edges (dn_db s) \<union> {dy_id node} \<times> set (dy_depends_on node)"
  using assms
  by (simp add: enqueue_dynamic_def enqueue_with_id_def run_simps Let_def tasks_insert_task depend_on_edges)
     (simp add: edges_def insert_task_def)

abbreviation known_node :: "string \<Rightarrow> db \<Rightarrow> create_task \<Rightarrow> task option" where
  "known_node ik d spec \<equiv> get_task_by_dedupe_key d (node_key ik spec)"

definition resolved ::
  "string \<Rightarrow> db \<Rightarrow> uuid set \<Rightarrow> create_task list \<Rightarrow> (string \<rightharpoonup> uuid) \<Rightarrow> bool"
where
  "resolved ik d us specs ids \<longleftrightarrow>
     (\<forall>spec \<in> set specs. case known_node ik d spec of
        Some t \<Rightarrow> ids (ct_key spec) = Some (t_id t) | None \<Rightarrow> \<exists>u \<in> us. ids (ct_key spec) = Some u) \<and>
     (\<forall>a \<in> set specs. \<forall>b \<in> set specs. known_node ik d a = None \<longrightarrow> known_node ik d b = None \<longrightarrow>
        ids (ct_key a) = ids (ct_key b) \<longrightarrow> ct_key a = ct_key b)"

lemma run_resolve_ids:
  assumes "dn_faults s = []" and "length specs \<le> length (dn_uuids s)" and "distinct (dn_uuids s)"
    and "distinct (map ct_key specs)"
  shows "\<exists>ids' us. run_state (resolve_ids ik specs ids existing) s =
      (Inr (ids', existing \<union> {t_id t | spec t. spec \<in> set specs \<and> known_node ik (dn_db s) spec = Some t}),
       s\<lparr>dn_uuids := us\<rparr>) \<and>
    (\<forall>k. k \<notin> ct_key ` set specs \<longrightarrow> ids' k = ids k) \<and> resolved ik (dn_db s) (set (dn_uuids s)) specs ids'"
  using assms
proof (induction specs arbitrary: s ids existing)
  case Nil
  then show ?case by (intro exI [of _ ids] exI [of _ "dn_uuids s"]) (simp add: resolved_def)
next
  case (Cons spec specs)
  note run = run_attempt run_read_ok [OF Cons.prems(1)]
  show ?case
  proof (cases "known_node ik (dn_db s) spec")
    case (Some t)
    from Cons.prems have "length specs \<le> length (dn_uuids s)" "distinct (map ct_key specs)" by simp_all
    from Cons.IH [OF Cons.prems(1) this(1) Cons.prems(3) this(2), of "ids(ct_key spec \<mapsto> t_id t)" "insert (t_id t) existing"]
    obtain ids' us where IH: "run_state (resolve_ids ik specs (ids(ct_key spec \<mapsto> t_id t)) (insert (t_id t) existing)) s =
        (Inr (ids', insert (t_id t) existing \<union>
           {t_id t | spec t. spec \<in> set specs \<and> known_node ik (dn_db s) spec = Some t}), s\<lparr>dn_uuids := us\<rparr>)"
      "\<forall>k. k \<notin> ct_key ` set specs \<longrightarrow> ids' k = (ids(ct_key spec \<mapsto> t_id t)) k"
      "resolved ik (dn_db s) (set (dn_uuids s)) specs ids'" by blast
    have "ids' (ct_key spec) = Some (t_id t)" using IH(2) Cons.prems(4) by simp
    then have "resolved ik (dn_db s) (set (dn_uuids s)) (spec # specs) ids'"
      using IH(3) Some by (simp add: resolved_def)
    moreover have "insert (t_id t) existing \<union> {t_id t | spec t. spec \<in> set specs \<and> known_node ik (dn_db s) spec = Some t} =
        existing \<union> {t_id t | sp t. sp \<in> set (spec # specs) \<and> known_node ik (dn_db s) sp = Some t}"
      using Some by auto
    ultimately show ?thesis using IH(1,2) Some by (auto simp: run)
  next
    case None
    from Cons.prems(2) obtain u rest where u: "dn_uuids s = u # rest" "length specs \<le> length rest"
      by (cases "dn_uuids s") auto
    let ?s = "s\<lparr>dn_uuids := rest\<rparr>"
    from Cons.IH [of ?s "ids(ct_key spec \<mapsto> u)" existing] Cons.prems u
    obtain ids' us where IH: "run_state (resolve_ids ik specs (ids(ct_key spec \<mapsto> u)) existing) ?s =
        (Inr (ids', existing \<union> {t_id t | spec t. spec \<in> set specs \<and> known_node ik (dn_db s) spec = Some t}),
         s\<lparr>dn_uuids := us\<rparr>)"
      "\<forall>k. k \<notin> ct_key ` set specs \<longrightarrow> ids' k = (ids(ct_key spec \<mapsto> u)) k"
      "resolved ik (dn_db s) (set rest) specs ids'" by (auto simp del: fun_upd_apply)
    have key: "ids' (ct_key spec) = Some u" "ct_key spec \<notin> ct_key ` set specs"
      using IH(2) Cons.prems(4) by simp_all
    have "ids' (ct_key b) \<noteq> Some u" if "b \<in> set specs" "known_node ik (dn_db s) b = None" for b
      using that IH(3) Cons.prems(3) u(1) by (fastforce simp: resolved_def)
    then have "resolved ik (dn_db s) (set (dn_uuids s)) (spec # specs) ids'"
      using IH(3) None key u(1) by (fastforce simp: resolved_def split: option.splits)
    then show ?thesis using IH(1,2) None u(1) by (auto simp: run new_uuid_def)
  qed
qed

text \<open>A node is placed when its row, with its key and its edges, is in the database.\<close>

definition placed :: "string \<Rightarrow> (string \<rightharpoonup> uuid) \<Rightarrow> db \<Rightarrow> create_task \<Rightarrow> bool" where
  "placed ik ids d spec \<longleftrightarrow>
     (\<exists>r \<in> set (tasks d). ids (ct_key spec) = Some (t_id r) \<and> t_dedupe_key r = Some (node_key ik spec)) \<and>
     (\<forall>k \<in> set (dependencies_of spec). \<exists>p. ids k = Some p \<and> (the (ids (ct_key spec)), p) \<in> edges d)"

definition placeable :: "string \<Rightarrow> (string \<rightharpoonup> uuid) \<Rightarrow> uuid set \<Rightarrow> db \<Rightarrow> create_task \<Rightarrow> bool" where
  "placeable ik ids existing d spec \<longleftrightarrow>
     (\<exists>tid. ids (ct_key spec) = Some tid \<and>
        (if tid \<in> existing
         then \<exists>r \<in> set (tasks d). t_id r = tid \<and> t_dedupe_key r = Some (node_key ik spec)
         else tid \<notin> t_id ` set (tasks d) \<and> Some (node_key ik spec) \<notin> t_dedupe_key ` set (tasks d)))"

lemma node_key_eq [simp]: "node_key ik a = node_key ik b \<longleftrightarrow> ct_key a = ct_key b"
  by (simp add: node_key_def)

lemma those_map_Some: "(\<And>x. x \<in> set xs \<Longrightarrow> f x \<noteq> None) \<Longrightarrow> those (map f xs) = Some (map (\<lambda>x. the (f x)) xs)"
  by (induction xs) (auto split: option.split)

lemma placed_mono:
  "placed ik ids d spec \<Longrightarrow> set (tasks d) \<subseteq> set (tasks d') \<Longrightarrow> edges d \<subseteq> edges d' \<Longrightarrow> placed ik ids d' spec"
  unfolding placed_def by blast

lemma placeable_depend_on [simp]:
  "placeable ik ids existing (depend_on now tid ps d) = placeable ik ids existing d"
  by (rule ext) (simp add: placeable_def)

lemma run_insert_nodes:
  assumes "dn_faults s = []" and "distinct (map ct_key specs)"
    and "\<forall>spec \<in> set specs. placeable ik ids existing (dn_db s) spec"
    and "\<forall>spec \<in> set specs. \<forall>k \<in> set (dependencies_of spec). ids k \<noteq> None"
    and "\<forall>a \<in> set specs. \<forall>b \<in> set specs. the (ids (ct_key a)) \<notin> existing \<longrightarrow>
      ids (ct_key a) = ids (ct_key b) \<longrightarrow> ct_key a = ct_key b"
  shows "\<exists>s'. run_state (insert_nodes now ik ids existing root specs) s = (Inr (), s') \<and> dn_faults s' = [] \<and>
    dn_catalog s' = dn_catalog s \<and> set (tasks (dn_db s)) \<subseteq> set (tasks (dn_db s')) \<and>
    edges (dn_db s) \<subseteq> edges (dn_db s') \<and> (\<forall>spec \<in> set specs. placed ik ids (dn_db s') spec)"
  using assms
proof (induction specs arbitrary: s)
  case Nil
  then show ?case by simp
next
  case (Cons spec specs)
  from Cons.prems(3) obtain tid where tid: "ids (ct_key spec) = Some tid"
    by (auto simp: placeable_def)
  define on where "on = map (\<lambda>k. the (ids k)) (dependencies_of spec)"
  have on: "those (map ids (dependencies_of spec)) = Some on"
    unfolding on_def using Cons.prems(4) by (intro those_map_Some) simp
  have step: "\<exists>s1. dn_faults s1 = [] \<and> dn_catalog s1 = dn_catalog s \<and>
      run_state (insert_nodes now ik ids existing root (spec # specs)) s =
        run_state (insert_nodes now ik ids existing root specs) s1 \<and>
      set (tasks (dn_db s)) \<subseteq> set (tasks (dn_db s1)) \<and>
      edges (dn_db s1) = edges (dn_db s) \<union> {tid} \<times> set on \<and>
      (\<exists>r \<in> set (tasks (dn_db s1)). t_id r = tid \<and> t_dedupe_key r = Some (node_key ik spec)) \<and>
      (\<forall>b \<in> set specs. placeable ik ids existing (dn_db s1) b)"
  proof (cases "tid \<in> existing")
    case True
    have "placeable ik ids existing (dn_db s) spec" using Cons.prems(3) by simp
    with True tid have "\<exists>r \<in> set (tasks (dn_db s)). t_id r = tid \<and> t_dedupe_key r = Some (node_key ik spec)"
      by (simp add: placeable_def)
    with True show ?thesis
      using Cons.prems(1,3) tid on
      by (intro exI [of _ "s\<lparr>dn_db := depend_on now tid on (dn_db s)\<rparr>"])
         (simp add: run_simps depend_on_edges)
  next
    case False
    define node where "node = \<lparr>dy_id = tid, dy_name = ct_name spec,
      dy_input = (case ct_input spec of None \<Rightarrow> JNull | Some v \<Rightarrow> v), dy_dedupe_key = Some (node_key ik spec),
      dy_root_id = root, dy_parent_id = (if tid = root then None else Some root), dy_depends_on = on\<rparr>"
    have "dy_id node \<notin> t_id ` set (tasks (dn_db s))" "dedupe_free (dy_dedupe_key node) (dn_db s)"
      using Cons.prems(3) tid False by (auto simp: placeable_def node_def dedupe_free_def)
    then obtain t s1 where
      run: "run_state (enqueue_dynamic now node) s = (Some t, s1)" "dn_faults s1 = []" "dn_catalog s1 = dn_catalog s"
      and tasks: "tasks (dn_db s1) = tasks (dn_db s) @ [row_of_task (new_task now (dy_id node) (dy_name node)
        (dy_input node) (dy_dedupe_key node) \<lparr>l_parent = dy_parent_id node, l_root = Some (dy_root_id node)\<rparr> False)]"
      and "edges (dn_db s1) = edges (dn_db s) \<union> {dy_id node} \<times> set (dy_depends_on node)"
      by (rule run_enqueue_dynamic [OF Cons.prems(1)])
    then have edges: "edges (dn_db s1) = edges (dn_db s) \<union> {tid} \<times> set on" by (simp add: node_def)
    have "placeable ik ids existing (dn_db s1) b" if b: "b \<in> set specs" for b
    proof -
      from b Cons.prems(3) obtain u where u: "ids (ct_key b) = Some u" "placeable ik ids existing (dn_db s) b"
        by (auto simp: placeable_def)
      have "ct_key b \<noteq> ct_key spec" using b Cons.prems(2) by (metis distinct.simps(2) image_eqI list.set_map list.map(2))
      moreover have "u \<noteq> tid" using Cons.prems(5) b u(1) tid False calculation by fastforce
      ultimately show ?thesis using u by (auto simp: placeable_def tasks node_def split: if_splits)
    qed
    moreover have "run_state (insert_nodes now ik ids existing root (spec # specs)) s =
        run_state (insert_nodes now ik ids existing root specs) s1"
      using False tid on run(1) by (simp add: run_attempt run_internal flip: node_def)
    ultimately show ?thesis using run(2,3) tasks edges by (intro exI [of _ s1]) (auto simp: node_def)
  qed
  then obtain s1 where s1: "dn_faults s1 = []" "dn_catalog s1 = dn_catalog s"
      "run_state (insert_nodes now ik ids existing root (spec # specs)) s =
        run_state (insert_nodes now ik ids existing root specs) s1"
      "set (tasks (dn_db s)) \<subseteq> set (tasks (dn_db s1))"
      "edges (dn_db s1) = edges (dn_db s) \<union> {tid} \<times> set on"
      "\<exists>r \<in> set (tasks (dn_db s1)). t_id r = tid \<and> t_dedupe_key r = Some (node_key ik spec)"
      "\<forall>b \<in> set specs. placeable ik ids existing (dn_db s1) b" by blast
  have placed: "placed ik ids (dn_db s1) spec"
    unfolding placed_def
  proof (intro conjI ballI)
    fix k assume k: "k \<in> set (dependencies_of spec)"
    have "\<forall>k \<in> set (dependencies_of spec). ids k \<noteq> None" using Cons.prems(4) by simp
    with k obtain p where "ids k = Some p" by blast
    moreover from this k have "p \<in> set on"
      unfolding on_def set_map by (intro image_eqI [where x = k]) simp_all
    ultimately show "\<exists>p. ids k = Some p \<and> (the (ids (ct_key spec)), p) \<in> edges (dn_db s1)"
      using s1(5) tid by simp
  qed (use s1(6) tid in auto)
  have tail: "distinct (map ct_key specs)"
      "\<forall>spec \<in> set specs. \<forall>k \<in> set (dependencies_of spec). ids k \<noteq> None"
    using Cons.prems(2,4) by simp_all
  have injective: "\<forall>a \<in> set specs. \<forall>b \<in> set specs. the (ids (ct_key a)) \<notin> existing \<longrightarrow>
        ids (ct_key a) = ids (ct_key b) \<longrightarrow> ct_key a = ct_key b"
    using Cons.prems(5) unfolding list.set(2) ball_simps(7) by (elim conjE) (intro ballI, blast)
  obtain s' where s': "run_state (insert_nodes now ik ids existing root specs) s1 = (Inr (), s')"
      "dn_faults s' = []" "dn_catalog s' = dn_catalog s1" "set (tasks (dn_db s1)) \<subseteq> set (tasks (dn_db s'))"
      "edges (dn_db s1) \<subseteq> edges (dn_db s')" "\<forall>spec \<in> set specs. placed ik ids (dn_db s') spec"
    using Cons.IH [OF s1(1) tail(1) s1(7) tail(2) injective] by blast
  have "placed ik ids (dn_db s') spec" by (rule placed_mono [OF placed s'(4,5)])
  moreover have "edges (dn_db s) \<subseteq> edges (dn_db s')" using s1(5) s'(5) by blast
  ultimately show ?case
    using s1(2,4) s' unfolding s1(3) by (intro exI [of _ s']) auto
qed

lemma run_resolve_again:
  assumes "dn_faults s = []"
    and "\<forall>spec \<in> set specs. \<exists>t. known_node ik (dn_db s) spec = Some t \<and> ids (ct_key spec) = Some (t_id t)"
  shows "run_state (resolve_ids ik specs m existing) s =
    (Inr (m ++ ids |` (ct_key ` set specs), existing \<union> (\<lambda>spec. the (ids (ct_key spec))) ` set specs), s)"
  using assms
proof (induction specs arbitrary: m existing)
  case (Cons spec specs)
  from Cons.prems(2) obtain t where t: "known_node ik (dn_db s) spec = Some t" "ids (ct_key spec) = Some (t_id t)"
    by auto
  have "m(ct_key spec \<mapsto> t_id t) ++ ids |` (ct_key ` set specs) = m ++ ids |` (ct_key ` set (spec # specs))"
    using t(2) by (auto simp: map_add_def restrict_map_def fun_eq_iff split: option.splits)
  with Cons.IH [of "m(ct_key spec \<mapsto> t_id t)" "insert (t_id t) existing"] Cons.prems t show ?case
    by (simp add: run_attempt run_read_ok del: fun_upd_apply)
qed simp

lemma run_insert_again:
  assumes "dn_faults s = []" and "\<forall>spec \<in> set specs. placed ik ids (dn_db s) spec"
    and "(\<lambda>spec. the (ids (ct_key spec))) ` set specs \<subseteq> existing"
  shows "run_state (insert_nodes now ik ids existing root specs) s = (Inr (), s)"
  using assms
proof (induction specs)
  case (Cons spec specs)
  then have "placed ik ids (dn_db s) spec" by simp
  then obtain r :: task_row where "ids (ct_key spec) = Some (t_id r)" unfolding placed_def by blast
  with \<open>placed ik ids (dn_db s) spec\<close> have r: "ids (ct_key spec) = Some (t_id r)"
      "\<forall>k \<in> set (dependencies_of spec). \<exists>p. ids k = Some p \<and> (t_id r, p) \<in> edges (dn_db s)"
    by (simp_all add: placed_def)
  then have "t_id r \<in> existing" using Cons.prems(3) by simp
  define on where "on = map (\<lambda>k. the (ids k)) (dependencies_of spec)"
  have "those (map ids (dependencies_of spec)) = Some on"
    unfolding on_def using r(2) by (intro those_map_Some) auto
  moreover have "depend_on now (t_id r) on (dn_db s) = dn_db s"
    using r(2) by (intro depend_on_id) (auto simp: on_def)
  ultimately show ?case using Cons r(1) \<open>t_id r \<in> existing\<close> by (simp add: run_simps)
qed simp

lemma lookup_dedupe_key:
  assumes "tasks_wf rows" and "r \<in> set rows" and "t_dedupe_key r = Some k"
  shows "lookup_row t_dedupe_key (Some k) rows = Some r"
proof -
  have "lookup_row t_dedupe_key (Some k) rows =
      lookup_row t_dedupe_key (Some k) (filter (\<lambda>r. t_dedupe_key r \<noteq> None) rows)"
    by (induction rows) (auto simp: lookup_row_def)
  also have "\<dots> = Some r"
    using assms by (subst lookup_row_Some) (auto simp: tasks_wf_def)
  finally show ?thesis .
qed

lemma known_node_None: "known_node ik d spec = None \<longleftrightarrow> Some (node_key ik spec) \<notin> t_dedupe_key ` set (tasks d)"
  by (simp add: get_task_by_dedupe_key_def lookup_row_None)

lemma known_node_Some:
  assumes "known_node ik d spec = Some t"
  obtains r where "r \<in> set (tasks d)" "t_id r = t_id t" "t_dedupe_key r = Some (node_key ik spec)"
  using assms by (auto simp: get_task_by_dedupe_key_def dest: lookup_row_SomeD)

lemma placed_known:
  assumes "tasks_wf (tasks d)" and "placed ik ids d spec"
  shows "\<exists>t. known_node ik d spec = Some t \<and> ids (ct_key spec) = Some (t_id t)"
  using assms lookup_dedupe_key [OF assms(1)] by (fastforce simp: placed_def get_task_by_dedupe_key_def)

lemma resolved_placeable:
  assumes "resolved ik d us specs ids" and "us \<inter> t_id ` set (tasks d) = {}"
  defines "existing \<equiv> {t_id t | spec t. spec \<in> set specs \<and> known_node ik d spec = Some t}"
  shows "spec \<in> set specs \<Longrightarrow> placeable ik ids existing d spec"
    and "a \<in> set specs \<Longrightarrow> b \<in> set specs \<Longrightarrow> the (ids (ct_key a)) \<notin> existing \<Longrightarrow>
      ids (ct_key a) = ids (ct_key b) \<Longrightarrow> ct_key a = ct_key b"
proof -
  have ex: "existing \<subseteq> t_id ` set (tasks d)"
    by (force simp: existing_def elim: known_node_Some)
  show "placeable ik ids existing d spec" if spec: "spec \<in> set specs" for spec
  proof (cases "known_node ik d spec")
    case None
    then obtain u where "u \<in> us" "ids (ct_key spec) = Some u"
      using assms(1) spec by (fastforce simp: resolved_def)
    then show ?thesis using None known_node_None [of d ik spec] ex assms(2) by (auto simp: placeable_def)
  next
    case (Some t)
    then have "ids (ct_key spec) = Some (t_id t)" using assms(1) spec by (fastforce simp: resolved_def)
    moreover have "t_id t \<in> existing" using Some spec by (auto simp: existing_def)
    ultimately show ?thesis using known_node_Some [OF Some] by (auto simp: placeable_def)
  qed
  have known: "the (ids (ct_key c)) \<in> existing" if "c \<in> set specs" "known_node ik d c = Some t" for c t
    using that assms(1) by (fastforce simp: resolved_def existing_def)
  show "ct_key a = ct_key b" if "a \<in> set specs" "b \<in> set specs" "the (ids (ct_key a)) \<notin> existing"
    "ids (ct_key a) = ids (ct_key b)"
  proof -
    have "known_node ik d a = None" "known_node ik d b = None"
      using that known [of a] known [of b] by (metis not_None_eq)+
    then show ?thesis using that assms(1) by (auto simp: resolved_def)
  qed
qed

definition node_refs :: "(string \<rightharpoonup> uuid) \<Rightarrow> create_task list \<Rightarrow> node_ref list" where
  "node_refs ids specs = map (\<lambda>spec.
     \<lparr>nr_key = ct_key spec, nr_id = the (ids (ct_key spec)), nr_name = ct_name spec\<rparr>) specs"

lemma those_node_refs:
  assumes "\<forall>spec \<in> set specs. ids (ct_key spec) \<noteq> None"
  shows "those (map (\<lambda>spec. map_option (\<lambda>tid.
      \<lparr>nr_key = ct_key spec, nr_id = tid, nr_name = ct_name spec\<rparr>) (ids (ct_key spec))) specs) =
    Some (node_refs ids specs)"
  using assms by (induction specs) (auto simp: node_refs_def)

definition root_in :: "uuid option \<Rightarrow> db \<Rightarrow> bool" where
  "root_in root d \<longleftrightarrow> (case root of None \<Rightarrow> True | Some r \<Rightarrow> r \<in> t_id ` set (tasks d))"

lemma run_check_root: "dn_faults s = [] \<Longrightarrow> root_in root (dn_db s) \<Longrightarrow> run_state (check_root root) s = (Inr (), s)"
  using lookup_row_None [of t_id "the root" "tasks (dn_db s)"]
  by (cases root) (auto simp: check_root_def run_attempt run_read_ok get_task_def root_in_def)

definition root_of :: "create_params \<Rightarrow> (string \<rightharpoonup> uuid) \<Rightarrow> create_task list \<Rightarrow> uuid" where
  "root_of p ids specs = (case cw_root_id p of Some root \<Rightarrow> root | None \<Rightarrow> the (ids (ct_key (hd specs))))"

text \<open>What a creation does when no call fails: every node of the request is placed.\<close>

lemma run_create_nodes:
  assumes "dn_faults s = []" and "length specs \<le> length (dn_uuids s)" and "distinct (dn_uuids s)"
    and "set (dn_uuids s) \<inter> t_id ` set (tasks (dn_db s)) = {}"
    and request: "well_formed_request catalog specs" and root: "root_in (cw_root_id p) (dn_db s)"
  obtains ids s' where
    "run_state (create_nodes now p specs) s = (Inr (root_of p ids specs, node_refs ids specs), s')"
    "dn_faults s' = []" "dn_catalog s' = dn_catalog s" "set (tasks (dn_db s)) \<subseteq> set (tasks (dn_db s'))"
    "\<forall>spec \<in> set specs. placed (cw_idempotency_key p) ids (dn_db s') spec" "dom ids = ct_key ` set specs"
proof -
  let ?ik = "cw_idempotency_key p"
  from request have specs: "distinct (map ct_key specs)" "specs \<noteq> []"
      "\<forall>spec \<in> set specs. set (dependencies_of spec) \<subseteq> ct_key ` set specs"
    by (simp_all add: well_formed_request_def)
  define existing where "existing = {t_id t | spec t. spec \<in> set specs \<and> known_node ?ik (dn_db s) spec = Some t}"
  from run_resolve_ids [OF assms(1-3) specs(1), of ?ik Map.empty "{}"] obtain ids us where
    ids: "run_state (resolve_ids ?ik specs Map.empty {}) s = (Inr (ids, existing), s\<lparr>dn_uuids := us\<rparr>)"
      "\<forall>k. k \<notin> ct_key ` set specs \<longrightarrow> ids k = None" "resolved ?ik (dn_db s) (set (dn_uuids s)) specs ids"
    by (auto simp: existing_def)
  note place = resolved_placeable [OF ids(3) assms(4), folded existing_def]
  have known: "ids (ct_key spec) \<noteq> None" if "spec \<in> set specs" for spec
    using place(1) [OF that] by (auto simp: placeable_def)
  then have resolvable: "\<forall>spec \<in> set specs. \<forall>k \<in> set (dependencies_of spec). ids k \<noteq> None"
    using specs(3) by blast
  define s0 where "s0 = s\<lparr>dn_uuids := us\<rparr>"
  have s0: "dn_faults s0 = []" "dn_db s0 = dn_db s" "dn_catalog s0 = dn_catalog s"
    using assms(1) by (simp_all add: s0_def)
  have "\<forall>spec \<in> set specs. placeable ?ik ids existing (dn_db s0) spec" using place(1) s0(2) by simp
  moreover have "\<forall>a \<in> set specs. \<forall>b \<in> set specs. the (ids (ct_key a)) \<notin> existing \<longrightarrow>
      ids (ct_key a) = ids (ct_key b) \<longrightarrow> ct_key a = ct_key b"
    using place(2) by blast
  ultimately obtain s' where s':
      "run_state (insert_nodes now ?ik ids existing (root_of p ids specs) specs) s0 = (Inr (), s')"
      "dn_faults s' = []" "dn_catalog s' = dn_catalog s0" "set (tasks (dn_db s0)) \<subseteq> set (tasks (dn_db s'))"
      "\<forall>spec \<in> set specs. placed ?ik ids (dn_db s') spec"
    using run_insert_nodes [OF s0(1) specs(1) _ resolvable, of ?ik existing now "root_of p ids specs"] by blast
  have "run_state (check_root (cw_root_id p)) s = (Inr (), s)"
    using assms(1) root by (rule run_check_root)
  moreover have "(case cw_root_id p of Some root \<Rightarrow> Some root | None \<Rightarrow> ids (ct_key (hd specs))) =
      Some (root_of p ids specs)"
    using known [of "hd specs"] specs(2) by (auto simp: root_of_def split: option.splits)
  moreover have "those (map (\<lambda>spec. map_option (\<lambda>tid.
      \<lparr>nr_key = ct_key spec, nr_id = tid, nr_name = ct_name spec\<rparr>) (ids (ct_key spec))) specs) =
    Some (node_refs ids specs)"
    using known by (intro those_node_refs) blast
  ultimately have "run_state (create_nodes now p specs) s =
      (Inr (root_of p ids specs, node_refs ids specs), s')"
    using ids(1) s'(1) by (simp add: create_nodes_def run_attempt s0_def)
  moreover have "dom ids = ct_key ` set specs" using ids(2) known by auto
  ultimately show ?thesis using that s' s0 by simp
qed

text \<open>Creating them again where they are all placed changes nothing and answers the same.\<close>

lemma run_create_again:
  assumes "dn_faults s = []" and "tasks_wf (tasks (dn_db s))" and "specs \<noteq> []"
    and placed: "\<forall>spec \<in> set specs. placed (cw_idempotency_key p) ids (dn_db s) spec"
    and "dom ids = ct_key ` set specs" and root: "root_in (cw_root_id p) (dn_db s)"
  shows "run_state (create_nodes now p specs) s = (Inr (root_of p ids specs, node_refs ids specs), s)"
proof -
  let ?ik = "cw_idempotency_key p" and ?existing = "(\<lambda>spec. the (ids (ct_key spec))) ` set specs"
  have "\<forall>spec \<in> set specs. \<exists>t. known_node ?ik (dn_db s) spec = Some t \<and> ids (ct_key spec) = Some (t_id t)"
    using placed placed_known [OF assms(2)] by blast
  moreover have "Map.empty ++ ids |` (ct_key ` set specs) = ids"
    using assms(5) by (simp add: restrict_map_def fun_eq_iff) (metis domIff)
  ultimately have resolve: "run_state (resolve_ids ?ik specs Map.empty {}) s = (Inr (ids, ?existing), s)"
    using run_resolve_again [OF assms(1), of specs ?ik ids Map.empty "{}"] by simp
  have known: "ids (ct_key spec) \<noteq> None" if "spec \<in> set specs" for spec
    using assms(5) that by blast
  have "run_state (check_root (cw_root_id p)) s = (Inr (), s)"
    using assms(1) root by (rule run_check_root)
  moreover have "(case cw_root_id p of Some root \<Rightarrow> Some root | None \<Rightarrow> ids (ct_key (hd specs))) =
      Some (root_of p ids specs)"
    using known [of "hd specs"] assms(3) by (auto simp: root_of_def split: option.splits)
  moreover have "those (map (\<lambda>spec. map_option (\<lambda>tid.
      \<lparr>nr_key = ct_key spec, nr_id = tid, nr_name = ct_name spec\<rparr>) (ids (ct_key spec))) specs) =
    Some (node_refs ids specs)"
    using known by (intro those_node_refs) blast
  moreover have "run_state (insert_nodes now ?ik ids ?existing (root_of p ids specs) specs) s = (Inr (), s)"
    using assms(1) placed by (intro run_insert_again) simp_all
  ultimately show ?thesis using resolve by (simp add: create_nodes_def run_attempt)
qed




definition chain_request :: create_params where
  "chain_request = \<lparr>cw_idempotency_key = ''k'', cw_root_id = None, cw_tasks = Some
     [\<lparr>ct_key = ''b'', ct_name = ''review'', ct_input = None, ct_depends_on = Some [''a'']\<rparr>,
      \<lparr>ct_key = ''a'', ct_name = ''review'', ct_input = None, ct_depends_on = None\<rparr>]\<rparr>"

lemma chain_request_ok: "well_formed_request {''review''} (the (cw_tasks chain_request))"
proof -
  have "acyclic (request_edges (the (cw_tasks chain_request)))"
    by (rule no_cycle_if_ranked [where rank = "\<lambda>k. if k = ''b'' then 1 else 0"])
       (auto simp: request_edges_def chain_request_def dependencies_of_def)
  moreover have "trim ''a'' \<noteq> []" "trim ''b'' \<noteq> []" by code_simp+
  ultimately show ?thesis by (simp add: well_formed_request_def) (simp add: chain_request_def dependencies_of_def)
qed


end
