(* ===== verification/Control.thy ===== *)
theory Control
  imports Workflow
begin

text \<open>
  What cancelling, retrying and inspecting a workflow promise (the operations are in Workflow).
\<close>

subsection \<open>Cancelling\<close>

definition cancelled_row :: "time \<Rightarrow> task_row \<Rightarrow> task_row" where
  "cancelled_row now r = r\<lparr>t_status := Cancelled, t_finished_at := Some now\<rparr>"

definition cancel_rows :: "time \<Rightarrow> uuid set \<Rightarrow> task_row list \<Rightarrow> task_row list" where
  "cancel_rows now tids = update_rows (\<lambda>r. t_id r \<in> tids \<and> \<not> is_terminal (t_status r)) (cancelled_row now)"

lemma cancelled_row_simps [simp]:
  "t_id (cancelled_row now r) = t_id r" "t_status (cancelled_row now r) = Cancelled"
  "t_name (cancelled_row now r) = t_name r" "t_root_id (cancelled_row now r) = t_root_id r"
  by (simp_all add: cancelled_row_def)

lemma unsettled_iff: "unsettled st \<longleftrightarrow> \<not> is_terminal st"
  by (cases st) auto

lemma cancel_rows_ids [simp]: "map t_id (cancel_rows now tids rows) = map t_id rows"
  unfolding cancel_rows_def by (rule map_update_rows) simp

lemma cancel_rows_empty [simp]: "cancel_rows now {} rows = rows"
  by (simp add: cancel_rows_def update_rows_none)

lemma cancel_rows_insert: "cancel_rows now tids (cancel_rows now {i} rows) = cancel_rows now (insert i tids) rows"
  by (auto simp: cancel_rows_def update_rows_def)

lemma cancel_active_task_hit:
  assumes "distinct (map t_id (tasks d))" and "r \<in> set (tasks d)" and "\<not> is_terminal (t_status r)"
  shows "cancel_active_task now (t_id r) d = (True, d\<lparr>tasks := cancel_rows now {t_id r} (tasks d)\<rparr>)"
proof -
  have "affected (\<lambda>x. t_id x = t_id r \<and> unsettled (t_status x)) (tasks d) = 1"
    unfolding affected_eq_one [OF assms(1)] using assms(2,3) by (auto simp: unsettled_iff simp del: insert_iff)
  then show ?thesis
    by (simp add: cancel_active_task_def cas_task_def cancel_rows_def unsettled_iff Let_def
        cancelled_row_def [abs_def] singleton_iff del: insert_iff)
qed

definition cancelled_event :: "uuid \<Rightarrow> json" where
  "cancelled_event tid = mk_obj [(''task_id'', JStr tid)]"

lemma run_announce_cancelled [run_simps]:
  "dn_faults s = [] \<Longrightarrow> run_state (announce_cancelled now t) s =
     (let n = event_seq (dn_db s) + 1;
          e = \<lparr>e_id = n, e_kind = EvTaskCancelled, e_payload = cancelled_event (t_id t), e_created_at = now\<rparr>
      in ((), s\<lparr>dn_db := (dn_db s)\<lparr>events := events (dn_db s) @ [e], event_seq := n\<rparr>,
               dn_pushes := dn_pushes s @ [PTaskUpdated (task_summary t), PEvent e]\<rparr>))"
  by (simp add: announce_cancelled_def run_simps insert_event_def cancelled_event_def Let_def)

lemma run_cancel_each:
  assumes "dn_faults s = []" and "distinct (map t_id (tasks (dn_db s)))" and "distinct (map t_id ts)"
    and "\<forall>t \<in> set ts. \<exists>r \<in> set (tasks (dn_db s)). t_id r = t_id t \<and> t_status r = t_status t"
  shows "\<exists>s' es. run_state (cancel_each now ts) s = (Inr (map t_id (filter (\<lambda>t. \<not> is_terminal (t_status t)) ts)), s') \<and>
    tasks (dn_db s') = cancel_rows now (t_id ` {t \<in> set ts. \<not> is_terminal (t_status t)}) (tasks (dn_db s)) \<and>
    task_runs (dn_db s') = task_runs (dn_db s) \<and>
    dn_closed s' = dn_closed s @ map t_id (filter (\<lambda>t. \<not> is_terminal (t_status t)) ts) \<and>
    events (dn_db s') = events (dn_db s) @ es \<and>
    map (\<lambda>e. (e_kind e, e_payload e)) es = map (\<lambda>t. (EvTaskCancelled, cancelled_event (t_id t)))
      (filter (\<lambda>t. \<not> is_terminal (t_status t)) ts)"
  using assms
proof (induction ts arbitrary: s)
  case (Cons t ts)
  show ?case
  proof (cases "is_terminal (t_status t)")
    case True
    moreover have "{x \<in> set (t # ts). \<not> is_terminal (t_status x)} = {x \<in> set ts. \<not> is_terminal (t_status x)}"
      using True by auto
    ultimately show ?thesis using Cons.IH [of s] Cons.prems by simp
  next
    case False
    from Cons.prems(4) obtain r where r: "r \<in> set (tasks (dn_db s))" "t_id r = t_id t" "t_status r = t_status t"
      by auto
    define d1 where "d1 = (dn_db s)\<lparr>tasks := cancel_rows now {t_id t} (tasks (dn_db s))\<rparr>"
    have hit: "cancel_active_task now (t_id t) (dn_db s) = (True, d1)"
      using cancel_active_task_hit [OF Cons.prems(2) r(1), of now] False r(2,3) by (simp add: d1_def)
    have "cancelled_row now r \<in> set (tasks d1)" "t_id (cancelled_row now r) = t_id t"
      using r False by (auto simp: d1_def cancel_rows_def set_update_rows image_iff intro!: bexI [of _ r])
    moreover have "distinct (map t_id (tasks d1))" using Cons.prems(2) by (simp add: d1_def)
    ultimately have "lookup_row t_id (t_id t) (tasks d1) = Some (cancelled_row now r)"
      by (simp add: lookup_row_Some)
    then have fresh: "get_task d1 (t_id t) = Some (row_to_task (cancelled_row now r))" by (simp add: get_task_def)
    define e where "e = \<lparr>e_id = event_seq (dn_db s) + 1, e_kind = EvTaskCancelled,
      e_payload = cancelled_event (t_id t), e_created_at = now\<rparr>"
    define s1 where "s1 = s\<lparr>dn_closed := dn_closed s @ [t_id t],
      dn_db := d1\<lparr>events := events (dn_db s) @ [e], event_seq := event_seq (dn_db s) + 1\<rparr>,
      dn_pushes := dn_pushes s @ [PTaskUpdated (task_summary (row_to_task (cancelled_row now r))), PEvent e]\<rparr>"
    have step: "run_state (cancel_each now (t # ts)) s =
        (case run_state (cancel_each now ts) s1 of (Inl x, s') \<Rightarrow> (Inl x, s') | (Inr c, s') \<Rightarrow> (Inr (t_id t # c), s'))"
      using False Cons.prems(1) r(2)
      by (simp add: run_simps hit fresh Let_def s1_def e_def split: prod.splits sum.splits)
         (simp add: d1_def)
    have s1: "dn_faults s1 = []" "tasks (dn_db s1) = cancel_rows now {t_id t} (tasks (dn_db s))"
      "task_runs (dn_db s1) = task_runs (dn_db s)" "dn_closed s1 = dn_closed s @ [t_id t]"
      "events (dn_db s1) = events (dn_db s) @ [e]"
      using Cons.prems(1) by (simp_all add: s1_def d1_def)
    have "\<forall>x \<in> set ts. \<exists>r \<in> set (tasks (dn_db s1)). t_id r = t_id x \<and> t_status r = t_status x"
    proof
      fix x assume x: "x \<in> set ts"
      with Cons.prems(3,4) obtain y where y: "y \<in> set (tasks (dn_db s))" "t_id y = t_id x" "t_status y = t_status x"
          "t_id y \<noteq> t_id t" by force
      then have "y \<in> set (tasks (dn_db s1))"
        unfolding s1(2) cancel_rows_def set_update_rows by (intro image_eqI [of _ _ y]) auto
      with y show "\<exists>r \<in> set (tasks (dn_db s1)). t_id r = t_id x \<and> t_status r = t_status x" by blast
    qed
    with Cons.IH [of s1] Cons.prems(2,3) s1(1,2) obtain s' es where IH:
      "run_state (cancel_each now ts) s1 = (Inr (map t_id (filter (\<lambda>t. \<not> is_terminal (t_status t)) ts)), s')"
      "tasks (dn_db s') = cancel_rows now (t_id ` {t \<in> set ts. \<not> is_terminal (t_status t)}) (tasks (dn_db s1))"
      "task_runs (dn_db s') = task_runs (dn_db s1)"
      "dn_closed s' = dn_closed s1 @ map t_id (filter (\<lambda>t. \<not> is_terminal (t_status t)) ts)"
      "events (dn_db s') = events (dn_db s1) @ es"
      "map (\<lambda>e. (e_kind e, e_payload e)) es = map (\<lambda>t. (EvTaskCancelled, cancelled_event (t_id t)))
        (filter (\<lambda>t. \<not> is_terminal (t_status t)) ts)"
      by auto
    have "{x \<in> set (t # ts). \<not> is_terminal (t_status x)} = insert t {x \<in> set ts. \<not> is_terminal (t_status x)}"
      using False by auto
    then have "tasks (dn_db s') = cancel_rows now (t_id ` {x \<in> set (t # ts). \<not> is_terminal (t_status x)}) (tasks (dn_db s))"
      using IH(2) s1(2) by (simp add: cancel_rows_insert)
    with IH s1 False step show ?thesis
      by (intro exI [of _ s'] exI [of _ "e # es"]) (simp add: e_def)
  qed
qed simp

definition in_root :: "uuid \<Rightarrow> task_row \<Rightarrow> bool" where
  "in_root root r \<longleftrightarrow> t_root_id r = Some root \<or> t_id r = root"

lemma row_without_output_simps [simp]:
  "t_id (row_without_output r) = t_id r" "t_status (row_without_output r) = t_status r"
  "t_name (row_without_output r) = t_name r" "t_error (row_without_output r) = t_error r"
  "t_attempt (row_without_output r) = t_attempt r"
  by (simp_all add: row_without_output_def)

lemma set_list_root_tasks: "set (list_root_tasks d root) = row_without_output ` {r \<in> set (tasks d). in_root root r}"
  by (auto simp: list_root_tasks_def in_root_def)

lemma distinct_list_root_tasks:
  assumes "distinct (map t_id (tasks d))"
  shows "distinct (map t_id (list_root_tasks d root))"
proof -
  let ?rows = "sort_key t_created_at (filter (in_root root) (tasks d))"
  have "list_root_tasks d root = map row_without_output ?rows"
    by (simp add: list_root_tasks_def in_root_def [abs_def])
  then have "map t_id (list_root_tasks d root) = map t_id ?rows" by (simp add: o_def)
  moreover have "distinct (map t_id ?rows)"
    using assms by (simp add: distinct_map distinct_map_filter inj_on_def)
  ultimately show ?thesis by simp
qed

text \<open>C17: cancelling a workflow, when no query fails, cancels exactly the tasks of its root that had not
  ended, with one \<open>TaskCancelled\<close> each and no other event, tells exactly their agents to stop, and reports
  exactly them; afterwards every task of the root has ended, and every other row is as before.\<close>

theorem cancel_workflow_exact:
  fixes s :: daemon and now :: time and root :: uuid
  assumes "dn_faults s = []" and "tasks_wf (tasks (dn_db s))" and "\<exists>r \<in> set (tasks (dn_db s)). in_root root r"
  defines "live \<equiv> map t_id (filter (\<lambda>t. \<not> is_terminal (t_status t)) (list_root_tasks (dn_db s) root))"
  shows "\<exists>s' es. run_state (cancel_workflow now root) s = (Inr live, s') \<and>
    tasks (dn_db s') = map (\<lambda>r. if in_root root r \<and> \<not> is_terminal (t_status r) then cancelled_row now r else r)
      (tasks (dn_db s)) \<and>
    (\<forall>r \<in> set (tasks (dn_db s')). in_root root r \<longrightarrow> is_terminal (t_status r)) \<and>
    task_runs (dn_db s') = task_runs (dn_db s) \<and> dn_closed s' = dn_closed s @ live \<and>
    events (dn_db s') = events (dn_db s) @ es \<and>
    map (\<lambda>e. (e_kind e, e_payload e)) es = map (\<lambda>tid. (EvTaskCancelled, cancelled_event tid)) live"
proof -
  let ?ts = "list_root_tasks (dn_db s) root"
  have dist: "distinct (map t_id (tasks (dn_db s)))" using assms(2) by (simp add: tasks_wf_def)
  have "\<forall>t \<in> set ?ts. \<exists>r \<in> set (tasks (dn_db s)). t_id r = t_id t \<and> t_status r = t_status t"
    by (auto simp: set_list_root_tasks)
  from run_cancel_each [OF assms(1) dist distinct_list_root_tasks [OF dist] this] obtain s' es where s':
    "run_state (cancel_each now ?ts) s = (Inr live, s')"
    "tasks (dn_db s') = cancel_rows now (t_id ` {t \<in> set ?ts. \<not> is_terminal (t_status t)}) (tasks (dn_db s))"
    "task_runs (dn_db s') = task_runs (dn_db s)" "dn_closed s' = dn_closed s @ live"
    "events (dn_db s') = events (dn_db s) @ es"
    "map (\<lambda>e. (e_kind e, e_payload e)) es = map (\<lambda>tid. (EvTaskCancelled, cancelled_event tid)) live"
    unfolding live_def map_map o_def by blast
  have "?ts \<noteq> []" using assms(3) set_list_root_tasks [of "dn_db s" root] by auto
  then have run: "run_state (cancel_workflow now root) s = (Inr live, s')"
    using s'(1) assms(1) by (simp add: cancel_workflow_def run_attempt run_read_ok)
  have "t_id r \<in> t_id ` {t \<in> set ?ts. \<not> is_terminal (t_status t)} \<and> \<not> is_terminal (t_status r) \<longleftrightarrow>
      in_root root r \<and> \<not> is_terminal (t_status r)" if r: "r \<in> set (tasks (dn_db s))" for r
  proof -
    have "x = r" if "x \<in> set (tasks (dn_db s))" "t_id x = t_id r" for x
      using that r dist by (auto simp: distinct_map inj_on_def)
    then show ?thesis using r by (force simp: set_list_root_tasks)
  qed
  then have rows: "tasks (dn_db s') = map (\<lambda>r. if in_root root r \<and> \<not> is_terminal (t_status r) then cancelled_row now r else r)
      (tasks (dn_db s))"
    unfolding s'(2) cancel_rows_def update_rows_def by (intro map_cong refl) simp
  then have ended: "\<forall>r \<in> set (tasks (dn_db s')). in_root root r \<longrightarrow> is_terminal (t_status r)" by auto
  show ?thesis
    by (intro exI [of _ s'] exI [of _ es] conjI run rows ended s'(3-6))
qed

theorem cancel_workflow_exact_witness:
  "\<exists>s'. run_state (cancel_workflow 9 ''a'') (idle_daemon running_db) = (Inr [''a''], s')"
proof -
  have "tasks_wf (tasks running_db)" using running_db_wf(1) by (simp add: tables_wf_def)
  moreover have "\<exists>r \<in> set (tasks running_db). in_root ''a'' r"
    and "map t_id (filter (\<lambda>t. \<not> is_terminal (t_status t)) (list_root_tasks running_db ''a'')) = [''a'']"
    by (simp_all add: running_db_def claim_task_def cas_task_def insert_task_run_def sample_db_def sample_task_def
        insert_task_def empty_db_def in_root_def list_root_tasks_def affected_def update_rows_def Let_def)
  ultimately show ?thesis
    using cancel_workflow_exact [of "idle_daemon running_db" "''a''" 9] by (simp add: idle_daemon_def) blast
qed

subsection \<open>Retrying by hand\<close>

definition requeued_row :: "task_row \<Rightarrow> task_row" where
  "requeued_row r = r\<lparr>t_status := Pending, t_started_at := None, t_finished_at := None,
     t_error := None, t_failure := None, t_output := None, t_retry_at := None\<rparr>"

lemma requeued_row_simps [simp]:
  "t_id (requeued_row r) = t_id r" "t_status (requeued_row r) = Pending" "t_name (requeued_row r) = t_name r"
  by (simp_all add: requeued_row_def)

lemma get_active_task_run_None:
  "get_active_task_run d tid = None \<longleftrightarrow> (\<forall>run \<in> set (task_runs d). r_task_id run = tid \<longrightarrow> run_is_terminal (r_status run))"
proof -
  have active: "run_active run \<longleftrightarrow> \<not> run_is_terminal (r_status run)" for run :: task_run
    by (cases "r_status run") auto
  have "sort_key f xs = [] \<longleftrightarrow> xs = []" for f :: "task_run \<Rightarrow> int" and xs
    by (metis set_empty set_sort)
  then have "get_active_task_run d tid = None \<longleftrightarrow> filter (\<lambda>r. r_task_id r = tid \<and> run_active r) (task_runs d) = []"
    unfolding get_active_task_run_def by (metis (no_types, lifting) list.case_eq_if option.distinct(1))
  then show ?thesis by (auto simp: filter_empty_conv active simp del: insert_iff)
qed

lemma requeue_terminal_task_hit:
  assumes "tasks_wf (tasks d)" and "r \<in> set (tasks d)" and "is_terminal (t_status r)"
  shows "requeue_terminal_task (t_id r) d =
    (True, d\<lparr>tasks := update_rows (\<lambda>x. t_id x = t_id r) requeued_row (tasks d)\<rparr>)"
proof -
  have dist: "distinct (map t_id (tasks d))" using assms(1) by (simp add: tasks_wf_def)
  have ended: "st \<in> {Succeeded, Failed, Cancelled} \<longleftrightarrow> is_terminal st" for st by (cases st) auto
  have "affected (\<lambda>x. t_id x = t_id r \<and> is_terminal (t_status x)) (tasks d) = 1"
    unfolding affected_eq_one [OF dist] using assms(2,3) by auto
  moreover have "x = r" if "x \<in> set (tasks d)" "t_id x = t_id r" for x
    using that assms(2) dist by (auto simp: distinct_map inj_on_def)
  then have "update_rows (\<lambda>x. t_id x = t_id r \<and> is_terminal (t_status x)) f (tasks d) =
      update_rows (\<lambda>x. t_id x = t_id r) f (tasks d)" for f
    using assms(3) unfolding update_rows_def by (intro map_cong refl) auto
  ultimately show ?thesis
    by (simp add: requeue_terminal_task_def cas_task_def ended Let_def requeued_row_def [abs_def] del: insert_iff)
qed

text \<open>Retrying a task by hand, when no query fails, is accepted exactly when the task exists, has ended and
  has no live run; then its row is pending again with its results cleared and due at once, its attempt
  count and its run history kept, and one \<open>TaskIdle\<close> announces it; otherwise nothing changes.\<close>

theorem retry_task_guarded:
  fixes s :: daemon and now :: time and tid :: uuid
  assumes "dn_faults s = []" and "tasks_wf (tasks (dn_db s))"
  shows "(if \<exists>r \<in> set (tasks (dn_db s)). t_id r = tid \<and> is_terminal (t_status r) \<and>
            (\<forall>run \<in> set (task_runs (dn_db s)). r_task_id run = tid \<longrightarrow> run_is_terminal (r_status run))
     then \<exists>t s' e. run_state (retry_task now tid) s = (Inr t, s') \<and> t_id t = tid \<and> t_status t = Pending \<and>
       tasks (dn_db s') = update_rows (\<lambda>r. t_id r = tid) requeued_row (tasks (dn_db s)) \<and>
       task_runs (dn_db s') = task_runs (dn_db s) \<and> events (dn_db s') = events (dn_db s) @ [e] \<and>
       e_kind e = EvTaskIdle
     else \<exists>err. run_state (retry_task now tid) s = (Inl err, s))"
proof (cases "lookup_row t_id tid (tasks (dn_db s))")
  case None
  then have "\<not> (\<exists>r \<in> set (tasks (dn_db s)). t_id r = tid)" by (auto simp: lookup_row_None)
  moreover have "\<exists>err. run_state (retry_task now tid) s = (Inl err, s)"
    using assms(1) None by (simp add: retry_task_def run_attempt run_read_ok get_task_def)
  ultimately show ?thesis by simp
next
  case (Some r)
  then have r: "r \<in> set (tasks (dn_db s))" "t_id r = tid" by (auto dest: lookup_row_SomeD)
  have dist: "distinct (map t_id (tasks (dn_db s)))" using assms(2) by (simp add: tasks_wf_def)
  have guard: "(\<exists>r \<in> set (tasks (dn_db s)). t_id r = tid \<and> is_terminal (t_status r) \<and>
      (\<forall>run \<in> set (task_runs (dn_db s)). r_task_id run = tid \<longrightarrow> run_is_terminal (r_status run))) \<longleftrightarrow>
    is_terminal (t_status r) \<and> get_active_task_run (dn_db s) tid = None"
    using r dist unfolding get_active_task_run_None by (auto simp: distinct_map inj_on_def)
  note run = run_attempt run_read_ok [OF assms(1)] run_bind run_db_call_ok [OF assms(1)] get_task_def Some
  show ?thesis
  proof (cases "is_terminal (t_status r) \<and> get_active_task_run (dn_db s) tid = None")
    case True
    define d1 where "d1 = (dn_db s)\<lparr>tasks := update_rows (\<lambda>x. t_id x = tid) requeued_row (tasks (dn_db s))\<rparr>"
    have hit: "requeue_terminal_task tid (dn_db s) = (True, d1)"
      using requeue_terminal_task_hit [OF assms(2) r(1)] True r(2) by (simp add: d1_def)
    have "lookup_row t_id tid (tasks d1) = Some (requeued_row r)"
      using Some r(2) by (simp add: d1_def lookup_row_update)
    then have "\<exists>t s' e. run_state (retry_task now tid) s = (Inr t, s') \<and> t_id t = tid \<and> t_status t = Pending \<and>
       tasks (dn_db s') = tasks d1 \<and> task_runs (dn_db s') = task_runs d1 \<and>
       events (dn_db s') = events d1 @ [e] \<and> e_kind e = EvTaskIdle"
      using True assms(1) r(2) Some
      by (simp add: retry_task_def run_simps get_task_def hit Let_def)
    then show ?thesis unfolding guard using True by (simp add: d1_def)
  next
    case False
    then have "\<exists>err. run_state (retry_task now tid) s = (Inl err, s)"
      by (auto simp: retry_task_def run split: option.splits)
    then show ?thesis unfolding guard using False by (simp only: if_False)
  qed
qed

text \<open>The live-run check of a retry counts a failed query as no live run: when that query fails, a task
  whose run is still live is put back in the queue.\<close>

theorem retry_task_check_failure:
  fixes s :: daemon and now :: time and tid :: uuid
  assumes "dn_faults s = [False, True]" and "tasks_wf (tasks (dn_db s))"
    and "r \<in> set (tasks (dn_db s))" and "is_terminal (t_status r)"
    and "run \<in> set (task_runs (dn_db s))" and "r_task_id run = t_id r" and "\<not> run_is_terminal (r_status run)"
  shows "\<exists>t s'. run_state (retry_task now (t_id r)) s = (Inr t, s') \<and>
    task_status_of (dn_db s') (t_id r) = Some Pending \<and> run \<in> set (task_runs (dn_db s'))"
proof -
  have dist: "distinct (map t_id (tasks (dn_db s)))" using assms(2) by (simp add: tasks_wf_def)
  have look: "lookup_row t_id (t_id r) (tasks (dn_db s)) = Some r" using assms(3) dist by (simp add: lookup_row_Some)
  define d1 where "d1 = (dn_db s)\<lparr>tasks := update_rows (\<lambda>x. t_id x = t_id r) requeued_row (tasks (dn_db s))\<rparr>"
  have hit: "requeue_terminal_task (t_id r) (dn_db s) = (True, d1)"
    using requeue_terminal_task_hit [OF assms(2-4)] by (simp add: d1_def)
  have look1: "lookup_row t_id (t_id r) (tasks d1) = Some (requeued_row r)"
    using look by (simp add: d1_def lookup_row_update)
  have "\<exists>t s'. run_state (retry_task now (t_id r)) s = (Inr t, s') \<and> tasks (dn_db s') = tasks d1 \<and>
      task_runs (dn_db s') = task_runs d1"
    using assms(1,4)
    by (simp add: retry_task_def run_simps run_db_call_pass run_db_call_fault get_task_def look look1 hit Let_def)
  moreover have "task_status_of d1 (t_id r) = Some Pending"
    using look1 by (simp add: task_status_of_def get_row_def)
  ultimately show ?thesis using assms(5) by (auto simp: task_status_of_def get_row_def d1_def)
qed

text \<open>A cancelled task whose run has not ended yet.\<close>

definition cancelled_db :: db where
  "cancelled_db = snd (cancel_active_task 3 ''a'' running_db)"

lemma cancelled_db_facts:
  "tasks_wf (tasks cancelled_db)"
  "\<exists>r \<in> set (tasks cancelled_db). t_id r = ''a'' \<and> is_terminal (t_status r)"
  "\<exists>run \<in> set (task_runs cancelled_db). r_task_id run = ''a'' \<and> \<not> run_is_terminal (r_status run)"
  by (simp_all add: cancelled_db_def cancel_active_task_def running_db_def claim_task_def cas_task_def
      insert_task_run_def sample_db_def sample_task_def insert_task_def empty_db_def tasks_wf_def
      affected_def update_rows_def row_of_task_def task.defs task_row.defs Let_def)

theorem retry_task_guarded_witness:
  "\<exists>err. run_state (retry_task 9 ''a'') (idle_daemon cancelled_db) = (Inl err, idle_daemon cancelled_db)"
proof -
  have "\<exists>run \<in> set (task_runs cancelled_db). r_task_id run = ''a'' \<and> \<not> run_is_terminal (r_status run)"
    by (rule cancelled_db_facts(3))
  then show ?thesis
    using retry_task_guarded [of "idle_daemon cancelled_db" "''a''" 9] cancelled_db_facts(1)
    by (auto simp: idle_daemon_def split: if_splits)
qed

theorem retry_task_check_failure_witness:
  "\<exists>t s'. run_state (retry_task 9 ''a'') ((idle_daemon cancelled_db)\<lparr>dn_faults := [False, True]\<rparr>) = (Inr t, s') \<and>
     task_status_of (dn_db s') ''a'' = Some Pending"
proof -
  obtain r run where "r \<in> set (tasks cancelled_db)" "t_id r = ''a''" "is_terminal (t_status r)"
      "run \<in> set (task_runs cancelled_db)" "r_task_id run = ''a''" "\<not> run_is_terminal (r_status run)"
    using cancelled_db_facts(2,3) by blast
  then show ?thesis
    using retry_task_check_failure [of "(idle_daemon cancelled_db)\<lparr>dn_faults := [False, True]\<rparr>" r run 9]
      cancelled_db_facts(1)
    by (auto simp: idle_daemon_def)
qed

subsection \<open>A node is queued before its dependencies are recorded\<close>

text \<open>A workflow node enters the queue before its dependencies are recorded: when recording the first one
  fails, the caller gets an error and the node is left behind as a task the dispatcher may start at once,
  without waiting for its predecessors.\<close>

theorem enqueue_dynamic_ungated:
  fixes s :: daemon and now later :: time and node :: dynamic_node
  assumes "dn_faults s = [False, failed_event, True]" and "dy_depends_on node \<noteq> []"
    and "dy_id node \<notin> t_id ` set (tasks (dn_db s))" and "dedupe_free (dy_dedupe_key node) (dn_db s)"
    and "dy_id node \<notin> fst ` edges (dn_db s)"
  defines "s' \<equiv> snd (run_state (enqueue_dynamic now node) s)"
  shows "fst (run_state (enqueue_dynamic now node) s) = None \<and>
    (\<exists>r \<in> set (tasks (dn_db s')). t_id r = dy_id node \<and> dispatchable later (dn_db s') r)"
proof -
  define t where "t = new_task now (dy_id node) (dy_name node) (dy_input node) (dy_dedupe_key node)
    \<lparr>l_parent = dy_parent_id node, l_root = Some (dy_root_id node)\<rparr> False"
  obtain p ps where on: "dy_depends_on node = p # ps" using assms(2) by (cases "dy_depends_on node") auto
  have ins: "tasks (insert_task t (dn_db s)) = tasks (dn_db s) @ [row_of_task t]"
      "deps (insert_task t (dn_db s)) = deps (dn_db s)"
    using assms(3,4) by (simp_all add: tasks_insert_task t_def) (simp add: insert_task_def)
  have "fst (run_state (enqueue_dynamic now node) s) = None \<and> tasks (dn_db s') = tasks (dn_db s) @ [row_of_task t] \<and>
      deps (dn_db s') = deps (dn_db s)"
    using assms(1) on ins unfolding s'_def
    by (cases failed_event)
       (simp_all add: enqueue_dynamic_def enqueue_with_id_def run_simps run_db_call_pass run_db_call_fault
          emit_event_def insert_event_def Let_def flip: t_def)
  moreover from this have "\<not> gated (dn_db s') (row_of_task t)"
    using assms(5) by (force simp: gated_def edges_def t_def)
  ultimately show ?thesis by (auto simp: dispatchable_def t_def)
qed

theorem enqueue_dynamic_ungated_witness:
  "fst (run_state (enqueue_dynamic 1 \<lparr>dy_id = ''b'', dy_name = ''build'', dy_input = JNull, dy_dedupe_key = None,
       dy_root_id = ''a'', dy_parent_id = None, dy_depends_on = [''a'']\<rparr>)
     ((idle_daemon empty_db)\<lparr>dn_faults := [False, False, True]\<rparr>)) = None"
  using enqueue_dynamic_ungated [where failed_event = False and now = 1 and later = 2 and
      s = "(idle_daemon empty_db)\<lparr>dn_faults := [False, False, True]\<rparr>" and
      node = "\<lparr>dy_id = ''b'', dy_name = ''build'', dy_input = JNull, dy_dedupe_key = None,
       dy_root_id = ''a'', dy_parent_id = None, dy_depends_on = [''a'']\<rparr>"]
  by (simp add: idle_daemon_def empty_db_def dedupe_free_def edges_def)

subsection \<open>Inspecting\<close>

definition closed_root :: "db \<Rightarrow> uuid \<Rightarrow> bool" where
  "closed_root d root \<longleftrightarrow> (\<forall>e \<in> set (deps d). \<forall>r \<in> set (tasks d). \<forall>p \<in> set (tasks d).
     t_id r = dep_task e \<longrightarrow> in_root root r \<longrightarrow> t_id p = dep_on e \<longrightarrow> in_root root p)"

lemma set_list_root_dependencies:
  "set (list_root_dependencies d root) =
     {(dep_task e, dep_on e) | e. e \<in> set (deps d) \<and> (\<exists>r \<in> set (tasks d). t_id r = dep_task e \<and> in_root root r)}"
  by (auto simp: list_root_dependencies_def in_root_def)

lemma waits_for_gated:
  assumes "closed_root d root" and "r \<in> set (tasks d)" and "in_root root r"
    and "needs_by_name catalog (t_name r) = None"
  shows "waits_for catalog (list_root_dependencies d root) (list_root_tasks d root) (row_without_output r) \<longleftrightarrow> gated d r"
proof
  assume "waits_for catalog (list_root_dependencies d root) (list_root_tasks d root) (row_without_output r)"
  then show "gated d r"
    using assms(4)
    by (force simp: waits_for_def set_list_root_tasks set_list_root_dependencies gated_def unsettled_iff
        simp del: insert_iff)
next
  assume "gated d r"
  then obtain e p where e: "e \<in> set (deps d)" "dep_task e = t_id r"
      and p: "p \<in> set (tasks d)" "t_id p = dep_on e" "\<not> is_terminal (t_status p)"
    by (auto simp: gated_def)
  then have "in_root root p" using assms(1-3) by (auto simp: closed_root_def)
  then have "row_without_output p \<in> set (list_root_tasks d root)" using p(1) by (auto simp: set_list_root_tasks)
  moreover have "(t_id r, t_id p) \<in> set (list_root_dependencies d root)"
    using e p(2) assms(2,3) by (force simp: set_list_root_dependencies)
  moreover have "unsettled (t_status (row_without_output p))" using p(3) by (simp add: unsettled_iff del: insert_iff)
  ultimately show "waits_for catalog (list_root_dependencies d root) (list_root_tasks d root) (row_without_output r)"
    unfolding waits_for_def by (intro disjI2 bexI [of _ "row_without_output p"]) simp_all
qed

lemma inspection_bucket:
  assumes "distinct (map t_id rows)" and "set ts = row_without_output ` {r \<in> set rows. in_root root r}"
    and "r \<in> set rows" and "in_root root r"
  shows "t_id r \<in> set (map t_id (filter P ts)) \<longleftrightarrow> P (row_without_output r)"
proof -
  have "x = r" if "x \<in> set rows" "t_id x = t_id r" for x
    using that assms(1,3) by (auto simp: distinct_map inj_on_def)
  then show ?thesis using assms(2-4) by force
qed

text \<open>Inspecting a workflow, when no query fails, sorts its tasks into buckets by their status and gives the
  worst outcome as the workflow's state; a pending task that no catalog \<open>needs\<close> holds back is reported
  blocked exactly when the dispatcher would not start it, provided the predecessors of the workflow's
  tasks are tasks of the workflow.\<close>

theorem inspect_workflow_exact:
  fixes s :: daemon and root :: uuid
  assumes "dn_faults s = []" and "tasks_wf (tasks (dn_db s))" and "\<exists>r \<in> set (tasks (dn_db s)). in_root root r"
    and "closed_root (dn_db s) root"
  shows "\<exists>w. run_state (inspect_workflow root) s = (Inr w, s) \<and>
    (\<forall>r \<in> set (tasks (dn_db s)). in_root root r \<longrightarrow>
       (t_id r \<in> set (wi_ready w) \<union> set (wi_blocked w) \<longleftrightarrow> t_status r = Pending) \<and>
       \<not> (t_id r \<in> set (wi_ready w) \<and> t_id r \<in> set (wi_blocked w)) \<and>
       (t_id r \<in> set (wi_running w) \<longleftrightarrow> in_flight (t_status r)) \<and>
       (t_id r \<in> set (wi_failed w) \<longleftrightarrow> t_status r = Failed) \<and>
       (needs_by_name (dn_catalog s) (t_name r) = None \<longrightarrow>
          (t_id r \<in> set (wi_blocked w) \<longleftrightarrow> t_status r = Pending \<and> gated (dn_db s) r))) \<and>
    (wi_state w = WfRunning \<longleftrightarrow> (\<exists>r \<in> set (tasks (dn_db s)). in_root root r \<and> \<not> is_terminal (t_status r))) \<and>
    (wi_state w = WfSucceeded \<longleftrightarrow> (\<forall>r \<in> set (tasks (dn_db s)). in_root root r \<longrightarrow> t_status r = Succeeded))"
proof -
  let ?ts = "list_root_tasks (dn_db s) root"
  define w where "w = inspection root (dn_catalog s) ?ts (list_root_dependencies (dn_db s) root)"
  have dist: "distinct (map t_id (tasks (dn_db s)))" using assms(2) by (simp add: tasks_wf_def)
  note bucket = inspection_bucket [OF dist set_list_root_tasks]
  have "?ts \<noteq> []" using assms(3) set_list_root_tasks [of "dn_db s" root] by auto
  then have run: "run_state (inspect_workflow root) s = (Inr w, s)"
    using assms(1) by (simp add: inspect_workflow_def run_attempt run_read_ok w_def)
  have status: "wi_state w = workflow_state (map view_of ?ts)" by (simp add: w_def inspection_def Let_def)
  have views: "(\<exists>v \<in> set (map view_of ?ts). P (tv_status v)) \<longleftrightarrow>
      (\<exists>r \<in> set (tasks (dn_db s)). in_root root r \<and> P (t_status r))" for P
    by (auto simp: set_list_root_tasks view_of_def)
  note views = views [of "\<lambda>st. \<not> is_terminal st"] views [of "\<lambda>st. st = Failed"] views [of "\<lambda>st. st = Cancelled"]
  have running: "wi_state w = WfRunning \<longleftrightarrow>
      (\<exists>r \<in> set (tasks (dn_db s)). in_root root r \<and> \<not> is_terminal (t_status r))"
    unfolding status workflow_state_def views unsettled_iff by (simp del: insert_iff)
  have "st = Succeeded \<longleftrightarrow> is_terminal st \<and> st \<noteq> Failed \<and> st \<noteq> Cancelled" for st by (cases st) auto
  then have succeeded: "wi_state w = WfSucceeded \<longleftrightarrow>
      (\<forall>r \<in> set (tasks (dn_db s)). in_root root r \<longrightarrow> t_status r = Succeeded)"
    unfolding status workflow_state_def views unsettled_iff by (auto simp del: insert_iff)
  have "(t_id r \<in> set (wi_ready w) \<union> set (wi_blocked w) \<longleftrightarrow> t_status r = Pending) \<and>
       \<not> (t_id r \<in> set (wi_ready w) \<and> t_id r \<in> set (wi_blocked w)) \<and>
       (t_id r \<in> set (wi_running w) \<longleftrightarrow> in_flight (t_status r)) \<and>
       (t_id r \<in> set (wi_failed w) \<longleftrightarrow> t_status r = Failed) \<and>
       (needs_by_name (dn_catalog s) (t_name r) = None \<longrightarrow>
          (t_id r \<in> set (wi_blocked w) \<longleftrightarrow> t_status r = Pending \<and> gated (dn_db s) r))"
    if r: "r \<in> set (tasks (dn_db s))" "in_root root r" for r
    using waits_for_gated [OF assms(4) r, of "dn_catalog s"]
    unfolding w_def inspection_def Let_def workflow_inspect.simps Un_iff bucket [OF r] by auto
  then show ?thesis by (intro exI [of _ w] conjI run running succeeded ballI impI) auto
qed

theorem inspect_workflow_exact_witness:
  "\<exists>w. run_state (inspect_workflow ''a'') (idle_daemon chained_db) = (Inr w, idle_daemon chained_db) \<and>
     wi_state w = WfRunning"
proof -
  have "closed_root chained_db ''a''" "tasks_wf (tasks chained_db)"
    "\<exists>r \<in> set (tasks chained_db). in_root ''a'' r \<and> \<not> is_terminal (t_status r)"
    by (simp_all add: closed_root_def chained_db_simps sample_task_def tasks_wf_def in_root_def)
  then show ?thesis
    using inspect_workflow_exact [of "idle_daemon chained_db" "''a''"] by (auto simp: idle_daemon_def)
qed

subsection \<open>The server's handlers refine the life cycle\<close>

context handler_inv
begin

lemma attempts [keeps_intros]:
  "keeps J m \<Longrightarrow> (\<And>x. keeps J (f x)) \<Longrightarrow> keeps J (attempt m f)"
  "keeps J h \<Longrightarrow> keeps J (internal h)"
  unfolding attempt_def internal_def by (auto intro!: keeps_intros split: sum.splits)

lemma creation [keeps_intros]:
  "keeps J (resolve_ids ik specs ids existing)" "keeps J (insert_nodes now ik ids existing root specs)"
  "keeps J (check_root r)" "keeps J (check_predecessors r ps)"
proof -
  show "keeps J (resolve_ids ik specs ids existing)"
    by (induction specs arbitrary: ids existing) (auto intro!: keeps_intros split: option.splits)
  show "keeps J (insert_nodes now ik ids existing root specs)"
    by (induction specs) (auto intro!: keeps_intros split: option.splits)
  show "keeps J (check_root r)"
    unfolding check_root_def by (auto intro!: keeps_intros split: option.splits)
  show "keeps J (check_predecessors r ps)"
    by (induction ps) (auto intro!: keeps_intros split: option.splits)
qed

lemma created [keeps_intros]:
  "keeps J (create_workflow order now p)" "keeps J (spawn_workflow now q)"
  unfolding create_workflow_def create_nodes_def spawn_workflow_def Let_def
  by (auto intro!: keeps_intros split: option.splits sum.splits prod.splits)

lemma announced_cancel [keeps_intros]: "keeps J (announce_cancelled now t)"
proof -
  have "keeps J (db_call (insert_event e))" for e by (rule op_call [where op = "OpEvent e"]) simp_all
  then show ?thesis unfolding announce_cancelled_def Let_def by (auto intro!: keeps_intros split: option.splits)
qed

lemma cancelled [keeps_intros]:
  "keeps J (cancel_task now tid)" "keeps J (cancel_workflow now root)"
proof -
  have op: "keeps J (db_call (cancel_active_task now i))" for i
    by (rule op_call [where op = "OpCancel now i"]) simp_all
  then show "keeps J (cancel_task now tid)"
    unfolding cancel_task_def Let_def by (auto intro!: keeps_intros split: option.splits bool.splits)
  have "keeps J (cancel_each now ts)" for ts
    by (induction ts) (auto intro!: keeps_intros op split: option.splits)
  then show "keeps J (cancel_workflow now root)"
    unfolding cancel_workflow_def by (intro keeps_intros) auto
qed

lemma retried [keeps_intros]: "keeps J (retry_task now tid)"
proof -
  have "keeps J (db_call (requeue_terminal_task i))" for i
    by (rule op_call [where op = "OpRequeue i"]) simp_all
  then show ?thesis
    unfolding retry_task_def by (auto intro!: keeps_intros split: option.splits)
qed

end

end
