(* ===== verification/Attention.thy ===== *)
theory Attention
  imports Control
begin

text \<open>
  The attention tracker (\<open>crates/favetto/src/attention.rs\<close>): it watches one agent session and mirrors
  \<open>waits for the user\<close> onto the session's slot and its task.  A \<open>poll\<close> is what one round of the loop
  finds: whether the process still runs, the buffered state events (\<open>None\<close> is a lag notice) and whether
  their channel closed, what the screen looks like, and what the probe for a finished turn reported,
  when one was due.  The list of polls ends with the process.
\<close>

record poll =
  pl_running :: bool
  pl_received :: "agent_event option list"
  pl_closed :: bool
  pl_screen :: "awaiting_reason option"
  pl_turn_done :: "bool option"

record watch_run =
  wr_session :: string
  wr_task :: "uuid option"
  wr_detect :: bool
  wr_interactive :: bool

record watching =
  wg_debouncer :: debouncer
  wg_subscribed :: bool
  wg_authoritative :: bool

datatype watch_end = Exited "int option" | TurnFinished bool

fun awaiting_kind_str :: "awaiting_kind \<Rightarrow> string" where
  "awaiting_kind_str AwPermission = ''permission''"
| "awaiting_kind_str AwConfirmation = ''confirmation''"
| "awaiting_kind_str AwChoice = ''choice''"
| "awaiting_kind_str AwPinentry = ''pinentry''"
| "awaiting_kind_str AwOther = ''other''"

definition reason_json :: "awaiting_reason \<Rightarrow> json" where
  "reason_json r = mk_obj (
     [(''kind'', JStr (awaiting_kind_str (aw_kind r))), (''message'', JStr (aw_message r))] @
     (case aw_request_id r of None \<Rightarrow> [] | Some i \<Rightarrow> [(''request_id'', JStr i)]) @
     (if aw_options r = [] then [] else [(''options'', JArr (map JStr (aw_options r)))]) @
     (if aw_allow_always r then [(''allow_always'', JBool True)] else []))"

definition reconcile_task :: "uuid \<Rightarrow> bool \<Rightarrow> bool handler" where
  "reconcile_task tid awaiting = do {
     let (to, from) = (if awaiting then (AwaitingInput, Running) else (Running, AwaitingInput));
     won \<leftarrow> db_call (set_task_status_if tid to from);
     (case won of
        Some True \<Rightarrow> do {
          fresh \<leftarrow> db_read (\<lambda>d. get_task d tid);
          (case fresh of Some (Some t) \<Rightarrow> publish (PTaskUpdated (task_summary t)) | _ \<Rightarrow> ret ());
          ret True }
      | _ \<Rightarrow> ret False) }"

definition mark_awaiting :: "time \<Rightarrow> uuid \<Rightarrow> string \<Rightarrow> awaiting_reason \<Rightarrow> unit handler" where
  "mark_awaiting now tid session reason = do {
     changed \<leftarrow> reconcile_task tid True;
     if \<not> changed then ret ()
     else do {
       fresh \<leftarrow> db_read (\<lambda>d. get_task d tid);
       (case fresh of
          Some (Some t) \<Rightarrow> emit_event now EvTaskAwaitingInput (mk_obj
            [(''task_id'', JStr (t_id t)), (''name'', JStr (t_name t)), (''session_id'', JStr session),
             (''reason'', reason_json reason)])
        | _ \<Rightarrow> ret ()) } }"

definition resume_task :: "uuid \<Rightarrow> bool handler" where
  "resume_task tid = reconcile_task tid False"

definition for_task :: "uuid option \<Rightarrow> (uuid \<Rightarrow> unit handler) \<Rightarrow> unit handler" where
  "for_task tid f = (case tid of None \<Rightarrow> ret () | Some i \<Rightarrow> f i)"

definition observe_state :: "time \<Rightarrow> watch_run \<Rightarrow> agent_event \<Rightarrow> unit handler" where
  "observe_state now w e =
     (case e of
        InputRequested req \<Rightarrow> do {
          set_awaiting_input (wr_session w) (Some (reason_of req));
          for_task (wr_task w) (\<lambda>tid. mark_awaiting now tid (wr_session w) (reason_of req)) }
      | InputResolved _ \<Rightarrow> do {
          set_awaiting_input (wr_session w) None;
          for_task (wr_task w) (\<lambda>tid. do { _ \<leftarrow> resume_task tid; ret () }) }
      | IdleEvent _ \<Rightarrow> do {
          set_awaiting_input (wr_session w) None;
          for_task (wr_task w) (\<lambda>tid. do { _ \<leftarrow> resume_task tid; ret () }) }
      | _ \<Rightarrow> ret ())"

text \<open>The structured source: authoritative from its first buffered event on.\<close>

definition watch_source :: "time \<Rightarrow> watch_run \<Rightarrow> poll \<Rightarrow> watching \<Rightarrow> watching handler" where
  "watch_source now w p g =
     (if \<not> wg_subscribed g then ret g
      else do {
        g \<leftarrow> (if \<not> wg_authoritative g \<and> pl_received p \<noteq> []
          then do {
            for_task (wr_task w) (\<lambda>tid.
              if db_confirmed (wg_debouncer g) \<noteq> None then do { _ \<leftarrow> resume_task tid; ret () } else ret ());
            set_awaiting_input (wr_session w) None;
            ret (g\<lparr>wg_debouncer := debouncer_default, wg_authoritative := True\<rparr>) }
          else ret g);
        for_each (\<lambda>e. case e of None \<Rightarrow> ret () | Some e \<Rightarrow> observe_state now w e) (pl_received p);
        ret (if pl_closed p then g\<lparr>wg_subscribed := False\<rparr> else g) })"

definition watch_screen :: "time \<Rightarrow> watch_run \<Rightarrow> poll \<Rightarrow> watching \<Rightarrow> watching handler" where
  "watch_screen now w p g =
     (if wg_authoritative g \<or> \<not> wr_detect w then ret g
      else do {
        let (edge, d) = observe (pl_screen p) (wg_debouncer g);
        (case edge of
           None \<Rightarrow> ret ()
         | Some (Mark reason) \<Rightarrow> for_task (wr_task w) (\<lambda>tid. mark_awaiting now tid (wr_session w) reason)
         | Some Clear \<Rightarrow> for_task (wr_task w) (\<lambda>tid. do { _ \<leftarrow> resume_task tid; ret () }));
        set_awaiting_input (wr_session w) (db_confirmed d);
        for_task (wr_task w) (\<lambda>tid. do { _ \<leftarrow> reconcile_task tid (db_confirmed d \<noteq> None); ret () });
        ret (g\<lparr>wg_debouncer := d\<rparr>) })"

fun watch_polls :: "time \<Rightarrow> watch_run \<Rightarrow> poll list \<Rightarrow> watching \<Rightarrow> bool option handler" where
  "watch_polls now w [] g = ret None"
| "watch_polls now w (p # ps) g =
     (if \<not> pl_running p then ret None
      else do {
        g \<leftarrow> watch_source now w p g;
        g \<leftarrow> watch_screen now w p g;
        if wr_interactive w \<and> pl_turn_done p \<noteq> None then ret (pl_turn_done p)
        else watch_polls now w ps g })"

definition watch_inner ::
  "time \<Rightarrow> watch_run \<Rightarrow> bool \<Rightarrow> poll list \<Rightarrow> int option \<Rightarrow> watch_end handler"
where
  "watch_inner now w subscribed ps exit_code = do {
     finished \<leftarrow> watch_polls now w ps
       \<lparr>wg_debouncer = debouncer_default, wg_subscribed = subscribed, wg_authoritative = False\<rparr>;
     set_awaiting_input (wr_session w) None;
     for_task (wr_task w) (\<lambda>tid. do { _ \<leftarrow> resume_task tid; ret () });
     ret (case finished of Some success \<Rightarrow> TurnFinished success | None \<Rightarrow> Exited exit_code) }"

definition watch :: "time \<Rightarrow> string \<Rightarrow> uuid option \<Rightarrow> bool \<Rightarrow> poll list \<Rightarrow> int option \<Rightarrow> int option handler" where
  "watch now session tid subscribed ps exit_code = do {
     r \<leftarrow> watch_inner now \<lparr>wr_session = session, wr_task = tid, wr_detect = True, wr_interactive = False\<rparr>
            subscribed ps exit_code;
     ret (case r of Exited code \<Rightarrow> code | TurnFinished _ \<Rightarrow> Some 0) }"

subsection \<open>What the tracker does to the task table\<close>

text \<open>The table with one task possibly moved between running and waiting.\<close>

definition parked :: "uuid option \<Rightarrow> task_row list \<Rightarrow> task_row list \<Rightarrow> bool" where
  "parked tid rows rows' \<longleftrightarrow> list_all2 (\<lambda>r r'. r' = r \<or>
     (Some (t_id r) = tid \<and> in_flight (t_status r) \<and> (\<exists>st. in_flight st \<and> r' = r\<lparr>t_status := st\<rparr>))) rows rows'"

lemma parked_refl: "parked tid rows rows"
  by (simp add: parked_def list_all2_refl)

lemma parked_set_status:
  assumes "parked (Some tid) rows rows'" and "in_flight to" and "in_flight from"
  shows "parked (Some tid) rows (update_rows (\<lambda>r. t_id r = tid \<and> t_status r = from) (\<lambda>r. r\<lparr>t_status := to\<rparr>) rows')"
  unfolding parked_def update_rows_def list_all2_map2
proof (rule list_all2_mono [OF assms(1) [unfolded parked_def]])
  fix r r' :: task_row
  assume r': "r' = r \<or> (Some (t_id r) = Some tid \<and> in_flight (t_status r) \<and> (\<exists>st. in_flight st \<and> r' = r\<lparr>t_status := st\<rparr>))"
  show "(if t_id r' = tid \<and> t_status r' = from then r'\<lparr>t_status := to\<rparr> else r') = r \<or>
    (Some (t_id r) = Some tid \<and> in_flight (t_status r) \<and> (\<exists>st. in_flight st \<and>
       (if t_id r' = tid \<and> t_status r' = from then r'\<lparr>t_status := to\<rparr> else r') = r\<lparr>t_status := st\<rparr>))"
  proof (cases "t_id r' = tid \<and> t_status r' = from")
    case True
    from r' have "t_id r = t_id r'" and new: "r'\<lparr>t_status := to\<rparr> = r\<lparr>t_status := to\<rparr>" by auto
    moreover have "in_flight (t_status r)" using r' True assms(3) by auto
    ultimately show ?thesis using True assms(2) unfolding if_P [OF True] new by blast
  next
    case False
    then show ?thesis unfolding if_not_P [OF False] using r' by blast
  qed
qed

definition only_parks :: "uuid option \<Rightarrow> daemon \<Rightarrow> daemon \<Rightarrow> bool" where
  "only_parks tid s0 s \<longleftrightarrow> parked tid (tasks (dn_db s0)) (tasks (dn_db s)) \<and> task_runs (dn_db s) = task_runs (dn_db s0)"


lemma only_parks_refl: "only_parks tid s s"
  by (simp add: only_parks_def parked_refl)

lemma only_parks_plain [keeps_intros]:
  "keeps (only_parks tid s0) (publish p)" "keeps (only_parks tid s0) (set_awaiting_input sid r)"
  "keeps (only_parks tid s0) (db_call (\<lambda>d. (h d, d)))" "keeps (only_parks tid s0) (emit_event now k pl)"
  by (auto simp: publish_def set_awaiting_input_def db_call_def take_fault_def emit_event_def inc_events_def
      insert_event_def only_parks_def Let_def intro!: keepsI split: list.splits)

lemma only_parks_reconcile [keeps_intros]: "keeps (only_parks (Some tid) s0) (reconcile_task tid awaiting)"
proof -
  have "keeps (only_parks (Some tid) s0) (db_call (set_task_status_if tid to src))"
    if "in_flight to" "in_flight src" for to src
  proof (rule keepsI)
    fix s assume s: "only_parks (Some tid) s0 s"
    show "only_parks (Some tid) s0 (snd (run_state (db_call (set_task_status_if tid to src)) s))"
      using s parked_set_status [OF _ that, of tid] 
      by (auto simp: db_call_def take_fault_def set_task_status_if_def only_parks_def Let_def split: list.splits)
  qed
  then show ?thesis
    unfolding reconcile_task_def Let_def
    by (cases awaiting) (auto intro!: keeps_intros split: option.splits bool.splits)
qed

lemma only_parks_for_task [keeps_intros]:
  "(\<And>i. tid = Some i \<Longrightarrow> keeps (only_parks tid s0) (f i)) \<Longrightarrow> keeps (only_parks tid s0) (for_task tid f)"
  unfolding for_task_def by (auto intro!: keeps_intros split: option.splits)

text \<open>Both facts about the tracker are of this kind.\<close>

lemma keeps_watch_polls:
  assumes plain: "\<And>r. keeps I (set_awaiting_input (wr_session w) r)"
    and mark: "\<And>i r. wr_task w = Some i \<Longrightarrow> keeps I (mark_awaiting now i (wr_session w) r)"
    and reconcile: "\<And>i b. wr_task w = Some i \<Longrightarrow> keeps I (reconcile_task i b)"
  shows "keeps I (watch_polls now w ps g)"
proof -
  have task: "keeps I (for_task (wr_task w) f)" if "\<And>i. wr_task w = Some i \<Longrightarrow> keeps I (f i)" for f
    using that unfolding for_task_def by (auto intro!: keeps_intros split: option.splits)
  have resume: "keeps I (resume_task i)" if "wr_task w = Some i" for i
    unfolding resume_task_def using that by (rule reconcile)
  have state: "keeps I (observe_state now w e)" for e
    unfolding observe_state_def by (cases e) (auto intro!: keeps_intros plain task mark resume)
  have source: "keeps I (watch_source now w p g)" for p g
    unfolding watch_source_def by (auto intro!: keeps_intros plain task resume state split: option.splits)
  have screen: "keeps I (watch_screen now w p g)" for p g
    unfolding watch_screen_def Let_def split_def
    by (auto intro!: keeps_intros plain task resume mark reconcile split: option.splits edge.splits)
  show ?thesis by (induction ps arbitrary: g) (auto intro!: keeps_intros source screen)
qed

lemma keeps_mark_awaiting:
  assumes "\<And>b. keeps I (reconcile_task i b)" and "keeps I (db_read (\<lambda>d. get_task d i))"
    and "\<And>k p. keeps I (emit_event now k p)"
  shows "keeps I (mark_awaiting now i sid r)"
  unfolding mark_awaiting_def using assms by (auto intro!: keeps_intros split: option.splits)

lemma only_parks_watch:
  "keeps (only_parks (wr_task w) s0) (watch_inner now w subscribed ps code)"
proof -
  have "keeps (only_parks (wr_task w) s0) (watch_polls now w ps g)" for g
    by (rule keeps_watch_polls) (auto intro!: keeps_intros keeps_mark_awaiting)
  then show ?thesis
    unfolding watch_inner_def resume_task_def by (auto intro!: keeps_intros split: option.splits)
qed

definition faultless :: "daemon \<Rightarrow> bool" where
  "faultless s \<longleftrightarrow> dn_faults s = []"

lemma faultless_reconcile: "keeps faultless (reconcile_task tid awaiting)"
  unfolding reconcile_task_def Let_def split_def
  by (auto intro!: keepsI simp: faultless_def run_simps split: option.splits bool.splits)

lemma faultless_watch_polls: "keeps faultless (watch_polls now w ps g)"
proof (rule keeps_watch_polls)
  have "keeps faultless (db_read (\<lambda>d. get_task d i))" "keeps faultless (emit_event now k p)" for i k p
    by (auto intro!: keepsI simp: faultless_def run_simps Let_def)
  then show "keeps faultless (mark_awaiting now i (wr_session w) r)" for i r
    by (intro keeps_mark_awaiting faultless_reconcile)
qed (auto intro!: faultless_reconcile keepsI simp: faultless_def run_simps)

lemma resume_task_resumes:
  assumes "dn_faults s = []"
  shows "\<forall>r \<in> set (tasks (dn_db (snd (run_state (resume_task tid) s)))). t_id r = tid \<longrightarrow> t_status r \<noteq> AwaitingInput"
proof -
  obtain won d where w: "set_task_status_if tid Running AwaitingInput (dn_db s) = (won, d)"
    by (cases "set_task_status_if tid Running AwaitingInput (dn_db s)")
  have "dn_db (snd (run_state (resume_task tid) s)) = d"
    using assms w by (cases won; cases "get_task d tid") (simp_all add: resume_task_def reconcile_task_def run_simps)
  then have "dn_db (snd (run_state (resume_task tid) s)) = snd (set_task_status_if tid Running AwaitingInput (dn_db s))"
    by (simp add: w)
  moreover define f :: "task_row \<Rightarrow> task_row" where "f = (\<lambda>r. if t_id r = tid \<and> t_status r = AwaitingInput then r\<lparr>t_status := Running\<rparr> else r)"
  ultimately have rows: "tasks (dn_db (snd (run_state (resume_task tid) s))) = map f (tasks (dn_db s))"
    by (simp add: set_task_status_if_def update_rows_def Let_def)
  have "t_id (f x) = tid \<longrightarrow> t_status (f x) \<noteq> AwaitingInput" for x
  proof (cases "t_id x = tid \<and> t_status x = AwaitingInput")
    case True
    then have "f x = x\<lparr>t_status := Running\<rparr>" unfolding f_def by (rule if_P)
    then show ?thesis by simp
  next
    case False
    then have "f x = x" unfolding f_def by (rule if_not_P)
    with False show ?thesis by (simp only:) blast
  qed
  then show ?thesis unfolding rows by simp
qed

text \<open>C19: whatever the session reports and whatever calls fail, the attention tracker moves only its own task,
  only between running and waiting for input, and only while it is one of the two: no other column, row
  or run changes, so a cancelled or finished task is never revived; and when no call fails, the task is not
  left waiting once the session is over.\<close>

theorem watch_only_parks:
  fixes s :: daemon and w :: watch_run and now :: time and subscribed :: bool and ps :: "poll list"
    and code :: "int option"
  defines "s' \<equiv> snd (run_state (watch_inner now w subscribed ps code) s)"
  shows "list_all2 (\<lambda>r r'. r' = r \<or> (Some (t_id r) = wr_task w \<and> in_flight (t_status r) \<and>
      (\<exists>st. in_flight st \<and> r' = r\<lparr>t_status := st\<rparr>))) (tasks (dn_db s)) (tasks (dn_db s')) \<and>
    task_runs (dn_db s') = task_runs (dn_db s) \<and>
    (dn_faults s = [] \<longrightarrow>
      (\<forall>r \<in> set (tasks (dn_db s')). Some (t_id r) = wr_task w \<longrightarrow> t_status r \<noteq> AwaitingInput))"
proof -
  have "only_parks (wr_task w) s s'"
    unfolding s'_def using keepsD [OF only_parks_watch only_parks_refl] .
  moreover have "t_status r \<noteq> AwaitingInput"
    if "dn_faults s = []" "r \<in> set (tasks (dn_db s'))" "Some (t_id r) = wr_task w" for r
  proof -
    define g where "g = \<lparr>wg_debouncer = debouncer_default, wg_subscribed = subscribed, wg_authoritative = False\<rparr>"
    obtain fin s1 where s1: "run_state (watch_polls now w ps g) s = (fin, s1)"
      by (cases "run_state (watch_polls now w ps g) s")
    have "dn_faults s1 = []"
      using keepsD [OF faultless_watch_polls, of s now w ps g] that(1) s1 by (simp add: faultless_def)
    moreover have "dn_db s' = dn_db (snd (run_state (resume_task (t_id r)) (snd (run_state (set_awaiting_input (wr_session w) None) s1))))"
      using that(3) s1 unfolding s'_def
      by (simp add: watch_inner_def run_simps for_task_def split_def flip: g_def that(3))
    ultimately show ?thesis
      using resume_task_resumes [of "snd (run_state (set_awaiting_input (wr_session w) None) s1)" "t_id r"] that(2)
      by (simp add: run_simps)
  qed
  ultimately show ?thesis by (simp add: only_parks_def parked_def)
qed


definition prompt_poll :: poll where
  "prompt_poll = \<lparr>pl_running = True, pl_received = [], pl_closed = False, pl_screen = Some sample_reason,
     pl_turn_done = None\<rparr>"

definition task_watch :: watch_run where
  "task_watch = \<lparr>wr_session = ''pty'', wr_task = Some ''a'', wr_detect = True, wr_interactive = False\<rparr>"

theorem watch_only_parks_witness:
  "filter (\<lambda>r. t_id r = ''a'' \<and> t_status r = AwaitingInput)
    (tasks (dn_db (snd (run_state (watch_inner 5 task_watch False [prompt_poll, prompt_poll] (Some 0))
      (idle_daemon running_db))))) = []"
  using watch_only_parks [where s = "idle_daemon running_db" and w = task_watch and now = 5 and subscribed = False
      and ps = "[prompt_poll, prompt_poll]" and code = "Some 0"]
  by (simp add: idle_daemon_def task_watch_def filter_empty_conv)

subsection \<open>A notification that is lost\<close>

lemma run_watch_source_quiet:
  assumes "pl_received p = []"
  obtains g' where "run_state (watch_source now w p g) s = (g', s)" "wg_debouncer g' = wg_debouncer g"
    "wg_authoritative g' = wg_authoritative g"
  using assms by (cases "wg_subscribed g"; cases "pl_closed p") (simp_all add: watch_source_def)

lemma reconcile_task_misses:
  assumes "dn_faults s = [] \<or> dn_faults s = False # fs" and "tables_wf (dn_db s)"
    and "task_status_of (dn_db s) tid = Some st" and "st \<noteq> (if awaiting then Running else AwaitingInput)"
  shows "run_state (reconcile_task tid awaiting) s = (False, s\<lparr>dn_faults := tl (dn_faults s)\<rparr>)"
proof -
  have "set_task_status_if tid (if awaiting then AwaitingInput else Running)
      (if awaiting then Running else AwaitingInput) (dn_db s) = (False, dn_db s)"
    using assms(2-4) by (intro set_status.lost) auto
  then show ?thesis
    using assms(1) by (cases awaiting) (auto simp: reconcile_task_def run_simps run_db_call_pass)
qed

lemma reconcile_task_parks:
  assumes "dn_faults s = []" and "tables_wf (dn_db s)" and "task_status_of (dn_db s) tid = Some Running"
  obtains s' where "run_state (reconcile_task tid True) s = (True, s')" "dn_faults s' = []"
    "tables_wf (dn_db s')" "task_status_of (dn_db s') tid = Some AwaitingInput"
    "events (dn_db s') = events (dn_db s)"
proof -
  obtain won d where c: "set_task_status_if tid AwaitingInput Running (dn_db s) = (won, d)"
    by (cases "set_task_status_if tid AwaitingInput Running (dn_db s)")
  have won: "fst (set_task_status_if tid AwaitingInput Running (dn_db s))"
    using set_status.live [OF assms(2,3), of Running] by simp
  have "task_status_of d tid = Some AwaitingInput" "tables_wf d"
    using set_status.applied [OF assms(2) won] set_status.keeps_wf [OF assms(2), of tid AwaitingInput Running] c
    by simp_all
  moreover have "events d = events (dn_db s)" using c by (auto simp: set_task_status_if_def Let_def)
  moreover have "\<exists>ps. run_state (reconcile_task tid True) s = (True, s\<lparr>dn_db := d, dn_pushes := ps\<rparr>)"
    using assms(1) c won by (cases "get_task d tid") (auto simp: reconcile_task_def run_simps intro: exI [of _ "dn_pushes s"])
  ultimately show ?thesis using that assms(1) by fastforce
qed

lemma observe_confirmed:
  "db_confirmed d \<noteq> None \<Longrightarrow> fst (observe (Some r) d) = None \<and> db_confirmed (snd (observe (Some r) d)) = Some r"
  by (simp add: Let_def)

text \<open>Once the task waits and the prompt stays on the screen, nothing more happens.\<close>

lemma watch_polls_waiting:
  assumes "wr_task w = Some tid" and "wr_detect w" and "\<not> wr_interactive w"
    and "dn_faults s = []" and "tables_wf (dn_db s)" and "task_status_of (dn_db s) tid = Some AwaitingInput"
    and "db_confirmed (wg_debouncer g) \<noteq> None" and "\<not> wg_authoritative g"
    and "\<forall>p \<in> set ps. pl_running p \<and> pl_received p = [] \<and> pl_screen p \<noteq> None"
  shows "dn_db (snd (run_state (watch_polls now w ps g) s)) = dn_db s"
  using assms
proof (induction ps arbitrary: s g)
  case (Cons p ps)
  from Cons.prems(9) obtain r where p: "pl_running p" "pl_received p = []" "pl_screen p = Some r" by auto
  obtain g1 where g1: "run_state (watch_source now w p g) s = (g1, s)" "wg_debouncer g1 = wg_debouncer g"
      "wg_authoritative g1 = wg_authoritative g"
    by (rule run_watch_source_quiet [OF p(2)])
  define d where "d = snd (observe (Some r) (wg_debouncer g))"
  have obs: "observe (Some r) (wg_debouncer g) = (None, d)" "db_confirmed d = Some r"
    using observe_confirmed [OF Cons.prems(7), of r] by (simp_all add: d_def prod_eq_iff)
  define s1 where "s1 = snd (run_state (set_awaiting_input (wr_session w) (Some r)) s)"
  have s1: "dn_faults s1 = []" "dn_db s1 = dn_db s" using Cons.prems(4) by (simp_all add: s1_def run_simps)
  have "run_state (reconcile_task tid True) s1 = (False, s1)"
    using reconcile_task_misses [of s1 "[]" tid AwaitingInput True] s1 Cons.prems(5,6) by simp
  then have "run_state (watch_screen now w p g1) s = (g1\<lparr>wg_debouncer := d\<rparr>, s1)"
    using g1(2,3) Cons.prems(1,2,8) p(3) obs
    by (simp add: watch_screen_def for_task_def run_simps flip: s1_def) (simp add: s1_def run_simps)
  then have "run_state (watch_polls now w (p # ps) g) s = run_state (watch_polls now w ps (g1\<lparr>wg_debouncer := d\<rparr>)) s1"
    using p(1) g1(1) Cons.prems(3) by simp
  moreover have "dn_db (snd (run_state (watch_polls now w ps (g1\<lparr>wg_debouncer := d\<rparr>)) s1)) = dn_db s1"
    using Cons.prems s1 obs(2) g1(3) by (intro Cons.IH) simp_all
  ultimately show ?case using s1(2) by simp
qed simp

text \<open>When the write that marks a task as waiting fails once, the next line of the same poll repairs the status
  but not the announcement: however long the agent then waits for the user, the task waits for input and
  no \<open>TaskAwaitingInput\<close> event is ever emitted.\<close>

theorem mark_failure_silences:
  fixes s :: daemon and now :: time and w :: watch_run and tid :: uuid and subscribed :: bool
    and p1 p2 :: poll and ps :: "poll list"
  assumes "wr_task w = Some tid" and "wr_detect w" and "\<not> wr_interactive w"
    and "task_status_of (dn_db s) tid = Some Running" and "tables_wf (dn_db s)"
    and "dn_faults s = [False, True]"
    and "\<forall>p \<in> set (p1 # p2 # ps). pl_running p \<and> pl_received p = [] \<and> pl_screen p \<noteq> None"
  defines "s' \<equiv> snd (run_state (watch_polls now w (p1 # p2 # ps)
      \<lparr>wg_debouncer = debouncer_default, wg_subscribed = subscribed, wg_authoritative = False\<rparr>) s)"
  shows "task_status_of (dn_db s') tid = Some AwaitingInput \<and> events (dn_db s') = events (dn_db s)"
proof -
  have all: "pl_running p1 \<and> pl_received p1 = [] \<and> pl_screen p1 \<noteq> None"
      "pl_running p2 \<and> pl_received p2 = [] \<and> pl_screen p2 \<noteq> None"
    and ps: "\<forall>p \<in> set ps. pl_running p \<and> pl_received p = [] \<and> pl_screen p \<noteq> None"
    using assms(7) by simp_all
  then obtain r1 r2 where p: "pl_running p1" "pl_received p1 = []" "pl_screen p1 = Some r1"
      "pl_running p2" "pl_received p2 = []" "pl_screen p2 = Some r2" by blast
  define g where "g = \<lparr>wg_debouncer = debouncer_default, wg_subscribed = subscribed, wg_authoritative = False\<rparr>"
  define d1 where "d1 = debouncer_default\<lparr>db_match_streak := 1\<rparr>"
  define d2 where "d2 = d1\<lparr>db_match_streak := 0, db_confirmed := Some r2\<rparr>"
  have obs: "observe (Some r1) debouncer_default = (None, d1)" "observe (Some r2) d1 = (Some (Mark r2), d2)"
    "db_confirmed d1 = None" "db_confirmed d2 = Some r2"
    by (simp_all add: d1_def d2_def debouncer_default_def MARK_STREAK_def Let_def)
  obtain g1 where g1: "run_state (watch_source now w p1 g) s = (g1, s)" "wg_debouncer g1 = debouncer_default"
      "\<not> wg_authoritative g1"
    using run_watch_source_quiet [OF p(2), of now w g s] by (auto simp: g_def)
  define s1 where "s1 = snd (run_state (set_awaiting_input (wr_session w) None) s)"
  have s1: "dn_faults s1 = [False, True]" "dn_db s1 = dn_db s" using assms(6) by (simp_all add: s1_def run_simps)
  define s2 where "s2 = s1\<lparr>dn_faults := [True]\<rparr>"
  have "run_state (reconcile_task tid False) s1 = (False, s2)"
    using reconcile_task_misses [of s1 "[True]" tid Running False] s1 assms(4,5) by (simp add: s2_def)
  then have "run_state (watch_screen now w p1 g1) s = (g1\<lparr>wg_debouncer := d1\<rparr>, s2)"
    using g1(2,3) assms(1,2) p(3) obs(1,3)
    by (simp add: watch_screen_def for_task_def run_simps flip: s1_def) (simp add: s1_def run_simps)
  then have first: "run_state (watch_polls now w (p1 # p2 # ps) g) s =
      run_state (watch_polls now w (p2 # ps) (g1\<lparr>wg_debouncer := d1\<rparr>)) s2"
    using p(1) g1(1) assms(3) by simp
  obtain g2 where g2: "run_state (watch_source now w p2 (g1\<lparr>wg_debouncer := d1\<rparr>)) s2 = (g2, s2)"
      "wg_debouncer g2 = d1" "\<not> wg_authoritative g2"
    using run_watch_source_quiet [OF p(5), of now w "g1\<lparr>wg_debouncer := d1\<rparr>" s2] g1(3) by auto
  define s3 where "s3 = snd (run_state (set_awaiting_input (wr_session w) (Some r2)) (s2\<lparr>dn_faults := []\<rparr>))"
  have s3: "dn_faults s3 = []" "dn_db s3 = dn_db s" using s1(2) by (simp_all add: s3_def s2_def run_simps)
  have "run_state (mark_awaiting now tid (wr_session w) r2) s2 = ((), s2\<lparr>dn_faults := []\<rparr>)"
  proof -
    have "dn_faults s2 = [True]" by (simp add: s2_def)
    then show ?thesis by (simp add: mark_awaiting_def reconcile_task_def run_simps run_db_call_fault)
  qed
  moreover obtain s4 where s4: "run_state (reconcile_task tid True) s3 = (True, s4)" "dn_faults s4 = []"
      "tables_wf (dn_db s4)" "task_status_of (dn_db s4) tid = Some AwaitingInput" "events (dn_db s4) = events (dn_db s)"
    using reconcile_task_parks [of s3 tid] s3 assms(4,5) by metis
  ultimately have "run_state (watch_screen now w p2 g2) s2 = (g2\<lparr>wg_debouncer := d2\<rparr>, s4)"
    using g2(2,3) assms(1,2) p(6) obs(2,4)
    by (simp add: watch_screen_def for_task_def run_bind split_def flip: s3_def)
  then have "run_state (watch_polls now w (p1 # p2 # ps) g) s =
      run_state (watch_polls now w ps (g2\<lparr>wg_debouncer := d2\<rparr>)) s4"
    using p(4) g2(1) assms(3) first by simp
  moreover have "dn_db (snd (run_state (watch_polls now w ps (g2\<lparr>wg_debouncer := d2\<rparr>)) s4)) = dn_db s4"
    using assms(1-3) s4 ps obs(4) g2(3) by (intro watch_polls_waiting) simp_all
  ultimately show ?thesis unfolding s'_def g_def [symmetric] using s4(4,5) by simp
qed

theorem mark_failure_silences_witness:
  "task_status_of (dn_db (snd (run_state (watch_polls 5 task_watch [prompt_poll, prompt_poll, prompt_poll]
      \<lparr>wg_debouncer = debouncer_default, wg_subscribed = False, wg_authoritative = False\<rparr>)
      ((idle_daemon running_db)\<lparr>dn_faults := [False, True]\<rparr>)))) ''a'' = Some AwaitingInput"
  using mark_failure_silences [where w = task_watch and tid = "''a''" and now = 5 and subscribed = False
      and s = "(idle_daemon running_db)\<lparr>dn_faults := [False, True]\<rparr>" and ps = "[prompt_poll]"
      and ?p1.0 = prompt_poll and ?p2.0 = prompt_poll] running_db_wf
  by (simp add: idle_daemon_def task_watch_def prompt_poll_def)

end
