(* ===== verification/Webhooks.thy ===== *)
theory Webhooks
  imports Handlers
begin

text \<open>
  The webhook receivers (\<open>crates/favetto/src/webhooks.rs\<close>).  \<open>hmac\<close> is the hexadecimal HMAC-SHA256 of a body
  under a secret, \<open>parse\<close> is \<open>serde_json::from_slice\<close> and \<open>glob\<close> the \<open>glob\<close> crate: \<open>None\<close> for a pattern
  that does not compile.  A request's headers are what \<open>headers.get(name)\<close> followed by \<open>to_str\<close> yields.
\<close>

type_synonym headers = "string \<Rightarrow> string option"
type_synonym response = "nat \<times> string"
type_synonym glob = "string \<Rightarrow> (string \<Rightarrow> bool) option"

record github_filter =
  gf_repo :: "string option"
  gf_author :: "string option"
  gf_labels_contains :: "string list"
  gf_base_ref :: "string option"
  gf_head_ref :: "string option"

record github_rule =
  gr_name :: string
  gr_event :: string
  gr_action :: "string option"
  gr_task :: string
  gr_enabled :: bool
  gr_filter :: github_filter

record github_settings =
  gh_enabled :: bool
  gh_secret_env :: "string option"
  gh_secret :: "string option"
  gh_rules :: "github_rule list"

record webhook_secrets =
  ws_github :: "string option"
  ws_linear :: "string option"

definition SUMMARY_TITLE_MAX_BYTES :: nat where "SUMMARY_TITLE_MAX_BYTES = 256"
definition SUMMARY_BODY_MAX_BYTES :: nat where "SUMMARY_BODY_MAX_BYTES = 1024"

definition DEFAULT_GITHUB_SECRET_ENV :: string where
  "DEFAULT_GITHUB_SECRET_ENV = ''GITHUB_WEBHOOK_SECRET''"

definition or_else :: "'a option \<Rightarrow> 'a option \<Rightarrow> 'a option" where
  "or_else a b = (case a of None \<Rightarrow> b | Some x \<Rightarrow> Some x)"

text \<open>\<open>var\<close> is the process environment.\<close>

definition secrets_from_config :: "(string \<Rightarrow> string option) \<Rightarrow> github_settings \<Rightarrow> webhook_secrets" where
  "secrets_from_config var gh =
     \<lparr>ws_github = or_else (or_else (gh_secret gh) (Option.bind (gh_secret_env gh) var)) (var DEFAULT_GITHUB_SECRET_ENV),
      ws_linear = var ''LINEAR_WEBHOOK_SECRET''\<rparr>"

definition verify_signature :: "(string \<Rightarrow> string \<Rightarrow> string) \<Rightarrow> string \<Rightarrow> string \<Rightarrow> string \<Rightarrow> bool" where
  "verify_signature hmac secret body signature \<longleftrightarrow> hmac secret body = signature"

subsection \<open>Summaries\<close>

definition truncate_utf8 :: "string \<Rightarrow> nat \<Rightarrow> string" where
  "truncate_utf8 s max_bytes =
     (if length s \<le> max_bytes then s else take (floor_boundary_from s max_bytes) s)"

fun as_array :: "json \<Rightarrow> json list option" where
  "as_array (JArr xs) = Some xs"
| "as_array _ = None"

text \<open>A chain of \<open>and_then(|v| v.get(key))\<close>, and one that ends in \<open>as_str().unwrap_or("")\<close>.\<close>

fun dig :: "json option \<Rightarrow> string list \<Rightarrow> json option" where
  "dig j [] = j"
| "dig j (k # ks) = dig (Option.bind j (\<lambda>v. jget v k)) ks"

definition text_or_empty :: "json option \<Rightarrow> string" where
  "text_or_empty j = (case Option.bind j as_str of None \<Rightarrow> [] | Some s \<Rightarrow> s)"

definition action_of :: "json \<Rightarrow> string" where
  "action_of payload = text_or_empty (jget payload ''action'')"

definition summarize_github :: "string \<Rightarrow> json \<Rightarrow> json" where
  "summarize_github event payload =
     (let subject = or_else (jget payload ''issue'') (jget payload ''pull_request'');
          repo = jget payload ''repository'';
          pull_request = jget payload ''pull_request'';
          number = (case dig subject [''number''] of None \<Rightarrow> JNull | Some n \<Rightarrow> n);
          title = (case Option.bind (dig subject [''title'']) as_str of
             None \<Rightarrow> [] | Some t \<Rightarrow> truncate_utf8 t SUMMARY_TITLE_MAX_BYTES);
          body = (case or_else (Option.bind (dig subject [''body'']) as_str)
                    (Option.bind (dig (jget payload ''comment'') [''body'']) as_str) of
             None \<Rightarrow> [] | Some b \<Rightarrow> truncate_utf8 b SUMMARY_BODY_MAX_BYTES);
          author = text_or_empty (dig (jget payload ''sender'') [''login'']);
          html_url = (case or_else (Option.bind (dig subject [''html_url'']) as_str)
                    (Option.bind (dig repo [''html_url'']) as_str) of None \<Rightarrow> [] | Some u \<Rightarrow> u);
          labels = (case Option.bind (dig subject [''labels'']) as_array of
             None \<Rightarrow> JArr []
           | Some arr \<Rightarrow> JArr (map JStr (List.map_filter (\<lambda>l. Option.bind (jget l ''name'') as_str) arr)));
          base_ref = text_or_empty (dig pull_request [''base'', ''ref'']);
          head_ref = text_or_empty (dig pull_request [''head'', ''ref''])
      in mk_obj [
        (''event'', JStr event),
        (''action'', JStr (action_of payload)),
        (''repo'', JStr (text_or_empty (dig repo [''full_name'']))),
        (''repo_owner'', JStr (text_or_empty (dig repo [''owner'', ''login'']))),
        (''repo_name'', JStr (text_or_empty (dig repo [''name'']))),
        (''number'', number),
        (''title'', JStr title),
        (''body'', JStr body),
        (''author'', JStr author),
        (''html_url'', JStr html_url),
        (''labels'', labels),
        (''base_ref'', JStr base_ref),
        (''head_ref'', JStr head_ref),
        (''ref'', JStr (text_or_empty (jget payload ''ref''))),
        (''commit_count'', jnat (case Option.bind (jget payload ''commits'') as_array of None \<Rightarrow> 0 | Some c \<Rightarrow> length c)),
        (''installation_id'', (case dig (jget payload ''installation'') [''id''] of None \<Rightarrow> JNull | Some i \<Rightarrow> i)),
        (''organization'', JStr (text_or_empty (dig (jget payload ''organization'') [''login''])))])"

definition github_event_kind :: "string \<Rightarrow> string \<Rightarrow> json \<Rightarrow> event_kind option" where
  "github_event_kind event action payload =
     (if event = ''issues'' then Some
        (if action = ''opened'' then EvIssueCreated
         else if action = ''closed'' then EvIssueClosed
         else if action = ''reopened'' then EvIssueReopened
         else if action = ''labeled'' then EvIssueLabeled
         else if action = ''assigned'' then EvIssueAssigned
         else EvIssueUpdated)
      else if event = ''issue_comment'' then
        (if action = ''created'' then Some EvIssueCommentCreated else None)
      else if event = ''pull_request'' then Some
        (if action = ''opened'' then EvPrCreated
         else if action = ''reopened'' then EvPrReopened
         else if action = ''synchronize'' then EvPrSynchronized
         else if action = ''closed'' then
           (if Option.bind (dig (jget payload ''pull_request'') [''merged'']) as_bool = Some True
            then EvPrMerged else EvPrClosed)
         else if action = ''ready_for_review'' then EvPrReadyForReview
         else if action = ''review_requested'' then EvPrReviewRequested
         else EvPrUpdated)
      else if event = ''pull_request_review'' then
        (if action = ''submitted'' then Some EvPrReviewSubmitted else None)
      else if event = ''push'' then Some EvPushReceived
      else if event = ''workflow_run'' then
        (if action = ''completed'' then Some EvActionRunCompleted else None)
      else if event = ''check_suite'' then
        (if action = ''completed'' then Some EvCheckSuiteCompleted else None)
      else if event = ''check_run'' then
        (if action = ''completed'' then Some EvCheckRunCompleted else None)
      else None)"

definition supported_github_event :: "string \<Rightarrow> bool" where
  "supported_github_event event \<longleftrightarrow> event \<in> set [''issues'', ''issue_comment'', ''pull_request'',
     ''pull_request_review'', ''push'', ''workflow_run'', ''check_suite'', ''check_run'']"

subsection \<open>Rules\<close>

definition glob_match :: "glob \<Rightarrow> string \<Rightarrow> string \<Rightarrow> bool" where
  "glob_match glob pattern value = (case glob pattern of None \<Rightarrow> False | Some p \<Rightarrow> p value)"

definition summary_labels :: "json \<Rightarrow> string list" where
  "summary_labels summary = (case Option.bind (jget summary ''labels'') as_array of
     None \<Rightarrow> [] | Some arr \<Rightarrow> List.map_filter as_str arr)"

definition github_filter_matches :: "glob \<Rightarrow> github_filter \<Rightarrow> json \<Rightarrow> bool" where
  "github_filter_matches glob f summary \<longleftrightarrow>
     list_all (\<lambda>(pattern, key). case pattern of None \<Rightarrow> True
         | Some p \<Rightarrow> glob_match glob p (text_or_empty (jget summary key)))
       [(gf_repo f, ''repo''), (gf_author f, ''author''), (gf_base_ref f, ''base_ref''),
        (gf_head_ref f, ''head_ref'')] \<and>
     (gf_labels_contains f = [] \<or>
      list_ex (\<lambda>want. want \<in> set (summary_labels summary)) (gf_labels_contains f))"

definition github_rule_matches :: "glob \<Rightarrow> github_rule \<Rightarrow> string \<Rightarrow> string \<Rightarrow> json \<Rightarrow> bool" where
  "github_rule_matches glob r event action summary \<longleftrightarrow>
     gr_enabled r \<and> gr_event r = event \<and>
     (case gr_action r of None \<Rightarrow> True | Some a \<Rightarrow> a = action) \<and>
     github_filter_matches glob (gr_filter r) summary"

datatype rule_error =
    EmptyRuleName
  | DuplicateRuleName string
  | UnsupportedRuleEvent string string
  | UnknownRuleTask string string
  | EmptyRuleFilter string string
  | InvalidRuleGlob string string string
  | EmptyRuleLabel string

fun check_filters :: "glob \<Rightarrow> string \<Rightarrow> (string \<times> string option) list \<Rightarrow> rule_error + unit" where
  "check_filters glob name [] = Inr ()"
| "check_filters glob name ((field, None) # fs) = check_filters glob name fs"
| "check_filters glob name ((field, Some p) # fs) =
     (if p = [] then Inl (EmptyRuleFilter name field)
      else if glob p = None then Inl (InvalidRuleGlob name field p)
      else check_filters glob name fs)"

definition filter_fields :: "github_filter \<Rightarrow> (string \<times> string option) list" where
  "filter_fields f = [(''repo'', gf_repo f), (''author'', gf_author f), (''base_ref'', gf_base_ref f),
     (''head_ref'', gf_head_ref f)]"

fun check_rules :: "glob \<Rightarrow> task_def list \<Rightarrow> string set \<Rightarrow> github_rule list \<Rightarrow> rule_error + unit" where
  "check_rules glob catalog names [] = Inr ()"
| "check_rules glob catalog names (r # rs) =
     (if trim (gr_name r) = [] then Inl EmptyRuleName
      else if gr_name r \<in> names then Inl (DuplicateRuleName (gr_name r))
      else if \<not> supported_github_event (gr_event r) then Inl (UnsupportedRuleEvent (gr_name r) (gr_event r))
      else if \<not> list_ex (\<lambda>d. d_name d = gr_task r) catalog then Inl (UnknownRuleTask (gr_name r) (gr_task r))
      else (case check_filters glob (gr_name r) (filter_fields (gr_filter r)) of
          Inl e \<Rightarrow> Inl e
        | Inr _ \<Rightarrow>
            if list_ex (\<lambda>label. trim label = []) (gf_labels_contains (gr_filter r))
            then Inl (EmptyRuleLabel (gr_name r))
            else check_rules glob catalog (insert (gr_name r) names) rs))"

definition validate_rules :: "glob \<Rightarrow> github_settings \<Rightarrow> task_def list \<Rightarrow> rule_error + unit" where
  "validate_rules glob gh catalog =
     (if \<not> gh_enabled gh \<and> gh_rules gh = [] then Inr ()
      else check_rules glob catalog {} (gh_rules gh))"

subsection \<open>The handlers\<close>

definition webhook_key :: "string option \<Rightarrow> github_rule \<Rightarrow> string option" where
  "webhook_key delivery r = map_option (\<lambda>d. ''webhook:'' @ d @ '':'' @ gr_name r) delivery"

text \<open>What happens to a delivery that is signed, readable and not yet recorded.\<close>

definition process_github ::
  "glob \<Rightarrow> github_settings \<Rightarrow> time \<Rightarrow> string \<Rightarrow> string option \<Rightarrow> json \<Rightarrow> unit handler"
where
  "process_github glob gh now event delivery payload = do {
     let action = action_of payload;
     let summary = summarize_github event payload;
     (case github_event_kind event action payload of
        None \<Rightarrow> ret ()
      | Some kind \<Rightarrow> emit_event now kind summary);
     for_each (\<lambda>r.
        if \<not> github_rule_matches glob r event action summary then ret ()
        else do {
          _ \<leftarrow> enqueue_task now (gr_task r) summary (webhook_key delivery r) False;
          ret () }) (gh_rules gh) }"

text \<open>The event name of a request, and its delivery id unless it is empty.\<close>

definition delivery_of :: "headers \<Rightarrow> string option" where
  "delivery_of headers = (case headers ''x-github-delivery'' of
     None \<Rightarrow> None | Some d \<Rightarrow> if d = [] then None else Some d)"

definition event_of :: "headers \<Rightarrow> string" where
  "event_of headers = (case headers ''x-github-event'' of None \<Rightarrow> [] | Some e \<Rightarrow> e)"

text \<open>\<open>sig.strip_prefix("sha256=").unwrap_or(sig)\<close>.\<close>

definition signature_part :: "string \<Rightarrow> string" where
  "signature_part sig = (case strip_prefix ''sha256='' sig of None \<Rightarrow> sig | Some s \<Rightarrow> s)"

definition handle_github ::
  "(string \<Rightarrow> string \<Rightarrow> string) \<Rightarrow> (string \<Rightarrow> json option) \<Rightarrow> glob \<Rightarrow> github_settings \<Rightarrow> webhook_secrets \<Rightarrow>
   time \<Rightarrow> headers \<Rightarrow> string \<Rightarrow> response handler"
where
  "handle_github hmac parse glob gh secrets now headers body =
     (if \<not> gh_enabled gh then ret (404, ''github webhooks disabled'')
      else case ws_github secrets of
        None \<Rightarrow> ret (503, ''GITHUB_WEBHOOK_SECRET not configured'')
      | Some secret \<Rightarrow>
         (case headers ''x-hub-signature-256'' of
            None \<Rightarrow> ret (401, ''missing signature'')
          | Some sig \<Rightarrow>
             if \<not> verify_signature hmac secret body (signature_part sig)
             then ret (401, ''invalid signature'')
             else (case parse body of
                None \<Rightarrow> ret (400, ''invalid JSON'')
              | Some payload \<Rightarrow> do {
                  let event = event_of headers;
                  let delivery = delivery_of headers;
                  recorded \<leftarrow> (case delivery of
                     None \<Rightarrow> ret (Some True)
                   | Some d \<Rightarrow> db_call (record_delivery now ''github'' d));
                  (case recorded of
                     None \<Rightarrow> ret (500, ''failed to record delivery'')
                   | Some False \<Rightarrow> ret (200, [])
                   | Some True \<Rightarrow> do {
                       process_github glob gh now event delivery payload;
                       ret (200, []) }) })))"

definition linear_webhook ::
  "(string \<Rightarrow> string \<Rightarrow> string) \<Rightarrow> (string \<Rightarrow> json option) \<Rightarrow> webhook_secrets \<Rightarrow>
   time \<Rightarrow> headers \<Rightarrow> string \<Rightarrow> response handler"
where
  "linear_webhook hmac parse secrets now headers body =
     (case ws_linear secrets of
        None \<Rightarrow> ret (503, ''LINEAR_WEBHOOK_SECRET not configured'')
      | Some secret \<Rightarrow>
         (case headers ''linear-signature'' of
            None \<Rightarrow> ret (401, ''missing signature'')
          | Some sig \<Rightarrow>
             if \<not> verify_signature hmac secret body sig then ret (401, ''invalid signature'')
             else (case parse body of
                None \<Rightarrow> ret (400, ''invalid JSON'')
              | Some payload \<Rightarrow> do {
                  let action = action_of payload;
                  (if action = ''create'' then emit_event now EvTicketCreated payload
                   else if action = ''update'' then emit_event now EvTicketUpdated payload
                   else ret ());
                  ret (200, []) })))"

subsection \<open>Validation\<close>

lemma check_filters_ok:
  "check_filters glob name fs = Inr () \<longleftrightarrow> (\<forall>(field, p) \<in> set fs. \<forall>pat. p = Some pat \<longrightarrow> pat \<noteq> [] \<and> glob pat \<noteq> None)"
  by (induction glob name fs rule: check_filters.induct) auto

definition filter_globs :: "github_filter \<Rightarrow> string set" where
  "filter_globs f = set_option (gf_repo f) \<union> set_option (gf_author f) \<union> set_option (gf_base_ref f) \<union>
     set_option (gf_head_ref f)"

definition rule_ok :: "glob \<Rightarrow> task_def list \<Rightarrow> github_rule \<Rightarrow> bool" where
  "rule_ok glob catalog r \<longleftrightarrow>
     trim (gr_name r) \<noteq> [] \<and> supported_github_event (gr_event r) \<and> (\<exists>d \<in> set catalog. d_name d = gr_task r) \<and>
     (\<forall>pat \<in> filter_globs (gr_filter r). pat \<noteq> [] \<and> glob pat \<noteq> None) \<and>
     (\<forall>label \<in> set (gf_labels_contains (gr_filter r)). trim label \<noteq> [])"

lemma check_filters_fields:
  "check_filters glob name (filter_fields f) = Inr () \<longleftrightarrow>
   (\<forall>pat \<in> filter_globs f. pat \<noteq> [] \<and> glob pat \<noteq> None)"
  by (auto simp: check_filters_ok filter_fields_def filter_globs_def)

lemma check_rules_ok:
  "check_rules glob catalog names rs = Inr () \<longleftrightarrow>
   list_all (rule_ok glob catalog) rs \<and> distinct (map gr_name rs) \<and> gr_name ` set rs \<inter> names = {}"
proof (induction rs arbitrary: names)
  case (Cons r rs)
  define c where "c = check_filters glob (gr_name r) (filter_fields (gr_filter r))"
  have "check_rules glob catalog names (r # rs) = Inr () \<longleftrightarrow>
      trim (gr_name r) \<noteq> [] \<and> gr_name r \<notin> names \<and> supported_github_event (gr_event r) \<and>
      list_ex (\<lambda>d. d_name d = gr_task r) catalog \<and> c = Inr () \<and>
      \<not> list_ex (\<lambda>label. trim label = []) (gf_labels_contains (gr_filter r)) \<and>
      check_rules glob catalog (insert (gr_name r) names) rs = Inr ()"
    unfolding check_rules.simps c_def [symmetric] by (cases c) simp_all
  moreover have "rule_ok glob catalog r \<longleftrightarrow> trim (gr_name r) \<noteq> [] \<and> supported_github_event (gr_event r) \<and>
      list_ex (\<lambda>d. d_name d = gr_task r) catalog \<and> c = Inr () \<and>
      \<not> list_ex (\<lambda>label. trim label = []) (gf_labels_contains (gr_filter r))"
    unfolding rule_ok_def c_def check_filters_fields list_ex_iff by simp
  ultimately show ?case unfolding Cons.IH by simp blast
qed simp

lemma validate_rules_distinct: "validate_rules glob gh catalog = Inr () \<Longrightarrow> distinct (map gr_name (gh_rules gh))"
  by (auto simp: validate_rules_def check_rules_ok split: if_splits)

subsection \<open>Only signed requests\<close>

definition github_signed :: "(string \<Rightarrow> string \<Rightarrow> string) \<Rightarrow> webhook_secrets \<Rightarrow> headers \<Rightarrow> string \<Rightarrow> bool" where
  "github_signed hmac secrets headers body \<longleftrightarrow>
     (\<exists>secret sig. ws_github secrets = Some secret \<and> headers ''x-hub-signature-256'' = Some sig \<and>
        (sig = ''sha256='' @ hmac secret body \<or> (\<not> prefix ''sha256='' sig \<and> sig = hmac secret body)))"

definition linear_signed :: "(string \<Rightarrow> string \<Rightarrow> string) \<Rightarrow> webhook_secrets \<Rightarrow> headers \<Rightarrow> string \<Rightarrow> bool" where
  "linear_signed hmac secrets headers body \<longleftrightarrow>
     (\<exists>secret. ws_linear secrets = Some secret \<and> headers ''linear-signature'' = Some (hmac secret body))"

text \<open>What is left of the handler behind its guards.\<close>

definition accept_github :: "glob \<Rightarrow> github_settings \<Rightarrow> time \<Rightarrow> headers \<Rightarrow> json \<Rightarrow> response handler" where
  "accept_github glob gh now headers payload = do {
     recorded \<leftarrow> (case delivery_of headers of
        None \<Rightarrow> ret (Some True)
      | Some d \<Rightarrow> db_call (record_delivery now ''github'' d));
     (case recorded of
        None \<Rightarrow> ret (500, ''failed to record delivery'')
      | Some False \<Rightarrow> ret (200, [])
      | Some True \<Rightarrow> do {
          process_github glob gh now (event_of headers) (delivery_of headers) payload;
          ret (200, []) }) }"

lemma strip_prefix_or_self:
  "h = (case strip_prefix p sig of None \<Rightarrow> sig | Some s \<Rightarrow> s) \<longleftrightarrow> sig = p @ h \<or> (\<not> prefix p sig \<and> sig = h)"
  by (cases "prefix p sig") (auto simp: strip_prefix_def prefix_def)

lemma verify_github:
  "verify_signature hmac secret body (signature_part sig) \<longleftrightarrow>
   sig = ''sha256='' @ hmac secret body \<or> (\<not> prefix ''sha256='' sig \<and> sig = hmac secret body)"
  unfolding verify_signature_def signature_part_def by (rule strip_prefix_or_self)

lemma github_signed_iff:
  "github_signed hmac secrets headers body \<longleftrightarrow>
     (\<exists>secret sig. ws_github secrets = Some secret \<and> headers ''x-hub-signature-256'' = Some sig \<and>
        verify_signature hmac secret body (signature_part sig))"
  by (simp only: github_signed_def verify_github)

lemma handle_github_accepts:
  assumes "gh_enabled gh" and "github_signed hmac secrets headers body" and "parse body = Some payload"
  shows "handle_github hmac parse glob gh secrets now headers body = accept_github glob gh now headers payload"
  using assms
  by (auto simp: github_signed_iff handle_github_def accept_github_def Let_def)

lemma handle_github_refuses:
  assumes "\<not> (gh_enabled gh \<and> github_signed hmac secrets headers body \<and> parse body \<noteq> None)"
  shows "\<exists>code msg. handle_github hmac parse glob gh secrets now headers body = ret (code, msg) \<and> code \<in> {400, 401, 404, 503}"
  using assms
  by (auto simp: github_signed_iff handle_github_def split: option.splits)

lemma accept_github_status:
  "fst (fst (run_state (accept_github glob gh now headers payload) s)) \<in> {200, 500}"
  by (auto simp: accept_github_def split_def split: option.splits bool.splits)

context handler_inv
begin

lemma github [keeps_intros]: "keeps J (process_github glob gh now event delivery payload)"
  unfolding process_github_def enqueue_task_def Let_def
  by (auto intro!: keeps_intros split: option.splits)

lemma delivery [keeps_intros]: "keeps J (db_call (record_delivery now p i))"
  by (rule op_call [where op = "OpDelivery now p i"]) simp_all

lemma github_handler: "keeps J (handle_github hmac parse glob gh secrets now headers body)"
  unfolding handle_github_def Let_def
  by (auto intro!: keeps_intros split: option.splits bool.splits)

lemma linear_handler: "keeps J (linear_webhook hmac parse secrets now headers body)"
  unfolding linear_webhook_def Let_def
  by (auto intro!: keeps_intros split: option.splits)

end

text \<open>C20: whatever calls fail, a webhook request has an effect, and is acknowledged, only when it carries the
  signature of its body under the configured secret and its body parses; a refused one leaves the
  daemon exactly as it was, and an accepted one changes the database only through the operations of the
  life cycle.\<close>

theorem webhooks_need_signature:
  fixes s :: daemon and hmac parse glob gh secrets now headers body
  defines "g \<equiv> run_state (handle_github hmac parse glob gh secrets now headers body) s"
    and "l \<equiv> run_state (linear_webhook hmac parse secrets now headers body) s"
  shows "(fst (fst g) \<in> {200, 500} \<longleftrightarrow> gh_enabled gh \<and> github_signed hmac secrets headers body \<and> parse body \<noteq> None) \<and>
    (fst (fst l) = 200 \<longleftrightarrow> linear_signed hmac secrets headers body \<and> parse body \<noteq> None) \<and>
    (fst (fst g) \<notin> {200, 500} \<longrightarrow> snd g = s) \<and> (fst (fst l) \<noteq> 200 \<longrightarrow> snd l = s) \<and>
    db_trace s (snd g) \<and> db_trace s (snd l)"
proof -
  have "(fst (fst g) \<in> {200, 500} \<longleftrightarrow> gh_enabled gh \<and> github_signed hmac secrets headers body \<and> parse body \<noteq> None) \<and>
      (fst (fst g) \<notin> {200, 500} \<longrightarrow> snd g = s)"
  proof (cases "gh_enabled gh \<and> github_signed hmac secrets headers body \<and> parse body \<noteq> None")
    case True
    then obtain payload where "parse body = Some payload" by blast
    with True have "g = run_state (accept_github glob gh now headers payload) s"
      unfolding g_def using handle_github_accepts [of gh hmac secrets headers body parse payload] by simp
    then have "fst (fst g) \<in> {200, 500}" by (simp only: accept_github_status)
    with True show ?thesis by simp
  next
    case False
    then obtain code msg where "handle_github hmac parse glob gh secrets now headers body = ret (code, msg)"
        and code: "code \<in> {400, 401, 404, 503}"
      using handle_github_refuses by blast
    then have "g = ((code, msg), s)" unfolding g_def by simp
    moreover have "code \<notin> {200, 500}" using code by auto
    ultimately show ?thesis using False by simp
  qed
  moreover have "(fst (fst l) = 200 \<longleftrightarrow> linear_signed hmac secrets headers body \<and> parse body \<noteq> None) \<and>
      (fst (fst l) \<noteq> 200 \<longrightarrow> snd l = s)"
    by (auto simp: l_def linear_webhook_def linear_signed_def verify_signature_def Let_def split_def split: option.splits)
  moreover have "db_trace s (snd g)" "db_trace s (snd l)"
    unfolding g_def l_def by (rule db_traceI trace.github_handler trace.linear_handler)+
  ultimately show ?thesis by blast
qed

subsection \<open>What a delivery does\<close>

definition rule_rows :: "time \<Rightarrow> json \<Rightarrow> string option \<Rightarrow> github_rule list \<Rightarrow> uuid list \<Rightarrow> task_row list" where
  "rule_rows now summary delivery rs ids =
     map2 (\<lambda>r i. row_of_task (new_task now i (gr_task r) summary (webhook_key delivery r) no_lineage False)) rs ids"

definition fire_rule :: "time \<Rightarrow> json \<Rightarrow> string option \<Rightarrow> github_rule \<Rightarrow> unit handler" where
  "fire_rule now summary delivery r = do {
     _ \<leftarrow> enqueue_task now (gr_task r) summary (webhook_key delivery r) False;
     ret () }"

lemma for_each_filter: "for_each (\<lambda>x. if \<not> P x then ret () else f x) xs = for_each f (filter P xs)"
  by (induction xs) (simp_all add: bind_assoc)

lemma process_github_fires:
  "process_github glob gh now event delivery payload = do {
     (case github_event_kind event (action_of payload) payload of
        None \<Rightarrow> ret () | Some kind \<Rightarrow> emit_event now kind (summarize_github event payload));
     for_each (fire_rule now (summarize_github event payload) delivery)
       (filter (\<lambda>r. github_rule_matches glob r event (action_of payload) (summarize_github event payload)) (gh_rules gh)) }"
  unfolding process_github_def Let_def for_each_filter fire_rule_def ..

lemma webhook_key_inj: "webhook_key (Some d) r = webhook_key (Some d) r' \<longleftrightarrow> gr_name r = gr_name r'"
  by (simp add: webhook_key_def)

lemma run_fire_rule:
  assumes "dn_faults s = []" and "dn_uuids s = tid # us"
    and "tid \<notin> t_id ` set (tasks (dn_db s))" and "dedupe_free (webhook_key delivery r) (dn_db s)"
  shows "\<exists>s'. run_state (fire_rule now summary delivery r) s = ((), s') \<and> dn_faults s' = [] \<and> dn_uuids s' = us \<and>
    tasks (dn_db s') = tasks (dn_db s) @ rule_rows now summary delivery [r] [tid] \<and>
    deliveries (dn_db s') = deliveries (dn_db s) \<and>
    map e_kind (events (dn_db s')) = map e_kind (events (dn_db s)) @ [EvTaskIdle]"
  using assms
  by (simp add: fire_rule_def enqueue_task_def run_simps rule_rows_def tasks_insert_task)
     (simp add: insert_task_def)

lemma dedupe_free_append:
  "dedupe_free k d' \<longleftrightarrow> dedupe_free k d \<and> (k = None \<or> k \<notin> t_dedupe_key ` set rows)"
  if "tasks d' = tasks d @ rows"
  using that by (auto simp: dedupe_free_def)

lemma run_fire_rules:
  assumes "dn_faults s = []" and "dn_uuids s = ids @ us" and "length ids = length rs" and "distinct ids"
    and "set ids \<inter> t_id ` set (tasks (dn_db s)) = {}" and "distinct (map gr_name rs)"
    and "\<And>r. r \<in> set rs \<Longrightarrow> dedupe_free (webhook_key delivery r) (dn_db s)"
  shows "\<exists>s'. run_state (for_each (fire_rule now summary delivery) rs) s = ((), s') \<and> dn_faults s' = [] \<and>
    tasks (dn_db s') = tasks (dn_db s) @ rule_rows now summary delivery rs ids \<and>
    deliveries (dn_db s') = deliveries (dn_db s) \<and>
    map e_kind (events (dn_db s')) = map e_kind (events (dn_db s)) @ replicate (length rs) EvTaskIdle"
  using assms
proof (induction rs arbitrary: s ids)
  case Nil
  then show ?case by (simp add: rule_rows_def)
next
  case (Cons r rs)
  then obtain i js where ids: "ids = i # js" by (cases ids) auto
  obtain s1 where s1: "run_state (fire_rule now summary delivery r) s = ((), s1)" "dn_faults s1 = []" "dn_uuids s1 = js @ us"
      "tasks (dn_db s1) = tasks (dn_db s) @ rule_rows now summary delivery [r] [i]"
      "deliveries (dn_db s1) = deliveries (dn_db s)"
      "map e_kind (events (dn_db s1)) = map e_kind (events (dn_db s)) @ [EvTaskIdle]"
    using run_fire_rule [of s i "js @ us" delivery r now summary] Cons.prems ids by auto
  have keys: "dedupe_free (webhook_key delivery r') (dn_db s1)" if "r' \<in> set rs" for r'
  proof -
    have "gr_name r' \<noteq> gr_name r" using Cons.prems(6) that by (metis distinct.simps(2) image_eqI list.map(2) list.set_map)
    then have "webhook_key delivery r' = None \<or> webhook_key delivery r' \<noteq> webhook_key delivery r"
      by (cases delivery) (auto simp: webhook_key_def)
    moreover have "dedupe_free (webhook_key delivery r') (dn_db s)" using Cons.prems(7) that by simp
    ultimately show ?thesis
      using dedupe_free_append [OF s1(4), of "webhook_key delivery r'"] by (auto simp: rule_rows_def)
  qed
  have "set js \<inter> t_id ` set (tasks (dn_db s1)) = {}"
    using Cons.prems(4,5) ids by (auto simp: s1(4) rule_rows_def)
  then obtain s2 where "run_state (for_each (fire_rule now summary delivery) rs) s1 = ((), s2)" "dn_faults s2 = []"
      "tasks (dn_db s2) = tasks (dn_db s1) @ rule_rows now summary delivery rs js"
      "deliveries (dn_db s2) = deliveries (dn_db s1)"
      "map e_kind (events (dn_db s2)) = map e_kind (events (dn_db s1)) @ replicate (length rs) EvTaskIdle"
    using Cons.IH [of s1 js] s1 keys Cons.prems ids by auto
  then show ?case using s1 ids by (simp add: rule_rows_def)
qed

text \<open>A recorded delivery is acknowledged and nothing else.\<close>

lemma accept_github_replay:
  assumes "dn_faults s = []" and "delivery_of headers = Some did" and "did \<in> dl_id ` set (deliveries (dn_db s))"
  shows "run_state (accept_github glob gh now headers payload) s = ((200, []), s)"
  using assms by (simp add: accept_github_def run_simps record_delivery_def)

lemma run_accept_github:
  assumes "dn_faults s = []" and "delivery_of headers = Some did" and "did \<notin> dl_id ` set (deliveries (dn_db s))"
  shows "\<exists>s0. run_state (accept_github glob gh now headers payload) s =
      ((200, []), snd (run_state (process_github glob gh now (event_of headers) (Some did) payload) s0)) \<and>
    dn_faults s0 = [] \<and> dn_uuids s0 = dn_uuids s \<and> tasks (dn_db s0) = tasks (dn_db s) \<and> events (dn_db s0) = events (dn_db s) \<and>
    dl_id ` set (deliveries (dn_db s0)) = insert did (dl_id ` set (deliveries (dn_db s)))"
proof -
  define s0 where "s0 = s\<lparr>dn_db := snd (record_delivery now ''github'' did (dn_db s))\<rparr>"
  have "run_state (accept_github glob gh now headers payload) s =
      ((200, []), snd (run_state (process_github glob gh now (event_of headers) (Some did) payload) s0))"
    using assms by (simp add: accept_github_def run_simps record_delivery_def s0_def split_def)
  then show ?thesis using assms by (intro exI [of _ s0]) (simp add: s0_def record_delivery_def)
qed

text \<open>A signed GitHub delivery that is new, when no call fails, is acknowledged, recorded, announced
  as one event when its kind has one, and enqueues exactly one task for each rule that matches, in the order of
  the rules, with the delivery's summary as its input; delivered again at any later time, in any
  state that still records it, it changes nothing.\<close>

theorem github_delivery_exact:
  fixes s :: daemon and hmac parse glob gh secrets now headers body payload did ids us
  defines "summary \<equiv> summarize_github (event_of headers) payload"
    and "kind \<equiv> github_event_kind (event_of headers) (action_of payload) payload"
  defines "matching \<equiv> filter (\<lambda>r. github_rule_matches glob r (event_of headers) (action_of payload) summary) (gh_rules gh)"
    and "r \<equiv> run_state (handle_github hmac parse glob gh secrets now headers body) s"
  assumes "dn_faults s = []" and "gh_enabled gh" and "github_signed hmac secrets headers body"
    and "parse body = Some payload" and "delivery_of headers = Some did"
    and "did \<notin> dl_id ` set (deliveries (dn_db s))"
    and "validate_rules glob gh (dn_catalog s) = Inr ()"
    and "dn_uuids s = ids @ us" and "length ids = length matching" and "distinct ids"
    and "set ids \<inter> t_id ` set (tasks (dn_db s)) = {}"
    and "\<forall>r \<in> set matching. webhook_key (Some did) r \<notin> t_dedupe_key ` set (tasks (dn_db s))"
  shows "fst r = (200, []) \<and>
    tasks (dn_db (snd r)) = tasks (dn_db s) @ rule_rows now summary (Some did) matching ids \<and>
    map e_kind (events (dn_db (snd r))) = map e_kind (events (dn_db s)) @
      (case kind of None \<Rightarrow> [] | Some k \<Rightarrow> [k]) @ replicate (length matching) EvTaskIdle \<and>
    did \<in> dl_id ` set (deliveries (dn_db (snd r))) \<and>
    (\<forall>later s2. dn_faults s2 = [] \<and> did \<in> dl_id ` set (deliveries (dn_db s2)) \<longrightarrow>
       run_state (handle_github hmac parse glob gh secrets later headers body) s2 = ((200, []), s2))"
proof -
  obtain s0 where s0: "r = ((200, []), snd (run_state (process_github glob gh now (event_of headers) (Some did) payload) s0))"
      "dn_faults s0 = []" "dn_uuids s0 = dn_uuids s" "tasks (dn_db s0) = tasks (dn_db s)"
      "events (dn_db s0) = events (dn_db s)"
      "dl_id ` set (deliveries (dn_db s0)) = insert did (dl_id ` set (deliveries (dn_db s)))"
    using run_accept_github [OF assms(5,9,10), of glob gh now payload]
      handle_github_accepts [where parse = parse, OF assms(6-8), of glob now] unfolding r_def by auto
  define s1 where "s1 = snd (run_state (case kind of None \<Rightarrow> ret () | Some k \<Rightarrow> emit_event now k summary) s0)"
  have s1: "dn_faults s1 = []" "dn_uuids s1 = dn_uuids s" "tasks (dn_db s1) = tasks (dn_db s)"
      "deliveries (dn_db s1) = deliveries (dn_db s0)"
      "map e_kind (events (dn_db s1)) = map e_kind (events (dn_db s)) @ (case kind of None \<Rightarrow> [] | Some k \<Rightarrow> [k])"
    using s0 by (auto simp: s1_def run_simps Let_def split: option.splits)
  have "distinct (map gr_name matching)"
    using validate_rules_distinct [OF assms(11)] unfolding matching_def by (rule distinct_map_filter)
  then obtain s2 where "run_state (for_each (fire_rule now summary (Some did)) matching) s1 = ((), s2)"
      "tasks (dn_db s2) = tasks (dn_db s1) @ rule_rows now summary (Some did) matching ids"
      "deliveries (dn_db s2) = deliveries (dn_db s1)"
      "map e_kind (events (dn_db s2)) = map e_kind (events (dn_db s1)) @ replicate (length matching) EvTaskIdle"
    using run_fire_rules [of s1 ids us matching "Some did" now summary] s1 assms(12-16) by (auto simp: dedupe_free_def)
  moreover from this(1) have "snd r = s2"
    using s0(1) unfolding process_github_fires summary_def [symmetric] kind_def [symmetric] matching_def [symmetric]
    by (simp add: s1_def split_def)
  ultimately have "fst r = (200, [])" "tasks (dn_db (snd r)) = tasks (dn_db s) @ rule_rows now summary (Some did) matching ids"
    "did \<in> dl_id ` set (deliveries (dn_db (snd r)))"
    "map e_kind (events (dn_db (snd r))) = map e_kind (events (dn_db s)) @
      (case kind of None \<Rightarrow> [] | Some k \<Rightarrow> [k]) @ replicate (length matching) EvTaskIdle"
    using s0 s1 by simp_all
  moreover have "run_state (handle_github hmac parse glob gh secrets later headers body) s2 = ((200, []), s2)"
    if "dn_faults s2 = []" "did \<in> dl_id ` set (deliveries (dn_db s2))" for later s2
    using accept_github_replay [OF that(1) assms(9) that(2)] handle_github_accepts [where parse = parse, OF assms(6-8)] by simp
  ultimately show ?thesis by blast
qed

text \<open>The rules of a configuration are accepted at startup exactly when webhooks are off and there are
  none, or their names are distinct and not blank, their events are ones GitHub deliveries can carry here,
  their tasks are in the catalog, their globs are not empty and compile, and their labels are not blank;
  so with accepted rules, a filter never fails because of its own pattern.\<close>

theorem validate_rules_exact:
  fixes glob :: glob and gh :: github_settings and catalog :: "task_def list"
  shows "(validate_rules glob gh catalog = Inr () \<longleftrightarrow>
      (\<not> gh_enabled gh \<and> gh_rules gh = []) \<or>
      (distinct (map gr_name (gh_rules gh)) \<and>
       (\<forall>r \<in> set (gh_rules gh). trim (gr_name r) \<noteq> [] \<and> supported_github_event (gr_event r) \<and>
          (\<exists>d \<in> set catalog. d_name d = gr_task r) \<and>
          (\<forall>pat \<in> filter_globs (gr_filter r). pat \<noteq> [] \<and> glob pat \<noteq> None) \<and>
          (\<forall>label \<in> set (gf_labels_contains (gr_filter r)). trim label \<noteq> [])))) \<and>
    (validate_rules glob gh catalog = Inr () \<longrightarrow>
      (\<forall>r \<in> set (gh_rules gh). \<forall>pat \<in> filter_globs (gr_filter r). \<exists>m. glob pat = Some m \<and> (\<forall>v. glob_match glob pat v = m v)))"
proof -
  have *: "validate_rules glob gh catalog = Inr () \<longleftrightarrow>
      (\<not> gh_enabled gh \<and> gh_rules gh = []) \<or>
      (distinct (map gr_name (gh_rules gh)) \<and> (\<forall>r \<in> set (gh_rules gh). rule_ok glob catalog r))"
    by (simp add: validate_rules_def check_rules_ok list_all_iff conj_commute)
  have "\<exists>m. glob pat = Some m \<and> (\<forall>v. glob_match glob pat v = m v)" if "glob pat \<noteq> None" for pat
    using that by (auto simp: glob_match_def)
  with * show ?thesis unfolding rule_ok_def [abs_def] by auto
qed

subsection \<open>A failed enqueue\<close>

lemma run_fire_rule_fault:
  assumes "dn_faults s = True # fs"
  shows "\<exists>s'. run_state (fire_rule now summary delivery r) s = ((), s') \<and> dn_faults s' = fs \<and> dn_db s' = dn_db s"
  using assms
  by (cases "dn_uuids s")
     (simp_all add: fire_rule_def enqueue_task_def enqueue_with_lineage_def enqueue_with_id_def new_uuid_def run_db_call_fault Let_def)

lemma run_fire_rules_fault:
  assumes "dn_faults s = replicate (length rs) True"
  shows "dn_db (snd (run_state (for_each (fire_rule now summary delivery) rs) s)) = dn_db s"
  using assms
proof (induction rs arbitrary: s)
  case (Cons r rs)
  obtain s1 where "run_state (fire_rule now summary delivery r) s = ((), s1)" "dn_faults s1 = replicate (length rs) True" "dn_db s1 = dn_db s"
    using run_fire_rule_fault [of s "replicate (length rs) True" now summary delivery r] Cons.prems by auto
  then show ?case using Cons.IH [of s1] by simp
qed simp

text \<open>A delivery is recorded before its tasks are enqueued, and a failed enqueue is only logged: when
  every enqueue of a new delivery fails, the provider still gets its acknowledgement, no task exists, and
  since the delivery is on record, no redelivery will ever create one.\<close>

theorem failed_delivery_lost:
  fixes s :: daemon and hmac parse glob gh secrets now headers body payload did
  defines "summary \<equiv> summarize_github (event_of headers) payload"
  defines "matching \<equiv> filter (\<lambda>r. github_rule_matches glob r (event_of headers) (action_of payload) summary) (gh_rules gh)"
    and "r \<equiv> run_state (handle_github hmac parse glob gh secrets now headers body) s"
  assumes "gh_enabled gh" and "github_signed hmac secrets headers body"
    and "parse body = Some payload" and "delivery_of headers = Some did"
    and "did \<notin> dl_id ` set (deliveries (dn_db s))"
    and "github_event_kind (event_of headers) (action_of payload) payload = Some kind"
    and "dn_faults s = False # False # replicate (length matching) True"
  shows "fst r = (200, []) \<and> tasks (dn_db (snd r)) = tasks (dn_db s) \<and>
    did \<in> dl_id ` set (deliveries (dn_db (snd r))) \<and>
    (\<forall>later s2. dn_faults s2 = [] \<and> did \<in> dl_id ` set (deliveries (dn_db s2)) \<longrightarrow>
       run_state (handle_github hmac parse glob gh secrets later headers body) s2 = ((200, []), s2))"
proof -
  define s0 where "s0 = s\<lparr>dn_faults := False # replicate (length matching) True,
      dn_db := snd (record_delivery now ''github'' did (dn_db s))\<rparr>"
  define s1 where "s1 = snd (run_state (emit_event now kind summary) s0)"
  have s1: "dn_faults s1 = replicate (length matching) True" "tasks (dn_db s1) = tasks (dn_db s)"
      "deliveries (dn_db s1) = deliveries (dn_db s0)"
    by (simp_all add: s1_def s0_def emit_event_def run_db_call_pass run_simps record_delivery_def insert_event_def Let_def)
  have "r = run_state (accept_github glob gh now headers payload) s"
    unfolding r_def using handle_github_accepts [where parse = parse, OF assms(4-6)] by simp
  also have "\<dots> = ((200, []), snd (run_state (process_github glob gh now (event_of headers) (Some did) payload) s0))"
    using assms(7,8,10) by (simp add: accept_github_def run_db_call_pass record_delivery_def s0_def split_def)
  also have "run_state (process_github glob gh now (event_of headers) (Some did) payload) s0 =
      run_state (for_each (fire_rule now summary (Some did)) matching) s1"
    unfolding process_github_fires summary_def [symmetric] matching_def [symmetric] assms(9)
    by (simp add: s1_def split_def)
  finally have "fst r = (200, [])" "dn_db (snd r) = dn_db s1"
    using run_fire_rules_fault [OF s1(1)] by simp_all
  moreover have "did \<in> dl_id ` set (deliveries (dn_db s1))"
    using assms(8) by (simp add: s1(3) s0_def record_delivery_def)
  moreover have "run_state (handle_github hmac parse glob gh secrets later headers body) s2 = ((200, []), s2)"
    if "dn_faults s2 = []" "did \<in> dl_id ` set (deliveries (dn_db s2))" for later s2
    using accept_github_replay [OF that(1) assms(7) that(2)] handle_github_accepts [where parse = parse, OF assms(4-6)] by simp
  ultimately show ?thesis using s1(2) by simp
qed

lemma truncate_utf8_exact:
  "prefix (truncate_utf8 s n) s \<and> length (truncate_utf8 s n) \<le> n \<and>
   is_char_boundary s (length (truncate_utf8 s n)) \<and>
   (\<forall>j. length (truncate_utf8 s n) < j \<and> j \<le> n \<and> j \<le> length s \<longrightarrow> \<not> is_char_boundary s j)"
proof (cases "length s \<le> n")
  case False
  then show ?thesis
    using floor_boundary_from_props [of s n] by (auto simp: truncate_utf8_def take_is_prefix)
qed (auto simp: truncate_utf8_def)

subsection \<open>Concrete deliveries\<close>

definition triage_rule :: github_rule where
  "triage_rule = \<lparr>gr_name = ''new'', gr_event = ''push'', gr_action = None, gr_task = ''triage'', gr_enabled = True,
     gr_filter = \<lparr>gf_repo = Some ''*'', gf_author = None, gf_labels_contains = [], gf_base_ref = None, gf_head_ref = None\<rparr>\<rparr>"

definition triage_settings :: github_settings where
  "triage_settings = \<lparr>gh_enabled = True, gh_secret_env = None, gh_secret = Some ''k'', gh_rules = [triage_rule]\<rparr>"

definition triage_secrets :: webhook_secrets where
  "triage_secrets = secrets_from_config (\<lambda>_. None) triage_settings"

definition any_glob :: glob where
  "any_glob pattern = (if pattern = ''*'' then Some (\<lambda>_. True) else None)"

definition push_headers :: headers where
  "push_headers = map_of [(''x-github-event'', ''push''), (''x-github-delivery'', ''d1''), (''x-hub-signature-256'', ''sha256=kx'')]"

definition push_payload :: json where
  "push_payload = mk_obj [(''ref'', JStr ''main'')]"

lemma push_request [simp]:
  "gh_enabled triage_settings" "event_of push_headers = ''push''" "delivery_of push_headers = Some ''d1''"
  "github_signed (@) triage_secrets push_headers ''x''"
  "gh_rules triage_settings = [triage_rule]"
  "github_event_kind ''push'' a p = Some EvPushReceived"
  "github_rule_matches any_glob triage_rule ''push'' a j"
  "validate_rules any_glob triage_settings [bare_def ''triage''] = Inr ()"
proof -
  have "trim ''new'' \<noteq> []" by (simp add: trim_def trim_start_def trim_end_def strip_all.simps strip_one_def ws_encs_def prefix_def)
  then show "validate_rules any_glob triage_settings [bare_def ''triage''] = Inr ()"
    by (simp add: validate_rules_def triage_settings_def triage_rule_def supported_github_event_def bare_def_def
        filter_fields_def any_glob_def)
qed (simp_all add: triage_settings_def event_of_def delivery_of_def push_headers_def github_signed_def triage_secrets_def
    secrets_from_config_def or_else_def github_event_kind_def github_rule_matches_def triage_rule_def
    github_filter_matches_def glob_match_def any_glob_def)

theorem webhooks_need_signature_witness:
  "snd (run_state (handle_github (@) (\<lambda>_. Some push_payload) any_glob triage_settings triage_secrets 5 push_headers ''y'')
     (idle_daemon empty_db)) = idle_daemon empty_db"
proof -
  have "\<not> github_signed (@) triage_secrets push_headers ''y''"
    by (simp add: github_signed_def triage_secrets_def secrets_from_config_def triage_settings_def or_else_def
        push_headers_def)
  then show ?thesis
    using webhooks_need_signature [of "(@)" "\<lambda>_. Some push_payload" any_glob triage_settings triage_secrets 5 push_headers
        "''y''" "idle_daemon empty_db"] by blast
qed

theorem github_delivery_exact_witness:
  "map t_name (tasks (dn_db (snd (run_state (handle_github (@) (\<lambda>_. Some push_payload) any_glob triage_settings
      triage_secrets 5 push_headers ''x'')
     ((idle_daemon empty_db)\<lparr>dn_uuids := [''a''], dn_catalog := [bare_def ''triage'']\<rparr>))))) = [''triage'']"
  using github_delivery_exact [where s = "(idle_daemon empty_db)\<lparr>dn_uuids := [''a''], dn_catalog := [bare_def ''triage'']\<rparr>"
      and gh = triage_settings and hmac = "(@)" and secrets = triage_secrets and headers = push_headers and body = "''x''"
      and parse = "\<lambda>_. Some push_payload" and payload = push_payload and did = "''d1''" and glob = any_glob
      and ids = "[''a'']" and us = "[]" and now = 5]
  by (simp add: idle_daemon_def empty_db_def rule_rows_def triage_rule_def [THEN arg_cong [where f = gr_task]])

theorem validate_rules_exact_witness:
  "\<exists>m. any_glob ''*'' = Some m \<and> glob_match any_glob ''*'' ''main''"
proof -
  have "triage_rule \<in> set (gh_rules triage_settings)" "''*'' \<in> filter_globs (gr_filter triage_rule)"
    by (simp_all add: filter_globs_def triage_rule_def)
  then obtain m where "any_glob ''*'' = Some m" "\<forall>v. glob_match any_glob ''*'' v = m v"
    using validate_rules_exact [of any_glob triage_settings "[bare_def ''triage'']"] by fastforce
  then show ?thesis by (auto simp: any_glob_def)
qed

theorem failed_delivery_lost_witness:
  "tasks (dn_db (snd (run_state (handle_github (@) (\<lambda>_. Some push_payload) any_glob triage_settings
      triage_secrets 5 push_headers ''x'') ((idle_daemon empty_db)\<lparr>dn_faults := [False, False, True]\<rparr>)))) = []"
  using failed_delivery_lost [where s = "(idle_daemon empty_db)\<lparr>dn_faults := [False, False, True]\<rparr>"
      and gh = triage_settings and hmac = "(@)" and secrets = triage_secrets and headers = push_headers and body = "''x''"
      and parse = "\<lambda>_. Some push_payload" and payload = push_payload and did = "''d1''" and glob = any_glob
      and kind = EvPushReceived and now = 5]
  by (simp add: idle_daemon_def empty_db_def)

end
