(* ===== verification/Auth.thy ===== *)
theory Auth
  imports Webhooks
begin

text \<open>
  Authentication: bearer tokens and password hashes (\<open>crates/favetto-core/src/auth.rs\<close>), the single-use
  WebSocket tickets and pairing codes (\<open>crates/favetto/src/ticket.rs\<close>, \<open>pair.rs\<close>), the guard of the WebSocket
  upgrade (\<open>transport.rs\<close>), and the password login with its limiter (\<open>crates/favetto/src/auth.rs\<close>).

  An \<open>Instant\<close> is a number of nanoseconds; \<open>duration_since\<close> saturates at zero, as does \<open>-\<close> on the naturals.
  Argon2 and the hexadecimal encoding are parameters.
\<close>

type_synonym instant = nat

definition secs :: "nat \<Rightarrow> nat" where
  "secs n = n * 1000000000"

subsection \<open>Tokens and passwords\<close>

definition token_verify :: "string \<Rightarrow> string \<Rightarrow> bool" where
  "token_verify token presented \<longleftrightarrow> length token = length presented \<and> token = presented"

definition bearer_authorized :: "headers \<Rightarrow> string \<Rightarrow> bool" where
  "bearer_authorized headers token =
     (case Option.bind (headers ''authorization'') (strip_prefix ''Bearer '') of
        None \<Rightarrow> False | Some t \<Rightarrow> token_verify token t)"

definition PASSWORD_HASH_LEN :: nat where "PASSWORD_HASH_LEN = 32"

definition hash_password ::
  "(string \<Rightarrow> string \<Rightarrow> string option) \<Rightarrow> (string \<Rightarrow> string) \<Rightarrow> string \<Rightarrow> string \<Rightarrow> string option"
where
  "hash_password argon2 enc salt password =
     map_option (\<lambda>hash. enc salt @ '':'' @ enc hash) (argon2 password salt)"

definition verify_password ::
  "(string \<Rightarrow> string \<Rightarrow> string option) \<Rightarrow> (string \<Rightarrow> string option) \<Rightarrow> string \<Rightarrow> string \<Rightarrow> bool"
where
  "verify_password argon2 dec password stored =
     (case split_once CHR '':'' stored of
        None \<Rightarrow> False
      | Some (salt_hex, expected_hex) \<Rightarrow>
         (case (dec salt_hex, dec expected_hex) of
            (Some salt, Some expected) \<Rightarrow>
              if length expected \<noteq> PASSWORD_HASH_LEN then False
              else (case argon2 password salt of None \<Rightarrow> False | Some actual \<Rightarrow> actual = expected)
          | _ \<Rightarrow> False))"

subsection \<open>Tickets\<close>

type_synonym tickets = "(string \<times> instant) list"

definition ticket_issue :: "nat \<Rightarrow> instant \<Rightarrow> string \<Rightarrow> tickets \<Rightarrow> tickets" where
  "ticket_issue ttl now token ts = filter (\<lambda>(_, issued). now - issued < ttl) ts @ [(token, now)]"

text \<open>The scan keeps the first index that matches; the entry there is removed.\<close>

fun first_match :: "string \<Rightarrow> tickets \<Rightarrow> nat option" where
  "first_match presented [] = None"
| "first_match presented ((token, _) # ts) =
     (if token_verify token presented then Some 0 else map_option Suc (first_match presented ts))"

definition ticket_redeem :: "nat \<Rightarrow> instant \<Rightarrow> string \<Rightarrow> tickets \<Rightarrow> bool \<times> tickets" where
  "ticket_redeem ttl now presented ts =
     (case first_match presented ts of
        None \<Rightarrow> (False, ts)
      | Some i \<Rightarrow> (now - snd (ts ! i) < ttl, take i ts @ drop (Suc i) ts))"

subsection \<open>Pairing codes\<close>

definition PAIR_TTL_SECS :: nat where "PAIR_TTL_SECS = 60"

type_synonym codes = "string \<rightharpoonup> instant"

definition pair_issue :: "instant \<Rightarrow> string \<Rightarrow> codes \<Rightarrow> codes" where
  "pair_issue now code codes = codes(code \<mapsto> now)"

definition pair_redeem :: "instant \<Rightarrow> string \<Rightarrow> codes \<Rightarrow> bool \<times> codes" where
  "pair_redeem now code codes =
     (case codes code of
        None \<Rightarrow> (False, codes)
      | Some issued \<Rightarrow> (now - issued < secs PAIR_TTL_SECS, codes(code := None)))"

text \<open>\<open>{:06}\<close> of the first four bytes of a UUID, little-endian, modulo a million.\<close>

definition pad6 :: "string \<Rightarrow> string" where
  "pad6 s = replicate (6 - length s) CHR ''0'' @ s"

definition random_code :: "8 word \<Rightarrow> 8 word \<Rightarrow> 8 word \<Rightarrow> 8 word \<Rightarrow> string" where
  "random_code b0 b1 b2 b3 =
     (let n = unat b0 + 2 ^ 8 * unat b1 + 2 ^ 16 * unat b2 + 2 ^ 24 * unat b3
      in pad6 (nat_str (n mod 1000000)))"

subsection \<open>One-time stores\<close>

datatype use = Issue instant string | Redeem instant string

fun use_time :: "use \<Rightarrow> instant" where
  "use_time (Issue t _) = t"
| "use_time (Redeem t _) = t"

text \<open>When the key was last issued, unless it was redeemed since.\<close>

definition outstanding :: "string \<Rightarrow> use list \<Rightarrow> instant option" where
  "outstanding k us = fold (\<lambda>u o1. case u of
     Issue t j \<Rightarrow> if j = k then Some t else o1 | Redeem t j \<Rightarrow> if j = k then None else o1) us None"

lemma outstanding_simps [simp]:
  "outstanding k [] = None"
  "outstanding k (us @ [Issue t j]) = (if j = k then Some t else outstanding k us)"
  "outstanding k (us @ [Redeem t j]) = (if j = k then None else outstanding k us)"
  by (simp_all add: outstanding_def)

locale one_time_store =
  fixes issue :: "instant \<Rightarrow> string \<Rightarrow> 's \<Rightarrow> 's" and redeem :: "instant \<Rightarrow> string \<Rightarrow> 's \<Rightarrow> bool \<times> 's"
    and held :: "'s \<Rightarrow> string \<Rightarrow> instant option" and fresh :: "string \<Rightarrow> 's \<Rightarrow> bool"
    and wf :: "'s \<Rightarrow> bool" and ttl :: nat and start :: 's
  assumes start: "wf start" "held start k = None"
    and issue_wf: "wf s \<Longrightarrow> fresh k s \<Longrightarrow> wf (issue t k s)"
    and issue_held: "wf s \<Longrightarrow> fresh k s \<Longrightarrow> held (issue t k s) k = Some t"
    and issue_other: "wf s \<Longrightarrow> fresh k s \<Longrightarrow> j \<noteq> k \<Longrightarrow> held (issue t k s) j = held s j \<or>
      (held (issue t k s) j = None \<and> (\<exists>i. held s j = Some i \<and> ttl \<le> t - i))"
    and redeem_wf: "wf s \<Longrightarrow> wf (snd (redeem t k s))"
    and redeem_result: "wf s \<Longrightarrow> fst (redeem t k s) \<longleftrightarrow> (\<exists>i. held s k = Some i \<and> t - i < ttl)"
    and redeem_held: "wf s \<Longrightarrow> held (snd (redeem t k s)) = (held s)(k := None)"
begin

definition step :: "use \<Rightarrow> 's \<Rightarrow> 's" where
  "step u s = (case u of Issue t k \<Rightarrow> issue t k s | Redeem t k \<Rightarrow> snd (redeem t k s))"

definition after :: "use list \<Rightarrow> 's" where
  "after us = fold step us start"

text \<open>Every key is fresh when it is issued.\<close>

definition feasible :: "use list \<Rightarrow> bool" where
  "feasible us \<longleftrightarrow> (\<forall>ys t k zs. us = ys @ Issue t k # zs \<longrightarrow> fresh k (after ys))"

lemma feasible_snoc: "feasible (us @ [u]) \<Longrightarrow> feasible us \<and> (\<forall>t k. u = Issue t k \<longrightarrow> fresh k (after us))"
  unfolding feasible_def by (metis append.assoc append_Cons append_Nil)

lemma after_snoc: "after (us @ [u]) = step u (after us)"
  by (simp add: after_def)

text \<open>What is held is what is outstanding, except for keys that were dropped because they had expired.\<close>

lemma held_after:
  "feasible us \<Longrightarrow> wf (after us) \<and> (held (after us) k = outstanding k us \<or>
    (held (after us) k = None \<and> (\<exists>i. outstanding k us = Some i \<and> (\<exists>u \<in> set us. ttl \<le> use_time u - i))))"
proof (induction us rule: rev_induct)
  case Nil
  then show ?case by (simp add: after_def start)
next
  case (snoc u us)
  note IH = snoc.IH [OF conjunct1 [OF feasible_snoc [OF snoc.prems]]]
  show ?case
  proof (cases u)
    case (Redeem t j)
    then show ?thesis using IH by (auto simp: after_snoc step_def redeem_wf redeem_held)
  next
    case (Issue t j)
    then have "fresh j (after us)" using feasible_snoc [OF snoc.prems] by simp
    then show ?thesis
      using IH Issue issue_held [of "after us" j t] issue_other [of "after us" j k t]
      by (cases "j = k") (auto simp: after_snoc step_def issue_wf)
  qed
qed

lemma redeem_exact:
  assumes "feasible us" and "\<forall>u \<in> set us. use_time u \<le> t"
  shows "fst (redeem t k (after us)) \<longleftrightarrow> (\<exists>i. outstanding k us = Some i \<and> t - i < ttl)"
proof -
  note held = held_after [OF assms(1), of k]
  have late: "ttl \<le> t - i" if "\<exists>u \<in> set us. ttl \<le> use_time u - i" for i
    using that assms(2) by (meson diff_le_mono le_trans)
  show ?thesis
  proof (cases "held (after us) k = outstanding k us")
    case True
    then show ?thesis using redeem_result [of "after us" t k] held by simp
  next
    case False
    then obtain i where "held (after us) k = None" "outstanding k us = Some i" "ttl \<le> t - i"
      using held late by blast
    then show ?thesis using redeem_result [of "after us" t k] held by simp
  qed
qed

end

text \<open>The laws hold of both stores; a ticket is fresh unless the same token is still stored.\<close>

lemma first_match_None: "first_match k ts = None \<longleftrightarrow> k \<notin> fst ` set ts"
  by (induction k ts rule: first_match.induct) (auto simp: token_verify_def)

lemma first_match_Some:
  "first_match k ts = Some i \<Longrightarrow> i < length ts \<and> fst (ts ! i) = k \<and> map_of ts k = Some (snd (ts ! i)) \<and>
    (distinct (map fst ts) \<longrightarrow> map_of (take i ts @ drop (Suc i) ts) = (map_of ts)(k := None))"
proof (induction k ts arbitrary: i rule: first_match.induct)
  case (2 k token at ts)
  show ?case
  proof (cases "token = k")
    case True
    then have "i = 0" using 2 by (simp add: token_verify_def)
    then show ?thesis using True by (auto simp: fun_eq_iff map_of_eq_None_iff)
  next
    case False
    then obtain i' where i': "first_match k ts = Some i'" "i = Suc i'" using 2 by (auto simp: token_verify_def)
    then show ?thesis using "2.IH" [OF _ i'(1)] False by (auto simp: token_verify_def fun_upd_twist)
  qed
qed simp

interpretation ticket: one_time_store "ticket_issue ttl" "ticket_redeem ttl" map_of
  "\<lambda>k ts. k \<notin> fst ` set ts" "\<lambda>ts. distinct (map fst ts)" ttl "[]" for ttl
proof
  show "distinct (map fst (ticket_issue ttl t k s))" if "distinct (map fst s)" "k \<notin> fst ` set s" for s t k
    using that by (auto simp: ticket_issue_def distinct_map_filter)
  have dropped: "map_of (filter (\<lambda>(_, issued). t - issued < ttl) s) j = map_of s j \<or>
      (map_of (filter (\<lambda>(_, issued). t - issued < ttl) s) j = None \<and> (\<exists>i. map_of s j = Some i \<and> ttl \<le> t - i))"
    if "distinct (map fst s)" for s j t
    using that
  proof (induction s)
    case (Cons p s)
    have *: "map_of (filter Q s) (fst p) = None" for Q
      using Cons.prems by (auto simp: map_of_eq_None_iff)
    show ?case using Cons.IH Cons.prems * by (cases p) auto
  qed simp
  then show "map_of (ticket_issue ttl t k s) j = map_of s j \<or>
      (map_of (ticket_issue ttl t k s) j = None \<and> (\<exists>i. map_of s j = Some i \<and> ttl \<le> t - i))"
    if "distinct (map fst s)" "k \<notin> fst ` set s" "j \<noteq> k" for s k j t
  proof -
    have "map_of (ticket_issue ttl t k s) j = map_of (filter (\<lambda>(_, issued). t - issued < ttl) s) j"
      using that(3) by (simp add: ticket_issue_def map_add_def split: option.split)
    with dropped [OF that(1), of t j] show ?thesis by (simp only:)
  qed
  show "map_of (ticket_issue ttl t k s) k = Some t" if "distinct (map fst s)" "k \<notin> fst ` set s" for s k t
  proof -
    have "map_of (filter (\<lambda>(_, issued). t - issued < ttl) s) k = None"
      using that(2) by (auto simp: map_of_eq_None_iff)
    then show ?thesis by (simp add: ticket_issue_def map_add_def)
  qed
  show "distinct (map fst (snd (ticket_redeem ttl t k s)))" if "distinct (map fst s)" for s k t
  proof (cases "first_match k s")
    case (Some i)
    have "map fst (take i s @ drop (Suc i) s) = take i (map fst s) @ drop (Suc i) (map fst s)"
      by (simp add: take_map drop_map)
    moreover have "distinct (take i (map fst s) @ drop (Suc i) (map fst s))"
      using that by (simp add: set_take_disj_set_drop_if_distinct)
    ultimately show ?thesis using Some by (simp add: ticket_redeem_def)
  qed (simp add: ticket_redeem_def that)
  show "fst (ticket_redeem ttl t k s) \<longleftrightarrow> (\<exists>i. map_of s k = Some i \<and> t - i < ttl)" if "distinct (map fst s)" for s k t
    using first_match_Some [of k s] first_match_None [of k s] map_of_eq_None_iff [of s k]
    by (cases "first_match k s") (auto simp: ticket_redeem_def)
  show "map_of (snd (ticket_redeem ttl t k s)) = (map_of s)(k := None)" if "distinct (map fst s)" for s k t
    using first_match_Some [of k s] first_match_None [of k s] that
    by (cases "first_match k s") (auto simp: ticket_redeem_def fun_eq_iff map_of_eq_None_iff)
qed simp_all

interpretation code: one_time_store pair_issue pair_redeem "\<lambda>m. m" "\<lambda>_ _. True" "\<lambda>_. True"
  "secs PAIR_TTL_SECS" "Map.empty"
  by unfold_locales (auto simp: pair_issue_def pair_redeem_def split: option.split)

subsection \<open>The endpoints\<close>

record gate =
  gt_tickets :: tickets
  gt_codes :: codes

datatype reply =
    Unauthorized
  | TicketGranted string nat
  | CodeGranted string nat
  | TokenGranted string
  | Upgraded

text \<open>\<open>POST /auth/ticket\<close>; \<open>fresh\<close> is the token it generates.\<close>

definition issue_ticket :: "string \<Rightarrow> nat \<Rightarrow> instant \<Rightarrow> headers \<Rightarrow> string \<Rightarrow> gate \<Rightarrow> reply \<times> gate" where
  "issue_ticket token ttl_secs now headers fresh g =
     (if \<not> bearer_authorized headers token then (Unauthorized, g)
      else (TicketGranted fresh ttl_secs, g\<lparr>gt_tickets := ticket_issue (secs ttl_secs) now fresh (gt_tickets g)\<rparr>))"

text \<open>\<open>POST /pair/generate\<close>, with the code it draws, and \<open>POST /pair/exchange\<close>.\<close>

definition generate :: "string \<Rightarrow> instant \<Rightarrow> headers \<Rightarrow> string \<Rightarrow> gate \<Rightarrow> reply \<times> gate" where
  "generate token now headers code g =
     (if \<not> bearer_authorized headers token then (Unauthorized, g)
      else (CodeGranted code PAIR_TTL_SECS, g\<lparr>gt_codes := pair_issue now code (gt_codes g)\<rparr>))"

definition exchange :: "string \<Rightarrow> instant \<Rightarrow> string \<Rightarrow> gate \<Rightarrow> reply \<times> gate" where
  "exchange token now code g =
     (let (valid, codes) = pair_redeem now code (gt_codes g); g = g\<lparr>gt_codes := codes\<rparr>
      in if valid then (TokenGranted token, g) else (Unauthorized, g))"

definition ws_handler :: "string \<Rightarrow> nat \<Rightarrow> instant \<Rightarrow> headers \<Rightarrow> string option \<Rightarrow> gate \<Rightarrow> reply \<times> gate" where
  "ws_handler token ttl_secs now headers query_ticket g =
     (let (authorized, g) =
        (if bearer_authorized headers token then (True, g)
         else (case query_ticket of
            Some ticket \<Rightarrow> (let (valid, ts) = ticket_redeem (secs ttl_secs) now ticket (gt_tickets g)
                            in (valid, g\<lparr>gt_tickets := ts\<rparr>))
          | None \<Rightarrow> (False, g)))
      in if \<not> authorized then (Unauthorized, g) else (Upgraded, g))"

datatype request =
    PostTicket headers string
  | PostPair headers string
  | Exchange string
  | Upgrade headers "string option"

fun serve :: "string \<Rightarrow> nat \<Rightarrow> instant \<times> request \<Rightarrow> gate \<Rightarrow> reply \<times> gate" where
  "serve token ttl (now, PostTicket h fresh) g = issue_ticket token ttl now h fresh g"
| "serve token ttl (now, PostPair h code) g = generate token now h code g"
| "serve token ttl (now, Exchange code) g = exchange token now code g"
| "serve token ttl (now, Upgrade h q) g = ws_handler token ttl now h q g"

definition gate_start :: gate where
  "gate_start = \<lparr>gt_tickets = [], gt_codes = Map.empty\<rparr>"

definition gate_after :: "string \<Rightarrow> nat \<Rightarrow> (instant \<times> request) list \<Rightarrow> gate" where
  "gate_after token ttl h = fold (\<lambda>r g. snd (serve token ttl r g)) h gate_start"

text \<open>What a request does to the two stores.\<close>

fun ticket_uses :: "string \<Rightarrow> instant \<times> request \<Rightarrow> use list" where
  "ticket_uses token (now, PostTicket h fresh) = (if bearer_authorized h token then [Issue now fresh] else [])"
| "ticket_uses token (now, Upgrade h (Some ticket)) = (if bearer_authorized h token then [] else [Redeem now ticket])"
| "ticket_uses token _ = []"

fun code_uses :: "string \<Rightarrow> instant \<times> request \<Rightarrow> use list" where
  "code_uses token (now, PostPair h code) = (if bearer_authorized h token then [Issue now code] else [])"
| "code_uses token (now, Exchange code) = [Redeem now code]"
| "code_uses token _ = []"

abbreviation ticket_history :: "string \<Rightarrow> (instant \<times> request) list \<Rightarrow> use list" where
  "ticket_history token h \<equiv> concat (map (ticket_uses token) h)"

abbreviation code_history :: "string \<Rightarrow> (instant \<times> request) list \<Rightarrow> use list" where
  "code_history token h \<equiv> concat (map (code_uses token) h)"

fun request_token :: "instant \<times> request \<Rightarrow> string list" where
  "request_token (_, PostTicket _ fresh) = [fresh]"
| "request_token _ = []"

abbreviation ticket_tokens :: "(instant \<times> request) list \<Rightarrow> string list" where
  "ticket_tokens h \<equiv> concat (map request_token h)"

lemma use_time_history:
  "u \<in> set (ticket_uses token r) \<Longrightarrow> use_time u = fst r" "u \<in> set (code_uses token r) \<Longrightarrow> use_time u = fst r"
  by (induction token r rule: ticket_uses.induct; auto split: if_splits)
     (induction token r rule: code_uses.induct; auto split: if_splits)

lemma gate_after_history:
  "gt_tickets (gate_after token ttl h) = ticket.after (secs ttl) (ticket_history token h) \<and>
   gt_codes (gate_after token ttl h) = code.after (code_history token h)"
proof (induction h rule: rev_induct)
  case Nil
  then show ?case by (simp add: gate_after_def gate_start_def ticket.after_def code.after_def)
next
  case (snoc r h)
  obtain now q where r: "r = (now, q)" by (cases r)
  have "gate_after token ttl (h @ [r]) = snd (serve token ttl r (gate_after token ttl h))"
    by (simp add: gate_after_def)
  with snoc r show ?case
    by (cases q)
       (auto simp: issue_ticket_def generate_def exchange_def ws_handler_def ticket.after_snoc code.after_snoc
          ticket.step_def code.step_def Let_def split_def split: option.splits)
qed

text \<open>Tokens that never repeat are fresh: the store only holds tokens that were issued.\<close>

fun use_token :: "use \<Rightarrow> string list" where
  "use_token (Issue _ k) = [k]"
| "use_token (Redeem _ _) = []"

abbreviation issued :: "use list \<Rightarrow> string list" where
  "issued us \<equiv> concat (map use_token us)"

lemma tickets_issued: "fst ` set (ticket.after ttl us) \<subseteq> set (issued us)"
proof (induction us rule: rev_induct)
  case (snoc u us)
  have "fst ` set (snd (ticket_redeem ttl t k ts)) \<subseteq> fst ` set ts" "fst ` set (ticket_issue ttl t k ts) \<subseteq> insert k (fst ` set ts)"
    for t k and ts :: tickets
    by (auto simp: ticket_redeem_def ticket_issue_def dest: in_set_takeD in_set_dropD split: option.splits)
  moreover have "ticket.after ttl (us @ [u]) = ticket.step ttl u (ticket.after ttl us)" by (rule ticket.after_snoc)
  moreover have "set (issued (us @ [u])) = set (issued us) \<union> set (use_token u)" by simp
  ultimately show ?case using snoc by (cases u) (simp_all add: ticket.step_def del: set_concat, blast+)
qed (simp add: ticket.after_def)

lemma ticket_feasible: "distinct (issued us) \<Longrightarrow> ticket.feasible ttl us"
  using tickets_issued by (fastforce simp: ticket.feasible_def)

lemma issued_uses: "issued (ticket_uses token r) = [] \<or> issued (ticket_uses token r) = request_token r"
  by (induction token r rule: ticket_uses.induct) auto

lemma issued_history:
  "set (issued (ticket_history token h)) \<subseteq> set (ticket_tokens h) \<and>
   (distinct (ticket_tokens h) \<longrightarrow> distinct (issued (ticket_history token h)))"
proof (induction h)
  case (Cons r h)
  have *: "set (a @ as) \<subseteq> set (b @ bs) \<and> (distinct (b @ bs) \<longrightarrow> distinct (a @ as))"
    if "a = [] \<or> a = b" "set as \<subseteq> set bs \<and> (distinct bs \<longrightarrow> distinct as)" for a as b bs :: "string list"
    using that by auto
  have "issued (ticket_history token (r # h)) = issued (ticket_uses token r) @ issued (ticket_history token h)"
    "ticket_tokens (r # h) = request_token r @ ticket_tokens h" by simp_all
  then show ?case using * [OF issued_uses [of token r] Cons.IH] by simp
qed simp

text \<open>C21: after any requests to the ticket, pairing and upgrade endpoints, a WebSocket upgrade is let in exactly
  when it carries the bearer token, or a ticket that an authorised request was issued within its lifetime
  and that no earlier upgrade without the bearer token presented; and a pairing code is
  exchanged for the bearer token exactly when an authorised request drew it within the last 60 seconds and
  it was not presented since.  So a ticket or code opens at most one door.\<close>

theorem credentials_single_use:
  fixes token :: string and ttl :: nat and h :: "(instant \<times> request) list" and now :: instant
  assumes "\<forall>r \<in> set h. fst r \<le> now" and "distinct (ticket_tokens h)"
  defines "g \<equiv> gate_after token ttl h"
  shows "(fst (ws_handler token ttl now headers q g) = Upgraded \<longleftrightarrow> bearer_authorized headers token \<or>
      (\<exists>tk i. q = Some tk \<and> outstanding tk (ticket_history token h) = Some i \<and> now - i < secs ttl)) \<and>
    (fst (exchange token now c g) = TokenGranted token \<longleftrightarrow>
      (\<exists>i. outstanding c (code_history token h) = Some i \<and> now - i < secs 60))"
proof -
  have "\<forall>u \<in> set (ticket_history token h). use_time u \<le> now" "\<forall>u \<in> set (code_history token h). use_time u \<le> now"
    using assms(1) use_time_history by fastforce+
  moreover have "ticket.feasible (secs ttl) (ticket_history token h)"
    using ticket_feasible issued_history assms(2) by blast
  moreover have "code.feasible (code_history token h)" by (simp add: code.feasible_def)
  ultimately have "fst (ticket_redeem (secs ttl) now tk (gt_tickets g)) \<longleftrightarrow>
      (\<exists>i. outstanding tk (ticket_history token h) = Some i \<and> now - i < secs ttl)"
    "fst (pair_redeem now c (gt_codes g)) \<longleftrightarrow>
      (\<exists>i. outstanding c (code_history token h) = Some i \<and> now - i < secs 60)" for tk
    using ticket.redeem_exact code.redeem_exact gate_after_history [of token ttl h]
    by (simp_all add: g_def PAIR_TTL_SECS_def)
  then show ?thesis
    by (cases q) (simp_all add: ws_handler_def exchange_def Let_def split_def)
qed

subsection \<open>The login limiter\<close>

definition U32_MAX :: nat where "U32_MAX = 2 ^ 32 - 1"

record limiter =
  li_window :: nat
  li_max :: nat
  li_failures :: "string \<rightharpoonup> nat \<times> instant"

definition limiter_new :: "nat \<Rightarrow> nat \<Rightarrow> limiter" where
  "limiter_new limit window_secs = \<lparr>li_window = secs window_secs, li_max = limit, li_failures = Map.empty\<rparr>"

definition limiter_prune :: "instant \<Rightarrow> limiter \<Rightarrow> limiter" where
  "limiter_prune now l = l\<lparr>li_failures := (\<lambda>k. case li_failures l k of
     None \<Rightarrow> None | Some (cnt, first) \<Rightarrow> if now - first < li_window l then Some (cnt, first) else None)\<rparr>"

definition is_locked :: "instant \<Rightarrow> string \<Rightarrow> limiter \<Rightarrow> bool \<times> limiter" where
  "is_locked now key l =
     (let l = limiter_prune now l
      in if li_max l = 0 then (False, l)
         else (case li_failures l key of None \<Rightarrow> False | Some (cnt, _) \<Rightarrow> li_max l \<le> cnt, l))"

definition record_failure :: "instant \<Rightarrow> string \<Rightarrow> limiter \<Rightarrow> limiter" where
  "record_failure now key l =
     (let l = limiter_prune now l;
          (cnt, first) = (case li_failures l key of None \<Rightarrow> (0, now) | Some e \<Rightarrow> e)
      in l\<lparr>li_failures := (li_failures l)(key \<mapsto> (min (cnt + 1) U32_MAX, first))\<rparr>)"

definition limiter_clear :: "string \<Rightarrow> limiter \<Rightarrow> limiter" where
  "limiter_clear key l = l\<lparr>li_failures := (li_failures l)(key := None)\<rparr>"

subsection \<open>Login\<close>

datatype ip_addr = V4 nat nat nat nat | V6 nat

fun is_loopback :: "ip_addr \<Rightarrow> bool" where
  "is_loopback (V4 a b c d) \<longleftrightarrow> a = 127"
| "is_loopback (V6 n) \<longleftrightarrow> n = 1"

text \<open>\<open>v6\<close> prints an IPv6 address.\<close>

fun ip_str :: "(nat \<Rightarrow> string) \<Rightarrow> ip_addr \<Rightarrow> string" where
  "ip_str v6 (V4 a b c d) = nat_str a @ ''.'' @ nat_str b @ ''.'' @ nat_str c @ ''.'' @ nat_str d"
| "ip_str v6 (V6 n) = v6 n"

definition ascii_lower :: "char \<Rightarrow> char" where
  "ascii_lower c = (if 65 \<le> (of_char c :: nat) \<and> (of_char c :: nat) \<le> 90 then char_of ((of_char c :: nat) + 32) else c)"

definition eq_ignore_ascii_case :: "string \<Rightarrow> string \<Rightarrow> bool" where
  "eq_ignore_ascii_case a b \<longleftrightarrow> map ascii_lower a = map ascii_lower b"

definition forwarded_proto_is_https :: "headers \<Rightarrow> bool" where
  "forwarded_proto_is_https headers =
     (case headers ''x-forwarded-proto'' of None \<Rightarrow> False | Some p \<Rightarrow> eq_ignore_ascii_case p ''https'')"

definition tls_allowed :: "headers \<Rightarrow> ip_addr \<Rightarrow> bool" where
  "tls_allowed headers addr \<longleftrightarrow> is_loopback addr \<or> forwarded_proto_is_https headers"

definition forwarded_client :: "headers \<Rightarrow> string option" where
  "forwarded_client headers =
     (let first = (case headers ''x-forwarded-for'' of None \<Rightarrow> [] | Some v \<Rightarrow> trim (hd (split_on CHR '','' v)))
      in if first \<noteq> [] then Some first
         else (case headers ''x-real-ip'' of
            None \<Rightarrow> None | Some v \<Rightarrow> if trim v = [] then None else Some (trim v)))"

definition client_key :: "(nat \<Rightarrow> string) \<Rightarrow> headers \<Rightarrow> ip_addr \<Rightarrow> string" where
  "client_key v6 headers addr =
     (case (if is_loopback addr then forwarded_client headers else None) of
        Some forwarded \<Rightarrow> forwarded | None \<Rightarrow> ip_str v6 addr)"

text \<open>
  What a login reads besides the limiter: the setting, the bearer token it may disclose, the argon2 and
  hexadecimal libraries, the user table, and whether its two queries fail.
\<close>

record login_env =
  le_require_tls :: bool
  le_token :: string
  le_argon2 :: "string \<Rightarrow> string \<Rightarrow> string option"
  le_dec :: "string \<Rightarrow> string option"
  le_v6 :: "nat \<Rightarrow> string"
  le_db :: db

record login_request =
  lr_headers :: headers
  lr_addr :: ip_addr
  lr_username :: string
  lr_password :: string
  lr_lookup_fails :: bool
  lr_count_fails :: bool

datatype login_reply =
    TlsRequired
  | RateLimited
  | LoginError
  | NoUsersConfigured
  | BadCredentials
  | LoggedIn string

definition login_key :: "login_env \<Rightarrow> login_request \<Rightarrow> string" where
  "login_key e q = lr_username q @ '':'' @ client_key (le_v6 e) (lr_headers q) (lr_addr q)"

definition login :: "login_env \<Rightarrow> instant \<Rightarrow> login_request \<Rightarrow> limiter \<Rightarrow> login_reply \<times> limiter" where
  "login e now q l =
     (if le_require_tls e \<and> \<not> tls_allowed (lr_headers q) (lr_addr q) then (TlsRequired, l)
      else
        let key = login_key e q;
            (locked, l) = is_locked now key l
        in if locked then (RateLimited, l)
           else if lr_lookup_fails q then (LoginError, l)
           else case get_user_hash (le_db e) (lr_username q) of
             None \<Rightarrow>
               (let users = (if lr_count_fails q then 0 else count_users (le_db e))
                in if users = 0 then (NoUsersConfigured, l)
                   else (BadCredentials, record_failure now key l))
           | Some hash \<Rightarrow>
               if \<not> verify_password (le_argon2 e) (le_dec e) (lr_password q) hash
               then (BadCredentials, record_failure now key l)
               else (LoggedIn (le_token e), limiter_clear key l))"

fun login_all :: "login_env \<Rightarrow> (instant \<times> login_request) list \<Rightarrow> limiter \<Rightarrow> login_reply list" where
  "login_all e [] l = []"
| "login_all e ((now, q) # qs) l = (let (r, l) = login e now q l in r # login_all e qs l)"

subsection \<open>Passwords\<close>

text \<open>A stored password hash accepts, whatever its salt, exactly the passwords that argon2 maps to the same
  value, the one it was made from among them; a value without the separator, with parts that are not
  hexadecimal, or with a hash of another length accepts nothing.\<close>

theorem password_roundtrip:
  fixes argon2 :: "string \<Rightarrow> string \<Rightarrow> string option" and enc :: "string \<Rightarrow> string" and dec :: "string \<Rightarrow> string option"
    and salt hash password stored :: string
  assumes "argon2 password salt = Some hash" and "length hash = 32"
    and "dec (enc salt) = Some salt" and "dec (enc hash) = Some hash" and "CHR '':'' \<notin> set (enc salt)"
    and "hash_password argon2 enc salt password = Some stored"
  shows "verify_password argon2 dec password stored \<and>
    (\<forall>p. verify_password argon2 dec p stored \<longleftrightarrow> argon2 p salt = Some hash) \<and>
    (\<forall>bad p. CHR '':'' \<notin> set bad \<longrightarrow> \<not> verify_password argon2 dec p bad)"
proof -
  have "stored = enc salt @ CHR '':'' # enc hash" using assms(1,6) by (simp add: hash_password_def)
  then have "split_once CHR '':'' stored = Some (enc salt, enc hash)" using assms(5) by simp
  then have "verify_password argon2 dec p stored \<longleftrightarrow> argon2 p salt = Some hash" for p
    using assms(2-4) by (auto simp: verify_password_def PASSWORD_HASH_LEN_def split: option.splits)
  moreover have "\<not> verify_password argon2 dec p bad" if "CHR '':'' \<notin> set bad" for bad p
    using that by (simp add: verify_password_def split_once_def)
  ultimately show ?thesis using assms(1) by blast
qed

subsection \<open>Throttling\<close>

definition wrong_login :: "login_env \<Rightarrow> login_request \<Rightarrow> bool" where
  "wrong_login e q \<longleftrightarrow>
     (le_require_tls e \<longrightarrow> tls_allowed (lr_headers q) (lr_addr q)) \<and> \<not> lr_lookup_fails q \<and>
     (case get_user_hash (le_db e) (lr_username q) of
        None \<Rightarrow> \<not> lr_count_fails q \<and> users (le_db e) \<noteq> []
      | Some hash \<Rightarrow> \<not> verify_password (le_argon2 e) (le_dec e) (lr_password q) hash)"

definition failures_since :: "limiter \<Rightarrow> string \<Rightarrow> instant \<Rightarrow> nat \<Rightarrow> bool" where
  "failures_since l k t0 c \<longleftrightarrow> c \<le> li_max l \<and>
     ((li_failures l k = None \<and> c = 0) \<or> (\<exists>first. li_failures l k = Some (c, first) \<and> t0 \<le> first))"

lemma prune_simps [simp]:
  "li_max (limiter_prune now l) = li_max l" "li_window (limiter_prune now l) = li_window l"
  by (simp_all add: limiter_prune_def)

lemma failures_since_prune:
  assumes "failures_since l k t0 c" and "now - t0 < li_window l"
  shows "failures_since (limiter_prune now l) k t0 c \<and> li_failures (limiter_prune now l) k = li_failures l k"
proof -
  have "now - first < li_window l" if "t0 \<le> first" for first
    using assms(2) that by linarith
  then show ?thesis using assms(1) by (auto simp: failures_since_def limiter_prune_def)
qed

lemma is_locked_eq:
  "is_locked now key l = (0 < li_max l \<and> (case li_failures (limiter_prune now l) key of
     None \<Rightarrow> False | Some (cnt, _) \<Rightarrow> li_max l \<le> cnt), limiter_prune now l)"
  by (simp add: is_locked_def Let_def split: option.split)

lemma record_failure_since:
  assumes "failures_since l k t0 c" and "now - t0 < li_window l" and "t0 \<le> now" and "c < li_max l" and "li_max l \<le> U32_MAX"
  shows "failures_since (record_failure now k l) k t0 (c + 1) \<and> li_max (record_failure now k l) = li_max l \<and>
    li_window (record_failure now k l) = li_window l"
  using failures_since_prune [OF assms(1,2)] assms(3-5)
  by (cases "li_failures l k") (auto simp: record_failure_def failures_since_def Let_def split_def)

lemma other_key_since:
  assumes "failures_since l k t0 c" and "now - t0 < li_window l" and "key \<noteq> k"
  shows "failures_since (record_failure now key l) k t0 c" "failures_since (limiter_clear key l) k t0 c"
  using failures_since_prune [OF assms(1,2)] assms(1,3)
  by (auto simp: record_failure_def limiter_clear_def failures_since_def Let_def split_def)

lemma login_limits:
  "li_max (snd (login e now q l)) = li_max l" "li_window (snd (login e now q l)) = li_window l"
  by (auto simp: login_def is_locked_eq record_failure_def limiter_clear_def Let_def split_def split: option.splits)

lemma login_other:
  assumes "failures_since l k t0 c" and "now - t0 < li_window l" and "login_key e q \<noteq> k"
  shows "failures_since (snd (login e now q l)) k t0 c"
proof -
  have p: "failures_since (limiter_prune now l) k t0 c" using failures_since_prune [OF assms(1,2)] by simp
  have w: "now - t0 < li_window (limiter_prune now l)" using assms(2) by simp
  show ?thesis
    using p assms(1) other_key_since [OF p w assms(3)]
    by (auto simp: login_def is_locked_eq Let_def split: option.splits)
qed

lemma login_wrong:
  assumes "failures_since l (login_key e q) t0 c" and "now - t0 < li_window l" and "t0 \<le> now"
    and "wrong_login e q" and "0 < li_max l" and "li_max l \<le> U32_MAX"
  shows "fst (login e now q l) = (if c < li_max l then BadCredentials else RateLimited) \<and>
    failures_since (snd (login e now q l)) (login_key e q) t0 (if c < li_max l then c + 1 else c)"
proof -
  let ?k = "login_key e q" and ?l = "limiter_prune now l"
  have p: "failures_since ?l ?k t0 c" using failures_since_prune [OF assms(1,2)] by simp
  have locked: "fst (is_locked now ?k l) \<longleftrightarrow> c = li_max l" "snd (is_locked now ?k l) = ?l"
    using p assms(5) by (auto simp: is_locked_eq failures_since_def)
  have c: "c \<le> li_max l" using p by (simp add: failures_since_def)
  show ?thesis
  proof (cases "c < li_max l")
    case True
    then have "login e now q l = (BadCredentials, record_failure now ?k ?l)"
      using assms(4) locked by (auto simp: login_def wrong_login_def Let_def split_def count_users_def split: option.splits)
    then show ?thesis using True record_failure_since [OF p] assms by simp
  next
    case False
    then have "login e now q l = (RateLimited, ?l)"
      using assms(4) locked c by (auto simp: login_def wrong_login_def Let_def split_def)
    then show ?thesis using False p by simp
  qed
qed

definition replies_for :: "login_env \<Rightarrow> string \<Rightarrow> (instant \<times> login_request) list \<Rightarrow> login_reply list \<Rightarrow> login_reply list" where
  "replies_for e k qs rs = map snd (filter (\<lambda>((_, q), _). login_key e q = k) (zip qs rs))"

lemma login_all_throttled:
  assumes "failures_since l k t0 c" and "0 < li_max l" and "li_max l \<le> U32_MAX"
    and "\<forall>(t, q) \<in> set qs. t0 \<le> t \<and> t - t0 < li_window l \<and> (login_key e q = k \<longrightarrow> wrong_login e q)"
  shows "replies_for e k qs (login_all e qs l) =
    (let n = length (filter (\<lambda>(_, q). login_key e q = k) qs); free = li_max l - c
     in replicate (min n free) BadCredentials @ replicate (n - free) RateLimited)"
  using assms
proof (induction qs arbitrary: l c)
  case Nil
  then show ?case by (simp add: replies_for_def)
next
  case (Cons p qs)
  obtain t q where p: "p = (t, q)" by (cases p)
  define l' where "l' = snd (login e t q l)"
  have t: "t0 \<le> t" "t - t0 < li_window l" using Cons.prems(4) p by auto
  have rest: "\<forall>(t, q) \<in> set qs. t0 \<le> t \<and> t - t0 < li_window l' \<and> (login_key e q = k \<longrightarrow> wrong_login e q)"
    using Cons.prems(4) by (auto simp: l'_def login_limits)
  have lim: "0 < li_max l'" "li_max l' \<le> U32_MAX" "li_max l' = li_max l" using Cons.prems by (simp_all add: l'_def login_limits)
  have all: "login_all e (p # qs) l = fst (login e t q l) # login_all e qs l'"
    by (simp add: p l'_def Let_def split_def)
  show ?case
  proof (cases "login_key e q = k")
    case False
    then have "failures_since l' k t0 c" using login_other [OF Cons.prems(1) t(2)] by (simp add: l'_def)
    from Cons.IH [OF this lim(1,2) rest] show ?thesis
      unfolding all using False by (simp add: replies_for_def p lim(3))
  next
    case True
    have wrong: "wrong_login e q" using Cons.prems(4) p True by auto
    have step: "fst (login e t q l) = (if c < li_max l then BadCredentials else RateLimited)"
      "failures_since l' k t0 (if c < li_max l then c + 1 else c)"
      using login_wrong [of l e q t0 c t] Cons.prems(1-3) t wrong True by (simp_all add: l'_def)
    have "c \<le> li_max l" using Cons.prems(1) by (simp add: failures_since_def)
    then show ?thesis
      unfolding all using True Cons.IH [OF step(2) lim(1,2) rest] step(1)
      by (cases "c < li_max l") (auto simp: replies_for_def p lim(3) Let_def Suc_diff_Suc simp flip: replicate_Suc)
  qed
qed


lemma login_unseen:
  assumes "li_failures l (login_key e q) = None" and "wrong_login e q"
  shows "fst (login e now q l) = BadCredentials \<and>
    (\<forall>k. k \<noteq> login_key e q \<longrightarrow> li_failures l k = None \<longrightarrow> li_failures (snd (login e now q l)) k = None)"
proof -
  have none: "li_failures (limiter_prune t l') k = None" if "li_failures l' k = None" for t l' k
    using that by (simp add: limiter_prune_def)
  have "login e now q l = (BadCredentials, record_failure now (login_key e q) (limiter_prune now l))"
    using assms none by (auto simp: login_def is_locked_eq wrong_login_def Let_def count_users_def split: option.splits)
  then show ?thesis using none by (auto simp: record_failure_def Let_def split_def)
qed

lemma login_all_distinct:
  assumes "distinct (map (\<lambda>(_, q). login_key e q) qs)"
    and "\<forall>(_, q) \<in> set qs. wrong_login e q \<and> li_failures l (login_key e q) = None"
  shows "login_all e qs l = replicate (length qs) BadCredentials"
  using assms
proof (induction qs arbitrary: l)
  case (Cons p qs)
  obtain t q where p: "p = (t, q)" by (cases p)
  have here: "wrong_login e q" "li_failures l (login_key e q) = None" using Cons.prems(2) p by auto
  have "li_failures (snd (login e t q l)) (login_key e q') = None" if "(t', q') \<in> set qs" for t' q'
  proof -
    have "login_key e q' \<noteq> login_key e q" using Cons.prems(1) that by (force simp: p)
    then show ?thesis using login_unseen [OF here(2,1), of t] Cons.prems(2) that by auto
  qed
  then have "\<forall>(_, q') \<in> set qs. wrong_login e q' \<and> li_failures (snd (login e t q l)) (login_key e q') = None"
    using Cons.prems(2) by auto
  then have "login_all e qs (snd (login e t q l)) = replicate (length qs) BadCredentials"
    using Cons.IH Cons.prems(1) by simp
  then show ?case using login_unseen [OF here(2,1), of t] by (simp add: p Let_def split_def)
qed simp

text \<open>Behind a reverse proxy on the daemon's host, the bucket of a login is named by the first entry of the
  client's own \<open>X-Forwarded-For\<close> header; a client that sends a new one with every attempt is never refused,
  however small the limit: every wrong password it tries for one user is checked.\<close>

theorem login_throttle_bypass:
  fixes e :: login_env and l :: limiter and user :: string and qs :: "(instant \<times> login_request) list"
  assumes "\<forall>(t, q) \<in> set qs. lr_username q = user \<and> is_loopback (lr_addr q) \<and> forwarded_client (lr_headers q) \<noteq> None"
    and "distinct (map (\<lambda>(t, q). forwarded_client (lr_headers q)) qs)"
    and "\<forall>(t, q) \<in> set qs. wrong_login e q" and "li_failures l = Map.empty"
  shows "login_all e qs l = replicate (length qs) BadCredentials"
proof (rule login_all_distinct)
  have "login_key e q = user @ '':'' @ the (forwarded_client (lr_headers q))" if "(t, q) \<in> set qs" for t q
    using assms(1) that by (auto simp: login_key_def client_key_def)
  then have keys: "map (\<lambda>(t, q). login_key e q) qs =
      map (\<lambda>c. user @ '':'' @ the c) (map (\<lambda>(t, q). forwarded_client (lr_headers q)) qs)"
    by auto
  have "None \<notin> set (map (\<lambda>(t, q). forwarded_client (lr_headers q)) qs)" using assms(1) by fastforce
  then have "inj_on (\<lambda>c. user @ '':'' @ the c) (set (map (\<lambda>(t, q). forwarded_client (lr_headers q)) qs))"
    by (intro inj_onI) (metis option.expand same_append_eq)
  then show "distinct (map (\<lambda>(t, q). login_key e q) qs)" unfolding keys by (subst distinct_map) (use assms(2) in blast)
qed (use assms(3,4) in auto)

lemma random_code_digits: "length (random_code a b c d) = 6 \<and> (\<forall>x \<in> set (random_code a b c d). is_digit x)"
proof -
  define n where "n = (unat a + 2 ^ 8 * unat b + 2 ^ 16 * unat c + 2 ^ 24 * unat d) mod 1000000"
  have "n \<le> 999999" by (simp add: n_def)
  then have "length (nat_str n) \<le> length (nat_str 999999)" by (rule length_nat_str_mono)
  also have "\<dots> = 6" by (simp add: nat_str.simps)
  finally have "length (pad6 (nat_str n)) = 6" by (simp add: pad6_def)
  moreover have "\<forall>x \<in> set (pad6 (nat_str n)). is_digit x"
    using nat_str_digits by (auto simp: pad6_def is_digit_def)
  ultimately show ?thesis by (simp add: random_code_def Let_def n_def)
qed

subsection \<open>Concrete requests\<close>

definition bearer_headers :: headers where
  "bearer_headers = [''authorization'' \<mapsto> ''Bearer tok'']"

theorem credentials_single_use_witness:
  "fst (ws_handler ''tok'' 30 (secs 3) Map.empty (Some ''t1'')
     (gate_after ''tok'' 30 [(secs 1, PostTicket bearer_headers ''t1''), (secs 2, Upgrade Map.empty (Some ''t1''))])) \<noteq> Upgraded"
proof -
  have bearer: "bearer_authorized bearer_headers ''tok''" "\<not> bearer_authorized Map.empty ''tok''"
    by (simp_all add: bearer_authorized_def bearer_headers_def strip_prefix_def token_verify_def)
  have "outstanding ''t1'' (ticket_history ''tok'' [(secs 1, PostTicket bearer_headers ''t1''), (secs 2, Upgrade Map.empty (Some ''t1''))]) = None"
    by (simp add: bearer outstanding_def)
  then show ?thesis
    using credentials_single_use [where h = "[(secs 1, PostTicket bearer_headers ''t1''), (secs 2, Upgrade Map.empty (Some ''t1''))]"
        and token = "''tok''" and ttl = 30 and now = "secs 3" and headers = Map.empty and q = "Some ''t1''"] bearer
    by (simp add: secs_def)
qed

theorem password_roundtrip_witness:
  "verify_password (\<lambda>p s. Some (replicate 32 (hd p))) Some ''a'' (''s:'' @ replicate 32 CHR ''a'')"
  using password_roundtrip [where ?argon2.0 = "\<lambda>p s. Some (replicate 32 (hd p))" and enc = id and dec = Some and salt = "''s''"
      and password = "''a''" and hash = "replicate 32 CHR ''a''" and stored = "''s:'' @ replicate 32 CHR ''a''"]
  by (simp add: hash_password_def)

definition login_world :: login_env where
  "login_world = \<lparr>le_require_tls = False, le_token = ''tok'', le_argon2 = (\<lambda>_ _. None), le_dec = Some, le_v6 = (\<lambda>_. []),
     le_db = upsert_user 0 ''alice'' ''s:h'' empty_db\<rparr>"

definition guess :: "string option \<Rightarrow> login_request" where
  "guess via = \<lparr>lr_headers = (\<lambda>k. if k = ''x-forwarded-for'' then via else None), lr_addr = V4 127 0 0 1, lr_username = ''alice'',
     lr_password = ''x'', lr_lookup_fails = False, lr_count_fails = False\<rparr>"

lemma guess_simps [simp]: "lr_username (guess via) = ''alice''" "lr_addr (guess via) = V4 127 0 0 1"
  by (simp_all add: guess_def)

lemma wrong_guess [simp]: "wrong_login login_world (guess via)"
proof -
  have "get_user_hash (le_db login_world) ''alice'' = Some ''s:h''"
    by (simp add: login_world_def get_user_hash_def upsert_user_def empty_db_def lookup_row_def)
  then show ?thesis
    by (simp add: wrong_login_def guess_def login_world_def verify_password_def split: option.splits)
qed


theorem login_throttle_bypass_witness:
  "login_all login_world [(1, guess (Some ''a'')), (2, guess (Some ''b'')), (3, guess (Some ''c''))] (limiter_new 1 300) =
   [BadCredentials, BadCredentials, BadCredentials]"
proof -
  have "forwarded_client (lr_headers (guess (Some ''a''))) = Some ''a''"
    "forwarded_client (lr_headers (guess (Some ''b''))) = Some ''b''"
    "forwarded_client (lr_headers (guess (Some ''c''))) = Some ''c''" by code_simp+
  then show ?thesis
    using login_throttle_bypass [where e = login_world and user = "''alice''" and l = "limiter_new 1 300"
        and qs = "[(1, guess (Some ''a'')), (2, guess (Some ''b'')), (3, guess (Some ''c''))]"]
    by (simp add: limiter_new_def numeral_3_eq_3 del: login_all.simps One_nat_def)
qed

end
