(* ===== verification/Wire.thy ===== *)
theory Wire
  imports Json
begin

text \<open>
  The wire protocol: the JSON-RPC frames (\<open>crates/favetto-wire/src/rpc/mod.rs\<close>) and the length-prefixed
  framing of a byte stream (\<open>crates/favetto-core/src/wire.rs\<close>).  MessagePack is the pair of parameters
  \<open>ser\<close> and \<open>de\<close>, \<open>None\<close> when it fails.
\<close>

record rpc_request =
  rq_id :: nat
  rq_method :: string
  rq_params :: json

record rpc_error_object =
  er_code :: int
  er_message :: string
  er_data :: "json option"

record rpc_response =
  rs_id :: nat
  rs_result :: "json option"
  rs_error :: "rpc_error_object option"

record rpc_notification =
  nt_method :: string
  nt_params :: json

datatype frame =
    FRequest rpc_request
  | FResponse rpc_response
  | FNotification rpc_notification

definition MAX_FRAME_LEN :: nat where "MAX_FRAME_LEN = 64 * 1024 * 1024"

datatype wire_error = FrameTooLarge nat | EncodeError | DecodeError

definition wire_encode :: "('f \<Rightarrow> string option) \<Rightarrow> 'f \<Rightarrow> wire_error + string" where
  "wire_encode ser f = (case ser f of
     None \<Rightarrow> Inl EncodeError
   | Some bytes \<Rightarrow> if length bytes > MAX_FRAME_LEN then Inl (FrameTooLarge (length bytes)) else Inr bytes)"

definition wire_decode :: "(string \<Rightarrow> 'f option) \<Rightarrow> string \<Rightarrow> wire_error + 'f" where
  "wire_decode de buf = (case de buf of None \<Rightarrow> Inl DecodeError | Some f \<Rightarrow> Inr f)"

text \<open>\<open>u32::from_le_bytes\<close> and \<open>put_u32_le\<close>.\<close>

definition from_le_bytes :: "char \<Rightarrow> char \<Rightarrow> char \<Rightarrow> char \<Rightarrow> nat" where
  "from_le_bytes b0 b1 b2 b3 =
     of_char b0 + 2 ^ 8 * of_char b1 + 2 ^ 16 * of_char b2 + 2 ^ 24 * of_char b3"

definition u32_le :: "nat \<Rightarrow> string" where
  "u32_le n = map (\<lambda>i. char_of (n div 2 ^ (8 * i) mod 256)) [0, 1, 2, 3]"

text \<open>\<open>FrameCodec::decode\<close>: what it yields, and what it leaves in the buffer.\<close>

definition codec_decode :: "(string \<Rightarrow> 'f option) \<Rightarrow> string \<Rightarrow> (wire_error + 'f option) \<times> string" where
  "codec_decode de src =
     (if length src < 4 then (Inr None, src)
      else let len = from_le_bytes (src ! 0) (src ! 1) (src ! 2) (src ! 3)
        in if len > MAX_FRAME_LEN then (Inl (FrameTooLarge len), src)
           else if length src < 4 + len then (Inr None, src)
           else let payload = take len (drop 4 src); rest = drop (4 + len) src
             in (case de payload of
                   None \<Rightarrow> (Inl DecodeError, rest)
                 | Some frame \<Rightarrow> (Inr (Some frame), rest)))"

definition codec_encode :: "('f \<Rightarrow> string option) \<Rightarrow> 'f \<Rightarrow> string \<Rightarrow> wire_error + string" where
  "codec_encode ser item dst = (case wire_encode ser item of
     Inl e \<Rightarrow> Inl e
   | Inr bytes \<Rightarrow> Inr (dst @ u32_le (length bytes) @ bytes))"

lemma codec_decode_consumes:
  "codec_decode de src = (Inr (Some f), rest) \<Longrightarrow> length rest < length src"
  by (auto simp: codec_decode_def Let_def split: if_splits option.splits)

text \<open>
  The connection loop decodes until the codec asks for more bytes or fails, and then waits for the next
  chunk the transport delivers.
\<close>

function drain :: "(string \<Rightarrow> 'f option) \<Rightarrow> string \<Rightarrow> 'f list \<times> (wire_error + string)" where
  "drain de src = (case codec_decode de src of
     (Inl e, _) \<Rightarrow> ([], Inl e)
   | (Inr None, rest) \<Rightarrow> ([], Inr rest)
   | (Inr (Some f), rest) \<Rightarrow> (let (fs, end1) = drain de rest in (f # fs, end1)))"
  by pat_completeness auto
termination by (relation "measure (length \<circ> snd)") (auto dest: codec_decode_consumes [OF sym])

declare drain.simps [simp del]

fun receive :: "(string \<Rightarrow> 'f option) \<Rightarrow> string \<Rightarrow> string list \<Rightarrow> 'f list \<times> (wire_error + string)" where
  "receive de buf [] = ([], Inr buf)"
| "receive de buf (c # cs) = (case drain de (buf @ c) of
     (fs, Inl e) \<Rightarrow> (fs, Inl e)
   | (fs, Inr rest) \<Rightarrow> (let (gs, end1) = receive de rest cs in (fs @ gs, end1)))"

subsection \<open>More bytes change nothing that was decided\<close>

lemma codec_decode_append:
  "codec_decode de src = (Inl e, rest) \<Longrightarrow> fst (codec_decode de (src @ extra)) = Inl e"
  "codec_decode de src = (Inr (Some f), rest) \<Longrightarrow> codec_decode de (src @ extra) = (Inr (Some f), rest @ extra)"
  by (auto simp: codec_decode_def Let_def nth_append split: if_splits option.splits)

lemma codec_decode_waits: "codec_decode de src = (Inr None, rest) \<Longrightarrow> rest = src"
  by (auto simp: codec_decode_def Let_def split: if_splits option.splits)

lemma drain_append:
  "drain de (src @ extra) = (case drain de src of
     (fs, Inl e) \<Rightarrow> (fs, Inl e)
   | (fs, Inr rest) \<Rightarrow> (let (gs, end1) = drain de (rest @ extra) in (fs @ gs, end1)))"
proof (induction de src rule: drain.induct)
  case (1 de src)
  obtain r rest where d: "codec_decode de src = (r, rest)" by (cases "codec_decode de src")
  show ?case
  proof (cases r)
    case (Inl e)
    then have "fst (codec_decode de (src @ extra)) = Inl e" using d codec_decode_append(1) [of de src e rest extra] by simp
    then show ?thesis using d Inl by (auto simp: drain.simps [of de src] drain.simps [of de "src @ extra"] split: prod.splits)
  next
    case (Inr x)
    show ?thesis
    proof (cases x)
      case None
      then have "drain de src = ([], Inr src)" using d Inr codec_decode_waits [of de src rest] by (simp add: drain.simps [of de src])
      then show ?thesis by (simp add: Let_def)
    next
      case (Some f)
      then have "codec_decode de (src @ extra) = (Inr (Some f), rest @ extra)" using d Inr codec_decode_append(2) [of de src f rest extra] by simp
      then show ?thesis
        using d Inr Some "1.IH" [OF d [symmetric], of x f]
        by (auto simp: drain.simps [of de src] drain.simps [of de "src @ extra"] Let_def split: prod.splits sum.splits)
    qed
  qed
qed

lemma drain_rest: "drain de src = (fs, Inr rest) \<Longrightarrow> drain de rest = ([], Inr rest)"
proof (induction de src arbitrary: fs rule: drain.induct)
  case (1 de src)
  obtain r tl1 where d: "codec_decode de src = (r, tl1)" by (cases "codec_decode de src")
  show ?case
  proof (cases "r = Inr None")
    case True
    then have "tl1 = src" using d codec_decode_waits by blast
    then show ?thesis using 1(2) d True by (simp add: drain.simps)
  next
    case False
    then show ?thesis using 1 d
      by (auto simp: drain.simps [of de src] Let_def split: sum.splits option.splits prod.splits)
  qed
qed

lemma receive_drain: "drain de buf = ([], Inr buf) \<Longrightarrow> receive de buf cs = drain de (buf @ concat cs)"
proof (induction cs arbitrary: buf)
  case (Cons c cs)
  show ?case
    using Cons.IH drain_append [of de "buf @ c" "concat cs"] drain_rest [of de "buf @ c"]
    by (auto split: prod.splits sum.splits)
qed simp

subsection \<open>Encoding\<close>

lemma length_u32_le [simp]: "length (u32_le n) = 4"
  by (simp add: u32_le_def)

lemma from_u32_le:
  assumes "n < 2 ^ 32"
  shows "from_le_bytes (u32_le n ! 0) (u32_le n ! 1) (u32_le n ! 2) (u32_le n ! 3) = n"
proof -
  have "n = n mod 256 + 256 * (n div 256)" "n div 256 = n div 256 mod 256 + 256 * (n div 65536)"
    "n div 65536 = n div 65536 mod 256 + 256 * (n div 16777216)"
    using mod_mult_div_eq [of n 256] mod_mult_div_eq [of "n div 256" 256] mod_mult_div_eq [of "n div 65536" 256]
    by (simp_all flip: div_mult2_eq)
  moreover have top: "n div 16777216 mod 256 = n div 16777216" using assms by simp
  ultimately have "n mod 256 + 256 * (n div 256 mod 256) + 65536 * (n div 65536 mod 256) + 16777216 * (n div 16777216 mod 256) = n"
    using mod_mult_div_eq [of n 256] by linarith
  then show ?thesis using top by (simp add: from_le_bytes_def u32_le_def)
qed

lemma codec_decode_frame:
  assumes "de b = Some f" and "length b \<le> MAX_FRAME_LEN"
  shows "codec_decode de (u32_le (length b) @ b @ rest) = (Inr (Some f), rest)"
proof -
  let ?src = "u32_le (length b) @ b @ rest"
  have "length b < 2 ^ 32" using assms(2) by (simp add: MAX_FRAME_LEN_def)
  then have "from_le_bytes (?src ! 0) (?src ! 1) (?src ! 2) (?src ! 3) = length b"
    using from_u32_le by (simp add: nth_append)
  then show ?thesis using assms by (simp add: codec_decode_def Let_def)
qed

text \<open>What an encoder that is given frame after frame writes.\<close>

fun encode_all :: "('f \<Rightarrow> string option) \<Rightarrow> 'f list \<Rightarrow> string \<Rightarrow> wire_error + string" where
  "encode_all ser [] dst = Inr dst"
| "encode_all ser (f # fs) dst = (case codec_encode ser f dst of Inl e \<Rightarrow> Inl e | Inr dst \<Rightarrow> encode_all ser fs dst)"

lemma encode_all_drain:
  assumes "\<And>f b. f \<in> set fs \<Longrightarrow> ser f = Some b \<Longrightarrow> de b = Some f"
    and "encode_all ser fs dst = Inr bytes"
  shows "\<exists>out. bytes = dst @ out \<and> drain de out = (fs, Inr [])"
  using assms
proof (induction fs arbitrary: dst)
  case Nil
  then show ?case by (simp add: drain.simps codec_decode_def)
next
  case (Cons f fs)
  then obtain b where b: "ser f = Some b" "length b \<le> MAX_FRAME_LEN"
      "encode_all ser fs (dst @ u32_le (length b) @ b) = Inr bytes"
    by (auto simp: codec_encode_def wire_encode_def split: option.splits if_splits)
  then obtain out where out: "bytes = (dst @ u32_le (length b) @ b) @ out" "drain de out = (fs, Inr [])"
    using Cons.IH [of "dst @ u32_le (length b) @ b"] Cons.prems(1) by auto
  have "codec_decode de (u32_le (length b) @ b @ out) = (Inr (Some f), out)"
    using codec_decode_frame b Cons.prems(1) by (metis list.set_intros(1))
  then have "drain de (u32_le (length b) @ b @ out) = (f # fs, Inr [])"
    using out(2) by (simp add: drain.simps [of de "u32_le (length b) @ b @ out"])
  with out(1) show ?case by (intro exI [of _ "u32_le (length b) @ b @ out"]) simp
qed

lemma drain_Nil: "drain de [] = ([], Inr [])"
  by (simp add: drain.simps codec_decode_def)

text \<open>C23: what a peer reads off a byte stream does not depend on how the transport cuts it into chunks, and
  frames that the codec wrote, and MessagePack can read back, arrive exactly as they were sent, in order,
  with nothing left over.\<close>

theorem framing_roundtrip:
  fixes ser :: "'f \<Rightarrow> string option" and de :: "string \<Rightarrow> 'f option" and chunks :: "string list"
  shows "receive de [] chunks = drain de (concat chunks) \<and>
    (\<forall>fs bytes. (\<forall>f \<in> set fs. \<forall>b. ser f = Some b \<longrightarrow> de b = Some f) \<and> encode_all ser fs [] = Inr bytes \<and> concat chunks = bytes
      \<longrightarrow> receive de [] chunks = (fs, Inr []))"
  using receive_drain [OF drain_Nil, of de chunks] encode_all_drain [of _ ser de "[]"] by fastforce

text \<open>Whatever bytes a peer sends and however they are cut, the receiver never keeps more than the header and
  payload of one frame of the maximal length unread; a length prefix above the maximum ends the
  connection at once.\<close>

theorem receive_bounded:
  fixes de :: "string \<Rightarrow> 'f option" and chunks :: "string list"
  shows "(snd (receive de [] chunks) = Inr rest \<longrightarrow> length rest < 4 + MAX_FRAME_LEN) \<and>
    (4 \<le> length src \<and> MAX_FRAME_LEN < from_le_bytes (src ! 0) (src ! 1) (src ! 2) (src ! 3) \<longrightarrow>
      (\<exists>n. drain de src = ([], Inl (FrameTooLarge n)) \<and> MAX_FRAME_LEN < n))"
proof -
  have "length rest < 4 + MAX_FRAME_LEN" if "drain de src' = (fs, Inr rest)" for src' fs
  proof -
    have "drain de rest = ([], Inr rest)" using drain_rest [OF that] .
    then have "fst (codec_decode de rest) = Inr None"
      by (auto simp: drain.simps [of de rest] Let_def split: sum.splits option.splits prod.splits)
    then show ?thesis
      by (auto simp: codec_decode_def Let_def MAX_FRAME_LEN_def split: if_splits option.splits)
  qed
  then have "snd (receive de [] chunks) = Inr rest \<longrightarrow> length rest < 4 + MAX_FRAME_LEN"
    using receive_drain [OF drain_Nil, of de chunks] by (metis prod.collapse)
  moreover have "drain de src = ([], Inl (FrameTooLarge (from_le_bytes (src ! 0) (src ! 1) (src ! 2) (src ! 3))))"
    if "4 \<le> length src" "MAX_FRAME_LEN < from_le_bytes (src ! 0) (src ! 1) (src ! 2) (src ! 3)"
    using that by (simp add: drain.simps [of de src] codec_decode_def Let_def)
  ultimately show ?thesis by blast
qed

text \<open>Two frames whose payloads are their own bytes, cut in the middle of a header and of a payload.\<close>

definition two_chunks :: "string list" where
  "two_chunks = [[CHR 0x02, CHR 0x00], [CHR 0x00, CHR 0x00, CHR ''a'', CHR ''b'', CHR 0x01], [CHR 0x00, CHR 0x00, CHR 0x00, CHR ''c'']]"

theorem framing_roundtrip_witness: "receive Some [] two_chunks = ([''ab'', ''c''], Inr [])"
proof -
  have c: "char_of (0::nat) = CHR 0x00" "char_of (1::nat) = CHR 0x01" "char_of (2::nat) = CHR 0x02" by code_simp+
  have "length ''ab'' = 2" "length ''c'' = 1" by simp_all
  moreover have "u32_le 2 = [CHR 0x02, CHR 0x00, CHR 0x00, CHR 0x00]" "u32_le 1 = [CHR 0x01, CHR 0x00, CHR 0x00, CHR 0x00]"
    by (simp_all add: u32_le_def c del: One_nat_def)
  ultimately have "encode_all Some [''ab'', ''c''] [] = Inr (concat two_chunks)"
    by (simp add: codec_encode_def wire_encode_def MAX_FRAME_LEN_def two_chunks_def del: list.size One_nat_def)
  moreover have "\<forall>f \<in> set [''ab'', ''c'']. \<forall>b. Some f = Some b \<longrightarrow> Some b = Some f" by simp
  ultimately show ?thesis using framing_roundtrip [where de = Some and ser = Some and chunks = two_chunks] by blast
qed

theorem receive_bounded_witness:
  "\<exists>n. drain (\<lambda>b. Some b) [CHR 0xFF, CHR 0xFF, CHR 0xFF, CHR 0xFF] = ([], Inl (FrameTooLarge n)) \<and> MAX_FRAME_LEN < n"
proof -
  have "MAX_FRAME_LEN < from_le_bytes CHR 0xFF CHR 0xFF CHR 0xFF CHR 0xFF" by (simp add: from_le_bytes_def MAX_FRAME_LEN_def)
  then show ?thesis
    using receive_bounded [of "\<lambda>b. Some b" "[]" "[]" "[CHR 0xFF, CHR 0xFF, CHR 0xFF, CHR 0xFF]"] by simp
qed

end
