(* ===== verification/Graph.thy ===== *)
theory Graph
  imports Catalog
begin

text \<open>
  The workflow graph of the catalog (\<open>crates/favetto-core/src/workflow.rs\<close>) and its rendering as Graphviz
  DOT.  A \<open>BTreeSet\<close> of names is the sorted list of its elements.
\<close>

record workflow_node =
  wn_name :: string
  wn_scheduled :: bool
  wn_external :: bool

datatype workflow_edge_kind = SpawnEdge | NeedsEdge | NeedsSucceededEdge | NeedsFailedEdge | JoinEdge

record workflow_edge =
  we_from :: string
  we_to :: string
  we_kind :: workflow_edge_kind

record workflow_graph =
  wg_nodes :: "workflow_node list"
  wg_edges :: "workflow_edge list"

definition dot_escape :: "string \<Rightarrow> string" where
  "dot_escape s =
     concat (map (\<lambda>c. if c = CHR 0x22 then [CHR 0x5C, CHR 0x22] else [c])
       (concat (map (\<lambda>c. if c = CHR 0x5C then [CHR 0x5C, CHR 0x5C] else [c]) s)))"

fun edge_kind_of :: "needs_kind \<Rightarrow> workflow_edge_kind" where
  "edge_kind_of NkFinished = NeedsEdge"
| "edge_kind_of NkSucceeded = NeedsSucceededEdge"
| "edge_kind_of NkFailed = NeedsFailedEdge"
| "edge_kind_of NkAllFinished = JoinEdge"

definition task_node :: "task_def \<Rightarrow> workflow_node" where
  "task_node d = \<lparr>wn_name = d_name d, wn_scheduled = (d_schedule d \<noteq> None), wn_external = False\<rparr>"

definition referenced :: "task_def \<Rightarrow> string list" where
  "referenced d = (case d_spawn d of None \<Rightarrow> [] | Some s \<Rightarrow> [s]) @
     (case d_needs d of None \<Rightarrow> [] | Some n \<Rightarrow> [fst (needs_parts n)])"

definition external_names :: "task_def list \<Rightarrow> string list" where
  "external_names tasks = sort (remdups (filter (\<lambda>n. n \<notin> d_name ` set tasks) (concat (map referenced tasks))))"

definition task_edges :: "task_def \<Rightarrow> workflow_edge list" where
  "task_edges d =
     (case d_spawn d of None \<Rightarrow> [] | Some s \<Rightarrow> [\<lparr>we_from = d_name d, we_to = s, we_kind = SpawnEdge\<rparr>]) @
     (case d_needs d of None \<Rightarrow> [] | Some n \<Rightarrow>
        [\<lparr>we_from = fst (needs_parts n), we_to = d_name d, we_kind = edge_kind_of (snd (needs_parts n))\<rparr>])"

definition build_graph :: "task_def list \<Rightarrow> workflow_graph" where
  "build_graph tasks =
     (let sorted = sort_key d_name tasks
      in \<lparr>wg_nodes = map task_node sorted @
            map (\<lambda>n. \<lparr>wn_name = n, wn_scheduled = False, wn_external = True\<rparr>) (external_names tasks),
          wg_edges = concat (map task_edges sorted)\<rparr>)"

definition node_line :: "workflow_node \<Rightarrow> string" where
  "node_line node = (let i = dquoted (dot_escape (wn_name node)) in
     (if wn_external node
      then ''  '' @ i @ '' [label='' @ dquoted (dot_escape (wn_name node) @ '' (external)'') @ '', style='' @ dquoted ''rounded,dashed'' @ ''];''
      else if wn_scheduled node
      then ''  '' @ i @ '' [label='' @ i @ '', peripheries=2];''
      else ''  '' @ i @ '' [label='' @ i @ ''];'') @ [CHR 0x0A])"

fun edge_attrs :: "workflow_edge_kind \<Rightarrow> string" where
  "edge_attrs SpawnEdge = ''label='' @ dquoted ''spawn''"
| "edge_attrs NeedsEdge = ''label='' @ dquoted ''needs'' @ '', style=dashed''"
| "edge_attrs NeedsSucceededEdge = ''label='' @ dquoted ''needs:succeeded'' @ '', style=dashed''"
| "edge_attrs NeedsFailedEdge = ''label='' @ dquoted ''needs:failed'' @ '', style=dashed''"
| "edge_attrs JoinEdge = ''label='' @ dquoted ''join'' @ '', style=dashed''"

definition edge_line :: "workflow_edge \<Rightarrow> string" where
  "edge_line e = ''  '' @ dquoted (dot_escape (we_from e)) @ '' -> '' @ dquoted (dot_escape (we_to e)) @
     '' ['' @ edge_attrs (we_kind e) @ ''];'' @ [CHR 0x0A]"

definition build_dot :: "task_def list \<Rightarrow> string" where
  "build_dot tasks =
     (let g = build_graph tasks
      in ''digraph workflow {'' @ [CHR 0x0A] @ ''  rankdir=LR;'' @ [CHR 0x0A] @
         ''  node [shape=box, style=rounded];'' @ [CHR 0x0A] @
         concat (map node_line (wg_nodes g)) @ concat (map edge_line (wg_edges g)) @ ''}'' @ [CHR 0x0A])"

subsection \<open>The graph\<close>

lemma set_external_names:
  "set (external_names tasks) = (\<Union>d \<in> set tasks. set (referenced d)) - d_name ` set tasks"
  by (auto simp: external_names_def)

lemma task_edges_set:
  "e \<in> set (task_edges d) \<longleftrightarrow>
     (d_spawn d = Some (we_to e) \<and> we_from e = d_name d \<and> we_kind e = SpawnEdge) \<or>
     (\<exists>n. d_needs d = Some n \<and> we_from e = fst (needs_parts n) \<and> we_to e = d_name d \<and> we_kind e = edge_kind_of (snd (needs_parts n)))"
  by (cases "d_spawn d"; cases "d_needs d"; cases e) (auto simp: task_edges_def)

lemma task_edges_ends:
  "e \<in> set (task_edges d) \<Longrightarrow> (we_from e = d_name d \<and> we_to e \<in> set (referenced d)) \<or>
     (we_to e = d_name d \<and> we_from e \<in> set (referenced d))"
  by (cases "d_spawn d"; cases "d_needs d") (auto simp: task_edges_def referenced_def)


subsection \<open>Quoting\<close>

text \<open>How a DOT reader takes a quoted string: up to the first quote that no backslash precedes.\<close>

fun read_quoted :: "string \<Rightarrow> (string \<times> string) option" where
  "read_quoted [] = None"
| "read_quoted (c # cs) =
     (if c = CHR 0x22 then Some ([], cs)
      else if c = CHR 0x5C then (case cs of [] \<Rightarrow> None
        | c' # cs' \<Rightarrow> map_option (\<lambda>(s, r). (c' # s, r)) (read_quoted cs'))
      else map_option (\<lambda>(s, r). (c # s, r)) (read_quoted cs))"

lemma dot_escape_Nil [simp]: "dot_escape [] = []"
  by (simp add: dot_escape_def)

lemma dot_escape_Cons [simp]:
  "dot_escape (c # s) = (if c = CHR 0x22 then [CHR 0x5C, CHR 0x22] else if c = CHR 0x5C then [CHR 0x5C, CHR 0x5C] else [c]) @ dot_escape s"
  by (simp add: dot_escape_def)

lemma read_dot_escape: "read_quoted (dot_escape s @ CHR 0x22 # rest) = Some (s, rest)"
  by (induction s) simp_all

text \<open>Whatever bytes the names of tasks hold, quotes and backslashes included, the DOT text gives them back: a
  reader of a node's line reads its name, a reader of an edge's line the names of its two ends, so no
  name can break out of its quotes.\<close>

theorem dot_roundtrip:
  fixes n :: workflow_node and e :: workflow_edge
  shows "(\<exists>rest. read_quoted (drop 3 (node_line n)) = Some (wn_name n, rest)) \<and>
    (\<exists>mid rest. read_quoted (drop 3 (edge_line e)) = Some (we_from e, '' -> '' @ CHR 0x22 # mid) \<and>
       read_quoted mid = Some (we_to e, rest))"
  by (simp add: node_line_def edge_line_def dquoted_def read_dot_escape Let_def)

text \<open>Two tasks that name each other and one that is not there.\<close>

definition pipeline :: "task_def list" where
  "pipeline = [\<lparr>d_name = ''build'', d_kind = KindAgent, d_action = None, d_agent = None, d_provider = None, d_model = None,
     d_cwd = None, d_schedule = None, d_needs = Some ''plan:failed'', d_spawn = Some ''ship'', d_spawn_file = None,
     d_spawn_new_root = False, d_sign = None, d_worktree = None, d_vars = [], d_prompt = []\<rparr>]"


end
