(* ===== verification/Scheduler.thy ===== *)
theory Scheduler
  imports Runs
begin

text \<open>
  Recurring tasks, \<open>crates/favetto/src/scheduler.rs\<close> and the \<open>schedules.*\<close> handlers of
  \<open>server.rs\<close>: registering a schedule's cron job, what a firing job does, adding, changing and
  removing schedules, and the reconciliation with the catalog at startup and after a reload.

  \<open>tokio_cron_scheduler\<close> is third-party code.  The state keeps the calls made to it: an accepted
  \<open>add\<close> under the id it returned, and a successful \<open>remove\<close>.  What the next calls answer is a script,
  as is which cron expressions \<open>Job::new_async\<close> accepts and when an expression is next due.
\<close>

record cron_job =
  cj_cron :: string
  cj_schedule :: string
  cj_task :: string
  cj_input :: json

datatype job_call = JobAdded uuid cron_job | JobRemoved uuid

record cron_state =
  cr_daemon :: daemon
  cr_calls :: "job_call list"
  cr_adds :: "uuid option list"
  cr_removes :: "bool list"

record cron_lib =
  cl_accepts :: "string \<Rightarrow> bool"
  cl_next :: "string \<Rightarrow> time \<Rightarrow> time option"
  cl_parse_uuid :: "string \<Rightarrow> uuid option"

type_synonym 'a cron_handler = "(cron_state, 'a) prog"

definition on_daemon :: "'a handler \<Rightarrow> 'a cron_handler" where
  "on_daemon m = State (\<lambda>s. let (x, d) = run_state m (cr_daemon s) in (x, s\<lparr>cr_daemon := d\<rparr>))"

definition next_run_after :: "cron_lib \<Rightarrow> string \<Rightarrow> time \<Rightarrow> time option" where
  "next_run_after lib cron now = cl_next lib cron now"

subsection \<open>Jobs\<close>

definition job_of :: "schedule \<Rightarrow> cron_job" where
  "job_of sc = \<lparr>cj_cron = sc_cron sc, cj_schedule = sc_id sc, cj_task = sc_task sc, cj_input = sc_input sc\<rparr>"

text \<open>\<open>scheduler.add\<close> and \<open>scheduler.remove\<close>.\<close>

definition add_job :: "cron_job \<Rightarrow> uuid option cron_handler" where
  "add_job job = State (\<lambda>s. case cr_adds s of
     Some u # rest \<Rightarrow> (Some u, s\<lparr>cr_adds := rest, cr_calls := cr_calls s @ [JobAdded u job]\<rparr>)
   | None # rest \<Rightarrow> (None, s\<lparr>cr_adds := rest\<rparr>)
   | [] \<Rightarrow> (None, s))"

definition unregister :: "uuid \<Rightarrow> bool cron_handler" where
  "unregister u = State (\<lambda>s. case cr_removes s of
     False # rest \<Rightarrow> (False, s\<lparr>cr_removes := rest\<rparr>)
   | True # rest \<Rightarrow> (True, s\<lparr>cr_removes := rest, cr_calls := cr_calls s @ [JobRemoved u]\<rparr>)
   | [] \<Rightarrow> (True, s\<lparr>cr_calls := cr_calls s @ [JobRemoved u]\<rparr>))"

definition register :: "cron_lib \<Rightarrow> schedule \<Rightarrow> uuid option cron_handler" where
  "register lib sc = (if cl_accepts lib (sc_cron sc) then add_job (job_of sc) else ret None)"

definition fire_key :: "string \<Rightarrow> time \<Rightarrow> string" where
  "fire_key sid now = ''schedule:'' @ sid @ '':'' @ int_str (now div 1000)"

text \<open>The body of a job: what happens each time its cron expression is due.\<close>

definition fire :: "time \<Rightarrow> cron_job \<Rightarrow> unit handler" where
  "fire now job = do {
     t \<leftarrow> enqueue_task now (cj_task job) (cj_input job) (Some (fire_key (cj_schedule job) now)) False;
     (case t of
        Some t \<Rightarrow> emit_event now EvCronTick
          (mk_obj [(''schedule_id'', JStr (cj_schedule job)), (''task_id'', JStr (t_id t))])
      | None \<Rightarrow> ret ());
     r \<leftarrow> db_exec (touch_schedule now (cj_schedule job));
     ret () }"

subsection \<open>Changing schedules\<close>

text \<open>The first part of \<open>remove\<close> and \<open>upsert\<close>: the job of the stored row is unregistered.\<close>

definition drop_job :: "cron_lib \<Rightarrow> string \<Rightarrow> unit option cron_handler" where
  "drop_job lib sid = do {
     r \<leftarrow> on_daemon (db_read (\<lambda>d. get_schedule_job_id d sid));
     (case r of
        None \<Rightarrow> ret None
      | Some None \<Rightarrow> ret (Some ())
      | Some (Some job) \<Rightarrow> (case cl_parse_uuid lib job of
          None \<Rightarrow> ret (Some ())
        | Some u \<Rightarrow> do { b \<leftarrow> unregister u; ret (Some ()) })) }"

definition remove_schedule :: "cron_lib \<Rightarrow> string \<Rightarrow> unit option cron_handler" where
  "remove_schedule lib sid = do {
     r \<leftarrow> drop_job lib sid;
     (case r of None \<Rightarrow> ret None | Some _ \<Rightarrow> on_daemon (db_exec (delete_schedule sid))) }"

definition upsert :: "cron_lib \<Rightarrow> schedule \<Rightarrow> unit option cron_handler" where
  "upsert lib sc = do {
     r \<leftarrow> drop_job lib (sc_id sc);
     (case r of None \<Rightarrow> ret None | Some _ \<Rightarrow> do {
        w \<leftarrow> on_daemon (db_exec (upsert_schedule sc));
        (case w of
           None \<Rightarrow> ret None
         | Some _ \<Rightarrow>
             if \<not> sc_enabled sc then ret (Some ())
             else do {
               job \<leftarrow> register lib sc;
               (case job of
                  None \<Rightarrow> ret None
                | Some job \<Rightarrow> on_daemon (db_exec (set_schedule_job_id (sc_id sc) job))) }) }) }"

subsection \<open>The catalog's schedules\<close>

definition CATALOG_PREFIX :: string where
  "CATALOG_PREFIX = ''catalog:''"

definition desired_schedules :: "task_def list \<Rightarrow> schedule list" where
  "desired_schedules catalog = List.map_filter (\<lambda>def. case d_schedule def of
     None \<Rightarrow> None
   | Some cron \<Rightarrow> Some \<lparr>sc_id = CATALOG_PREFIX @ d_name def, sc_cron = cron, sc_task = d_name def,
       sc_input = mk_obj [], sc_enabled = True, sc_last_run = None, sc_next_run = None\<rparr>) catalog"

definition stale_schedule :: "schedule list \<Rightarrow> schedule \<Rightarrow> bool" where
  "stale_schedule desired sc \<longleftrightarrow>
     prefix CATALOG_PREFIX (sc_id sc) \<and> \<not> (\<exists>d \<in> set desired. sc_id d = sc_id sc)"

definition drop_stale :: "cron_lib \<Rightarrow> schedule list \<Rightarrow> schedule \<Rightarrow> unit cron_handler" where
  "drop_stale lib desired sc =
     (if stale_schedule desired sc then do { r \<leftarrow> remove_schedule lib (sc_id sc); ret () } else ret ())"

definition sync_schedule :: "cron_lib \<Rightarrow> schedule list \<Rightarrow> schedule \<Rightarrow> unit cron_handler" where
  "sync_schedule lib existing sc = (case List.find (\<lambda>e. sc_id e = sc_id sc) existing of
     None \<Rightarrow> do { r \<leftarrow> upsert lib sc; ret () }
   | Some old \<Rightarrow>
       if sc_cron old = sc_cron sc \<and> sc_task old = sc_task sc \<and> sc_enabled old then ret ()
       else do { r \<leftarrow> upsert lib (sc\<lparr>sc_last_run := sc_last_run old\<rparr>); ret () })"

definition reconcile_catalog_schedules :: "cron_lib \<Rightarrow> unit option cron_handler" where
  "reconcile_catalog_schedules lib = do {
     desired \<leftarrow> gets (\<lambda>s. desired_schedules (dn_catalog (cr_daemon s)));
     existing \<leftarrow> on_daemon (db_read list_schedules);
     (case existing of None \<Rightarrow> ret None | Some existing \<Rightarrow> do {
        for_each (drop_stale lib desired) existing;
        for_each (sync_schedule lib existing) desired;
        ret (Some ()) }) }"

text \<open>Startup, up to the moment the scheduler's own loop is spawned.\<close>

definition start_schedule :: "cron_lib \<Rightarrow> schedule \<Rightarrow> unit cron_handler" where
  "start_schedule lib sc =
     (if \<not> sc_enabled sc then ret ()
      else do {
        job \<leftarrow> register lib sc;
        (case job of
           None \<Rightarrow> ret ()
         | Some job \<Rightarrow> do { r \<leftarrow> on_daemon (db_exec (set_schedule_job_id (sc_id sc) job)); ret () }) })"

definition start_schedules :: "cron_lib \<Rightarrow> unit option cron_handler" where
  "start_schedules lib = do {
     r \<leftarrow> on_daemon (db_read list_schedules);
     (case r of None \<Rightarrow> ret None | Some scs \<Rightarrow> do { for_each (start_schedule lib) scs; ret (Some ()) }) }"

subsection \<open>The handlers of the server\<close>

record schedule_upsert_params =
  su_id :: "string option"
  su_cron :: string
  su_task :: string
  su_input :: "json option"
  su_enabled :: "bool option"

definition with_next_run :: "cron_lib \<Rightarrow> time \<Rightarrow> schedule \<Rightarrow> schedule" where
  "with_next_run lib now sc =
     (if sc_enabled sc then sc\<lparr>sc_next_run := next_run_after lib (sc_cron sc) now\<rparr> else sc)"

definition server_list_schedules :: "cron_lib \<Rightarrow> time \<Rightarrow> schedule list option cron_handler" where
  "server_list_schedules lib now = do {
     r \<leftarrow> on_daemon (db_read list_schedules);
     ret (map_option (map (with_next_run lib now)) r) }"

definition server_upsert_schedule ::
  "cron_lib \<Rightarrow> time \<Rightarrow> schedule_upsert_params \<Rightarrow> schedule option cron_handler"
where
  "server_upsert_schedule lib now p = do {
     sid \<leftarrow> (case su_id p of Some sid \<Rightarrow> ret sid | None \<Rightarrow> on_daemon new_uuid);
     let sc = \<lparr>sc_id = sid, sc_cron = su_cron p, sc_task = su_task p,
       sc_input = (case su_input p of Some i \<Rightarrow> i | None \<Rightarrow> JNull),
       sc_enabled = (case su_enabled p of Some b \<Rightarrow> b | None \<Rightarrow> True), sc_last_run = None, sc_next_run = None\<rparr>;
     r \<leftarrow> upsert lib sc;
     ret (map_option (\<lambda>_. with_next_run lib now sc) r) }"

definition server_delete_schedule :: "cron_lib \<Rightarrow> string \<Rightarrow> string option cron_handler" where
  "server_delete_schedule lib sid = do {
     r \<leftarrow> remove_schedule lib sid;
     ret (map_option (\<lambda>_. sid) r) }"


subsection \<open>What the scheduler is meant to hold\<close>

text \<open>The jobs that are live after a sequence of calls.\<close>

definition live :: "job_call list \<Rightarrow> (uuid \<times> cron_job) list" where
  "live calls = fold (\<lambda>c js. case c of
     JobAdded u j \<Rightarrow> js @ [(u, j)] | JobRemoved u \<Rightarrow> filter (\<lambda>(v, _). v \<noteq> u) js) calls []"

lemma live_simps [simp]:
  "live [] = []" "live (cs @ [JobAdded u j]) = live cs @ [(u, j)]"
  "live (cs @ [JobRemoved u]) = filter (\<lambda>(v, _). v \<noteq> u) (live cs)"
  by (simp_all add: live_def)

abbreviation rows_of :: "cron_state \<Rightarrow> schedule_row list" where
  "rows_of s \<equiv> schedules (dn_db (cr_daemon s))"

definition row_job :: "schedule_row \<Rightarrow> cron_job" where
  "row_job r = job_of (row_to_schedule r)"

definition expected_jobs :: "schedule_row set \<Rightarrow> (uuid \<times> cron_job) set" where
  "expected_jobs rs = {(u, row_job r) |u r. r \<in> rs \<and> s_enabled r \<and> s_job_id r = Some u}"

definition rows_ok :: "cron_lib \<Rightarrow> schedule_row list \<Rightarrow> bool" where
  "rows_ok lib rows \<longleftrightarrow> distinct (map s_id rows) \<and>
     (\<forall>r \<in> set rows. s_enabled r \<longrightarrow> s_job_id r \<noteq> None) \<and>
     (\<forall>r \<in> set rows. \<forall>u. s_job_id r = Some u \<longrightarrow> cl_parse_uuid lib u = Some u) \<and>
     (\<forall>r \<in> set rows. \<forall>r' \<in> set rows. s_job_id r \<noteq> None \<longrightarrow> s_job_id r' = s_job_id r \<longrightarrow> r' = r)"

text \<open>Every enabled schedule has exactly one live job, the one its row names, and no other job is live.\<close>

definition coherent :: "cron_lib \<Rightarrow> cron_state \<Rightarrow> bool" where
  "coherent lib s \<longleftrightarrow> rows_ok lib (rows_of s) \<and> distinct (map fst (live (cr_calls s))) \<and>
     set (live (cr_calls s)) = expected_jobs (set (rows_of s))"

text \<open>Nothing fails, and the next \<open>n\<close> jobs get fresh ids.\<close>

definition prepared :: "cron_lib \<Rightarrow> nat \<Rightarrow> cron_state \<Rightarrow> bool" where
  "prepared lib n s \<longleftrightarrow> dn_faults (cr_daemon s) = [] \<and> cr_removes s = [] \<and>
     (\<exists>us. cr_adds s = map Some us \<and> n \<le> length us \<and> distinct us \<and>
       (\<forall>u \<in> set us. cl_parse_uuid lib u = Some u \<and> (\<forall>r \<in> set (rows_of s). s_job_id r \<noteq> Some u)))"

text \<open>The table of schedules: expression, task, input and whether it is enabled.\<close>

definition entry :: "schedule \<Rightarrow> string \<times> string \<times> json \<times> bool" where
  "entry sc = (sc_cron sc, sc_task sc, sc_input sc, sc_enabled sc)"

definition table :: "cron_state \<Rightarrow> string \<Rightarrow> (string \<times> string \<times> json \<times> bool) option" where
  "table s sid = map_option (\<lambda>r. entry (row_to_schedule r)) (lookup_row s_id sid (rows_of s))"

text \<open>Replacing the row of a key, whatever its place in the table.\<close>

definition row_put :: "schedule_row \<Rightarrow> schedule_row list \<Rightarrow> schedule_row list \<Rightarrow> bool" where
  "row_put r rows rows' \<longleftrightarrow>
     distinct (map s_id rows') \<and> set rows' = insert r {x \<in> set rows. s_id x \<noteq> s_id r}"

lemma row_put_trans: "row_put r rows rows1 \<Longrightarrow> row_put r' rows1 rows2 \<Longrightarrow> s_id r' = s_id r \<Longrightarrow> row_put r' rows rows2"
  by (auto simp: row_put_def)

lemma row_put_update:
  assumes "distinct (map s_id rows)" and "x \<in> set rows" and "\<And>y. s_id (f y) = s_id y"
  shows "row_put (f x) rows (update_rows (\<lambda>y. s_id y = s_id x) f rows)"
proof -
  have "y = x" if "y \<in> set rows" "s_id y = s_id x" for y
    using that assms(1,2) by (auto simp: distinct_map inj_on_def)
  then show ?thesis
    unfolding row_put_def using assms by (auto simp: map_update_rows set_update_rows)
qed

lemma row_put_upsert:
  assumes "distinct (map s_id (schedules d))"
  obtains r where "row_put r (schedules d) (schedules (upsert_schedule sc d))" "s_id r = sc_id sc"
    "s_enabled r = sc_enabled sc" "entry (row_to_schedule r) = entry sc"
    "s_job_id r = get_schedule_job_id d (sc_id sc)"
proof (cases "lookup_row s_id (sc_id sc) (schedules d)")
  case None
  then have "sc_id sc \<notin> s_id ` set (schedules d)" by (simp add: lookup_row_None)
  moreover from this have "\<forall>x \<in> set (schedules d). s_id x \<noteq> sc_id sc" by (metis image_eqI)
  ultimately show ?thesis
    using assms None
    by (intro that [of "\<lparr>s_id = sc_id sc, s_cron = sc_cron sc, s_task = sc_task sc, s_input = sc_input sc,
               s_enabled = sc_enabled sc, s_last_run = sc_last_run sc, s_job_id = None\<rparr>"])
      (auto simp: row_put_def upsert_schedule_def entry_def row_to_schedule_def get_schedule_job_id_def)
next
  case (Some x)
  then have x: "x \<in> set (schedules d)" "s_id x = sc_id sc" by (auto dest: lookup_row_SomeD)
  let ?f = "\<lambda>r. r\<lparr>s_cron := sc_cron sc, s_task := sc_task sc, s_input := sc_input sc,
                   s_enabled := sc_enabled sc, s_last_run := sc_last_run sc\<rparr>"
  have "schedules (upsert_schedule sc d) = update_rows (\<lambda>r. s_id r = s_id x) ?f (schedules d)"
    using x imageI [OF x(1), of s_id] by (simp add: upsert_schedule_def)
  then show ?thesis
    using row_put_update [OF assms x(1), of ?f] x Some
    by (intro that [of "?f x"]) (simp_all add: entry_def row_to_schedule_def get_schedule_job_id_def)
qed

lemma row_put_job_id:
  assumes "distinct (map s_id (schedules d))" and "x \<in> set (schedules d)"
  shows "row_put (x\<lparr>s_job_id := Some u\<rparr>) (schedules d) (schedules (set_schedule_job_id (s_id x) u d))"
  using row_put_update [OF assms, of "\<lambda>r. r\<lparr>s_job_id := Some u\<rparr>"] by (simp add: set_schedule_job_id_def)

lemma table_put:
  assumes "row_put r (rows_of s) (rows_of s')" and "distinct (map s_id (rows_of s))"
  shows "table s' = (table s)(s_id r := Some (entry (row_to_schedule r)))"
proof
  fix sid
  have d': "distinct (map s_id (rows_of s'))" using assms(1) by (simp add: row_put_def)
  have "lookup_row s_id sid (rows_of s') = (if sid = s_id r then Some r else lookup_row s_id sid (rows_of s))"
  proof (cases "sid = s_id r")
    case True
    then show ?thesis using assms(1) by (simp add: lookup_row_Some [OF d'] row_put_def)
  next
    case False
    then have "lookup_row s_id sid (rows_of s') = Some x \<longleftrightarrow> lookup_row s_id sid (rows_of s) = Some x" for x
      using assms(1) by (auto simp: lookup_row_Some [OF d'] lookup_row_Some [OF assms(2)] row_put_def)
    with False show ?thesis by (metis (full_types) option.exhaust)
  qed
  then show "table s' sid = ((table s)(s_id r := Some (entry (row_to_schedule r)))) sid"
    by (simp add: table_def)
qed


lemma expected_jobs_mem:
  "p \<in> expected_jobs rs \<longleftrightarrow> (\<exists>r \<in> rs. s_enabled r \<and> s_job_id r = Some (fst p) \<and> snd p = row_job r)"
  by (cases p) (auto simp: expected_jobs_def)

lemma expected_jobs_without:
  "expected_jobs {r \<in> rs. s_job_id r \<noteq> Some u} = {p \<in> expected_jobs rs. fst p \<noteq> u}"
  by (intro set_eqI) (auto simp: expected_jobs_mem)

lemma expected_jobs_insert:
  "expected_jobs (insert r rs) = (case s_job_id r of
     Some u \<Rightarrow> if s_enabled r then insert (u, row_job r) (expected_jobs rs) else expected_jobs rs
   | None \<Rightarrow> expected_jobs rs)"
  by (auto simp: expected_jobs_def split: option.splits)

lemma run_on_daemon_call [run_simps]:
  "dn_faults (cr_daemon s) = [] \<Longrightarrow> run_state (on_daemon (db_call f)) s =
     (Some (fst (f (dn_db (cr_daemon s)))),
      s\<lparr>cr_daemon := (cr_daemon s)\<lparr>dn_db := snd (f (dn_db (cr_daemon s)))\<rparr>\<rparr>)"
  by (simp add: on_daemon_def run_simps)

text \<open>Unregistering the job of a schedule removes exactly the job its row names.\<close>

lemma run_drop_job:
  assumes "coherent lib s" and "dn_faults (cr_daemon s) = []" and "cr_removes s = []"
  obtains calls where "run_state (drop_job lib sid) s = (Some (), s\<lparr>cr_calls := calls\<rparr>)"
    "distinct (map fst (live calls))"
    "set (live calls) = expected_jobs {r \<in> set (rows_of s). s_id r \<noteq> sid}"
proof -
  have rows: "rows_ok lib (rows_of s)" and dist: "distinct (map fst (live (cr_calls s)))"
    and live: "set (live (cr_calls s)) = expected_jobs (set (rows_of s))"
    using assms(1) by (auto simp: coherent_def)
  have upd: "s\<lparr>cr_daemon := cr_daemon s\<rparr> = s" by simp
  show ?thesis
  proof (cases "get_schedule_job_id (dn_db (cr_daemon s)) sid")
    case None
    have "\<not> s_enabled r" if "r \<in> set (rows_of s)" "s_id r = sid" for r
      using rows that None lookup_row_Some [of s_id "rows_of s" sid r]
      by (auto simp: rows_ok_def get_schedule_job_id_def)
    then have "expected_jobs (set (rows_of s)) = expected_jobs {r \<in> set (rows_of s). s_id r \<noteq> sid}"
      by (auto simp: expected_jobs_def)
    then show ?thesis
      using None dist live assms(2)
      by (intro that [of "cr_calls s"]) (simp_all add: drop_job_def run_simps)
  next
    case (Some u)
    then obtain r where r: "r \<in> set (rows_of s)" "s_id r = sid" "s_job_id r = Some u"
      by (auto simp: get_schedule_job_id_def bind_eq_Some_conv dest: lookup_row_SomeD)
    have parse: "cl_parse_uuid lib u = Some u" using rows r by (auto simp: rows_ok_def)
    have same: "x = r" if "x \<in> set (rows_of s)" "s_id x = sid" for x
      using that r rows by (auto simp: rows_ok_def distinct_map inj_on_def)
    have other: "x = r" if "x \<in> set (rows_of s)" "s_job_id x = Some u" for x
      using that r rows unfolding rows_ok_def by (metis option.discI)
    have "s_id x \<noteq> sid \<longleftrightarrow> s_job_id x \<noteq> Some u" if "x \<in> set (rows_of s)" for x
      using same [OF that] other [OF that] r by metis
    then have others: "{r \<in> set (rows_of s). s_id r \<noteq> sid} = {r \<in> set (rows_of s). s_job_id r \<noteq> Some u}" by blast
    have "expected_jobs {r \<in> set (rows_of s). s_id r \<noteq> sid} = {p \<in> expected_jobs (set (rows_of s)). fst p \<noteq> u}"
      unfolding others by (rule expected_jobs_without)
    then show ?thesis
      using Some parse dist live assms(2,3)
      by (intro that [of "cr_calls s @ [JobRemoved u]"])
        (auto simp: drop_job_def run_simps unregister_def distinct_map_filter)
  qed
qed

lemma coherentI:
  assumes "rows_ok lib (rows_of s)" and "distinct (map fst (live (cr_calls s)))"
    and "set (live (cr_calls s)) = expected_jobs (set (rows_of s))"
  shows "coherent lib s"
  using assms by (simp add: coherent_def)

lemma rows_ok_put:
  assumes "rows_ok lib rows" and "row_put r rows rows'" and "s_enabled r \<Longrightarrow> s_job_id r \<noteq> None"
    and "\<And>u. s_job_id r = Some u \<Longrightarrow> cl_parse_uuid lib u = Some u \<and>
      (\<forall>x \<in> set rows. s_id x \<noteq> s_id r \<longrightarrow> s_job_id x \<noteq> Some u)"
  shows "rows_ok lib rows'"
proof -
  have rows': "distinct (map s_id rows')" "set rows' = insert r {x \<in> set rows. s_id x \<noteq> s_id r}"
    using assms(2) by (auto simp: row_put_def)
  have "y = x" if mem: "x \<in> set rows'" "y \<in> set rows'" and "s_job_id x \<noteq> None" "s_job_id y = s_job_id x" for x y
  proof -
    obtain u where u: "s_job_id x = Some u" "s_job_id y = Some u" using \<open>s_job_id x \<noteq> None\<close> \<open>s_job_id y = _\<close> by auto
    consider "x = r" "y = r" | "x \<in> set rows" "y \<in> set rows"
      using mem u assms(4) [of u] unfolding rows'(2) by auto
    then show ?thesis
      using assms(1) u unfolding rows_ok_def by cases (simp, metis option.discI)
  qed
  moreover have "s_job_id x \<noteq> None" if "x \<in> set rows'" "s_enabled x" for x
    using that assms(1,3) unfolding rows'(2) by (auto simp: rows_ok_def)
  moreover have "cl_parse_uuid lib u = Some u" if "x \<in> set rows'" "s_job_id x = Some u" for x u
    using that assms(1,4) unfolding rows'(2) by (auto simp: rows_ok_def)
  ultimately show ?thesis unfolding rows_ok_def using rows'(1) by metis
qed

lemma run_upsert:
  assumes "coherent lib s" and "prepared lib (Suc n) s" and "sc_enabled sc \<Longrightarrow> cl_accepts lib (sc_cron sc)"
  obtains s' where "run_state (upsert lib sc) s = (Some (), s')" "coherent lib s'" "prepared lib n s'"
    "table s' = (table s)(sc_id sc := Some (entry sc))" "dn_catalog (cr_daemon s') = dn_catalog (cr_daemon s)"
proof -
  let ?d = "dn_db (cr_daemon s)" and ?sid = "sc_id sc"
  have faults: "dn_faults (cr_daemon s) = []" "cr_removes s = []" using assms(2) by (auto simp: prepared_def)
  obtain us where us: "cr_adds s = map Some us" "Suc n \<le> length us" "distinct us"
    "\<forall>u \<in> set us. cl_parse_uuid lib u = Some u \<and> (\<forall>r \<in> set (rows_of s). s_job_id r \<noteq> Some u)"
    using assms(2) by (auto simp: prepared_def)
  have rows: "rows_ok lib (rows_of s)" using assms(1) by (simp add: coherent_def)
  then have dist: "distinct (map s_id (rows_of s))" by (simp add: rows_ok_def)
  obtain calls where drop: "run_state (drop_job lib ?sid) s = (Some (), s\<lparr>cr_calls := calls\<rparr>)"
    and calls: "distinct (map fst (live calls))"
      "set (live calls) = expected_jobs {r \<in> set (rows_of s). s_id r \<noteq> ?sid}"
    by (rule run_drop_job [OF assms(1) faults])
  obtain r where put: "row_put r (rows_of s) (schedules (upsert_schedule sc ?d))" and r: "s_id r = ?sid"
      "s_enabled r = sc_enabled sc" "entry (row_to_schedule r) = entry sc" "s_job_id r = get_schedule_job_id ?d ?sid"
    by (rule row_put_upsert [OF dist])
  have job_known: "\<exists>x \<in> set (rows_of s). s_id x = ?sid \<and> s_job_id x = Some u" if "s_job_id r = Some u" for u
    using that r(4) by (auto simp: get_schedule_job_id_def bind_eq_Some_conv dest: lookup_row_SomeD)
  show ?thesis
  proof (cases "sc_enabled sc")
    case False
    define s' where "s' = s\<lparr>cr_calls := calls, cr_daemon := (cr_daemon s)\<lparr>dn_db := upsert_schedule sc ?d\<rparr>\<rparr>"
    have put': "row_put r (rows_of s) (rows_of s')" using put by (simp add: s'_def)
    have "rows_ok lib (rows_of s')"
    proof (rule rows_ok_put [OF rows put'])
      show "s_job_id r \<noteq> None" if "s_enabled r" using that False r by simp
      show "cl_parse_uuid lib u = Some u \<and> (\<forall>x \<in> set (rows_of s). s_id x \<noteq> s_id r \<longrightarrow> s_job_id x \<noteq> Some u)"
        if "s_job_id r = Some u" for u
        using job_known [OF that] rows r(1) unfolding rows_ok_def by (metis option.discI)
    qed
    then have "coherent lib s'"
      using calls put' r False
      by (intro coherentI) (auto simp: s'_def row_put_def expected_jobs_insert split: option.splits)
    moreover have "prepared lib n s'"
      using us faults put' job_known unfolding prepared_def row_put_def by (fastforce simp: s'_def)
    moreover have "run_state (upsert lib sc) s = (Some (), s')"
      using faults False by (simp add: upsert_def drop run_simps s'_def)
    ultimately show ?thesis
      using table_put [OF put' dist] r(1,3) by (intro that [of s']) (simp_all add: s'_def)
  next
    case True
    obtain u us' where u: "us = u # us'" using us(2) by (cases us) auto
    have fresh: "cl_parse_uuid lib u = Some u" "\<forall>x \<in> set (rows_of s). s_job_id x \<noteq> Some u" using us(4) u by auto
    define d' where "d' = set_schedule_job_id ?sid u (upsert_schedule sc ?d)"
    define s' where "s' = s\<lparr>cr_calls := calls @ [JobAdded u (job_of sc)], cr_adds := map Some us',
      cr_daemon := (cr_daemon s)\<lparr>dn_db := d'\<rparr>\<rparr>"
    have "row_put (r\<lparr>s_job_id := Some u\<rparr>) (schedules (upsert_schedule sc ?d)) (schedules d')"
      unfolding d'_def r(1) [symmetric]
      by (rule row_put_job_id) (use put in \<open>auto simp: row_put_def\<close>)
    with put have put': "row_put (r\<lparr>s_job_id := Some u\<rparr>) (rows_of s) (rows_of s')"
      by (auto simp: s'_def intro: row_put_trans)
    have entry': "entry (row_to_schedule (r\<lparr>s_job_id := Some u\<rparr>)) = entry sc"
      using r(3) by (simp add: entry_def row_to_schedule_def)
    have job: "row_job (r\<lparr>s_job_id := Some u\<rparr>) = job_of sc"
      using r(1,3) by (simp add: row_job_def job_of_def entry_def row_to_schedule_def)
    have "rows_ok lib (rows_of s')"
      by (rule rows_ok_put [OF rows put']) (use fresh in auto)
    moreover have "u \<notin> fst ` set (live calls)" using calls(2) fresh by (auto simp: expected_jobs_def)
    ultimately have "coherent lib s'"
      using calls put' r True job
      by (intro coherentI) (auto simp: s'_def row_put_def expected_jobs_insert)
    moreover have "prepared lib n s'"
      using us faults put' u unfolding prepared_def row_put_def
      by (fastforce simp: s'_def)
    moreover have "run_state (upsert lib sc) s = (Some (), s')"
      using faults True assms(3) us(1) u
      by (simp add: upsert_def drop run_simps s'_def register_def add_job_def d'_def)
    ultimately show ?thesis
      using table_put [OF put' dist] r(1) entry' by (intro that [of s']) (simp_all add: s'_def)
  qed
qed

lemma run_remove_schedule:
  assumes "coherent lib s" and "prepared lib n s"
  obtains s' where "run_state (remove_schedule lib sid) s = (Some (), s')" "coherent lib s'" "prepared lib n s'"
    "table s' = (table s)(sid := None)" "dn_catalog (cr_daemon s') = dn_catalog (cr_daemon s)"
proof -
  have faults: "dn_faults (cr_daemon s) = []" "cr_removes s = []" using assms(2) by (auto simp: prepared_def)
  have rows: "rows_ok lib (rows_of s)" using assms(1) by (simp add: coherent_def)
  obtain calls where drop: "run_state (drop_job lib sid) s = (Some (), s\<lparr>cr_calls := calls\<rparr>)"
    and calls: "distinct (map fst (live calls))"
      "set (live calls) = expected_jobs {r \<in> set (rows_of s). s_id r \<noteq> sid}"
    by (rule run_drop_job [OF assms(1) faults])
  define s' where "s' = s\<lparr>cr_calls := calls,
    cr_daemon := (cr_daemon s)\<lparr>dn_db := delete_schedule sid (dn_db (cr_daemon s))\<rparr>\<rparr>"
  have rows': "rows_of s' = filter (\<lambda>r. s_id r \<noteq> sid) (rows_of s)" by (simp add: s'_def delete_schedule_def)
  have "rows_ok lib (filter (\<lambda>r. s_id r \<noteq> sid) (rows_of s))"
    using rows by (auto simp: rows_ok_def distinct_map_filter)
  moreover have "cr_calls s' = calls" by (simp add: s'_def)
  ultimately have "coherent lib s'" using calls by (intro coherentI) (simp_all add: rows')
  moreover have "prepared lib n s'" using assms(2) rows' by (auto simp: prepared_def s'_def)
  moreover have "run_state (remove_schedule lib sid) s = (Some (), s')"
    using faults by (simp add: remove_schedule_def drop run_simps s'_def)
  moreover have "table s' = (table s)(sid := None)"
    using rows by (auto simp: fun_eq_iff table_def rows' rows_ok_def lookup_row_filter lookup_row_None
        split: option.splits dest: lookup_row_SomeD)
  ultimately show ?thesis by (intro that [of s']) (simp_all add: s'_def)
qed


subsection \<open>Reconciling with the catalog\<close>

text \<open>The entry a catalog task wants, and when its row already has it.\<close>

definition up_to_date :: "schedule list \<Rightarrow> schedule \<Rightarrow> bool" where
  "up_to_date existing sc \<longleftrightarrow> (case List.find (\<lambda>e. sc_id e = sc_id sc) existing of
     None \<Rightarrow> False
   | Some old \<Rightarrow> sc_cron old = sc_cron sc \<and> sc_task old = sc_task sc \<and> sc_enabled old)"

lemma sync_schedule_eq:
  obtains last where "sync_schedule lib existing sc =
    (if up_to_date existing sc then ret () else do { r \<leftarrow> upsert lib (sc\<lparr>sc_last_run := last\<rparr>); ret () })"
proof (cases "List.find (\<lambda>e. sc_id e = sc_id sc) existing")
  case None
  then show ?thesis
    by (intro that [of "sc_last_run sc"]) (simp add: sync_schedule_def up_to_date_def)
next
  case (Some old)
  then show ?thesis
    by (intro that [of "sc_last_run old"]) (auto simp: sync_schedule_def up_to_date_def)
qed

lemma run_drop_stale_all:
  assumes "coherent lib s" and "prepared lib n s"
  obtains s' where "run_state (for_each (drop_stale lib desired) xs) s = ((), s')" "coherent lib s'"
    "prepared lib n s'" "dn_catalog (cr_daemon s') = dn_catalog (cr_daemon s)"
    "table s' = (\<lambda>sid. if \<exists>x \<in> set xs. stale_schedule desired x \<and> sc_id x = sid then None else table s sid)"
  using assms
proof (induction xs arbitrary: s thesis)
  case Nil
  then show ?case by simp
next
  case (Cons x xs)
  obtain s1 where s1: "run_state (drop_stale lib desired x) s = ((), s1)" "coherent lib s1" "prepared lib n s1"
    "dn_catalog (cr_daemon s1) = dn_catalog (cr_daemon s)"
    "table s1 = (if stale_schedule desired x then (table s)(sc_id x := None) else table s)"
  proof (cases "stale_schedule desired x")
    case True
    obtain s1 where "run_state (remove_schedule lib (sc_id x)) s = (Some (), s1)" "coherent lib s1" "prepared lib n s1"
      "table s1 = (table s)(sc_id x := None)" "dn_catalog (cr_daemon s1) = dn_catalog (cr_daemon s)"
      by (rule run_remove_schedule [OF Cons.prems(2,3)])
    then show ?thesis using True by (intro that [of s1]) (simp_all add: drop_stale_def)
  next
    case False
    then show ?thesis using Cons.prems by (intro that [of s]) (simp_all add: drop_stale_def)
  qed
  obtain s2 where s2: "run_state (for_each (drop_stale lib desired) xs) s1 = ((), s2)" "coherent lib s2"
    "prepared lib n s2" "dn_catalog (cr_daemon s2) = dn_catalog (cr_daemon s1)"
    "table s2 = (\<lambda>sid. if \<exists>x \<in> set xs. stale_schedule desired x \<and> sc_id x = sid then None else table s1 sid)"
    by (rule Cons.IH [OF _ s1(2,3)])
  show ?case
    by (rule Cons.prems(1) [of s2]) (use s1 s2 in \<open>auto simp: fun_eq_iff\<close>)
qed

lemma run_sync_all:
  assumes "coherent lib s" and "prepared lib (length ds) s"
    and "\<forall>sc \<in> set ds. sc_enabled sc \<longrightarrow> cl_accepts lib (sc_cron sc)" and "distinct (map sc_id ds)"
  obtains s' where "run_state (for_each (sync_schedule lib existing) ds) s = ((), s')" "coherent lib s'"
    "prepared lib 0 s'" "dn_catalog (cr_daemon s') = dn_catalog (cr_daemon s)"
    "\<And>sc. sc \<in> set ds \<Longrightarrow>
      table s' (sc_id sc) = (if up_to_date existing sc then table s (sc_id sc) else Some (entry sc))"
    "\<And>sid. sid \<notin> sc_id ` set ds \<Longrightarrow> table s' sid = table s sid"
  using assms
proof (induction ds arbitrary: s thesis)
  case Nil
  show ?case by (rule Nil.prems(1) [of s]) (use Nil.prems(2-) in simp_all)
next
  case (Cons x xs)
  obtain last where sync: "sync_schedule lib existing x =
    (if up_to_date existing x then ret () else do { r \<leftarrow> upsert lib (x\<lparr>sc_last_run := last\<rparr>); ret () })"
    by (rule sync_schedule_eq)
  obtain s1 where s1: "run_state (sync_schedule lib existing x) s = ((), s1)" "coherent lib s1"
    "prepared lib (length xs) s1" "dn_catalog (cr_daemon s1) = dn_catalog (cr_daemon s)"
    "table s1 = (if up_to_date existing x then table s else (table s)(sc_id x := Some (entry x)))"
  proof (cases "up_to_date existing x")
    case True
    then show ?thesis using Cons.prems by (intro that [of s]) (auto simp: sync prepared_def)
  next
    case False
    have "prepared lib (Suc (length xs)) s" using Cons.prems(3) by simp
    moreover have "sc_enabled (x\<lparr>sc_last_run := last\<rparr>) \<Longrightarrow> cl_accepts lib (sc_cron (x\<lparr>sc_last_run := last\<rparr>))"
      using Cons.prems(4) by simp
    ultimately obtain s1 where "run_state (upsert lib (x\<lparr>sc_last_run := last\<rparr>)) s = (Some (), s1)" "coherent lib s1"
      "prepared lib (length xs) s1" "table s1 = (table s)(sc_id x := Some (entry x))"
      "dn_catalog (cr_daemon s1) = dn_catalog (cr_daemon s)"
      using run_upsert [OF Cons.prems(2), of "length xs" "x\<lparr>sc_last_run := last\<rparr>"] by (auto simp: entry_def)
    then show ?thesis using False by (intro that [of s1]) (simp_all add: sync)
  qed
  obtain s2 where s2: "run_state (for_each (sync_schedule lib existing) xs) s1 = ((), s2)" "coherent lib s2"
    "prepared lib 0 s2" "dn_catalog (cr_daemon s2) = dn_catalog (cr_daemon s1)"
    "\<And>sc. sc \<in> set xs \<Longrightarrow>
      table s2 (sc_id sc) = (if up_to_date existing sc then table s1 (sc_id sc) else Some (entry sc))"
    "\<And>sid. sid \<notin> sc_id ` set xs \<Longrightarrow> table s2 sid = table s1 sid"
    by (rule Cons.IH [OF _ s1(2,3)]) (use Cons.prems in auto)
  have fresh: "sc_id x \<notin> sc_id ` set xs" using Cons.prems(5) by simp
  show ?case
  proof (rule Cons.prems(1) [of s2])
    show "run_state (for_each (sync_schedule lib existing) (x # xs)) s = ((), s2)" using s1(1) s2(1) by simp
    show "table s2 (sc_id sc) = (if up_to_date existing sc then table s (sc_id sc) else Some (entry sc))"
      if "sc \<in> set (x # xs)" for sc
    proof (cases "sc = x")
      case True
      then show ?thesis using s2(6) [OF fresh] s1(5) by simp
    next
      case False
      then have "sc \<in> set xs" using that by simp
      moreover from this have "sc_id sc \<noteq> sc_id x" using fresh by (metis image_eqI)
      ultimately show ?thesis using s2(5) [of sc] s1(5) by simp
    qed
    show "table s2 sid = table s sid" if "sid \<notin> sc_id ` set (x # xs)" for sid
      using that s2(6) [of sid] s1(5) by simp
  qed (use s1 s2 in simp_all)
qed


lemma desired_distinct:
  assumes "distinct (map d_name catalog)"
  shows "distinct (map sc_id (desired_schedules catalog))"
  using assms
proof (induction catalog)
  case (Cons def catalog)
  have "sc_id sc \<in> (@) CATALOG_PREFIX ` d_name ` set catalog" if "sc \<in> set (desired_schedules catalog)" for sc
    using that by (auto simp: desired_schedules_def map_filter_def split: option.splits)
  with Cons show ?case
    by (cases "d_schedule def") (fastforce simp: desired_schedules_def List.map_filter_simps)+
qed (simp add: desired_schedules_def List.map_filter_simps)

lemma desired_prefix: "sc \<in> set (desired_schedules catalog) \<Longrightarrow> prefix CATALOG_PREFIX (sc_id sc) \<and> sc_enabled sc"
  by (auto simp: desired_schedules_def map_filter_def split: option.splits)

lemma find_listed:
  assumes "distinct (map s_id (schedules d))"
  shows "List.find (\<lambda>e. sc_id e = sid) (list_schedules d) = map_option row_to_schedule (lookup_row s_id sid (schedules d))"
proof -
  have "List.find (\<lambda>e. sc_id e = sid) (map row_to_schedule rows) = map_option row_to_schedule (lookup_row s_id sid rows)" for rows
    by (induction rows) (auto simp: lookup_row_def row_to_schedule_def)
  moreover have "lookup_row s_id sid (sort_key s_id (schedules d)) = lookup_row s_id sid (schedules d)"
  proof -
    have "distinct (map s_id (sort_key s_id (schedules d)))"
      using assms by (simp add: distinct_map)
    then have "lookup_row s_id sid (sort_key s_id (schedules d)) = Some x \<longleftrightarrow> lookup_row s_id sid (schedules d) = Some x" for x
      by (simp add: lookup_row_Some assms)
    then show ?thesis by (metis (full_types) option.exhaust)
  qed
  ultimately show ?thesis by (simp add: list_schedules_def)
qed

text \<open>What reconciling leaves: the table the catalog wants, with every other schedule as it was.\<close>

definition wanted_entry :: "schedule list \<Rightarrow> (string \<Rightarrow> (string \<times> string \<times> json \<times> bool) option) \<Rightarrow>
  string \<Rightarrow> (string \<times> string \<times> json \<times> bool) option"
where
  "wanted_entry desired tab sid =
     (if \<not> prefix CATALOG_PREFIX sid then tab sid
      else case List.find (\<lambda>sc. sc_id sc = sid) desired of
        None \<Rightarrow> None
      | Some sc \<Rightarrow> (case tab sid of
            Some (cron, task, input, enabled) \<Rightarrow>
              if cron = sc_cron sc \<and> task = sc_task sc \<and> enabled then Some (cron, task, input, True)
              else Some (entry sc)
          | None \<Rightarrow> Some (entry sc)))"

lemma up_to_date_table:
  assumes "distinct (map s_id (rows_of s))"
  shows "up_to_date (list_schedules (dn_db (cr_daemon s))) sc \<longleftrightarrow>
    (\<exists>input. table s (sc_id sc) = Some (sc_cron sc, sc_task sc, input, True))"
  using assms by (auto simp: up_to_date_def find_listed table_def entry_def split: option.splits)

lemma listed_ids: "sc_id ` set (list_schedules d) = s_id ` set (schedules d)"
  by (force simp: list_schedules_def row_to_schedule_def)

lemma run_reconcile_schedules:
  assumes "coherent lib s" and "distinct (map d_name (dn_catalog (cr_daemon s)))"
    and "\<forall>def \<in> set (dn_catalog (cr_daemon s)). \<forall>cron. d_schedule def = Some cron \<longrightarrow> cl_accepts lib cron"
    and "prepared lib (length (desired_schedules (dn_catalog (cr_daemon s)))) s"
  obtains s' where "run_state (reconcile_catalog_schedules lib) s = (Some (), s')" "coherent lib s'"
    "prepared lib 0 s'" "dn_catalog (cr_daemon s') = dn_catalog (cr_daemon s)"
    "table s' = wanted_entry (desired_schedules (dn_catalog (cr_daemon s))) (table s)"
proof -
  let ?ds = "desired_schedules (dn_catalog (cr_daemon s))" and ?ex = "list_schedules (dn_db (cr_daemon s))"
  have faults: "dn_faults (cr_daemon s) = []" using assms(4) by (simp add: prepared_def)
  have rows: "distinct (map s_id (rows_of s))" using assms(1) by (simp add: coherent_def rows_ok_def)
  have ds: "distinct (map sc_id ?ds)" by (rule desired_distinct [OF assms(2)])
  have crons: "\<forall>sc \<in> set ?ds. sc_enabled sc \<longrightarrow> cl_accepts lib (sc_cron sc)"
    using assms(3) by (auto simp: desired_schedules_def map_filter_def split: option.splits)
  obtain s1 where s1: "run_state (for_each (drop_stale lib ?ds) ?ex) s = ((), s1)" "coherent lib s1"
    "prepared lib (length ?ds) s1" "dn_catalog (cr_daemon s1) = dn_catalog (cr_daemon s)"
    "table s1 = (\<lambda>sid. if \<exists>x \<in> set ?ex. stale_schedule ?ds x \<and> sc_id x = sid then None else table s sid)"
    by (rule run_drop_stale_all [OF assms(1,4)])
  obtain s2 where s2: "run_state (for_each (sync_schedule lib ?ex) ?ds) s1 = ((), s2)" "coherent lib s2"
    "prepared lib 0 s2" "dn_catalog (cr_daemon s2) = dn_catalog (cr_daemon s1)"
    "\<And>sc. sc \<in> set ?ds \<Longrightarrow>
      table s2 (sc_id sc) = (if up_to_date ?ex sc then table s1 (sc_id sc) else Some (entry sc))"
    "\<And>sid. sid \<notin> sc_id ` set ?ds \<Longrightarrow> table s2 sid = table s1 sid"
    by (rule run_sync_all [where existing = ?ex, OF s1(2,3) crons ds]) (rule that)
  have "table s2 sid = wanted_entry ?ds (table s) sid" for sid
  proof (cases "List.find (\<lambda>sc. sc_id sc = sid) ?ds")
    case None
    then have "sid \<notin> sc_id ` set ?ds" by (auto simp: find_None_iff)
    moreover have "(\<exists>x \<in> set ?ex. stale_schedule ?ds x \<and> sc_id x = sid) \<longleftrightarrow>
        prefix CATALOG_PREFIX sid \<and> sid \<in> sc_id ` set ?ex"
      using None by (auto simp: stale_schedule_def find_None_iff)
    moreover have "sid \<notin> s_id ` set (rows_of s) \<longleftrightarrow> table s sid = None"
      by (simp add: table_def lookup_row_None)
    ultimately show ?thesis
      using s2(6) [of sid] None by (auto simp: s1(5) wanted_entry_def listed_ids)
  next
    case (Some sc)
    then have sc: "sc \<in> set ?ds" "sc_id sc = sid" by (auto dest: find_SomeD)
    then have "table s1 sid = table s sid" by (auto simp: s1(5) stale_schedule_def)
    with s2(5) [OF sc(1)] sc desired_prefix [OF sc(1)] show ?thesis
      unfolding wanted_entry_def Some up_to_date_table [OF rows]
      by (auto split: option.splits)
  qed
  then have "table s2 = wanted_entry ?ds (table s)" by (rule ext)
  moreover have "run_state (reconcile_catalog_schedules lib) s = (Some (), s2)"
    using s1(1) s2(1) faults by (simp add: reconcile_catalog_schedules_def run_simps)
  ultimately show ?thesis using s1 s2 by (intro that [of s2]) simp_all
qed

lemma run_reconcile_settled:
  assumes "distinct (map s_id (rows_of s))" and "dn_faults (cr_daemon s) = []"
    and "\<forall>sc \<in> set (desired_schedules (dn_catalog (cr_daemon s))).
      \<exists>input. table s (sc_id sc) = Some (sc_cron sc, sc_task sc, input, True)"
    and "\<And>sid. prefix CATALOG_PREFIX sid \<Longrightarrow> table s sid \<noteq> None \<Longrightarrow>
      sid \<in> sc_id ` set (desired_schedules (dn_catalog (cr_daemon s)))"
  shows "run_state (reconcile_catalog_schedules lib) s = (Some (), s)"
proof -
  let ?ds = "desired_schedules (dn_catalog (cr_daemon s))" and ?ex = "list_schedules (dn_db (cr_daemon s))"
  have "\<not> stale_schedule ?ds x" if "x \<in> set ?ex" for x
  proof -
    have "table s (sc_id x) \<noteq> None"
      using that imageI [of x "set ?ex" sc_id] unfolding listed_ids by (simp add: table_def lookup_row_None)
    then show ?thesis using assms(4) [of "sc_id x"] by (force simp: stale_schedule_def)
  qed
  moreover have "run_state (for_each (drop_stale lib ?ds) xs) s = ((), s)"
    if "\<forall>x \<in> set xs. \<not> stale_schedule ?ds x" for xs
    using that by (induction xs) (simp_all add: drop_stale_def)
  moreover have "run_state (for_each (sync_schedule lib ?ex) ds) s = ((), s)"
    if "\<forall>sc \<in> set ds. up_to_date ?ex sc" for ds
    using that by (induction ds) (auto simp: sync_schedule_def up_to_date_def split: option.splits)
  ultimately show ?thesis
    using assms(2,3) by (simp add: reconcile_catalog_schedules_def run_simps up_to_date_table [OF assms(1)])
qed


lemma desired_wanted:
  assumes "distinct (map d_name catalog)" and "sc \<in> set (desired_schedules catalog)"
  shows "List.find (\<lambda>x. sc_id x = sc_id sc) (desired_schedules catalog) = Some sc"
  using find_Some_unique [OF desired_distinct [OF assms(1)]] assms(2) by simp

text \<open>A table the catalog is content with is left alone, whatever the scheduler library would answer.\<close>

lemma wanted_settled:
  assumes "distinct (map s_id (rows_of s))" and "dn_faults (cr_daemon s) = []"
    and "distinct (map d_name (dn_catalog (cr_daemon s)))"
    and "wanted_entry (desired_schedules (dn_catalog (cr_daemon s))) (table s) = table s"
  shows "run_state (reconcile_catalog_schedules lib) s = (Some (), s)"
proof -
  let ?ds = "desired_schedules (dn_catalog (cr_daemon s))"
  have tab: "table s sid = wanted_entry ?ds (table s) sid" for sid using assms(4) by simp
  have "\<exists>input. table s (sc_id sc) = Some (sc_cron sc, sc_task sc, input, True)" if "sc \<in> set ?ds" for sc
    using tab [of "sc_id sc"] desired_wanted [OF assms(3) that] desired_prefix [OF that]
    by (auto simp: wanted_entry_def entry_def split: option.splits if_splits)
  moreover have "sid \<in> sc_id ` set ?ds" if "prefix CATALOG_PREFIX sid" "table s sid \<noteq> None" for sid
    using tab [of sid] that by (auto simp: wanted_entry_def split: option.splits dest: find_SomeD)
  ultimately show ?thesis
    using run_reconcile_settled [OF assms(1,2)] by simp
qed

text \<open>C25: reconciling with the catalog, when nothing fails, ends with exactly the schedules the catalog asks
  for beside the user's own, every enabled one with exactly one live job and no other job live; and
  reconciling again changes nothing.\<close>

theorem schedules_follow_catalog:
  fixes lib :: cron_lib and s :: cron_state
  assumes "coherent lib s" and "distinct (map d_name (dn_catalog (cr_daemon s)))"
    and "\<forall>def \<in> set (dn_catalog (cr_daemon s)). \<forall>cron. d_schedule def = Some cron \<longrightarrow> cl_accepts lib cron"
    and "prepared lib (length (dn_catalog (cr_daemon s))) s"
  defines "s' \<equiv> snd (run_state (reconcile_catalog_schedules lib) s)"
  shows "fst (run_state (reconcile_catalog_schedules lib) s) = Some () \<and> coherent lib s' \<and>
    table s' = wanted_entry (desired_schedules (dn_catalog (cr_daemon s))) (table s) \<and>
    run_state (reconcile_catalog_schedules lib) s' = (Some (), s')"
proof -
  let ?ds = "desired_schedules (dn_catalog (cr_daemon s))"
  have "length ?ds \<le> length (dn_catalog (cr_daemon s))"
    by (simp add: desired_schedules_def map_filter_def)
  then have "prepared lib (length ?ds) s" using assms(4) unfolding prepared_def by (meson order_trans)
  then obtain s2 where s2: "run_state (reconcile_catalog_schedules lib) s = (Some (), s2)" "coherent lib s2"
    "prepared lib 0 s2" "dn_catalog (cr_daemon s2) = dn_catalog (cr_daemon s)" "table s2 = wanted_entry ?ds (table s)"
    by (rule run_reconcile_schedules [OF assms(1-3)])
  have "wanted_entry ?ds (table s2) = table s2"
    unfolding s2(5) by (rule ext) (auto simp: wanted_entry_def entry_def desired_prefix dest!: find_SomeD split: option.splits)
  then have "run_state (reconcile_catalog_schedules lib) s2 = (Some (), s2)"
    using s2 assms(2) by (intro wanted_settled) (auto simp: coherent_def prepared_def rows_ok_def)
  with s2 show ?thesis by (simp add: s'_def)
qed

text \<open>When the registration of a schedule fails, its row is stored as enabled and its old job is gone;
  from then on no reconciliation with the catalog gives it a job, even when the scheduler accepts jobs
  again.\<close>

theorem lost_registration_stays_lost:
  fixes lib lib' :: cron_lib and s :: cron_state and sc :: schedule
  assumes "coherent lib s" and "dn_faults (cr_daemon s) = []" and "cr_removes s = []"
    and "distinct (map d_name (dn_catalog (cr_daemon s)))"
    and "sc_enabled sc" and "\<not> cl_accepts lib (sc_cron sc) \<or> cr_adds s = None # rest"
  defines "s' \<equiv> snd (run_state (upsert lib sc) s)"
  shows "fst (run_state (upsert lib sc) s) = None \<and> table s' = (table s)(sc_id sc := Some (entry sc)) \<and>
    (\<forall>(u, job) \<in> set (live (cr_calls s')). cj_schedule job \<noteq> sc_id sc) \<and>
    (wanted_entry (desired_schedules (dn_catalog (cr_daemon s))) (table s') = table s' \<longrightarrow>
      (\<forall>answers. run_state (reconcile_catalog_schedules lib') (s'\<lparr>cr_adds := answers\<rparr>) =
        (Some (), s'\<lparr>cr_adds := answers\<rparr>)))"
proof -
  let ?d = "dn_db (cr_daemon s)" and ?sid = "sc_id sc"
  have rows: "rows_ok lib (rows_of s)" using assms(1) by (simp add: coherent_def)
  then have dist: "distinct (map s_id (rows_of s))" by (simp add: rows_ok_def)
  obtain calls where drop: "run_state (drop_job lib ?sid) s = (Some (), s\<lparr>cr_calls := calls\<rparr>)"
    and calls: "set (live calls) = expected_jobs {r \<in> set (rows_of s). s_id r \<noteq> ?sid}"
    by (rule run_drop_job [OF assms(1-3)])
  define s1 where "s1 = s\<lparr>cr_calls := calls, cr_daemon := (cr_daemon s)\<lparr>dn_db := upsert_schedule sc ?d\<rparr>\<rparr>"
  obtain adds where s': "run_state (upsert lib sc) s = (None, s1\<lparr>cr_adds := adds\<rparr>)"
    using assms(2,5,6) drop
    by (cases "cl_accepts lib (sc_cron sc)")
      (auto simp: upsert_def run_simps register_def add_job_def s1_def
        intro!: that [of rest] that [of "cr_adds s"])
  obtain r where put: "row_put r (rows_of s) (schedules (upsert_schedule sc ?d))" and r: "s_id r = ?sid"
      "entry (row_to_schedule r) = entry sc"
    by (rule row_put_upsert [OF dist])
  have s'_eq: "s' = s1\<lparr>cr_adds := adds\<rparr>" using s' by (simp add: s'_def)
  have tab: "table s' = (table s)(?sid := Some (entry sc))"
    using table_put [of r s s'] put dist r by (simp add: s'_eq s1_def)
  have "cj_schedule job \<noteq> ?sid" if "(u, job) \<in> set (live (cr_calls s'))" for u job
    using that calls by (auto simp: s'_eq s1_def expected_jobs_def row_job_def job_of_def row_to_schedule_def)
  moreover have "run_state (reconcile_catalog_schedules lib') (s'\<lparr>cr_adds := answers\<rparr>) =
      (Some (), s'\<lparr>cr_adds := answers\<rparr>)"
    if settled: "wanted_entry (desired_schedules (dn_catalog (cr_daemon s))) (table s') = table s'" for answers
  proof (rule wanted_settled)
    have "table (s'\<lparr>cr_adds := answers\<rparr>) = table s'" by (rule ext) (simp add: table_def)
    with settled show "wanted_entry (desired_schedules (dn_catalog (cr_daemon (s'\<lparr>cr_adds := answers\<rparr>))))
        (table (s'\<lparr>cr_adds := answers\<rparr>)) = table (s'\<lparr>cr_adds := answers\<rparr>)"
      by (simp add: s'_eq s1_def)
  qed (use put assms(2,4) in \<open>simp_all add: s'_eq s1_def row_put_def\<close>)
  ultimately show ?thesis using s' tab by (auto simp: s'_def)
qed


subsection \<open>Startup\<close>

text \<open>What the rows need before any job is registered: the job ids they still hold from the last run differ.\<close>

definition rows_keyed :: "cron_lib \<Rightarrow> schedule_row list \<Rightarrow> bool" where
  "rows_keyed lib rows \<longleftrightarrow> distinct (map s_id rows) \<and>
     (\<forall>r \<in> set rows. \<forall>u. s_job_id r = Some u \<longrightarrow> cl_parse_uuid lib u = Some u) \<and>
     (\<forall>r \<in> set rows. \<forall>r' \<in> set rows. s_job_id r \<noteq> None \<longrightarrow> s_job_id r' = s_job_id r \<longrightarrow> r' = r)"

lemma rows_ok_keyed:
  "rows_ok lib rows \<longleftrightarrow> rows_keyed lib rows \<and> (\<forall>r \<in> set rows. s_enabled r \<longrightarrow> s_job_id r \<noteq> None)"
  unfolding rows_ok_def rows_keyed_def by blast

definition started :: "cron_lib \<Rightarrow> string set \<Rightarrow> cron_state \<Rightarrow> bool" where
  "started lib ids s \<longleftrightarrow> rows_keyed lib (rows_of s) \<and> distinct (map fst (live (cr_calls s))) \<and>
     set (live (cr_calls s)) = expected_jobs {r \<in> set (rows_of s). s_id r \<in> ids} \<and>
     (\<forall>r \<in> set (rows_of s). s_id r \<in> ids \<longrightarrow> s_enabled r \<longrightarrow> s_job_id r \<noteq> None)"

lemma rows_keyed_put:
  assumes "rows_keyed lib rows" and "row_put (r\<lparr>s_job_id := Some u\<rparr>) rows rows'"
    and "cl_parse_uuid lib u = Some u" and "\<forall>x \<in> set rows. s_job_id x \<noteq> Some u"
  shows "rows_keyed lib rows'"
proof -
  let ?r = "r\<lparr>s_job_id := Some u\<rparr>"
  have rows': "distinct (map s_id rows')" "set rows' = insert ?r {x \<in> set rows. s_id x \<noteq> s_id r}"
    using assms(2) by (auto simp: row_put_def)
  have "y = x" if mem: "x \<in> set rows'" "y \<in> set rows'" and "s_job_id x \<noteq> None" "s_job_id y = s_job_id x" for x y
  proof -
    obtain v where v: "s_job_id x = Some v" "s_job_id y = Some v" using \<open>s_job_id x \<noteq> None\<close> \<open>s_job_id y = _\<close> by auto
    consider "x = ?r" "y = ?r" | "x \<in> set rows" "y \<in> set rows"
      using mem v assms(4) unfolding rows'(2) by auto
    then show ?thesis
      using assms(1) v unfolding rows_keyed_def by cases (simp, metis option.discI)
  qed
  moreover have "cl_parse_uuid lib v = Some v" if "x \<in> set rows'" "s_job_id x = Some v" for x v
    using that assms(1,3) unfolding rows'(2) by (auto simp: rows_keyed_def)
  ultimately show ?thesis unfolding rows_keyed_def using rows'(1) by metis
qed

lemma insert_started:
  "f r = k \<Longrightarrow> k \<notin> ids \<Longrightarrow>
   {x \<in> insert r {x \<in> R. f x \<noteq> k}. f x \<in> insert k ids} = insert r {x \<in> R. f x \<in> ids}"
  by auto

lemma run_start_schedule:
  assumes "started lib ids s" and "prepared lib (Suc n) s" and "sc_enabled sc \<Longrightarrow> cl_accepts lib (sc_cron sc)"
    and "table s (sc_id sc) = Some (entry sc)" and "sc_id sc \<notin> ids"
  obtains s' where "run_state (start_schedule lib sc) s = ((), s')" "started lib (insert (sc_id sc) ids) s'"
    "prepared lib n s'" "table s' = table s" "map s_id (rows_of s') = map s_id (rows_of s)"
proof -
  have keyed: "rows_keyed lib (rows_of s)" using assms(1) by (simp add: started_def)
  then have dist: "distinct (map s_id (rows_of s))" by (simp add: rows_keyed_def)
  obtain r where r: "r \<in> set (rows_of s)" "s_id r = sc_id sc" "entry (row_to_schedule r) = entry sc"
    using assms(4) by (auto simp: table_def dest: lookup_row_SomeD)
  have same: "x = r" if "x \<in> set (rows_of s)" "s_id x = sc_id sc" for x
    using that r(1,2) dist by (auto simp: distinct_map inj_on_def)
  show ?thesis
  proof (cases "sc_enabled sc")
    case False
    then have "\<not> s_enabled r" using r(3) by (simp add: entry_def row_to_schedule_def)
    then have "expected_jobs {x \<in> set (rows_of s). s_id x \<in> insert (sc_id sc) ids} =
        expected_jobs {x \<in> set (rows_of s). s_id x \<in> ids}"
      using same by (auto simp: expected_jobs_mem)
    then have "started lib (insert (sc_id sc) ids) s"
      using assms(1) same \<open>\<not> s_enabled r\<close> unfolding started_def by (simp; metis)
    then show ?thesis
      using False assms(2) by (intro that [of s]) (auto simp: start_schedule_def prepared_def)
  next
    case True
    obtain us where us: "cr_adds s = map Some us" "Suc n \<le> length us" "distinct us"
      "\<forall>u \<in> set us. cl_parse_uuid lib u = Some u \<and> (\<forall>r \<in> set (rows_of s). s_job_id r \<noteq> Some u)"
      using assms(2) by (auto simp: prepared_def)
    have faults: "dn_faults (cr_daemon s) = []" "cr_removes s = []" using assms(2) by (auto simp: prepared_def)
    obtain u us' where u: "us = u # us'" using us(2) by (cases us) auto
    have fresh: "cl_parse_uuid lib u = Some u" "\<forall>x \<in> set (rows_of s). s_job_id x \<noteq> Some u" using us(4) u by auto
    let ?r = "r\<lparr>s_job_id := Some u\<rparr>"
    define s' where "s' = s\<lparr>cr_calls := cr_calls s @ [JobAdded u (job_of sc)], cr_adds := map Some us',
      cr_daemon := (cr_daemon s)\<lparr>dn_db := set_schedule_job_id (sc_id sc) u (dn_db (cr_daemon s))\<rparr>\<rparr>"
    have put: "row_put ?r (rows_of s) (rows_of s')"
      using row_put_job_id [OF dist r(1), of u] r(2) by (simp add: s'_def)
    have job: "row_job ?r = job_of sc" "s_enabled r"
      using r(2,3) True by (simp_all add: row_job_def job_of_def entry_def row_to_schedule_def)
    have rows': "set (rows_of s') = insert ?r {x \<in> set (rows_of s). s_id x \<noteq> sc_id sc}"
      using put r(2) by (simp add: row_put_def)
    have "s_id ?r = sc_id sc" using r(2) by simp
    from this assms(5) have set': "{x \<in> set (rows_of s'). s_id x \<in> insert (sc_id sc) ids} =
        insert ?r {x \<in> set (rows_of s). s_id x \<in> ids}"
      unfolding rows' by (rule insert_started)
    have "u \<notin> fst ` set (live (cr_calls s))"
      using assms(1) fresh by (auto simp: started_def expected_jobs_mem)
    moreover have "rows_keyed lib (rows_of s')" by (rule rows_keyed_put [OF keyed put fresh])
    moreover have "s_job_id x \<noteq> None" if "x \<in> set (rows_of s')" "s_id x \<in> insert (sc_id sc) ids" "s_enabled x" for x
      using that assms(1) put r(2) by (auto simp: started_def row_put_def)
    moreover have "set (live (cr_calls s')) = expected_jobs {x \<in> set (rows_of s'). s_id x \<in> insert (sc_id sc) ids}"
      unfolding set' using assms(1) job by (auto simp: started_def s'_def expected_jobs_insert)
    ultimately have "started lib (insert (sc_id sc) ids) s'"
      using assms(1) unfolding started_def by (simp add: s'_def)
    moreover have "prepared lib n s'"
      using us faults put u unfolding prepared_def row_put_def by (fastforce simp: s'_def)
    moreover have "run_state (start_schedule lib sc) s = ((), s')"
      using True assms(3) faults us(1) u
      by (simp add: start_schedule_def register_def add_job_def run_simps s'_def)
    moreover have "table s' = table s"
      using table_put [OF put dist] r(2,3) assms(4) by (auto simp: entry_def row_to_schedule_def fun_upd_idem)
    moreover have "map s_id (rows_of s') = map s_id (rows_of s)"
      by (simp add: s'_def set_schedule_job_id_def map_update_rows)
    ultimately show ?thesis by (intro that [of s'])
  qed
qed

lemma run_start_all:
  assumes "started lib ids s" and "prepared lib (length scs) s"
    and "\<forall>sc \<in> set scs. (sc_enabled sc \<longrightarrow> cl_accepts lib (sc_cron sc)) \<and> table s (sc_id sc) = Some (entry sc) \<and>
      sc_id sc \<notin> ids" and "distinct (map sc_id scs)"
  obtains s' where "run_state (for_each (start_schedule lib) scs) s = ((), s')"
    "started lib (ids \<union> sc_id ` set scs) s'" "table s' = table s" "map s_id (rows_of s') = map s_id (rows_of s)"
  using assms
proof (induction scs arbitrary: s ids thesis)
  case Nil
  show ?case by (rule Nil.prems(1) [of s]) (use Nil.prems(2-) in simp_all)
next
  case (Cons x xs)
  have "prepared lib (Suc (length xs)) s" using Cons.prems(3) by simp
  then obtain s1 where s1: "run_state (start_schedule lib x) s = ((), s1)" "started lib (insert (sc_id x) ids) s1"
    "prepared lib (length xs) s1" "table s1 = table s" "map s_id (rows_of s1) = map s_id (rows_of s)"
    using run_start_schedule [OF Cons.prems(2), of "length xs" x] Cons.prems(4) by auto
  have fresh: "sc_id sc \<noteq> sc_id x" if "sc \<in> set xs" for sc using Cons.prems(5) that by (force simp: image_iff)
  have rest: "\<forall>sc \<in> set xs. (sc_enabled sc \<longrightarrow> cl_accepts lib (sc_cron sc)) \<and> table s1 (sc_id sc) = Some (entry sc) \<and>
      sc_id sc \<notin> insert (sc_id x) ids"
    using Cons.prems(4) fresh s1(4) by simp
  obtain s2 where s2: "run_state (for_each (start_schedule lib) xs) s1 = ((), s2)"
    "started lib (insert (sc_id x) ids \<union> sc_id ` set xs) s2" "table s2 = table s1"
    "map s_id (rows_of s2) = map s_id (rows_of s1)"
    by (rule Cons.IH [OF _ s1(2,3) rest]) (use Cons.prems(5) in auto)
  show ?case by (rule Cons.prems(1) [of s2]) (use s1 s2 in simp_all)
qed

text \<open>A start at which nothing fails makes the scheduler coherent, whatever an earlier run left behind: in
  particular it heals the schedules whose registration was lost.\<close>

theorem start_makes_coherent:
  fixes lib :: cron_lib and s :: cron_state
  assumes "rows_keyed lib (rows_of s)" and "cr_calls s = []" and "prepared lib (length (rows_of s)) s"
    and "\<forall>r \<in> set (rows_of s). s_enabled r \<longrightarrow> cl_accepts lib (s_cron r)"
  defines "s' \<equiv> snd (run_state (start_schedules lib) s)"
  shows "fst (run_state (start_schedules lib) s) = Some () \<and> coherent lib s' \<and> table s' = table s"
proof -
  let ?scs = "list_schedules (dn_db (cr_daemon s))"
  have dist: "distinct (map s_id (rows_of s))" using assms(1) by (simp add: rows_keyed_def)
  have "started lib {} s" using assms(1,2) by (simp add: started_def expected_jobs_def)
  moreover have "prepared lib (length ?scs) s" using assms(3) by (simp add: list_schedules_def)
  moreover have "\<forall>sc \<in> set ?scs. (sc_enabled sc \<longrightarrow> cl_accepts lib (sc_cron sc)) \<and>
      table s (sc_id sc) = Some (entry sc) \<and> sc_id sc \<notin> {}"
  proof
    fix sc assume "sc \<in> set ?scs"
    then obtain r where r: "r \<in> set (rows_of s)" "sc = row_to_schedule r" by (auto simp: list_schedules_def)
    then have "lookup_row s_id (s_id r) (rows_of s) = Some r" by (simp add: lookup_row_Some [OF dist])
    with r assms(4) show "(sc_enabled sc \<longrightarrow> cl_accepts lib (sc_cron sc)) \<and>
        table s (sc_id sc) = Some (entry sc) \<and> sc_id sc \<notin> {}"
      by (auto simp: row_to_schedule_def table_def)
  qed
  moreover have "distinct (map sc_id ?scs)"
    using dist by (simp add: list_schedules_def row_to_schedule_def o_def distinct_map)
  ultimately obtain s2 where s2: "run_state (for_each (start_schedule lib) ?scs) s = ((), s2)"
    "started lib ({} \<union> sc_id ` set ?scs) s2" "table s2 = table s" "map s_id (rows_of s2) = map s_id (rows_of s)"
    by (rule run_start_all)
  have "s_id ` set (rows_of s2) = sc_id ` set ?scs" using arg_cong [OF s2(4), of set] by (simp add: listed_ids)
  then have "{r \<in> set (rows_of s2). s_id r \<in> {} \<union> sc_id ` set ?scs} = set (rows_of s2)" by auto
  then have "coherent lib s2"
    using s2(2) unfolding started_def coherent_def rows_ok_keyed by (metis (no_types, lifting) mem_Collect_eq)
  moreover have "run_state (start_schedules lib) s = (Some (), s2)"
    using s2(1) assms(3) by (simp add: start_schedules_def run_simps prepared_def)
  ultimately show ?thesis using s2(3) by (simp add: s'_def)
qed

subsection \<open>A firing\<close>

text \<open>A firing adds one pending task and touches its schedule; a second firing in the same second adds
  none, but announces a tick as well.\<close>

theorem fire_adds_once:
  fixes s :: daemon and now :: time and job :: cron_job
  assumes "dn_faults s = []" and "dn_uuids s = tid # us" and "tid \<notin> t_id ` set (tasks (dn_db s))"
  defines "key \<equiv> fire_key (cj_schedule job) now"
  defines "s' \<equiv> snd (run_state (fire now job) s)"
  shows "tasks (dn_db s') = tasks (dn_db s) @
      (if Some key \<in> t_dedupe_key ` set (tasks (dn_db s)) then []
       else [row_of_task (new_task now tid (cj_task job) (cj_input job) (Some key) no_lineage False)]) \<and>
    schedules (dn_db s') = schedules (touch_schedule now (cj_schedule job) (dn_db s)) \<and>
    map e_kind (events (dn_db s')) = map e_kind (events (dn_db s)) @ [EvTaskIdle, EvCronTick]"
proof -
  define t where "t = new_task now tid (cj_task job) (cj_input job) (Some key) no_lineage False"
  obtain s1 where s1: "run_state (enqueue_task now (cj_task job) (cj_input job) (Some key) False) s = (Some t, s1)"
    "dn_faults s1 = []" "tasks (dn_db s1) = tasks (insert_task t (dn_db s))"
    "schedules (dn_db s1) = schedules (dn_db s)"
    "map e_kind (events (dn_db s1)) = map e_kind (events (dn_db s)) @ [EvTaskIdle]"
    using assms(1) unfolding enqueue_task_def run_enqueue [OF assms(1,2)]
    by (simp add: t_def insert_task_def)
  obtain s2 where s2: "run_state (emit_event now EvCronTick (mk_obj [(''schedule_id'', JStr (cj_schedule job)),
      (''task_id'', JStr (t_id t))])) s1 = ((), s2)" "dn_faults s2 = []" "tasks (dn_db s2) = tasks (dn_db s1)"
    "schedules (dn_db s2) = schedules (dn_db s1)"
    "map e_kind (events (dn_db s2)) = map e_kind (events (dn_db s1)) @ [EvCronTick]"
    using s1(2) by (simp add: run_emit_event Let_def)
  have "dn_db s' = touch_schedule now (cj_schedule job) (dn_db s2)"
    using s1(1) s2(1,2) by (simp add: s'_def fire_def key_def run_simps)
  moreover have "tasks (insert_task t (dn_db s)) = tasks (dn_db s) @
      (if Some key \<in> t_dedupe_key ` set (tasks (dn_db s)) then [] else [row_of_task t])"
    using assms(3) by (simp add: insert_task_def t_def)
  ultimately show ?thesis
    using s1(3-5) s2(3-5) by (simp add: touch_schedule_def t_def)
qed

subsection \<open>Concrete instances\<close>

definition morning_lib :: cron_lib where
  "morning_lib = \<lparr>cl_accepts = (\<lambda>c. c = ''0 0 8 * * *''), cl_next = (\<lambda>_ _. None), cl_parse_uuid = Some\<rparr>"

definition morning_catalog :: "task_def list" where
  "morning_catalog = [(bare_def ''plan'')\<lparr>d_schedule := Some ''0 0 8 * * *''\<rparr>]"

definition morning_schedule :: schedule where
  "morning_schedule = \<lparr>sc_id = ''catalog:plan'', sc_cron = ''0 0 8 * * *'', sc_task = ''plan'', sc_input = mk_obj [],
     sc_enabled = True, sc_last_run = None, sc_next_run = None\<rparr>"

definition morning :: "uuid option list \<Rightarrow> cron_state" where
  "morning answers = \<lparr>cr_daemon = (idle_daemon empty_db)\<lparr>dn_catalog := morning_catalog\<rparr>, cr_calls = [],
     cr_adds = answers, cr_removes = []\<rparr>"

lemma morning_desired: "desired_schedules morning_catalog = [morning_schedule]"
  by (simp add: desired_schedules_def morning_catalog_def morning_schedule_def List.map_filter_simps
      CATALOG_PREFIX_def bare_def_def)

lemma morning_simps:
  "dn_catalog (cr_daemon (morning answers)) = morning_catalog" "dn_faults (cr_daemon (morning answers)) = []"
  "schedules (dn_db (cr_daemon (morning answers))) = []" "cr_calls (morning answers) = []"
  "cr_adds (morning answers) = answers" "cr_removes (morning answers) = []" "table (morning answers) = Map.empty"
  by (simp_all add: morning_def idle_daemon_def empty_db_def table_def lookup_row_def fun_eq_iff)

lemma morning_coherent: "coherent lib (morning answers)"
  by (simp add: coherent_def morning_simps rows_ok_def expected_jobs_def)

lemma morning_names: "distinct (map d_name morning_catalog)" "length morning_catalog = 1"
  by (simp_all add: morning_catalog_def)

theorem schedules_follow_catalog_witness:
  "table (snd (run_state (reconcile_catalog_schedules morning_lib) (morning [Some ''j'']))) ''catalog:plan'' =
     Some (''0 0 8 * * *'', ''plan'', mk_obj [], True)"
proof -
  have "prepared morning_lib (length (dn_catalog (cr_daemon (morning [Some ''j''])))) (morning [Some ''j''])"
    unfolding prepared_def morning_simps morning_names
    by (simp add: morning_lib_def) (rule exI [of _ "[''j'']"], simp)
  moreover have "\<forall>def \<in> set morning_catalog. \<forall>cron. d_schedule def = Some cron \<longrightarrow> cl_accepts morning_lib cron"
    by (simp add: morning_catalog_def morning_lib_def)
  moreover have "prefix CATALOG_PREFIX ''catalog:plan''" by (simp add: CATALOG_PREFIX_def)
  ultimately show ?thesis
    using schedules_follow_catalog [of morning_lib "morning [Some ''j'']"] morning_coherent morning_names
    by (simp add: morning_simps morning_desired wanted_entry_def entry_def morning_schedule_def)
qed

theorem lost_registration_stays_lost_witness:
  "run_state (reconcile_catalog_schedules morning_lib)
     ((snd (run_state (upsert morning_lib morning_schedule) (morning [None])))\<lparr>cr_adds := [Some ''j'']\<rparr>) =
   (Some (), (snd (run_state (upsert morning_lib morning_schedule) (morning [None])))\<lparr>cr_adds := [Some ''j'']\<rparr>)"
proof -
  note lost = lost_registration_stays_lost [of morning_lib "morning [None]" morning_schedule "[]" morning_lib]
  have enabled: "sc_enabled morning_schedule" by (simp add: morning_schedule_def)
  have tab: "table (snd (run_state (upsert morning_lib morning_schedule) (morning [None]))) =
      [sc_id morning_schedule \<mapsto> entry morning_schedule]"
    using lost enabled morning_coherent morning_names by (simp add: morning_simps)
  have "wanted_entry [morning_schedule] [sc_id morning_schedule \<mapsto> entry morning_schedule] =
      [sc_id morning_schedule \<mapsto> entry morning_schedule]"
    by (rule ext) (simp add: wanted_entry_def entry_def morning_schedule_def CATALOG_PREFIX_def)
  with tab show ?thesis
    using lost enabled morning_coherent morning_names by (simp add: morning_simps morning_desired)
qed

definition unregistered :: cron_state where
  "unregistered = \<lparr>cr_daemon = idle_daemon (upsert_schedule morning_schedule empty_db), cr_calls = [],
     cr_adds = [Some ''j''], cr_removes = []\<rparr>"

theorem start_makes_coherent_witness:
  "coherent morning_lib (snd (run_state (start_schedules morning_lib) unregistered))"
proof -
  have rows: "rows_of unregistered = [\<lparr>s_id = ''catalog:plan'', s_cron = ''0 0 8 * * *'', s_task = ''plan'',
      s_input = mk_obj [], s_enabled = True, s_last_run = None, s_job_id = None\<rparr>]"
    by (simp add: unregistered_def idle_daemon_def upsert_schedule_def empty_db_def morning_schedule_def)
  have "prepared morning_lib (length (rows_of unregistered)) unregistered"
    unfolding prepared_def rows
    by (simp add: unregistered_def idle_daemon_def morning_lib_def) (rule exI [of _ "[''j'']"], simp)
  then show ?thesis
    using start_makes_coherent [of morning_lib unregistered]
    by (simp add: rows rows_keyed_def morning_lib_def) (simp add: unregistered_def)
qed

theorem fire_adds_once_witness:
  "map e_kind (events (dn_db (snd (run_state (fire 5000 (job_of morning_schedule))
     ((idle_daemon empty_db)\<lparr>dn_uuids := [''t'']\<rparr>))))) = [EvTaskIdle, EvCronTick]"
  using fire_adds_once [of "(idle_daemon empty_db)\<lparr>dn_uuids := [''t'']\<rparr>" "''t''" "[]" 5000 "job_of morning_schedule"]
  by (simp add: idle_daemon_def empty_db_def)

end
