(* ===== verification/Repos.thy ===== *)
theory Repos
  imports Scheduler Auth
begin

text \<open>
  The registry of known repositories, \<open>crates/favetto/src/repos.rs\<close>, and the catalog watcher,
  \<open>crates/favetto/src/catalog_watch.rs\<close>: names, the scan of the base directory, adding, removing, seeding
  and rediscovering repositories, the reload of the whole catalog, and the paths the watcher is pointed at.

  The file system is an environment of functions, the operating system's watcher the answer to each
  \<open>watch\<close>.  A path is its text; \<open>same_path\<close> is \<open>PathBuf\<close> equality.
\<close>

definition same_path :: "string \<Rightarrow> string \<Rightarrow> bool" where
  "same_path p q \<longleftrightarrow> path_key p = path_key q"

record known_repo =
  kr_name :: string
  kr_path :: string
  kr_source :: repo_source

record repo_info =
  ri_name :: string
  ri_path :: string
  ri_available :: bool
  ri_active :: bool
  ri_source :: repo_source

record repo_seed =
  rd_path :: string
  rd_name :: "string option"

record repo_fs =
  fs_home :: "string option"
  fs_is_dir :: "string \<Rightarrow> bool"
  fs_exists :: "string \<Rightarrow> bool"
  fs_canon :: "string \<Rightarrow> string option"
  fs_read_dir :: "string \<Rightarrow> (string \<times> bool) list option"
  fs_tasks :: "string \<Rightarrow> fs_node list option"
  fs_parse :: "string \<Rightarrow> string \<Rightarrow> string + task_def"

record repo_config =
  rc_known :: "repo_seed list"
  rc_base_dir :: "string option"
  rc_depth :: nat
  rc_tasks_dir :: string

record repo_state =
  rs_cron :: cron_state
  rs_repos :: "known_repo list"
  rs_active :: "string option"
  rs_signals :: nat

type_synonym 'a repo_handler = "(repo_state, 'a) prog"

definition on_cron :: "'a cron_handler \<Rightarrow> 'a repo_handler" where
  "on_cron m = State (\<lambda>s. let (x, c) = run_state m (rs_cron s) in (x, s\<lparr>rs_cron := c\<rparr>))"

abbreviation on_core :: "'a handler \<Rightarrow> 'a repo_handler" where
  "on_core m \<equiv> on_cron (on_daemon m)"

text \<open>\<open>iter_mut().find(..)\<close>: the first match is changed in place.\<close>

fun update_first :: "('a \<Rightarrow> bool) \<Rightarrow> ('a \<Rightarrow> 'a) \<Rightarrow> 'a list \<Rightarrow> 'a list" where
  "update_first P f [] = []"
| "update_first P f (x # xs) = (if P x then f x # xs else x # update_first P f xs)"

subsection \<open>Names\<close>

definition name_char :: "char \<Rightarrow> char" where
  "name_char c = (if is_ascii_alnum c \<or> c = CHR ''.'' \<or> c = CHR ''_'' \<or> c = CHR ''-'' then c else CHR ''-'')"

definition trim_dashes :: "string \<Rightarrow> string" where
  "trim_dashes s = rev (dropWhile (\<lambda>c. c = CHR ''-'') (rev (dropWhile (\<lambda>c. c = CHR ''-'') s)))"

definition sanitize_name :: "string \<Rightarrow> string" where
  "sanitize_name raw = trim_dashes (map name_char (lead_bytes (trim raw)))"

definition derive_name :: "string \<Rightarrow> string" where
  "derive_name path = (case file_name path of Some n \<Rightarrow> n | None \<Rightarrow> ''repo'')"

definition suffixed :: "string \<Rightarrow> nat \<Rightarrow> string" where
  "suffixed base n = base @ ''-'' @ nat_str n"

lemma suffixed_inj [simp]: "suffixed base m = suffixed base n \<longleftrightarrow> m = n"
  using nat_str_inj by (auto simp: suffixed_def)

lemma taken_suffixes_finite: "finite {k. suffixed base k \<in> set names}"
  by (rule finite_imageD [where f = "suffixed base"]) (auto intro: finite_subset [of _ "set names"] inj_onI)

text \<open>The search for a free suffix.  Only finitely many suffixes are taken, so it ends.\<close>

function free_suffix :: "string list \<Rightarrow> string \<Rightarrow> nat \<Rightarrow> string" where
  "free_suffix names base n =
     (if suffixed base n \<in> set names then free_suffix names base (n + 1) else suffixed base n)"
  by pat_completeness auto

termination
proof (relation "measure (\<lambda>(names, base, n). card {k. n \<le> k \<and> suffixed base k \<in> set names})")
  fix names base n
  assume taken: "suffixed base n \<in> set names"
  let ?later = "{k. n + 1 \<le> k \<and> suffixed base k \<in> set names}" and ?from_here = "{k. n \<le> k \<and> suffixed base k \<in> set names}"
  have "n \<in> ?from_here" "n \<notin> ?later" "?later \<subseteq> ?from_here" using taken by auto
  then have "?later \<subset> ?from_here" by blast
  then have "card {k. n + 1 \<le> k \<and> suffixed base k \<in> set names} < card {k. n \<le> k \<and> suffixed base k \<in> set names}"
    by (intro psubset_card_mono finite_subset [OF _ taken_suffixes_finite [of base names]]) auto
  then show "((names, base, n + 1), names, base, n) \<in>
      measure (\<lambda>(names, base, n). card {k. n \<le> k \<and> suffixed base k \<in> set names})"
    by simp
qed simp

declare free_suffix.simps [simp del]

definition unique_name_in :: "known_repo list \<Rightarrow> string \<Rightarrow> string" where
  "unique_name_in existing base =
     (if base \<notin> kr_name ` set existing then base else free_suffix (map kr_name existing) base 2)"

subsection \<open>Lookups\<close>

definition repo_tasks_dir :: "string \<Rightarrow> string" where
  "repo_tasks_dir path = join_path path ''.favetto/tasks''"

definition repo_info_of :: "repo_fs \<Rightarrow> known_repo \<Rightarrow> string option \<Rightarrow> repo_info" where
  "repo_info_of fs r active = \<lparr>ri_name = kr_name r, ri_path = kr_path r,
     ri_available = fs_is_dir fs (repo_tasks_dir (kr_path r)), ri_active = (active = Some (kr_name r)),
     ri_source = kr_source r\<rparr>"

definition list_known_repos :: "repo_fs \<Rightarrow> repo_state \<Rightarrow> repo_info list" where
  "list_known_repos fs s = map (\<lambda>r. repo_info_of fs r (rs_active s)) (rs_repos s)"

definition resolve_repo :: "known_repo list \<Rightarrow> string \<Rightarrow> known_repo option" where
  "resolve_repo rs name = List.find (\<lambda>r. kr_name r = name) rs"

definition task_file_path :: "repo_config \<Rightarrow> known_repo list \<Rightarrow> string \<Rightarrow> string option" where
  "task_file_path cfg rs name = (case split_repo name of
     Some (repo, rel) \<Rightarrow>
       map_option (\<lambda>r. join_path (repo_tasks_dir (kr_path r)) (rel @ ''.md'')) (resolve_repo rs repo)
   | None \<Rightarrow> Some (join_path (rc_tasks_dir cfg) (name @ ''.md'')))"

definition load_registry :: "known_repo list option repo_handler" where
  "load_registry = do {
     rows \<leftarrow> on_core (db_read list_repos);
     ret (map_option (map (\<lambda>r. \<lparr>kr_name = rp_name r, kr_path = rp_path r, kr_source = rp_source r\<rparr>)) rows) }"

definition refresh_registry :: "unit option repo_handler" where
  "refresh_registry = do {
     rs \<leftarrow> load_registry;
     (case rs of
        None \<Rightarrow> ret None
      | Some rs \<Rightarrow> do { modify (\<lambda>s. s\<lparr>rs_repos := rs\<rparr>); ret (Some ()) }) }"

subsection \<open>Reloading the catalog\<close>

definition load_all :: "repo_fs \<Rightarrow> repo_config \<Rightarrow> known_repo list \<Rightarrow> task_def list \<Rightarrow> task_def list" where
  "load_all fs cfg rs prior =
     (let defs = reload_catalog (fs_parse fs) (fs_tasks fs (rc_tasks_dir cfg)) prior
            @ concat (map (\<lambda>r. load_repo_catalog (fs_parse fs) (kr_name r) (kr_path r)
                (fs_tasks fs (repo_tasks_dir (kr_path r))) prior) rs)
      in sort_key d_name (resolve_repo_refs defs))"

text \<open>Writing \<open>workflow.dot\<close> has no effect on the engine and is left out.\<close>

definition reload_all :: "cron_lib \<Rightarrow> repo_fs \<Rightarrow> repo_config \<Rightarrow> unit repo_handler" where
  "reload_all lib fs cfg = do {
     prior \<leftarrow> gets (\<lambda>s. dn_catalog (cr_daemon (rs_cron s)));
     rs \<leftarrow> gets rs_repos;
     let updated = load_all fs cfg rs prior;
     (if updated = prior then ret ()
      else do {
        on_core (modify (\<lambda>s. s\<lparr>dn_catalog := updated\<rparr>));
        r \<leftarrow> on_cron (reconcile_catalog_schedules lib);
        on_core (publish PCatalogUpdated) }) }"

definition resync :: "unit repo_handler" where
  "resync = modify (\<lambda>s. s\<lparr>rs_signals := rs_signals s + 1\<rparr>)"

subsection \<open>Changing the registry\<close>

definition insert_known :: "time \<Rightarrow> known_repo \<Rightarrow> bool repo_handler" where
  "insert_known now r = do {
     x \<leftarrow> on_core (db_call (\<lambda>d. case insert_repo now (kr_name r) (kr_path r) (kr_source r) d of
          None \<Rightarrow> (False, d) | Some d' \<Rightarrow> (True, d')));
     ret (x = Some True) }"

text \<open>A row and its entry in memory.\<close>

definition register_known :: "time \<Rightarrow> known_repo \<Rightarrow> bool repo_handler" where
  "register_known now r = do {
     ok \<leftarrow> insert_known now r;
     (if ok then do { modify (\<lambda>s. s\<lparr>rs_repos := rs_repos s @ [r]\<rparr>); ret True } else ret False) }"

definition promote_in_place :: "string \<Rightarrow> unit repo_handler" where
  "promote_in_place name = do {
     r \<leftarrow> on_core (db_exec (set_repo_source name Manual));
     (case r of
        None \<Rightarrow> ret ()
      | Some _ \<Rightarrow> modify (\<lambda>s. s\<lparr>rs_repos := update_first (\<lambda>r. kr_name r = name)
          (\<lambda>r. r\<lparr>kr_source := Manual\<rparr>) (rs_repos s)\<rparr>)) }"

definition seed_repo :: "repo_fs \<Rightarrow> time \<Rightarrow> repo_seed \<Rightarrow> unit repo_handler" where
  "seed_repo fs now seed = do {
     let path = expand_tilde (fs_home fs) (rd_path seed);
     known \<leftarrow> on_core (db_read (\<lambda>d. repo_name_for_path d path));
     (case known of
        None \<Rightarrow> ret ()
      | Some (Some name) \<Rightarrow> promote_in_place name
      | Some None \<Rightarrow> do {
          rs \<leftarrow> gets rs_repos;
          let base = (case rd_name seed of Some n \<Rightarrow> n | None \<Rightarrow> derive_name path);
          let name = unique_name_in rs (sanitize_name base);
          ok \<leftarrow> register_known now \<lparr>kr_name = name, kr_path = path, kr_source = Manual\<rparr>;
          ret () }) }"

definition seed_from_config :: "repo_fs \<Rightarrow> repo_config \<Rightarrow> time \<Rightarrow> unit repo_handler" where
  "seed_from_config fs cfg now = for_each (seed_repo fs now) (rc_known cfg)"

definition add_repo ::
  "cron_lib \<Rightarrow> repo_fs \<Rightarrow> repo_config \<Rightarrow> time \<Rightarrow> string \<Rightarrow> string option \<Rightarrow> (string + repo_info) repo_handler"
where
  "add_repo lib fs cfg now raw requested = do {
     let expanded = expand_tilde (fs_home fs) raw;
     (if \<not> fs_is_dir fs expanded then ret (Inl (''repo path '' @ quoted expanded @ '' is not a directory''))
      else do {
        let path = (case fs_canon fs expanded of Some p \<Rightarrow> p | None \<Rightarrow> expanded);
        rs \<leftarrow> gets rs_repos;
        (case List.find (\<lambda>r. same_path (kr_path r) path) rs of
           Some known \<Rightarrow>
             if kr_source known = Scanned
             then do {
               promote_in_place (kr_name known);
               s \<leftarrow> gets (\<lambda>s. s);
               let r = (case resolve_repo (rs_repos s) (kr_name known) of Some r \<Rightarrow> r | None \<Rightarrow> known);
               ret (Inr (repo_info_of fs r (rs_active s))) }
             else ret (Inl (''repo '' @ quoted path @ '' is already known''))
         | None \<Rightarrow> do {
             let base = (case requested of Some n \<Rightarrow> n | None \<Rightarrow> derive_name path);
             let sanitized = sanitize_name base;
             (if sanitized = [] then ret (Inl (''could not derive a repo name from '' @ quoted base))
              else do {
                let r = \<lparr>kr_name = unique_name_in rs sanitized, kr_path = path, kr_source = Manual\<rparr>;
                ok \<leftarrow> register_known now r;
                (if \<not> ok then ret (Inl ''database error'')
                 else do {
                   modify (\<lambda>s. s\<lparr>rs_repos := sort_key kr_name (rs_repos s)\<rparr>);
                   reload_all lib fs cfg;
                   resync;
                   active \<leftarrow> gets rs_active;
                   ret (Inr (repo_info_of fs r active)) }) }) }) }) }"

definition remove_repo :: "cron_lib \<Rightarrow> repo_fs \<Rightarrow> repo_config \<Rightarrow> string \<Rightarrow> (string + bool) repo_handler" where
  "remove_repo lib fs cfg name = do {
     rs \<leftarrow> gets rs_repos;
     (if (\<exists>r. resolve_repo rs name = Some r \<and> kr_source r = Scanned)
      then ret (Inl (''repo '' @ quoted name @ '' is managed by the base-directory scan''))
      else do {
        removed \<leftarrow> on_core (db_call (delete_repo name));
        (case removed of
           None \<Rightarrow> ret (Inl ''database error'')
         | Some False \<Rightarrow> ret (Inr False)
         | Some True \<Rightarrow> do {
             modify (\<lambda>s. s\<lparr>rs_repos := filter (\<lambda>r. kr_name r \<noteq> name) (rs_repos s)\<rparr>);
             active \<leftarrow> gets rs_active;
             cleared \<leftarrow> (if active = Some name
               then do { modify (\<lambda>s. s\<lparr>rs_active := None\<rparr>); on_core (db_exec (set_active_repo None)) }
               else ret (Some ()));
             (case cleared of
                None \<Rightarrow> ret (Inl ''database error'')
              | Some _ \<Rightarrow> do { reload_all lib fs cfg; resync; ret (Inr True) }) }) }) }"

definition activate_repo :: "string option \<Rightarrow> (string + unit) repo_handler" where
  "activate_repo name = do {
     rs \<leftarrow> gets rs_repos;
     (case name of
        Some n \<Rightarrow> if resolve_repo rs n = None then ret (Inl (''unknown repo '' @ quoted n)) else ret (Inr ())
      | None \<Rightarrow> ret (Inr ())) \<bind> (\<lambda>checked. case checked of
        Inl e \<Rightarrow> ret (Inl e)
      | Inr _ \<Rightarrow> do {
          r \<leftarrow> on_core (db_exec (set_active_repo name));
          (case r of
             None \<Rightarrow> ret (Inl ''database error'')
           | Some _ \<Rightarrow> do {
               modify (\<lambda>s. s\<lparr>rs_active := name\<rparr>);
               on_core (publish PCatalogUpdated);
               ret (Inr ()) }) }) }"

subsection \<open>The scan of the base directory\<close>

definition visible_children :: "repo_fs \<Rightarrow> string \<Rightarrow> string list option" where
  "visible_children fs dir = map_option (\<lambda>entries. sort_key path_key
     (map (\<lambda>(n, _). join_path dir n) (filter (\<lambda>(n, real_dir). \<not> prefix ''.'' n \<and> real_dir) entries)))
     (fs_read_dir fs dir)"

definition has_catalog :: "repo_fs \<Rightarrow> string \<Rightarrow> bool" where
  "has_catalog fs path \<longleftrightarrow> fs_is_dir fs (join_path path ''.favetto'')"

text \<open>The stack of directories still to read; its top is the head.\<close>

function scan_loop :: "repo_fs \<Rightarrow> nat \<Rightarrow> (string \<times> nat) list \<Rightarrow> string list \<Rightarrow> string list" where
  "scan_loop fs depth [] found = found"
| "scan_loop fs depth ((dir, level) # stack) found =
     (case visible_children fs dir of
        None \<Rightarrow> scan_loop fs depth stack found
      | Some children \<Rightarrow>
          (let hits = filter (has_catalog fs) children;
               below = (if level < depth then filter (\<lambda>c. \<not> has_catalog fs c) children else [])
           in scan_loop fs depth (rev (map (\<lambda>c. (c, level + 1)) below) @ stack) (found @ hits)))"
  by pat_completeness auto

text \<open>A directory is replaced by directories one level further down, so the stack as a multiset of
  remaining levels decreases.\<close>

termination
proof (relation "inv_image (mult less_than) (\<lambda>(fs, depth, stack, found). mset (map (\<lambda>(d, l). depth + 1 - l) stack))")
  show "wf (inv_image (mult less_than) (\<lambda>(fs, depth, stack, found). mset (map (\<lambda>(d, l). depth + 1 - l) stack)))"
    by (intro wf_inv_image wf_mult wf_less_than)
next
  fix fs :: repo_fs and depth :: nat and dir :: string and level :: nat and stack :: "(string \<times> nat) list" and found :: "string list"
  let ?m = "mset (map (\<lambda>(d, l). depth + 1 - l) stack) :: nat multiset"
  have smaller: "(?m + mset (map (\<lambda>c. depth + 1 - (level + 1)) below), ?m + {# depth + 1 - level #}) \<in> mult less_than"
    if "\<And>c. c \<in> set below \<Longrightarrow> level < depth" for below :: "string list"
    by (rule one_step_implies_mult) (auto dest!: that)
  show "((fs, depth, stack, found), fs, depth, (dir, level) # stack, found) \<in>
      inv_image (mult less_than) (\<lambda>(fs, depth, stack, found). mset (map (\<lambda>(d, l). depth + 1 - l) stack))"
    using smaller [of "[]"] by simp
  fix children below :: "string list" and hits :: "string list"
  assume "below = (if level < depth then filter (\<lambda>c. \<not> has_catalog fs c) children else [])"
  then have "\<And>c. c \<in> set below \<Longrightarrow> level < depth" by (auto split: if_splits)
  note less = smaller [OF this]
  have "mset (map (\<lambda>(d, l). depth + 1 - l) (rev (map (\<lambda>c. (c, level + 1)) below) @ stack)) =
      ?m + mset (map (\<lambda>c. depth + 1 - (level + 1)) below)"
    by (simp only: map_append rev_map [symmetric] mset_append mset_rev map_map o_def prod.case add.commute)
  with less
  show "((fs, depth, rev (map (\<lambda>c. (c, level + 1)) below) @ stack, found @ hits), fs, depth, (dir, level) # stack, found) \<in>
      inv_image (mult less_than) (\<lambda>(fs, depth, stack, found). mset (map (\<lambda>(d, l). depth + 1 - l) stack))"
    by (simp only: in_inv_image prod.case) (simp add: add.commute)
qed

definition scan_base_dir :: "repo_fs \<Rightarrow> string \<Rightarrow> nat \<Rightarrow> string list" where
  "scan_base_dir fs base depth =
     (if depth = 0 then [] else sort_key path_key (scan_loop fs depth [(base, 1)] []))"

subsection \<open>Rediscovery\<close>

definition same_repo :: "known_repo \<Rightarrow> known_repo \<Rightarrow> bool" where
  "same_repo a b \<longleftrightarrow> kr_name a = kr_name b \<and> same_path (kr_path a) (kr_path b) \<and> kr_source a = kr_source b"

definition real_path :: "repo_fs \<Rightarrow> string \<Rightarrow> string" where
  "real_path fs p = (case fs_canon fs p of Some q \<Rightarrow> q | None \<Rightarrow> p)"

definition scan_candidates :: "repo_fs \<Rightarrow> string \<Rightarrow> nat \<Rightarrow> string list" where
  "scan_candidates fs base depth =
     dedup_paths (sort_key path_key (map (real_path fs) (scan_base_dir fs base depth)))"

definition survives :: "repo_fs \<Rightarrow> string list \<Rightarrow> known_repo \<Rightarrow> bool" where
  "survives fs candidates r = (case kr_source r of
     Manual \<Rightarrow> True
   | Scanned \<Rightarrow> \<exists>c \<in> set candidates. same_path c (real_path fs (kr_path r)))"

fun register_scanned ::
  "time \<Rightarrow> string list \<Rightarrow> known_repo list \<Rightarrow> string list \<Rightarrow> known_repo list repo_handler"
where
  "register_scanned now [] next_repos covered = ret next_repos"
| "register_scanned now (c # cs) next_repos covered =
     (if \<exists>p \<in> set covered. same_path p c then register_scanned now cs next_repos covered
      else let base = sanitize_name (derive_name c)
        in if base = [] then register_scanned now cs next_repos covered
           else do {
             let r = \<lparr>kr_name = unique_name_in next_repos base, kr_path = c, kr_source = Scanned\<rparr>;
             ok \<leftarrow> insert_known now r;
             (if ok then register_scanned now cs (next_repos @ [r]) (covered @ [c])
              else register_scanned now cs next_repos covered) })"

definition deregister :: "known_repo list \<Rightarrow> known_repo \<Rightarrow> unit repo_handler" where
  "deregister next_repos r =
     (if kr_source r = Scanned \<and> kr_name r \<notin> kr_name ` set next_repos
      then do { x \<leftarrow> on_core (db_call (delete_repo (kr_name r))); ret () }
      else ret ())"

definition rediscover :: "repo_fs \<Rightarrow> repo_config \<Rightarrow> time \<Rightarrow> bool option repo_handler" where
  "rediscover fs cfg now = (case rc_base_dir cfg of
     None \<Rightarrow> ret (Some False)
   | Some base \<Rightarrow> do {
       let candidates = scan_candidates fs (expand_tilde (fs_home fs) base) (max (rc_depth cfg) 1);
       snapshot \<leftarrow> gets rs_repos;
       let kept = filter (survives fs candidates) snapshot;
       next_repos \<leftarrow> register_scanned now candidates kept (map (\<lambda>r. real_path fs (kr_path r)) kept);
       let next_repos = sort_key kr_name next_repos;
       for_each (deregister next_repos) snapshot;
       (if list_all2 same_repo (sort_key kr_name snapshot) next_repos then ret (Some False)
        else do {
          modify (\<lambda>s. s\<lparr>rs_repos := next_repos\<rparr>);
          active \<leftarrow> gets rs_active;
          cleared \<leftarrow> (case active of
             None \<Rightarrow> ret (Some ())
           | Some a \<Rightarrow>
               if a \<in> kr_name ` set next_repos then ret (Some ())
               else do { modify (\<lambda>s. s\<lparr>rs_active := None\<rparr>); on_core (db_exec (set_active_repo None)) });
          (case cleared of
             None \<Rightarrow> ret None
           | Some _ \<Rightarrow> do { on_core (publish PCatalogUpdated); ret (Some True) }) }) })"

definition refresh_from_scan :: "cron_lib \<Rightarrow> repo_fs \<Rightarrow> repo_config \<Rightarrow> time \<Rightarrow> bool option repo_handler" where
  "refresh_from_scan lib fs cfg now = do {
     changed \<leftarrow> rediscover fs cfg now;
     (case changed of
        None \<Rightarrow> ret None
      | Some c \<Rightarrow> do {
          (if c then do { reload_all lib fs cfg; resync } else ret ());
          ret (Some c) }) }"

subsection \<open>The watcher\<close>

record watch_target =
  wt_dir :: string
  wt_recursive :: bool

text \<open>The nearest ancestor that exists; the text of the parent drops the last component.\<close>

function existing_ancestor :: "repo_fs \<Rightarrow> bool \<Rightarrow> path_component list \<Rightarrow> string option" where
  "existing_ancestor fs absolute cs =
     (if cs = [] then None
      else let parent = butlast cs;
               text = (if absolute then ''/'' else []) @ join ''/'' (map component_text parent)
           in if fs_exists fs text then Some text else existing_ancestor fs absolute parent)"
  by pat_completeness auto
termination
  by (relation "measure (\<lambda>(_, _, cs). length cs)") auto

declare existing_ancestor.simps [simp del]

definition watch_path_target :: "repo_fs \<Rightarrow> string \<Rightarrow> bool \<Rightarrow> watch_target" where
  "watch_path_target fs root recursive =
     \<lparr>wt_dir = (if fs_exists fs root then root
        else case existing_ancestor fs (is_absolute root) (components root) of Some p \<Rightarrow> p | None \<Rightarrow> ''.''),
      wt_recursive = recursive\<rparr>"

fun merge_targets :: "watch_target list \<Rightarrow> watch_target list \<Rightarrow> watch_target list" where
  "merge_targets [] acc = acc"
| "merge_targets (t # ts) acc =
     (if \<exists>a \<in> set acc. same_path (wt_dir a) (wt_dir t)
      then merge_targets ts (update_first (\<lambda>a. same_path (wt_dir a) (wt_dir t))
             (\<lambda>a. a\<lparr>wt_recursive := wt_recursive a \<or> wt_recursive t\<rparr>) acc)
      else merge_targets ts (acc @ [t]))"

definition watch_roots :: "repo_fs \<Rightarrow> repo_config \<Rightarrow> known_repo list \<Rightarrow> watch_target list" where
  "watch_roots fs cfg rs =
     watch_path_target fs (rc_tasks_dir cfg) True
     # map (\<lambda>r. watch_path_target fs (repo_tasks_dir (kr_path r)) True) (filter (\<lambda>r. fs_exists fs (kr_path r)) rs)
     @ (case rc_base_dir cfg of
          None \<Rightarrow> []
        | Some base \<Rightarrow> [watch_path_target fs (expand_tilde (fs_home fs) base) False])"

definition desired_targets :: "repo_fs \<Rightarrow> repo_config \<Rightarrow> known_repo list \<Rightarrow> watch_target list" where
  "desired_targets fs cfg rs = sort_key (\<lambda>t. path_key (wt_dir t)) (merge_targets (watch_roots fs cfg rs) [])"

text \<open>The operating system's watches, and which of the next \<open>watch\<close> calls fail.\<close>

record os_watch =
  ow_watches :: "watch_target list"
  ow_faults :: "bool list"

definition os_unwatch :: "string \<Rightarrow> (os_watch, unit) prog" where
  "os_unwatch p = modify (\<lambda>w. w\<lparr>ow_watches := filter (\<lambda>t. \<not> same_path (wt_dir t) p) (ow_watches w)\<rparr>)"

definition os_watch_path :: "watch_target \<Rightarrow> (os_watch, bool) prog" where
  "os_watch_path t = State (\<lambda>w. case ow_faults w of
     True # fs \<Rightarrow> (False, w\<lparr>ow_faults := fs\<rparr>)
   | False # fs \<Rightarrow> (True, w\<lparr>ow_faults := fs, ow_watches := ow_watches w @ [t]\<rparr>)
   | [] \<Rightarrow> (True, w\<lparr>ow_watches := ow_watches w @ [t]\<rparr>))"

definition drop_watch :: "watch_target list \<Rightarrow> watch_target \<Rightarrow> (os_watch, unit) prog" where
  "drop_watch desired t =
     (if \<exists>d \<in> set desired. same_path (wt_dir d) (wt_dir t) then ret () else os_unwatch (wt_dir t))"

fun point_watches ::
  "watch_target list \<Rightarrow> watch_target list \<Rightarrow> (os_watch, watch_target list) prog"
where
  "point_watches watching [] = ret []"
| "point_watches watching (t # ts) =
     (case List.find (\<lambda>w. same_path (wt_dir w) (wt_dir t)) watching of
        Some w \<Rightarrow>
          if wt_recursive w = wt_recursive t then do { ws \<leftarrow> point_watches watching ts; ret (w # ws) }
          else do {
            os_unwatch (wt_dir w);
            ok \<leftarrow> os_watch_path t;
            ws \<leftarrow> point_watches watching ts;
            ret (if ok then t # ws else ws) }
      | None \<Rightarrow> do {
          ok \<leftarrow> os_watch_path t;
          ws \<leftarrow> point_watches watching ts;
          ret (if ok then t # ws else ws) })"

definition retarget_all :: "watch_target list \<Rightarrow> watch_target list \<Rightarrow> (os_watch, watch_target list) prog" where
  "retarget_all desired watching = do {
     for_each (drop_watch desired) watching;
     point_watches watching desired }"

definition spawn_watcher :: "repo_fs \<Rightarrow> repo_config \<Rightarrow> known_repo list \<Rightarrow> (os_watch, watch_target list) prog" where
  "spawn_watcher fs cfg rs = point_watches [] (desired_targets fs cfg rs)"

text \<open>One round of the debounce loop, after its first event; \<open>control\<close> when that was a control signal.\<close>

definition watch_round ::
  "cron_lib \<Rightarrow> repo_fs \<Rightarrow> repo_config \<Rightarrow> time \<Rightarrow> bool \<Rightarrow> repo_state \<Rightarrow> watch_target list \<Rightarrow> os_watch \<Rightarrow>
   repo_state \<times> watch_target list \<times> os_watch"
where
  "watch_round lib fs cfg now control s watching w =
     (let (watching, w) = (if control then run_state (retarget_all (desired_targets fs cfg (rs_repos s)) watching) w
            else (watching, w));
          s = snd (run_state (rediscover fs cfg now) s);
          (watching, w) = run_state (retarget_all (desired_targets fs cfg (rs_repos s)) watching) w;
          s = snd (run_state (reload_all lib fs cfg) s)
      in (s, watching, w))"

definition event_relevant :: "string list \<Rightarrow> bool" where
  "event_relevant paths \<longleftrightarrow> paths = [] \<or> (\<exists>p \<in> set paths.
     case Option.bind (file_name p) file_ext of
       None \<Rightarrow> True
     | Some (_, ext) \<Rightarrow> eq_ignore_ascii_case ext ''md'')"

subsection \<open>Names are unique\<close>

lemma free_suffix_spec:
  "\<exists>m \<ge> n. free_suffix names base n = suffixed base m \<and> suffixed base m \<notin> set names \<and>
     (\<forall>k. n \<le> k \<longrightarrow> k < m \<longrightarrow> suffixed base k \<in> set names)"
proof (induction names base n rule: free_suffix.induct)
  case (1 names base n)
  show ?case
  proof (cases "suffixed base n \<in> set names")
    case True
    with 1 obtain m where m: "n + 1 \<le> m" "free_suffix names base (n + 1) = suffixed base m"
      "suffixed base m \<notin> set names" "\<forall>k. n + 1 \<le> k \<longrightarrow> k < m \<longrightarrow> suffixed base k \<in> set names"
      by blast
    then have "suffixed base k \<in> set names" if "n \<le> k" "k < m" for k
      using that True by (cases "k = n") auto
    with m True show ?thesis by (intro exI [of _ m]) (simp add: free_suffix.simps [of names base n])
  next
    case False
    then show ?thesis by (intro exI [of _ n]) (simp add: free_suffix.simps [of names base n])
  qed
qed

text \<open>The name given to a new repository is free, and it is the wanted one or the wanted one with the
  least free suffix from 2 on; the search that finds it ends.\<close>

theorem unique_name_fresh:
  "unique_name_in rs base \<notin> kr_name ` set rs \<and>
   (if base \<notin> kr_name ` set rs then unique_name_in rs base = base
    else \<exists>m \<ge> 2. unique_name_in rs base = suffixed base m \<and>
      (\<forall>k. 2 \<le> k \<longrightarrow> k < m \<longrightarrow> suffixed base k \<in> kr_name ` set rs))"
proof (cases "base \<in> kr_name ` set rs")
  case True
  obtain m where m: "2 \<le> m" "free_suffix (map kr_name rs) base 2 = suffixed base m"
    "suffixed base m \<notin> kr_name ` set rs" "\<forall>k. 2 \<le> k \<longrightarrow> k < m \<longrightarrow> suffixed base k \<in> kr_name ` set rs"
    using free_suffix_spec [of 2 "map kr_name rs" base] by (auto simp only: set_map)
  from True m(2) have "unique_name_in rs base = suffixed base m"
    by (simp only: unique_name_in_def not_True_eq_False if_False)
  with True m(1,3,4) show ?thesis by (metis (full_types))
next
  case False
  then show ?thesis by (simp add: unique_name_in_def del: image_iff)
qed

declare scan_loop.simps [simp del]

subsection \<open>The scan finds exactly the catalogs within reach\<close>

text \<open>From a directory at a level, the scan goes through the visible real directories that hold no
  catalog, as long as the level is below the depth.\<close>

inductive finds :: "repo_fs \<Rightarrow> nat \<Rightarrow> string \<Rightarrow> nat \<Rightarrow> string \<Rightarrow> bool" for fs :: repo_fs and depth :: nat where
  hit: "visible_children fs d = Some cs \<Longrightarrow> c \<in> set cs \<Longrightarrow> has_catalog fs c \<Longrightarrow> finds fs depth d l c"
| deeper: "visible_children fs d = Some cs \<Longrightarrow> x \<in> set cs \<Longrightarrow> \<not> has_catalog fs x \<Longrightarrow> l < depth \<Longrightarrow>
    finds fs depth x (l + 1) c \<Longrightarrow> finds fs depth d l c"

inductive_simps finds_iff: "finds fs depth d l c"

lemma scan_loop_set:
  "set (scan_loop fs depth stack found) = set found \<union> {c. \<exists>(d, l) \<in> set stack. finds fs depth d l c}"
proof (induction fs depth stack found rule: scan_loop.induct)
  case (1 fs depth found)
  then show ?case by (simp add: scan_loop.simps)
next
  case (2 fs depth dir level stack found)
  show ?case
  proof (cases "visible_children fs dir")
    case None
    then have "\<not> finds fs depth dir level c" for c by (simp add: finds_iff [of fs depth dir])
    with None 2(1) show ?thesis by (simp add: scan_loop.simps)
  next
    case (Some cs)
    let ?below = "if level < depth then filter (\<lambda>c. \<not> has_catalog fs c) cs else []"
    have "finds fs depth dir level c \<longleftrightarrow>
        c \<in> set (filter (has_catalog fs) cs) \<or> (\<exists>x \<in> set ?below. finds fs depth x (level + 1) c)" for c
      unfolding finds_iff [of fs depth dir level c] using Some by auto
    with Some 2(2) [OF Some refl refl] show ?thesis by (auto simp: Let_def scan_loop.simps)
  qed
qed

theorem scan_base_dir_exact:
  "sorted (map path_key (scan_base_dir fs base depth)) \<and>
   set (scan_base_dir fs base depth) = {c. depth > 0 \<and> finds fs depth base 1 c}"
  by (simp add: scan_base_dir_def scan_loop_set)

subsection \<open>The registry in memory and on disk\<close>

abbreviation repo_rows :: "repo_state \<Rightarrow> repo_row list" where
  "repo_rows s \<equiv> repos (dn_db (cr_daemon (rs_cron s)))"

definition row_of :: "known_repo \<Rightarrow> string \<times> string \<times> repo_source" where
  "row_of r = (kr_name r, kr_path r, kr_source r)"

definition row_key :: "repo_row \<Rightarrow> string \<times> string \<times> repo_source" where
  "row_key r = (rp_name r, rp_path r, rp_source r)"

text \<open>The registry in memory holds the rows of the table, names are unique, and the active repository
  is a known one.\<close>

definition synced :: "known_repo list \<Rightarrow> repo_row list \<Rightarrow> bool" where
  "synced rs rows \<longleftrightarrow> distinct (map kr_name rs) \<and> distinct (map rp_name rows) \<and>
     row_of ` set rs = row_key ` set rows"

definition registry_ok :: "repo_state \<Rightarrow> bool" where
  "registry_ok s \<longleftrightarrow> synced (rs_repos s) (repo_rows s) \<and>
     (case rs_active s of None \<Rightarrow> True | Some a \<Rightarrow> a \<in> kr_name ` set (rs_repos s))"

lemma row_of_name: "fst (row_of r) = kr_name r" "fst (row_key w) = rp_name w"
  by (simp_all add: row_of_def row_key_def)

lemma synced_names: "synced rs rows \<Longrightarrow> kr_name ` set rs = rp_name ` set rows"
  using image_image [of fst row_of "set rs"] image_image [of fst row_key "set rows"]
  by (simp add: synced_def row_of_name)

lemma synced_add:
  assumes "synced rs rows" and "kr_name r \<notin> kr_name ` set rs" and "row_key w = row_of r"
  shows "synced (rs @ [r]) (rows @ [w])"
proof -
  have "rp_name w = kr_name r" using assms(3) by (simp add: row_of_def row_key_def)
  with assms synced_names [OF assms(1)] show ?thesis by (simp add: synced_def)
qed

lemma synced_filter:
  assumes "synced rs rows"
  shows "synced (filter (\<lambda>r. P (kr_name r)) rs) (filter (\<lambda>r. P (rp_name r)) rows)"
proof -
  have "row_of ` {r \<in> set rs. P (kr_name r)} = {p \<in> row_of ` set rs. P (fst p)}"
    "row_key ` {r \<in> set rows. P (rp_name r)} = {p \<in> row_key ` set rows. P (fst p)}"
    by (auto simp: row_of_name)
  with assms show ?thesis by (simp add: synced_def distinct_map_filter)
qed

lemma synced_sort: "synced (sort_key f rs) rows = synced rs rows"
  by (simp add: synced_def distinct_map)

lemma update_first_key:
  "distinct (map k xs) \<Longrightarrow> update_first (\<lambda>x. k x = i) f xs = map (\<lambda>x. if k x = i then f x else x) xs"
proof (induction xs)
  case (Cons x xs)
  have "map (\<lambda>x. if k x = i then f x else x) xs = xs" if "k x = i"
    using that Cons.prems by (intro map_idI) (auto simp: rev_image_eqI)
  with Cons show ?case by simp
qed simp

lemma synced_promote:
  assumes "synced rs rows"
  shows "synced (update_first (\<lambda>r. kr_name r = n) (\<lambda>r. r\<lparr>kr_source := src\<rparr>) rs)
    (update_rows (\<lambda>r. rp_name r = n) (\<lambda>r. r\<lparr>rp_source := src\<rparr>) rows)"
proof -
  let ?h = "\<lambda>p :: string \<times> string \<times> repo_source. if fst p = n then (fst p, fst (snd p), src) else p"
  have up: "update_first (\<lambda>r. kr_name r = n) (\<lambda>r. r\<lparr>kr_source := src\<rparr>) rs =
      map (\<lambda>r. if kr_name r = n then r\<lparr>kr_source := src\<rparr> else r) rs"
    using assms by (simp add: synced_def update_first_key)
  let ?f = "\<lambda>r. if kr_name r = n then r\<lparr>kr_source := src\<rparr> else r"
    and ?g = "\<lambda>r. if rp_name r = n then r\<lparr>rp_source := src\<rparr> else r"
  have f: "row_of (?f r) = ?h (row_of r)" and g: "row_key (?g w) = ?h (row_key w)" for r w
    by (simp_all add: row_of_def row_key_def)
  have "row_of ` ?f ` set rs = ?h ` row_of ` set rs" by (simp only: image_image f)
  moreover have "row_key ` ?g ` set rows = ?h ` row_key ` set rows" by (simp only: image_image g)
  moreover have "map kr_name (map ?f rs) = map kr_name rs" by simp
  moreover have "map rp_name (update_rows (\<lambda>r. rp_name r = n) (\<lambda>r. r\<lparr>rp_source := src\<rparr>) rows) = map rp_name rows"
    by (rule map_update_rows) simp
  ultimately show ?thesis
    using assms unfolding synced_def up set_update_rows set_map by (simp only: image_image)
qed

text \<open>A reload touches the catalog and the schedules, never the registry.\<close>

lemma keeps_on_daemon:
  "keeps I m \<Longrightarrow> keeps (\<lambda>c. I (cr_daemon c)) (on_daemon m)"
  by (simp add: keeps_def on_daemon_def split_def Let_def)

lemma keeps_repo_rows [keeps_intros]:
  assumes "\<And>d. repos (snd (f d)) = repos d"
  shows "keeps (\<lambda>c. repos (dn_db (cr_daemon c)) = R) (on_daemon (db_call f))"
  by (rule keeps_on_daemon)
    (use assms in \<open>auto simp: keeps_def db_call_def take_fault_def Let_def split_def split: list.split\<close>)

lemma keeps_reconcile:
  "keeps (\<lambda>c. repos (dn_db (cr_daemon c)) = R) (reconcile_catalog_schedules lib)"
  unfolding reconcile_catalog_schedules_def drop_stale_def sync_schedule_def remove_schedule_def upsert_def
    drop_job_def register_def add_job_def unregister_def
  by (intro keeps_intros)
    (auto simp: keeps_def delete_schedule_def upsert_schedule_def set_schedule_job_id_def
       split: list.split option.split bool.split)

definition parts :: "repo_state \<Rightarrow> known_repo list \<times> string option \<times> repo_row list" where
  "parts s = (rs_repos s, rs_active s, repo_rows s)"

lemma parts_simps [simp]:
  "parts (s\<lparr>rs_repos := rs\<rparr>) = (rs, rs_active s, repo_rows s)"
  "parts (s\<lparr>rs_active := a\<rparr>) = (rs_repos s, a, repo_rows s)"
  "parts (s\<lparr>rs_signals := n\<rparr>) = parts s"
  by (simp_all add: parts_def)

lemma run_on_cron: "run_state (on_cron m) s = (fst (run_state m (rs_cron s)), s\<lparr>rs_cron := snd (run_state m (rs_cron s))\<rparr>)"
  by (simp add: on_cron_def split_def Let_def)

lemma run_on_daemon: "run_state (on_daemon m) c =
    (fst (run_state m (cr_daemon c)), c\<lparr>cr_daemon := snd (run_state m (cr_daemon c))\<rparr>)"
  by (simp add: on_daemon_def split_def Let_def)

lemma run_on_core: "run_state (on_core m) s = (fst (run_state m (cr_daemon (rs_cron s))),
    s\<lparr>rs_cron := (rs_cron s)\<lparr>cr_daemon := snd (run_state m (cr_daemon (rs_cron s)))\<rparr>\<rparr>)"
  by (simp add: run_on_cron on_daemon_def split_def Let_def)

lemma parts_reload [simp]: "parts (snd (run_state (reload_all lib fs cfg) s)) = parts s"
proof -
  have "repos (dn_db (cr_daemon (snd (run_state (reconcile_catalog_schedules lib) c)))) = repos (dn_db (cr_daemon c))" for c
    using keeps_reconcile [of "repos (dn_db (cr_daemon c))" lib] by (simp add: keeps_def)
  then show ?thesis
    by (simp add: reload_all_def run_on_cron run_on_daemon publish_def parts_def Let_def split_def)
qed

lemma parts_publish [simp]: "parts (snd (run_state (on_core (publish p)) s)) = parts s"
  by (simp add: run_on_core publish_def parts_def)

lemma run_core_db:
  obtains (failed) s' where "dn_faults (cr_daemon (rs_cron s)) \<noteq> []" "run_state (on_core (db_call f)) s = (None, s')" "parts s' = parts s"
  | (passed) s' where "run_state (on_core (db_call f)) s = (Some (fst (f (dn_db (cr_daemon (rs_cron s))))), s')"
      "parts s' = (rs_repos s, rs_active s, repos (snd (f (dn_db (cr_daemon (rs_cron s))))))"
      "dn_faults (cr_daemon (rs_cron s)) = [] \<Longrightarrow> dn_faults (cr_daemon (rs_cron s')) = []"
proof (cases "dn_faults (cr_daemon (rs_cron s))")
  case Nil
  then show ?thesis
    by (intro passed [of "snd (run_state (on_core (db_call f)) s)"]) (simp_all add: run_on_core run_db_call_ok parts_def)
next
  case (Cons b bs)
  then show ?thesis
    by (cases b) (auto intro: failed passed simp: run_on_core run_db_call_fault run_db_call_pass parts_def)
qed

definition parts_ok :: "known_repo list \<times> string option \<times> repo_row list \<Rightarrow> bool" where
  "parts_ok p = (case p of (rs, active, rows) \<Rightarrow> synced rs rows \<and>
     (case active of None \<Rightarrow> True | Some a \<Rightarrow> a \<in> kr_name ` set rs))"

lemma registry_ok_parts: "registry_ok s = parts_ok (parts s)"
  by (simp add: registry_ok_def parts_ok_def parts_def)

lemma register_known_cases:
  assumes "kr_name r \<notin> kr_name ` set (rs_repos s)" and "registry_ok s"
  obtains s' b where "run_state (register_known now r) s = (b, s')" "registry_ok s'"
proof -
  let ?f = "\<lambda>d. case insert_repo now (kr_name r) (kr_path r) (kr_source r) d of None \<Rightarrow> (False, d) | Some d' \<Rightarrow> (True, d')"
  show ?thesis
  proof (rule run_core_db [where s = s and f = ?f])
    fix s' assume "run_state (on_core (db_call ?f)) s = (None, s')" "parts s' = parts s"
    with assms(2) show ?thesis
      by (intro that [of False s']) (simp_all add: register_known_def insert_known_def registry_ok_parts)
  next
    fix s'
    let ?d = "dn_db (cr_daemon (rs_cron s))"
    assume s': "run_state (on_core (db_call ?f)) s = (Some (fst (?f ?d)), s')"
      "parts s' = (rs_repos s, rs_active s, repos (snd (?f ?d)))"
    show ?thesis
    proof (cases "insert_repo now (kr_name r) (kr_path r) (kr_source r) ?d")
      case None
      with s' assms(2) show ?thesis
        by (intro that [of False s']) (simp_all add: register_known_def insert_known_def registry_ok_parts parts_def)
    next
      case (Some d')
      let ?s = "s'\<lparr>rs_repos := rs_repos s' @ [r]\<rparr>"
      let ?w = "\<lparr>rp_path = kr_path r, rp_name = kr_name r, rp_source = kr_source r, rp_added_at = now\<rparr>"
      from Some have "repos d' = repos ?d @ [?w]" by (auto simp: insert_repo_def split: if_splits)
      moreover have "synced (rs_repos s @ [r]) (repos ?d @ [?w])"
        using assms by (intro synced_add) (simp_all add: registry_ok_def row_key_def row_of_def)
      ultimately have "registry_ok ?s"
        using s' assms(2) Some by (auto simp: registry_ok_def parts_def split: option.splits)
      with s' Some show ?thesis
        by (intro that [of True ?s]) (simp_all add: register_known_def insert_known_def)
    qed
  qed
qed

lemma promote_ok: "registry_ok s \<Longrightarrow> registry_ok (snd (run_state (promote_in_place n) s))"
proof (rule run_core_db [where s = s and f = "\<lambda>d. ((), set_repo_source n Manual d)"])
  fix s' assume "registry_ok s" "run_state (on_core (db_exec (set_repo_source n Manual))) s = (None, s')" "parts s' = parts s"
  then show ?thesis by (simp add: promote_in_place_def registry_ok_parts)
next
  fix s'
  let ?d = "dn_db (cr_daemon (rs_cron s))"
  assume ok: "registry_ok s"
    and s': "run_state (on_core (db_exec (set_repo_source n Manual))) s = (Some (fst ((), set_repo_source n Manual ?d)), s')"
    "parts s' = (rs_repos s, rs_active s, repos (snd ((), set_repo_source n Manual ?d)))"
  have "kr_name ` set (update_first (\<lambda>r. kr_name r = n) (\<lambda>r. r\<lparr>kr_source := Manual\<rparr>) rs) = kr_name ` set rs"
    for rs :: "known_repo list" by (induction rs) auto
  with ok s' synced_promote [of "rs_repos s" "repos ?d" n Manual] show ?thesis
    by (cases "rs_active s") (simp_all add: promote_in_place_def registry_ok_def parts_def set_repo_source_def)
qed

lemma registry_unknown: "resolve_repo rs n = None \<longleftrightarrow> n \<notin> kr_name ` set rs"
  by (auto simp: resolve_repo_def find_None_iff image_iff)

lemma activate_ok: "registry_ok s \<Longrightarrow> registry_ok (snd (run_state (activate_repo name) s))"
proof -
  assume ok: "registry_ok s"
  show ?thesis
  proof (rule run_core_db [where s = s and f = "\<lambda>d. ((), set_active_repo name d)"])
    fix s' assume "run_state (on_core (db_exec (set_active_repo name))) s = (None, s')" "parts s' = parts s"
    with ok show ?thesis by (auto simp: activate_repo_def registry_ok_parts split: option.split)
  next
    fix s'
    let ?d = "dn_db (cr_daemon (rs_cron s))"
    assume "run_state (on_core (db_exec (set_active_repo name))) s = (Some (fst ((), set_active_repo name ?d)), s')"
      and "parts s' = (rs_repos s, rs_active s, repos (snd ((), set_active_repo name ?d)))"
    moreover from this have same: "rs_repos s' = rs_repos s" "rs_active s' = rs_active s" "repo_rows s' = repo_rows s"
      by (simp_all add: parts_def set_active_repo_def)
    moreover have "registry_ok (s'\<lparr>rs_active := name\<rparr>)" if "\<forall>n. name = Some n \<longrightarrow> resolve_repo (rs_repos s) n \<noteq> None"
      using that ok registry_unknown [of "rs_repos s"]
      by (cases name) (simp_all add: registry_ok_def same)
    moreover have "parts s' = parts s" by (simp add: parts_def same)
    ultimately show ?thesis
      using ok by (cases name) (auto simp: activate_repo_def registry_ok_parts split_def)
  qed
qed

lemma seed_ok: "registry_ok s \<Longrightarrow> registry_ok (snd (run_state (seed_repo fs now seed) s))"
proof -
  assume ok: "registry_ok s"
  let ?f = "\<lambda>d. repo_name_for_path d (expand_tilde (fs_home fs) (rd_path seed))"
  let ?d = "dn_db (cr_daemon (rs_cron s))"
  have later: ?thesis if x: "run_state (on_core (db_read ?f)) s = (x, s')" and "parts s' = parts s" for x s'
  proof -
    have ok': "registry_ok s'" using ok that(2) by (simp add: registry_ok_parts)
    let ?r = "\<lparr>kr_name = unique_name_in (rs_repos s') (sanitize_name (case rd_name seed of Some n \<Rightarrow> n
        | None \<Rightarrow> derive_name (expand_tilde (fs_home fs) (rd_path seed)))),
      kr_path = expand_tilde (fs_home fs) (rd_path seed), kr_source = Manual\<rparr>"
    have "registry_ok (snd (run_state (register_known now ?r) s'))"
      by (rule register_known_cases [of ?r s' now]) (use unique_name_fresh ok' in auto)
    with x ok' promote_ok [OF ok'] show ?thesis
      by (cases x; cases "the x") (simp_all add: seed_repo_def Let_def split_def)
  qed
  show ?thesis
    by (rule run_core_db [where s = s and f = "\<lambda>d. (?f d, d)"]; rule later) (simp_all add: parts_def)
qed

lemma for_each_ok:
  "(\<And>x s. I s \<Longrightarrow> I (snd (run_state (f x) s))) \<Longrightarrow> I s \<Longrightarrow> I (snd (run_state (for_each f xs) s))"
  by (induction xs arbitrary: s) (simp_all add: split_def)

lemma add_ok: "registry_ok s \<Longrightarrow> registry_ok (snd (run_state (add_repo lib fs cfg now raw requested) s))"
proof -
  assume ok: "registry_ok s"
  let ?e = "expand_tilde (fs_home fs) raw"
  let ?p = "case fs_canon fs ?e of Some p \<Rightarrow> p | None \<Rightarrow> ?e"
  let ?base = "case requested of Some n \<Rightarrow> n | None \<Rightarrow> derive_name ?p"
  let ?r = "\<lparr>kr_name = unique_name_in (rs_repos s) (sanitize_name ?base), kr_path = ?p, kr_source = Manual\<rparr>"
  obtain s' b where s': "run_state (register_known now ?r) s = (b, s')" "registry_ok s'"
    by (rule register_known_cases [of ?r s now]) (use unique_name_fresh ok in auto)
  have sorted_ok: "registry_ok (s'\<lparr>rs_repos := sort_key kr_name (rs_repos s')\<rparr>)"
    using s'(2) by (auto simp: registry_ok_def synced_sort split: option.split)
  have kept: "registry_ok (snd (run_state resync (snd (run_state (reload_all lib fs cfg) t)))) = registry_ok t" for t
    by (simp add: resync_def registry_ok_parts)
  show ?thesis
  proof (cases "List.find (\<lambda>r. same_path (kr_path r) ?p) (rs_repos s)")
    case None
    show ?thesis
    proof (cases "\<not> fs_is_dir fs ?e \<or> sanitize_name ?base = []")
      case True
      with None ok show ?thesis by (auto simp: add_repo_def Let_def)
    next
      case False
      with None s' sorted_ok kept [of "s'\<lparr>rs_repos := sort_key kr_name (rs_repos s')\<rparr>"] show ?thesis
        by (simp add: add_repo_def Let_def split_def)
    qed
  next
    case (Some r)
    with ok promote_ok [OF ok, of "kr_name r"] show ?thesis
      by (simp add: add_repo_def Let_def split_def)
  qed
qed

lemma remove_ok: "registry_ok s \<Longrightarrow> registry_ok (snd (run_state (remove_repo lib fs cfg name) s))"
proof -
  assume ok: "registry_ok s"
  let ?d = "dn_db (cr_daemon (rs_cron s))"
  have kept: "registry_ok (snd (run_state resync (snd (run_state (reload_all lib fs cfg) t)))) = registry_ok t" for t
    by (simp add: resync_def registry_ok_parts)
  show ?thesis
  proof (cases "\<exists>r. resolve_repo (rs_repos s) name = Some r \<and> kr_source r = Scanned")
    case True
    then show ?thesis using ok by (auto simp: remove_repo_def)
  next
    case nscan: False
    show ?thesis
    proof (rule run_core_db [where s = s and f = "delete_repo name"])
      fix s' assume "run_state (on_core (db_call (delete_repo name))) s = (None, s')" "parts s' = parts s"
      with ok nscan show ?thesis by (simp add: remove_repo_def registry_ok_parts)
    next
      fix s'
      assume s': "run_state (on_core (db_call (delete_repo name))) s = (Some (fst (delete_repo name ?d)), s')"
        "parts s' = (rs_repos s, rs_active s, repos (snd (delete_repo name ?d)))"
      let ?t = "s'\<lparr>rs_repos := filter (\<lambda>r. kr_name r \<noteq> name) (rs_repos s')\<rparr>"
      have rows: "repo_rows s' = filter (\<lambda>r. rp_name r \<noteq> name) (repos ?d)" "rs_repos s' = rs_repos s" "rs_active s' = rs_active s"
        using s'(2) by (simp_all add: parts_def delete_repo_def)
      have sync: "synced (filter (\<lambda>r. kr_name r \<noteq> name) (rs_repos s)) (repo_rows s')"
        using ok synced_filter [of "rs_repos s" "repos ?d" "\<lambda>n. n \<noteq> name"] by (simp add: registry_ok_def rows)
      show ?thesis
      proof (cases "fst (delete_repo name ?d)")
        case False
        then have "name \<notin> rp_name ` set (repos ?d)" by (auto simp: delete_repo_def affected_def filter_empty_conv)
        then have "filter (\<lambda>r. rp_name r \<noteq> name) (repos ?d) = repos ?d" by (auto intro: filter_True)
        then have "parts s' = parts s" by (simp add: parts_def rows)
        with False s'(1) ok nscan show ?thesis by (simp add: remove_repo_def registry_ok_parts)
      next
        case True
        show ?thesis
        proof (cases "rs_active s = Some name")
          case False
          then have "registry_ok ?t" using ok sync by (auto simp: registry_ok_def rows split: option.split)
          with False True s' nscan kept [of ?t] ok show ?thesis
            by (simp add: remove_repo_def rows split_def)
        next
          case active: True
          let ?u = "?t\<lparr>rs_active := None\<rparr>"
          have u: "registry_ok ?u" using sync by (simp add: registry_ok_def rows)
          show ?thesis
          proof (rule run_core_db [where s = ?u and f = "\<lambda>d. ((), set_active_repo None d)"])
            fix v assume "run_state (on_core (db_exec (set_active_repo None))) ?u = (None, v)" "parts v = parts ?u"
            with u True s' nscan active ok show ?thesis
              by (simp add: remove_repo_def registry_ok_parts rows split_def)
          next
            fix v
            let ?e = "dn_db (cr_daemon (rs_cron ?u))"
            assume v: "run_state (on_core (db_exec (set_active_repo None))) ?u = (Some (fst ((), set_active_repo None ?e)), v)"
              "parts v = (rs_repos ?u, rs_active ?u, repos (snd ((), set_active_repo None ?e)))"
            then have "parts v = parts ?u" by (simp add: parts_def set_active_repo_def)
            then have "registry_ok v" using u by (simp only: registry_ok_parts)
            with v(1) True s' nscan active ok kept [of v] show ?thesis
              by (simp add: remove_repo_def rows split_def)
          qed
        qed
      qed
    qed
  qed
qed

subsection \<open>Rediscovery keeps the registry\<close>

lemma insert_known_run:
  assumes "dn_faults (cr_daemon (rs_cron s)) = []" and "distinct (map rp_name (repo_rows s))"
  obtains (taken) s' where "run_state (insert_known now r) s = (False, s')" "parts s' = parts s"
      "dn_faults (cr_daemon (rs_cron s')) = []"
  | (added) s' w where "run_state (insert_known now r) s = (True, s')"
      "parts s' = (rs_repos s, rs_active s, repo_rows s @ [w])" "row_key w = row_of r"
      "kr_name r \<notin> rp_name ` set (repo_rows s)" "dn_faults (cr_daemon (rs_cron s')) = []"
proof -
  let ?d = "dn_db (cr_daemon (rs_cron s))"
  let ?f = "\<lambda>d. case insert_repo now (kr_name r) (kr_path r) (kr_source r) d of None \<Rightarrow> (False, d) | Some d' \<Rightarrow> (True, d')"
  obtain s' where s': "run_state (on_core (db_call ?f)) s = (Some (fst (?f ?d)), s')"
    "parts s' = (rs_repos s, rs_active s, repos (snd (?f ?d)))" "dn_faults (cr_daemon (rs_cron s')) = []"
    by (rule run_core_db [where s = s and f = ?f]) (use assms(1) in auto)
  show ?thesis
  proof (cases "insert_repo now (kr_name r) (kr_path r) (kr_source r) ?d")
    case None
    with s' show ?thesis by (intro taken [of s']) (simp_all add: insert_known_def parts_def)
  next
    case (Some d')
    let ?w = "\<lparr>rp_path = kr_path r, rp_name = kr_name r, rp_source = kr_source r, rp_added_at = now\<rparr>"
    from Some have "repos d' = repos ?d @ [?w]" "kr_name r \<notin> rp_name ` set (repos ?d)"
      by (auto simp: insert_repo_def split: if_splits)
    with s' Some show ?thesis
      by (intro added [of s' ?w]) (simp_all add: insert_known_def parts_def row_key_def row_of_def)
  qed
qed

text \<open>Registering the candidates appends new entries, each with its row; no name of a row is given twice.\<close>

lemma register_scanned_run:
  assumes "dn_faults (cr_daemon (rs_cron s)) = []" and "distinct (map rp_name (repo_rows s))"
  obtains N W s' where "run_state (register_scanned now cs acc covered) s = (acc @ N, s')"
    "parts s' = (rs_repos s, rs_active s, repo_rows s @ W)" "map row_key W = map row_of N"
    "distinct (map rp_name (repo_rows s @ W))" "dn_faults (cr_daemon (rs_cron s')) = []"
  using assms
proof (induction cs arbitrary: s acc covered thesis)
  case Nil
  show ?case by (rule Nil(1) [of "[]" s "[]"]) (use Nil(2,3) in \<open>simp_all add: parts_def\<close>)
next
  case (Cons c cs)
  let ?base = "sanitize_name (derive_name c)"
  let ?r = "\<lparr>kr_name = unique_name_in acc ?base, kr_path = c, kr_source = Scanned\<rparr>"
  show ?case
  proof (cases "(\<exists>p \<in> set covered. same_path p c) \<or> ?base = []")
    case True
    then have "register_scanned now (c # cs) acc covered = register_scanned now cs acc covered" by auto
    with Cons show ?thesis by metis
  next
    case False
    show ?thesis
    proof (rule insert_known_run [OF Cons.prems(2,3), of now ?r])
      fix s1 assume s1: "run_state (insert_known now ?r) s = (False, s1)" "parts s1 = parts s"
        "dn_faults (cr_daemon (rs_cron s1)) = []"
      then have same: "repo_rows s1 = repo_rows s" "rs_repos s1 = rs_repos s" "rs_active s1 = rs_active s"
        by (simp_all add: parts_def)
      obtain N W s' where t: "run_state (register_scanned now cs acc covered) s1 = (acc @ N, s')"
        "parts s' = (rs_repos s1, rs_active s1, repo_rows s1 @ W)" "map row_key W = map row_of N"
        "distinct (map rp_name (repo_rows s1 @ W))" "dn_faults (cr_daemon (rs_cron s')) = []"
        using Cons.IH [OF _ s1(3), of acc covered] Cons.prems(3) unfolding same by blast
      show ?thesis by (rule Cons.prems(1) [of N s' W]) (use False s1(1) t same in \<open>auto simp: Let_def\<close>)
    next
      fix s1 w assume s1: "run_state (insert_known now ?r) s = (True, s1)"
        "parts s1 = (rs_repos s, rs_active s, repo_rows s @ [w])" "row_key w = row_of ?r"
        "kr_name ?r \<notin> rp_name ` set (repo_rows s)" "dn_faults (cr_daemon (rs_cron s1)) = []"
      then have same: "repo_rows s1 = repo_rows s @ [w]" "rs_repos s1 = rs_repos s" "rs_active s1 = rs_active s"
        by (simp_all add: parts_def)
      have "rp_name w = kr_name ?r" using s1(3) by (simp add: row_key_def row_of_def)
      then have d: "distinct (map rp_name (repo_rows s1))" using s1(4) Cons.prems(3) by (simp add: same)
      obtain N W s' where t: "run_state (register_scanned now cs (acc @ [?r]) (covered @ [c])) s1 = ((acc @ [?r]) @ N, s')"
        "parts s' = (rs_repos s1, rs_active s1, repo_rows s1 @ W)" "map row_key W = map row_of N"
        "distinct (map rp_name (repo_rows s1 @ W))" "dn_faults (cr_daemon (rs_cron s')) = []"
        using Cons.IH [OF _ s1(5) d, of "acc @ [?r]" "covered @ [c]"] by blast
      show ?thesis
        by (rule Cons.prems(1) [of "?r # N" s' "w # W"]) (use False s1(1,3) t same in \<open>auto simp: Let_def\<close>)
    qed
  qed
qed

definition dropped :: "known_repo list \<Rightarrow> known_repo list \<Rightarrow> string set" where
  "dropped snapshot next_repos = kr_name ` {r \<in> set snapshot. kr_source r = Scanned} - kr_name ` set next_repos"

lemma deregister_run:
  assumes "dn_faults (cr_daemon (rs_cron s)) = []"
  obtains s' where "run_state (for_each (deregister next_repos) snapshot) s = ((), s')"
    "parts s' = (rs_repos s, rs_active s, filter (\<lambda>w. rp_name w \<notin> dropped snapshot next_repos) (repo_rows s))"
    "dn_faults (cr_daemon (rs_cron s')) = []"
  using assms
proof (induction snapshot arbitrary: s thesis)
  case Nil
  show ?case by (rule Nil(1) [of s]) (use Nil(2) in \<open>simp_all add: parts_def dropped_def\<close>)
next
  case (Cons r snapshot)
  show ?case
  proof (cases "kr_source r = Scanned \<and> kr_name r \<notin> kr_name ` set next_repos")
    case True
    obtain s1 where s1: "run_state (on_core (db_call (delete_repo (kr_name r)))) s = (Some (fst (delete_repo (kr_name r) (dn_db (cr_daemon (rs_cron s))))), s1)"
      "parts s1 = (rs_repos s, rs_active s, repos (snd (delete_repo (kr_name r) (dn_db (cr_daemon (rs_cron s))))))"
      "dn_faults (cr_daemon (rs_cron s1)) = []"
      by (rule run_core_db [where s = s and f = "delete_repo (kr_name r)"]) (use Cons.prems(2) in auto)
    obtain s' where t: "run_state (for_each (deregister next_repos) snapshot) s1 = ((), s')"
      "parts s' = (rs_repos s1, rs_active s1, filter (\<lambda>w. rp_name w \<notin> dropped snapshot next_repos) (repo_rows s1))"
      "dn_faults (cr_daemon (rs_cron s')) = []"
      using Cons.IH [OF _ s1(3)] by blast
    have "dropped (r # snapshot) next_repos = insert (kr_name r) (dropped snapshot next_repos)"
      using True by (auto simp: dropped_def)
    then show ?thesis
      by (intro Cons.prems(1) [of s'])
        (use True s1 t in \<open>simp_all add: deregister_def [of next_repos r] parts_def delete_repo_def conj_commute\<close>)
  next
    case False
    then have d: "dropped (r # snapshot) next_repos = dropped snapshot next_repos" by (auto simp: dropped_def)
    have "deregister next_repos r = ret ()" using False by (simp only: deregister_def if_False)
    note d = d this
    obtain s' where "run_state (for_each (deregister next_repos) snapshot) s = ((), s')"
      "parts s' = (rs_repos s, rs_active s, filter (\<lambda>w. rp_name w \<notin> dropped snapshot next_repos) (repo_rows s))"
      "dn_faults (cr_daemon (rs_cron s')) = []"
      using Cons.IH [OF _ Cons.prems(2)] by blast
    then show ?thesis
      by (intro Cons.prems(1) [of s']) (simp_all add: d)
  qed
qed

lemma synced_rediscovered:
  assumes "synced snapshot rows" and K: "K = filter (survives fs candidates) snapshot"
    and "map row_key W = map row_of N" and "distinct (map rp_name (rows @ W))"
  shows "synced (K @ N) (filter (\<lambda>w. rp_name w \<notin> dropped snapshot (K @ N)) (rows @ W))"
    and "kr_name ` set snapshot \<subseteq> kr_name ` set (K @ N) \<Longrightarrow> K = snapshot"
    and "kr_name ` set N \<inter> kr_name ` set snapshot = {}"
proof -
  let ?D = "dropped snapshot (K @ N)"
  have names: "kr_name ` set snapshot = rp_name ` set rows" by (rule synced_names [OF assms(1)])
  have "map fst (map row_key W) = map fst (map row_of N)" using assms(3) by simp
  then have W: "map rp_name W = map kr_name N" by (simp add: comp_def row_of_name)
  then have "rp_name ` set W = kr_name ` set N" by (metis set_map)
  with assms(4) names show fresh: "kr_name ` set N \<inter> kr_name ` set snapshot = {}" by auto
  have dist: "distinct (map kr_name snapshot)" using assms(1) by (simp add: synced_def)
  have keep: "survives fs candidates r" if "r \<in> set snapshot" "kr_name r \<in> kr_name ` set (K @ N)" for r
  proof -
    from that fresh obtain r' where "r' \<in> set K" "kr_name r' = kr_name r" by auto
    then show ?thesis using that(1) dist by (auto simp: K distinct_map inj_on_def)
  qed
  show "K = snapshot" if "kr_name ` set snapshot \<subseteq> kr_name ` set (K @ N)"
    unfolding K by (rule filter_True) (use keep that in blast)
  have split_names: "{r \<in> set (snapshot @ N). kr_name r \<notin> ?D} = set (K @ N)"
  proof (intro equalityI subsetI)
    fix r assume r: "r \<in> {r \<in> set (snapshot @ N). kr_name r \<notin> ?D}"
    show "r \<in> set (K @ N)"
    proof (cases "r \<in> set snapshot")
      case True
      with r have "kr_source r \<noteq> Scanned \<or> kr_name r \<in> kr_name ` set (K @ N)" unfolding dropped_def by blast
      then have "survives fs candidates r"
        using keep [OF True] by (cases "kr_source r") (auto simp: survives_def)
      with True show ?thesis by (simp add: K)
    qed (use r in simp)
  next
    fix r assume r: "r \<in> set (K @ N)"
    then have "kr_name r \<notin> ?D" unfolding dropped_def by blast
    with r show "r \<in> {r \<in> set (snapshot @ N). kr_name r \<notin> ?D}" by (auto simp: K)
  qed
  have "row_key ` set (rows @ W) = row_of ` set (snapshot @ N)"
    using assms(1) arg_cong [OF assms(3), of set] by (simp add: synced_def image_Un)
  then have "{p \<in> row_key ` set (rows @ W). fst p \<notin> ?D} = {p \<in> row_of ` set (snapshot @ N). fst p \<notin> ?D}"
    by (simp only:)
  moreover have "{p \<in> row_key ` set (rows @ W). fst p \<notin> ?D} = row_key ` set (filter (\<lambda>w. rp_name w \<notin> ?D) (rows @ W))"
    by (auto simp: row_of_name)
  moreover have "{p \<in> row_of ` set (snapshot @ N). fst p \<notin> ?D} = row_of ` {r \<in> set (snapshot @ N). kr_name r \<notin> ?D}"
    by (auto simp: row_of_name)
  ultimately have "row_key ` set (filter (\<lambda>w. rp_name w \<notin> ?D) (rows @ W)) = row_of ` set (K @ N)"
    unfolding split_names by simp
  moreover have "distinct (map kr_name (K @ N))"
    using dist fresh assms(4) W by (auto simp: K distinct_map_filter)
  moreover have "distinct (map rp_name (filter (\<lambda>w. rp_name w \<notin> ?D) (rows @ W)))"
    using assms(4) by (rule distinct_map_filter)
  ultimately show "synced (K @ N) (filter (\<lambda>w. rp_name w \<notin> ?D) (rows @ W))" by (simp only: synced_def)
qed

lemma same_repo_names: "list_all2 same_repo xs ys \<Longrightarrow> map kr_name xs = map kr_name ys"
  by (induction rule: list_all2_induct) (auto simp: same_repo_def)

lemma rediscover_ok:
  assumes "registry_ok s" and "dn_faults (cr_daemon (rs_cron s)) = []"
  shows "registry_ok (snd (run_state (rediscover fs cfg now) s))"
proof (cases "rc_base_dir cfg")
  case None
  with assms(1) show ?thesis by (simp add: rediscover_def)
next
  case (Some base)
  define cands where "cands = scan_candidates fs (expand_tilde (fs_home fs) base) (max (rc_depth cfg) 1)"
  define K where "K = filter (survives fs cands) (rs_repos s)"
  have sync: "synced (rs_repos s) (repo_rows s)" using assms(1) by (simp add: registry_ok_def)
  then have "distinct (map rp_name (repo_rows s))" by (simp add: synced_def)
  from register_scanned_run [OF assms(2) this, of now cands K "map (\<lambda>r. real_path fs (kr_path r)) K"]
  obtain N W s1 where
    s1: "run_state (register_scanned now cands K (map (\<lambda>r. real_path fs (kr_path r)) K)) s = (K @ N, s1)"
      "parts s1 = (rs_repos s, rs_active s, repo_rows s @ W)" "map row_key W = map row_of N"
      "distinct (map rp_name (repo_rows s @ W))" "dn_faults (cr_daemon (rs_cron s1)) = []"
    by blast
  define next_repos where "next_repos = sort_key kr_name (K @ N)"
  have dr: "dropped (rs_repos s) next_repos = dropped (rs_repos s) (K @ N)" by (simp add: dropped_def next_repos_def)
  obtain s2 where s2: "run_state (for_each (deregister next_repos) (rs_repos s)) s1 = ((), s2)"
    "parts s2 = (rs_repos s1, rs_active s1, filter (\<lambda>w. rp_name w \<notin> dropped (rs_repos s) next_repos) (repo_rows s1))"
    "dn_faults (cr_daemon (rs_cron s2)) = []"
    using deregister_run [OF s1(5)] by blast
  note re = synced_rediscovered [OF sync K_def s1(3,4)]
  have new: "synced (K @ N) (repo_rows s2)" "rs_repos s2 = rs_repos s" "rs_active s2 = rs_active s"
    using re(1) s1(2) s2(2) by (simp_all add: parts_def dr)
  note run = rediscover_def Some cands_def [symmetric] K_def [symmetric] Let_def next_repos_def [symmetric] s1(1) s2(1)
  show ?thesis
  proof (cases "list_all2 same_repo (sort_key kr_name (rs_repos s)) next_repos")
    case True
    from arg_cong [OF same_repo_names [OF True], of set]
    have names: "kr_name ` set (rs_repos s) = kr_name ` set (K @ N)" by (simp add: next_repos_def)
    then have "kr_name ` set N \<subseteq> kr_name ` set (rs_repos s)" by (metis image_mono set_append sup_ge2)
    with re(3) have "N = []" by (cases N) auto
    moreover have "K = rs_repos s" using re(2) names by simp
    ultimately have "registry_ok s2"
      using new assms(1) by (auto simp: registry_ok_def split: option.split)
    with True show ?thesis by (simp add: run split_def del: One_nat_def)
  next
    case False
    let ?m = "s2\<lparr>rs_repos := next_repos\<rparr>"
    have m: "synced (rs_repos ?m) (repo_rows ?m)" using new(1) by (simp add: next_repos_def synced_sort)
    show ?thesis
    proof (cases "case rs_active s of None \<Rightarrow> True | Some a \<Rightarrow> a \<in> kr_name ` set next_repos")
      case True
      then have "registry_ok ?m" using m new(3) by (auto simp: registry_ok_def split: option.splits)
      with True False show ?thesis
        by (cases "rs_active s") (simp_all add: run new split_def registry_ok_parts del: One_nat_def)
    next
      case gone: False
      let ?u = "?m\<lparr>rs_active := None\<rparr>"
      have u: "registry_ok ?u" using m by (simp add: registry_ok_def)
      obtain v where v: "run_state (on_core (db_exec (set_active_repo None))) ?u = (Some (), v)"
        "parts v = (rs_repos ?u, rs_active ?u, repos (set_active_repo None (dn_db (cr_daemon (rs_cron ?u)))))"
        by (rule run_core_db [where s = ?u and f = "\<lambda>d. ((), set_active_repo None d)"]) (use s2(3) in auto)
      then have "parts v = parts ?u" by (simp add: parts_def set_active_repo_def)
      then have "registry_ok v" using u by (simp only: registry_ok_parts)
      with v(1) gone False show ?thesis
        by (cases "rs_active s") (simp_all add: run new split_def registry_ok_parts del: One_nat_def)
    qed
  qed
qed

text \<open>C28: whatever fails, adding, seeding, removing and activating repositories keep the registry in memory and
  its table the same, with unique names and an active repository that exists; so does a scan during which no
  database call fails.\<close>

theorem registry_stays_in_sync:
  assumes "registry_ok s"
  shows "registry_ok (snd (run_state (add_repo lib fs cfg now raw requested) s)) \<and>
    registry_ok (snd (run_state (remove_repo lib fs cfg name) s)) \<and>
    registry_ok (snd (run_state (activate_repo active) s)) \<and>
    registry_ok (snd (run_state (seed_from_config fs cfg now) s)) \<and>
    (dn_faults (cr_daemon (rs_cron s)) = [] \<longrightarrow> registry_ok (snd (run_state (rediscover fs cfg now) s)))"
  using assms
  by (auto intro: add_ok remove_ok activate_ok rediscover_ok
      for_each_ok [where I = registry_ok and f = "seed_repo fs now"] seed_ok simp: seed_from_config_def)

subsection \<open>A repository that moved\<close>

text \<open>A name that a row holds is not given again, whatever fails.\<close>

lemma register_scanned_taken:
  assumes "b \<in> rp_name ` set (repo_rows s)" and "b \<notin> kr_name ` set acc"
  shows "\<forall>r \<in> set (fst (run_state (register_scanned now cs acc covered) s)).
    r \<in> set acc \<or> kr_name r \<noteq> b \<and> sanitize_name (derive_name (kr_path r)) \<noteq> b"
  using assms
proof (induction cs arbitrary: s acc covered)
  case (Cons c cs)
  let ?base = "sanitize_name (derive_name c)"
  let ?r = "\<lparr>kr_name = unique_name_in acc ?base, kr_path = c, kr_source = Scanned\<rparr>"
  let ?f = "\<lambda>d. case insert_repo now (kr_name ?r) (kr_path ?r) (kr_source ?r) d of None \<Rightarrow> (False, d) | Some d' \<Rightarrow> (True, d')"
  let ?d = "dn_db (cr_daemon (rs_cron s))"
  show ?case
  proof (cases "(\<exists>p \<in> set covered. same_path p c) \<or> ?base = []")
    case True
    then have "register_scanned now (c # cs) acc covered = register_scanned now cs acc covered" by auto
    with Cons show ?thesis by metis
  next
    case False
    have skip: ?thesis if "run_state (insert_known now ?r) s = (False, s1)" "parts s1 = parts s" for s1
      using that False Cons.IH [of s1 acc covered] Cons.prems by (simp add: Let_def parts_def)
    show ?thesis
    proof (rule run_core_db [where s = s and f = ?f])
      fix s1 assume "run_state (on_core (db_call ?f)) s = (None, s1)" "parts s1 = parts s"
      then show ?thesis by (intro skip [of s1]) (simp_all add: insert_known_def)
    next
      fix s1 assume s1: "run_state (on_core (db_call ?f)) s = (Some (fst (?f ?d)), s1)"
        "parts s1 = (rs_repos s, rs_active s, repos (snd (?f ?d)))"
      show ?thesis
      proof (cases "insert_repo now (kr_name ?r) (kr_path ?r) (kr_source ?r) ?d")
        case None
        with s1 show ?thesis by (intro skip [of s1]) (simp_all add: insert_known_def parts_def)
      next
        case (Some d')
        then have d': "kr_name ?r \<notin> rp_name ` set (repos ?d)" "set (repos ?d) \<subseteq> set (repos d')"
          by (auto simp: insert_repo_def split: if_splits)
        have "?base \<noteq> b"
        proof
          assume "?base = b"
          with Cons.prems(2) have "kr_name ?r = b" by (simp add: unique_name_in_def)
          with d'(1) Cons.prems(1) show False by simp
        qed
        moreover have "kr_name ?r \<noteq> b" using d'(1) Cons.prems(1) by metis
        moreover have "b \<in> rp_name ` set (repo_rows s1)" using Cons.prems(1) d'(2) s1(2) Some by (auto simp: parts_def)
        moreover have "run_state (insert_known now ?r) s = (True, s1)" using s1(1) Some by (simp add: insert_known_def)
        ultimately show ?thesis
          using Cons.IH [of s1 "acc @ [?r]" "covered @ [c]"] Cons.prems(2) False by (auto simp: Let_def)
      qed
    qed
  qed
qed simp

lemma keeps_on_core_repos [keeps_intros]: "keeps (\<lambda>s. rs_repos s = R) (on_core m)"
  by (simp add: keeps_def run_on_core)

lemma keeps_register_scanned: "keeps (\<lambda>s. rs_repos s = R) (register_scanned now cs acc covered)"
  by (induction cs arbitrary: acc covered)
    (auto simp: insert_known_def Let_def intro!: keeps_intros)

lemma keeps_deregister: "keeps (\<lambda>s. rs_repos s = R) (for_each (deregister next_repos) rs)"
  by (intro keeps_intros) (auto simp: deregister_def intro!: keeps_intros)

text \<open>A scan inserts the new repositories before it deletes the vanished ones.  A scanned repository whose
  directory moved keeps its basename, so the row of the old place makes the insertion of the new one fail on the
  unique name: after the scan the repository is gone from the registry at both places.\<close>

theorem moved_repo_not_registered:
  assumes "registry_ok s" and "rc_base_dir cfg = Some base" and "r \<in> set (rs_repos s)"
    and "\<not> survives fs (scan_candidates fs (expand_tilde (fs_home fs) base) (max (rc_depth cfg) 1)) r"
    and "q \<in> set (rs_repos (snd (run_state (rediscover fs cfg now) s)))"
    and "sanitize_name (derive_name (kr_path q)) = kr_name r"
  shows "q \<in> set (rs_repos s) \<and> q \<noteq> r"
proof -
  define cands where "cands = scan_candidates fs (expand_tilde (fs_home fs) base) (max (rc_depth cfg) 1)"
  define K where "K = filter (survives fs cands) (rs_repos s)"
  obtain ns s1 where s1: "run_state (register_scanned now cands K (map (\<lambda>r. real_path fs (kr_path r)) K)) s = (ns, s1)"
    by fastforce
  define next_repos where "next_repos = sort_key kr_name ns"
  obtain s2 where s2: "run_state (for_each (deregister next_repos) (rs_repos s)) s1 = ((), s2)"
    by (metis old.prod.exhaust old.unit.exhaust)
  have "rs_repos s1 = rs_repos s"
    using keepsD [OF keeps_register_scanned [of "rs_repos s" now cands K "map (\<lambda>r. real_path fs (kr_path r)) K"], of s] s1
    by simp
  then have s2r: "rs_repos s2 = rs_repos s"
    using keepsD [OF keeps_deregister [of "rs_repos s" next_repos "rs_repos s"], of s1] s2 by simp
  have dist: "distinct (map kr_name (rs_repos s))" and sync: "synced (rs_repos s) (repo_rows s)"
    using assms(1) by (simp_all add: registry_ok_def synced_def)
  have gone: "kr_name r \<notin> kr_name ` set K"
    using dist assms(3,4) by (auto simp: K_def cands_def distinct_map inj_on_def)
  have row: "kr_name r \<in> rp_name ` set (repo_rows s)" using synced_names [OF sync] assms(3) by blast
  from register_scanned_taken [OF row gone, of now cands "map (\<lambda>r. real_path fs (kr_path r)) K"]
  have new: "\<forall>x \<in> set ns. x \<in> set K \<or> kr_name x \<noteq> kr_name r \<and>
      sanitize_name (derive_name (kr_path x)) \<noteq> kr_name r" by (auto simp: s1)
  note run = rediscover_def assms(2) cands_def [symmetric] K_def [symmetric] Let_def next_repos_def [symmetric] s1 s2
  show ?thesis
  proof (cases "list_all2 same_repo (sort_key kr_name (rs_repos s)) next_repos")
    case True
    from arg_cong [OF same_repo_names [OF True], of set]
    have "kr_name ` set (rs_repos s) = kr_name ` set ns" by (simp add: next_repos_def)
    then have "kr_name r \<in> kr_name ` set ns" using assms(3) by blast
    then obtain x where "x \<in> set ns" "kr_name x = kr_name r" by auto
    with new have "x \<in> set K" by blast
    with gone \<open>kr_name x = kr_name r\<close> show ?thesis by (metis image_eqI)
  next
    case False
    have "rs_repos (snd (run_state (rediscover fs cfg now) s)) = next_repos"
      using False by (cases "rs_active s2"; simp add: run split_def run_on_core del: One_nat_def) (auto simp: split_def run_on_core split: option.split)
    then have "q \<in> set ns" using assms(5) by (simp add: next_repos_def)
    with new assms(6) have "q \<in> set K" by blast
    then show ?thesis using assms(4) by (auto simp: K_def cands_def)
  qed
qed

subsection \<open>Reloading without a global catalog\<close>

text \<open>A global task directory that cannot be read leaves its whole prior catalog in place, the definitions of
  repositories included, and the repositories' definitions are loaded once more: names occur twice.\<close>

theorem reload_without_global_dir:
  assumes "fs_tasks fs (rc_tasks_dir cfg) = None" and "r \<in> set rs"
    and "d \<in> set (load_repo_catalog (fs_parse fs) (kr_name r) (kr_path r) (fs_tasks fs (repo_tasks_dir (kr_path r))) prior)"
    and "d_name d \<in> d_name ` set prior"
  shows "length (load_all fs cfg rs prior) = length prior + (\<Sum>r \<leftarrow> rs. length (load_repo_catalog (fs_parse fs)
      (kr_name r) (kr_path r) (fs_tasks fs (repo_tasks_dir (kr_path r))) prior)) \<and>
    \<not> distinct (map d_name (load_all fs cfg rs prior))"
proof -
  let ?more = "concat (map (\<lambda>r. load_repo_catalog (fs_parse fs) (kr_name r) (kr_path r)
      (fs_tasks fs (repo_tasks_dir (kr_path r))) prior) rs)"
  have all: "load_all fs cfg rs prior = sort_key d_name (resolve_repo_refs (prior @ ?more))"
    using assms(1) by (simp add: load_all_def reload_catalog_def)
  have "d_name d \<in> d_name ` set ?more" using assms(2,3) by auto
  then have "\<not> distinct (map d_name (prior @ ?more))" using assms(4) by auto
  then have "\<not> distinct (map d_name (resolve_repo_refs (prior @ ?more)))" by (simp only: map_name_resolve not_False_eq_True)
  moreover have "length (resolve_repo_refs (prior @ ?more)) = length prior + length ?more"
    by (simp add: resolve_repo_refs_def)
  moreover have "distinct (map d_name (sort_key d_name xs)) = distinct (map d_name xs)" for xs :: "task_def list"
    by (simp add: distinct_map)
  ultimately show ?thesis
    by (simp only: all length_sort length_concat map_map comp_def) simp
qed

subsection \<open>The watcher converges\<close>

abbreviation wt_key :: "watch_target \<Rightarrow> bool \<times> path_component list" where
  "wt_key t \<equiv> path_key (wt_dir t)"

definition same_target :: "watch_target \<Rightarrow> watch_target \<Rightarrow> bool" where
  "same_target a b \<longleftrightarrow> same_path (wt_dir a) (wt_dir b) \<and> wt_recursive a = wt_recursive b"

text \<open>The watcher's list is what the operating system watches, each path once.\<close>

definition watching_ok :: "watch_target list \<Rightarrow> os_watch \<Rightarrow> bool" where
  "watching_ok watching w \<longleftrightarrow> distinct (map wt_key watching) \<and> set (ow_watches w) = set watching"

lemma map_update_first: "(\<And>x. k (f x) = k x) \<Longrightarrow> map k (update_first P f xs) = map k xs"
  by (induction xs) simp_all

lemma merge_targets_distinct: "distinct (map wt_key acc) \<Longrightarrow> distinct (map wt_key (merge_targets ts acc))"
proof (induction ts arbitrary: acc)
  case (Cons t ts)
  show ?case
  proof (cases "\<exists>a \<in> set acc. wt_key a = wt_key t")
    case True
    with Cons show ?thesis by (simp add: map_update_first same_path_def)
  next
    case False
    then have "wt_key t \<notin> set (map wt_key acc)" by auto
    with Cons have "distinct (map wt_key (acc @ [t]))" by simp
    with False Cons.IH show ?thesis by (simp add: same_path_def)
  qed
qed simp

lemma merge_targets_nonempty: "merge_targets ts acc = [] \<longleftrightarrow> ts = [] \<and> acc = []"
proof (induction ts arbitrary: acc)
  case (Cons t ts)
  have "update_first P f acc = [] \<longleftrightarrow> acc = []" for P f by (cases acc) simp_all
  with Cons show ?case by auto
qed simp

lemma desired_targets_distinct: "distinct (map wt_key (desired_targets fs cfg rs))"
  using merge_targets_distinct [of "[]" "watch_roots fs cfg rs"] by (simp add: desired_targets_def distinct_map)

lemma run_unwatch: "run_state (os_unwatch p) w = ((), w\<lparr>ow_watches := filter (\<lambda>t. \<not> same_path (wt_dir t) p) (ow_watches w)\<rparr>)"
  by (simp add: os_unwatch_def)

lemma run_watch_path:
  obtains (failed) fs where "run_state (os_watch_path t) w = (False, w\<lparr>ow_faults := fs\<rparr>)" "ow_faults w \<noteq> []"
  | (passed) fs where "run_state (os_watch_path t) w = (True, w\<lparr>ow_faults := fs, ow_watches := ow_watches w @ [t]\<rparr>)"
      "ow_faults w = [] \<Longrightarrow> fs = []"
proof (cases "ow_faults w")
  case Nil
  then have "w\<lparr>ow_faults := []\<rparr> = w" by simp
  then have "run_state (os_watch_path t) w = (True, w\<lparr>ow_faults := [], ow_watches := ow_watches w @ [t]\<rparr>)"
    using Nil by (simp add: os_watch_path_def)
  then show ?thesis by (rule passed) simp
next
  case (Cons b fs)
  then show ?thesis by (cases b) (auto intro: failed passed simp: os_watch_path_def)
qed

lemma drop_watches_run:
  "run_state (for_each (drop_watch desired) watching) w = ((), w\<lparr>ow_watches :=
     filter (\<lambda>t. wt_key t \<in> wt_key ` set desired \<or> wt_key t \<notin> wt_key ` set watching) (ow_watches w)\<rparr>)"
proof (induction watching arbitrary: w)
  case (Cons x watching)
  show ?case
  proof (cases "wt_key x \<in> wt_key ` set desired")
    case True
    then have "\<exists>d \<in> set desired. same_path (wt_dir d) (wt_dir x)" by (auto simp: same_path_def)
    then have "drop_watch desired x = ret ()" by (simp only: drop_watch_def if_True)
    moreover have "wt_key t \<in> wt_key ` set desired \<or> wt_key t \<notin> wt_key ` set (x # watching) \<longleftrightarrow>
        wt_key t \<in> wt_key ` set desired \<or> wt_key t \<notin> wt_key ` set watching" for t
      using True by auto
    ultimately show ?thesis using Cons [of w] by simp
  next
    case False
    then have "\<not> (\<exists>d \<in> set desired. same_path (wt_dir d) (wt_dir x))" by (auto simp: same_path_def rev_image_eqI)
    then have "drop_watch desired x = os_unwatch (wt_dir x)" by (simp only: drop_watch_def if_False)
    moreover have "filter (\<lambda>t. wt_key t \<in> wt_key ` set desired \<or> wt_key t \<notin> wt_key ` set watching)
        (filter (\<lambda>t. \<not> same_path (wt_dir t) (wt_dir x)) ts) =
      filter (\<lambda>t. wt_key t \<in> wt_key ` set desired \<or> wt_key t \<notin> wt_key ` set (x # watching)) ts" for ts
      unfolding filter_filter by (rule filter_cong) (use False in \<open>auto simp: same_path_def\<close>)
    ultimately show ?thesis using Cons by (simp add: run_unwatch)
  qed
qed simp

text \<open>What pointing the watches at the targets does: the watches of other paths stay, those of the targets are
  exactly the ones returned.\<close>

definition pointed :: "watch_target list \<Rightarrow> watch_target list \<Rightarrow> os_watch \<Rightarrow> watch_target list \<times> os_watch \<Rightarrow> bool" where
  "pointed watching ts w r = (case r of (ws, w') \<Rightarrow>
     set (ow_watches w') = {x \<in> set (ow_watches w). wt_key x \<notin> wt_key ` set ts} \<union> set ws \<and>
     wt_key ` set ws \<subseteq> wt_key ` set ts \<and> distinct (map wt_key ws) \<and>
     (ow_faults w = [] \<longrightarrow> ow_faults w' = [] \<and> list_all2 same_target ws ts))"

lemma pointed_add:
  assumes "pointed watching ts u (ws, w')" and "wt_key x = wt_key t" and "wt_key t \<notin> wt_key ` set ts"
    and "set (ow_watches u) = insert x {y \<in> set (ow_watches w). wt_key y \<noteq> wt_key t}"
    and "wt_recursive x = wt_recursive t" and "ow_faults w = [] \<Longrightarrow> ow_faults u = []"
  shows "pointed watching (t # ts) w (x # ws, w')"
proof -
  have p: "set (ow_watches w') = {y \<in> set (ow_watches u). wt_key y \<notin> wt_key ` set ts} \<union> set ws"
    "wt_key ` set ws \<subseteq> wt_key ` set ts" "distinct (map wt_key ws)"
    "ow_faults u = [] \<Longrightarrow> ow_faults w' = [] \<and> list_all2 same_target ws ts"
    using assms(1) by (simp_all add: pointed_def)
  have "wt_key x \<notin> wt_key ` set ts" using assms(2,3) by simp
  moreover from this p(2) have "wt_key x \<notin> wt_key ` set ws" by blast
  moreover have "same_target x t" using assms(2,5) by (simp add: same_target_def same_path_def)
  ultimately show ?thesis
    unfolding pointed_def prod.case using p assms(2,4,6) by (simp, blast)
qed

lemma pointed_skip:
  assumes "pointed watching ts u (ws, w')" and "wt_key t \<notin> wt_key ` set ts"
    and "set (ow_watches u) = {y \<in> set (ow_watches w). wt_key y \<noteq> wt_key t}" and "ow_faults w \<noteq> []"
  shows "pointed watching (t # ts) w (ws, w')"
  using assms unfolding pointed_def prod.case by auto

lemma find_target:
  "List.find (\<lambda>x. same_path (wt_dir x) (wt_dir t)) watching = Some x \<Longrightarrow> x \<in> set watching \<and> wt_key x = wt_key t"
  by (auto simp: find_Some_iff same_path_def)

lemma point_watches_run:
  assumes "distinct (map wt_key ts)" and "distinct (map wt_key watching)"
    and "\<forall>x. wt_key x \<in> wt_key ` set ts \<longrightarrow> (x \<in> set (ow_watches w) \<longleftrightarrow> x \<in> set watching)"
  shows "pointed watching ts w (run_state (point_watches watching ts) w)"
  using assms(1,3)
proof (induction ts arbitrary: w)
  case Nil
  then show ?case by (simp add: pointed_def)
next
  case (Cons t ts)
  have t: "wt_key t \<notin> wt_key ` set ts" and d: "distinct (map wt_key ts)" using Cons.prems(1) by auto
  have agree: "x \<in> set (ow_watches w) \<longleftrightarrow> x \<in> set watching" if "wt_key x \<in> wt_key ` set (t # ts)" for x
    using Cons.prems(2) that by blast
  have point: "run_state (do { ok \<leftarrow> os_watch_path t; ws \<leftarrow> point_watches watching ts; ret (if ok then t # ws else ws) }) v = r
      \<Longrightarrow> pointed watching (t # ts) w r"
    if v: "set (ow_watches v) = {y \<in> set (ow_watches w). wt_key y \<noteq> wt_key t}" "ow_faults v = ow_faults w" for v r
  proof (rule run_watch_path [of t v])
    fix fs assume r: "run_state (do { ok \<leftarrow> os_watch_path t; ws \<leftarrow> point_watches watching ts; ret (if ok then t # ws else ws) }) v = r"
      and f: "run_state (os_watch_path t) v = (False, v\<lparr>ow_faults := fs\<rparr>)" "ow_faults v \<noteq> []"
    have "pointed watching ts (v\<lparr>ow_faults := fs\<rparr>) (run_state (point_watches watching ts) (v\<lparr>ow_faults := fs\<rparr>))"
      using agree t v(1) by (intro Cons.IH [OF d]) auto
    then show "pointed watching (t # ts) w r"
      using r f v t by (cases "run_state (point_watches watching ts) (v\<lparr>ow_faults := fs\<rparr>)")
        (auto intro!: pointed_skip [where u = "v\<lparr>ow_faults := fs\<rparr>"])
  next
    fix fs
    let ?v = "v\<lparr>ow_faults := fs, ow_watches := ow_watches v @ [t]\<rparr>"
    assume r: "run_state (do { ok \<leftarrow> os_watch_path t; ws \<leftarrow> point_watches watching ts; ret (if ok then t # ws else ws) }) v = r"
      and f: "run_state (os_watch_path t) v = (True, ?v)" "ow_faults v = [] \<Longrightarrow> fs = []"
    have "pointed watching ts ?v (run_state (point_watches watching ts) ?v)"
      using agree t v(1) by (intro Cons.IH [OF d]) auto
    then show "pointed watching (t # ts) w r"
      using r f v t by (cases "run_state (point_watches watching ts) ?v") (auto intro!: pointed_add [where u = ?v])
  qed
  show ?case
  proof (cases "List.find (\<lambda>x. same_path (wt_dir x) (wt_dir t)) watching")
    case None
    then have "\<forall>x \<in> set watching. wt_key x \<noteq> wt_key t" by (auto simp: find_None_iff same_path_def)
    then have "set (ow_watches w) = {y \<in> set (ow_watches w). wt_key y \<noteq> wt_key t}" using agree by auto
    from point [OF this refl refl] None show ?thesis by simp
  next
    case (Some x)
    note x = find_target [OF Some]
    have only: "y = x" if "y \<in> set (ow_watches w)" "wt_key y = wt_key t" for y
      using that agree [of y] x assms(2) by (auto simp: distinct_map inj_on_def)
    show ?thesis
    proof (cases "wt_recursive x = wt_recursive t")
      case True
      obtain ws w' where r: "run_state (point_watches watching ts) w = (ws, w')" by fastforce
      have "pointed watching ts w (ws, w')"
        unfolding r [symmetric] using agree by (intro Cons.IH [OF d]) auto
      moreover have "set (ow_watches w) = insert x {y \<in> set (ow_watches w). wt_key y \<noteq> wt_key t}"
      proof (intro equalityI subsetI)
        fix y assume "y \<in> set (ow_watches w)"
        then show "y \<in> insert x {y \<in> set (ow_watches w). wt_key y \<noteq> wt_key t}" using only [of y] by blast
      next
        fix y assume "y \<in> insert x {y \<in> set (ow_watches w). wt_key y \<noteq> wt_key t}"
        then show "y \<in> set (ow_watches w)" using agree [of x] x by auto
      qed
      ultimately have "pointed watching (t # ts) w (x # ws, w')"
        by (rule pointed_add [OF _ conjunct2 [OF x] t _ True])
      then show ?thesis using Some True r by simp
    next
      case False
      let ?v = "w\<lparr>ow_watches := filter (\<lambda>y. \<not> same_path (wt_dir y) (wt_dir x)) (ow_watches w)\<rparr>"
      have "set (ow_watches ?v) = {y \<in> set (ow_watches w). wt_key y \<noteq> wt_key t}" using x by (auto simp: same_path_def)
      from point [OF this _ refl] Some False show ?thesis by (simp add: run_unwatch)
    qed
  qed
qed

lemma retarget_run:
  assumes "watching_ok watching w" and "distinct (map wt_key desired)"
  obtains ws w' where "run_state (retarget_all desired watching) w = (ws, w')" "watching_ok ws w'"
    "ow_faults w = [] \<Longrightarrow> ow_faults w' = [] \<and> list_all2 same_target ws desired"
proof -
  let ?v = "w\<lparr>ow_watches := filter (\<lambda>t. wt_key t \<in> wt_key ` set desired \<or> wt_key t \<notin> wt_key ` set watching) (ow_watches w)\<rparr>"
  obtain ws w' where r: "run_state (point_watches watching desired) ?v = (ws, w')" by fastforce
  have "pointed watching desired ?v (ws, w')"
    unfolding r [symmetric] using assms by (intro point_watches_run) (auto simp: watching_ok_def)
  with r assms show ?thesis
    by (intro that [of ws w']) (auto simp: retarget_all_def drop_watches_run pointed_def watching_ok_def)
qed


subsection \<open>Concrete instances\<close>

text \<open>The repository \<open>/b/x/app\<close> was scanned, and its directory is now \<open>/b/y/app\<close>.\<close>

definition app :: string where "app = ''app''"
definition old_place :: string where "old_place = ''/b/x/app''"
definition new_place :: string where "new_place = ''/b/y/app''"

definition app_repo :: known_repo where
  "app_repo = \<lparr>kr_name = app, kr_path = old_place, kr_source = Scanned\<rparr>"

definition moved_fs :: repo_fs where
  "moved_fs = \<lparr>fs_home = None, fs_is_dir = (\<lambda>p. p = ''/b/y/app/.favetto''), fs_exists = (\<lambda>p. p = ''/b''),
     fs_canon = (\<lambda>p. None),
     fs_read_dir = (\<lambda>p. if p = ''/b'' then Some [(''x'', True), (''y'', True)] else
       if p = ''/b/x'' then Some [] else if p = ''/b/y'' then Some [(''app'', True), (''.git'', True)] else None),
     fs_tasks = (\<lambda>_. None), fs_parse = (\<lambda>_ _. Inl ''no front matter'')\<rparr>"

definition moved_config :: repo_config where
  "moved_config = \<lparr>rc_known = [], rc_base_dir = Some ''/b'', rc_depth = 2, rc_tasks_dir = ''/t''\<rparr>"

definition moved_state :: repo_state where
  "moved_state = \<lparr>rs_cron = \<lparr>cr_daemon = idle_daemon (empty_db\<lparr>repos :=
       [\<lparr>rp_path = old_place, rp_name = app, rp_source = Scanned, rp_added_at = 0\<rparr>]\<rparr>),
     cr_calls = [], cr_adds = [], cr_removes = []\<rparr>, rs_repos = [app_repo], rs_active = Some app, rs_signals = 0\<rparr>"

lemma moved_state_ok: "registry_ok moved_state"
  by (simp add: registry_ok_def moved_state_def app_repo_def synced_def row_of_def row_key_def idle_daemon_def)

lemma moved_scan: "scan_candidates moved_fs (expand_tilde (fs_home moved_fs) ''/b'') (max (rc_depth moved_config) 1) = [new_place]"
  by code_simp

lemma moved_names: "sanitize_name (derive_name new_place) = app" "survives moved_fs [new_place] \<lparr>kr_name = app, kr_path = old_place, kr_source = Scanned\<rparr> = False"
  "(app = []) = False" "(new_place = old_place) = False"
  "real_path moved_fs p = p" "fs_home moved_fs = None" "rc_base_dir moved_config = Some ''/b''"
  by (code_simp, code_simp, code_simp, code_simp, simp_all add: real_path_def moved_fs_def moved_config_def)

lemma moved_candidates: "scan_candidates moved_fs (expand_tilde None ''/b'') (max (rc_depth moved_config) 1) = [new_place]"
  using moved_scan by (simp add: moved_names)

text \<open>The first scan forgets the repository at its old place, the second finds it at its new one.\<close>

lemma moved_run:
  "map kr_path (rs_repos (snd (run_state (do { rediscover moved_fs moved_config 0; rediscover moved_fs moved_config 1 })
     moved_state))) = [new_place]"
  by (simp add: rediscover_def moved_names moved_candidates insert_known_def unique_name_in_def
      moved_state_def deregister_def run_on_core run_db_call_ok idle_daemon_def insert_repo_def delete_repo_def
      set_active_repo_def publish_def empty_db_def app_repo_def affected_def Let_def del: One_nat_def)

theorem registry_stays_in_sync_witness:
  "registry_ok moved_state \<and> registry_ok (snd (run_state (rediscover moved_fs moved_config 0) moved_state))"
proof -
  have "dn_faults (cr_daemon (rs_cron moved_state)) = []" by (simp add: moved_state_def idle_daemon_def)
  then show ?thesis using registry_stays_in_sync [OF moved_state_ok] moved_state_ok by blast
qed

theorem moved_repo_not_registered_witness:
  "filter (\<lambda>q. sanitize_name (derive_name (kr_path q)) = app)
     (rs_repos (snd (run_state (rediscover moved_fs moved_config 0) moved_state))) = [] \<and>
   map kr_path (rs_repos (snd (run_state (do { rediscover moved_fs moved_config 0; rediscover moved_fs moved_config 1 })
     moved_state))) = [new_place]"
proof
  let ?after = "rs_repos (snd (run_state (rediscover moved_fs moved_config 0) moved_state))"
  have gone: "\<not> survives moved_fs (scan_candidates moved_fs (expand_tilde (fs_home moved_fs) ''/b'') (max (rc_depth moved_config) 1)) app_repo"
    unfolding moved_scan by code_simp
  have "False" if "q \<in> set ?after" "sanitize_name (derive_name (kr_path q)) = kr_name app_repo" for q
    using moved_repo_not_registered [OF moved_state_ok _ _ gone that] by (simp add: moved_config_def moved_state_def)
  then show "filter (\<lambda>q. sanitize_name (derive_name (kr_path q)) = app) ?after = []"
    by (auto simp: filter_empty_conv app_repo_def)
  show "map kr_path (rs_repos (snd (run_state (do { rediscover moved_fs moved_config 0; rediscover moved_fs moved_config 1 })
     moved_state))) = [new_place]"
    by (rule moved_run)
qed


end
