(* ===== verification/Sessions.thy ===== *)
theory Sessions
  imports AgentState Text Json
begin

text \<open>
  Agent sessions, \<open>crates/favetto/src/agents/mod.rs\<close> (with \<open>agent.rs\<close>): the registry of live sessions, what
  the reader thread does with the output of a process and with its exit, the fold of a session's state
  events with its feed, and the answers to terminal queries.

  The terminal emulator is third-party code: a screen is a value of type \<open>'scr\<close>, with the record \<open>emu\<close> of
  what the code asks of it.  Processes are their pids; \<open>mg_killed\<close> logs whom \<open>terminate\<close> was called for,
  \<open>mg_events\<close> and \<open>mg_pushes\<close> what was broadcast.  \<open>lossy\<close> is \<open>String::from_utf8_lossy\<close> and \<open>parse\<close> the
  JSON parser.
\<close>

definition MAX_RAW :: nat where "MAX_RAW = 1024 * 1024"
definition FEED_CAP :: nat where "FEED_CAP = 512"
definition MAX_ARG_BYTES :: nat where "MAX_ARG_BYTES = 120 * 1024"
definition MAX_LINE_BUF :: nat where "MAX_LINE_BUF = 64 * 1024"

record 'scr emu =
  em_process :: "'scr \<Rightarrow> string \<Rightarrow> 'scr"
  em_frame :: "'scr \<Rightarrow> string"
  em_cursor :: "'scr \<Rightarrow> nat \<times> nat"
  em_text :: "'scr \<Rightarrow> string"
  em_resize :: "'scr \<Rightarrow> nat \<Rightarrow> nat \<Rightarrow> 'scr"

record 'scr session =
  se_id :: string
  se_agent :: string
  se_task :: "string option"
  se_pid :: "nat option"
  se_screen :: 'scr
  se_running :: bool
  se_raw :: string
  se_exit_code :: int
  se_probe :: "string option"
  se_line_buf :: string
  se_external :: "string option"
  se_headless :: bool
  se_last_activity :: time
  se_awaiting :: "awaiting_reason option"
  se_live :: live_state
  se_structured :: bool
  se_feed :: "(nat \<times> agent_event) list"
  se_next_seq :: nat
  se_transport :: bool
  se_order :: nat
  se_registered :: bool

datatype session_event =
    OutputEvent string string
  | ExitEvent string "int option"
  | StateEvent string live_state

record agent_push =
  ap_session :: string
  ap_task :: "string option"
  ap_seq :: nat
  ap_event :: agent_event

record session_info =
  si_id :: string
  si_agent :: string
  si_task :: "string option"
  si_running :: bool
  si_headless :: bool
  si_session :: "string option"
  si_awaiting :: "awaiting_reason option"
  si_activity :: "agent_activity option"
  si_usage :: "agent_usage option"

definition info_of :: "'scr session \<Rightarrow> session_info" where
  "info_of s = \<lparr>si_id = se_id s, si_agent = se_agent s, si_task = se_task s, si_running = se_running s,
     si_headless = se_headless s, si_session = se_external s, si_awaiting = se_awaiting s,
     si_activity = lv_activity (se_live s), si_usage = lv_usage (se_live s)\<rparr>"

subsection \<open>Answers to terminal queries\<close>

abbreviation esc :: char where "esc \<equiv> CHR 0x1B"
abbreviation bel :: char where "bel \<equiv> CHR 0x07"

text \<open>Each returns the answer and the number of bytes the query takes.\<close>

definition csi_reply :: "nat \<times> nat \<Rightarrow> string \<Rightarrow> (string \<times> nat) option" where
  "csi_reply cursor bytes =
     (if prefix (esc # ''[6n'') bytes
      then Some (esc # ''['' @ nat_str (fst cursor + 1) @ '';'' @ nat_str (snd cursor + 1) @ ''R'', 4)
      else if prefix (esc # ''[5n'') bytes then Some (esc # ''[0n'', 4)
      else if prefix (esc # ''[?u'') bytes then Some (esc # ''[?0u'', 4)
      else if prefix (esc # ''[>c'') bytes then Some (esc # ''[>0;276;0c'', 4)
      else if prefix (esc # ''[c'') bytes then Some (esc # ''[?62;1;2;6;9;15;22c'', 3)
      else None)"

definition decrqm_reply :: "string \<Rightarrow> (string \<times> nat) option" where
  "decrqm_reply bytes =
     (let marked = prefix (esc # ''[?'') bytes
      in if \<not> marked \<and> \<not> prefix (esc # ''['') bytes then None
         else let prefix_len = (if marked then 3 else 2);
                  rest = drop prefix_len bytes;
                  n = takeWhile is_digit rest;
                  i = length n
              in if i = 0 \<or> \<not> prefix ''$p'' (drop i rest) then None
                 else Some (esc # ''['' @ (if marked then ''?'' else []) @ n @ '';2$y'', prefix_len + i + 2))"

definition osc_colour :: "string \<Rightarrow> string \<Rightarrow> string \<Rightarrow> (string \<times> nat) option" where
  "osc_colour query colour bytes =
     (let rest = drop (length query) bytes
      in if prefix (esc # [CHR 0x5C]) rest then Some (colour, length query + 2)
         else if prefix [bel] rest then Some (colour, length query + 1)
         else None)"

definition osc_reply :: "string \<Rightarrow> (string \<times> nat) option" where
  "osc_reply bytes =
     (if prefix (esc # '']10;?'') bytes
      then osc_colour (esc # '']10;?'') (esc # '']10;rgb:ffff/ffff/ffff'' @ [bel]) bytes
      else if prefix (esc # '']11;?'') bytes
      then osc_colour (esc # '']11;?'') (esc # '']11;rgb:0000/0000/0000'' @ [bel]) bytes
      else None)"

text \<open>The answer to the query that starts with the escape sequence \<open>ESC c\<close>.\<close>

definition query_reply :: "nat \<times> nat \<Rightarrow> char \<Rightarrow> string \<Rightarrow> (string \<times> nat) option" where
  "query_reply cursor c bytes =
     (if c = CHR ''['' then (case csi_reply cursor bytes of Some r \<Rightarrow> Some r | None \<Rightarrow> decrqm_reply bytes)
      else if c = CHR '']'' then osc_reply bytes
      else None)"

partial_function (option) replies_from :: "nat \<times> nat \<Rightarrow> string \<Rightarrow> string \<Rightarrow> string option" where
  "replies_from cursor bytes out =
     (case bytes of
        b # c # rest \<Rightarrow>
          if b \<noteq> esc then replies_from cursor (c # rest) out
          else (case query_reply cursor c bytes of
             Some (reply, n) \<Rightarrow> replies_from cursor (drop n bytes) (out @ reply)
           | None \<Rightarrow> replies_from cursor (c # rest) out)
      | _ \<Rightarrow> Some out)"

definition terminal_replies :: "nat \<times> nat \<Rightarrow> string \<Rightarrow> string option" where
  "terminal_replies cursor bytes = replies_from cursor bytes []"

subsection \<open>The agent's own session id\<close>

definition extract_session_id_from_line :: "(string \<Rightarrow> json option) \<Rightarrow> string \<Rightarrow> string \<Rightarrow> string option" where
  "extract_session_id_from_line parse key line =
     (let line = trim line
      in if \<not> prefix ''{'' line then None
         else Option.bind (Option.bind (parse line) (\<lambda>v. jget v key)) as_str)"

text \<open>The inner loop of the reader: complete lines are taken off the buffer until one carries an id.\<close>

function capture_lines ::
  "(string \<Rightarrow> string option) \<Rightarrow> string \<Rightarrow> string option \<Rightarrow> string \<times> string option"
where
  "capture_lines probe buf slot =
     (if CHR 0x0A \<notin> set buf then (buf, slot)
      else let line = takeWhile (\<lambda>c. c \<noteq> CHR 0x0A) buf @ [CHR 0x0A];
               rest = drop (length line) buf
           in (case probe line of
                 Some found \<Rightarrow> (rest, case slot of None \<Rightarrow> Some found | Some s \<Rightarrow> Some s)
               | None \<Rightarrow> capture_lines probe rest slot))"
  by pat_completeness auto

termination
  by (relation "measure (\<lambda>(_, buf, _). length buf)") (auto intro: diff_less length_pos_if_in_set)

declare capture_lines.simps [simp del]

definition capture_id ::
  "(string \<Rightarrow> string option) \<Rightarrow> string \<Rightarrow> string \<times> string option \<Rightarrow> string \<times> string option"
where
  "capture_id probe bytes st =
     (let (buf, slot) = capture_lines probe (fst st @ bytes) (snd st)
      in (if length buf > MAX_LINE_BUF then [] else buf, slot))"

subsection \<open>The registry\<close>

text \<open>
  A session object outlives its place in the registry: the reader thread and the state task hold on to it
  after \<open>close\<close>.  \<open>mg_sessions\<close> is every object, \<open>registry\<close> the ones a lookup finds.
\<close>

record 'scr manager =
  mg_sessions :: "'scr session list"
  mg_next_order :: nat
  mg_killed :: "nat list"
  mg_written :: "(string \<times> string) list"
  mg_events :: "session_event list"
  mg_pushes :: "agent_push list"

definition registry :: "'scr manager \<Rightarrow> 'scr session list" where
  "registry m = filter se_registered (mg_sessions m)"

definition get_session :: "'scr manager \<Rightarrow> string \<Rightarrow> 'scr session option" where
  "get_session m sid = List.find (\<lambda>s. se_id s = sid) (registry m)"

definition session_object :: "'scr manager \<Rightarrow> string \<Rightarrow> 'scr session option" where
  "session_object m sid = List.find (\<lambda>s. se_id s = sid) (mg_sessions m)"

definition update_session :: "string \<Rightarrow> ('scr session \<Rightarrow> 'scr session) \<Rightarrow> 'scr manager \<Rightarrow> 'scr manager" where
  "update_session sid f m = m\<lparr>mg_sessions := map (\<lambda>s. if se_id s = sid then f s else s) (mg_sessions m)\<rparr>"

definition list_sessions :: "'scr manager \<Rightarrow> session_info list" where
  "list_sessions m = sort_key si_id (map info_of (registry m))"

text \<open>\<open>max_by_key(|s| s.order)\<close> among the sessions of a task.\<close>

definition latest_by_task :: "'scr manager \<Rightarrow> string \<Rightarrow> 'scr session option" where
  "latest_by_task m task =
     (case filter (\<lambda>s. se_task s = Some task) (registry m) of
        [] \<Rightarrow> None
      | ss \<Rightarrow> Some (last (sort_key se_order ss)))"

definition find_latest_by_task :: "'scr manager \<Rightarrow> string \<Rightarrow> session_info option" where
  "find_latest_by_task m task = map_option info_of (latest_by_task m task)"

definition has_live_interactive :: "'scr manager \<Rightarrow> string \<Rightarrow> bool" where
  "has_live_interactive m task \<longleftrightarrow>
     (\<exists>s \<in> set (registry m). se_task s = Some task \<and> \<not> se_headless s \<and> se_running s)"

definition events_for_task ::
  "'scr manager \<Rightarrow> string \<Rightarrow> nat \<Rightarrow> nat \<Rightarrow> string option \<times> agent_push list \<times> nat"
where
  "events_for_task m task after limit =
     (case latest_by_task m task of
        None \<Rightarrow> (None, [], after)
      | Some s \<Rightarrow>
          (let evs = map (\<lambda>(n, e). \<lparr>ap_session = se_id s, ap_task = se_task s, ap_seq = n, ap_event = e\<rparr>)
                 (filter (\<lambda>(n, _). n > after) (se_feed s));
               evs = drop (length evs - limit) evs
           in (Some (se_id s), evs, if evs = [] then after else ap_seq (last evs))))"

definition is_running :: "'scr manager \<Rightarrow> string \<Rightarrow> bool" where
  "is_running m sid \<longleftrightarrow> (case get_session m sid of Some s \<Rightarrow> se_running s | None \<Rightarrow> False)"

definition exit_code :: "'scr manager \<Rightarrow> string \<Rightarrow> int option" where
  "exit_code m sid = map_option se_exit_code (get_session m sid)"

definition session_output :: "(string \<Rightarrow> string) \<Rightarrow> 'scr manager \<Rightarrow> string \<Rightarrow> string" where
  "session_output lossy m sid = (case get_session m sid of Some s \<Rightarrow> lossy (se_raw s) | None \<Rightarrow> [])"

definition screen_text :: "'scr emu \<Rightarrow> 'scr manager \<Rightarrow> string \<Rightarrow> string" where
  "screen_text em m sid = (case get_session m sid of Some s \<Rightarrow> em_text em (se_screen s) | None \<Rightarrow> [])"

definition external_session_id :: "'scr manager \<Rightarrow> string \<Rightarrow> string option" where
  "external_session_id m sid = Option.bind (get_session m sid) se_external"

definition attach :: "'scr emu \<Rightarrow> 'scr manager \<Rightarrow> string \<Rightarrow> (session_info \<times> string) option" where
  "attach em m sid = map_option (\<lambda>s. (info_of s, em_frame em (se_screen s))) (get_session m sid)"

definition session_set_awaiting :: "string \<Rightarrow> awaiting_reason option \<Rightarrow> 'scr manager \<Rightarrow> 'scr manager" where
  "session_set_awaiting sid reason m = (case get_session m sid of
     None \<Rightarrow> m
   | Some _ \<Rightarrow> update_session sid (\<lambda>s. s\<lparr>se_awaiting := reason\<rparr>) m)"

definition session_input :: "string \<Rightarrow> string \<Rightarrow> 'scr manager \<Rightarrow> 'scr manager option" where
  "session_input sid data m = (case get_session m sid of
     None \<Rightarrow> None
   | Some s \<Rightarrow> Some (m\<lparr>mg_written := mg_written m @ [(sid, data)]\<rparr>))"

definition session_resize :: "'scr emu \<Rightarrow> string \<Rightarrow> nat \<Rightarrow> nat \<Rightarrow> 'scr manager \<Rightarrow> 'scr manager option" where
  "session_resize em sid rows cols m = (case get_session m sid of
     None \<Rightarrow> None
   | Some _ \<Rightarrow> Some (update_session sid
       (\<lambda>s. s\<lparr>se_screen := em_resize em (se_screen s) (max rows 1) (max cols 1)\<rparr>) m))"

text \<open>The generic heuristic only counts once the terminal has been quiet.\<close>

definition detect_awaiting_input ::
  "('scr \<Rightarrow> awaiting_reason option) \<Rightarrow> (string \<Rightarrow> awaiting_reason option) \<Rightarrow> 'scr emu \<Rightarrow> time \<Rightarrow> int \<Rightarrow>
   'scr manager \<Rightarrow> string \<Rightarrow> awaiting_reason option"
where
  "detect_awaiting_input agent_detect generic em now quiet m sid =
     (case get_session m sid of
        None \<Rightarrow> None
      | Some s \<Rightarrow>
          if \<not> se_running s then None
          else (case agent_detect (se_screen s) of
             Some r \<Rightarrow> Some r
           | None \<Rightarrow> if now - se_last_activity s \<ge> quiet then generic (em_text em (se_screen s)) else None))"

text \<open>Closing a session: it leaves the registry, stops, and its process group is terminated.\<close>

definition close_session :: "string \<Rightarrow> 'scr manager \<Rightarrow> 'scr manager" where
  "close_session sid m = (case get_session m sid of
     None \<Rightarrow> m
   | Some s \<Rightarrow> (update_session sid
         (\<lambda>s. s\<lparr>se_registered := False, se_running := False, se_transport := False\<rparr>) m)
       \<lparr>mg_killed := mg_killed m @ (case se_pid s of Some p \<Rightarrow> [p] | None \<Rightarrow> [])\<rparr>)"

definition close_sessions_by_task :: "string \<Rightarrow> 'scr manager \<Rightarrow> 'scr manager" where
  "close_sessions_by_task task m =
     fold close_session (map se_id (filter (\<lambda>s. se_task s = Some task) (registry m))) m"

definition check_arg_sizes :: "string list \<Rightarrow> bool" where
  "check_arg_sizes args \<longleftrightarrow> \<not> (\<exists>a \<in> set args. length a > MAX_ARG_BYTES)"

text \<open>
  \<open>start\<close>, from the launch: what the agent's command line is, whether the process could be spawned (\<open>Some\<close>
  its pid), and whether a state source started are what the environment says.
\<close>

record launch =
  la_name :: string
  la_task :: "string option"
  la_headless :: bool
  la_args :: "string list option"
  la_spawned :: "nat option option"
  la_probe :: "string option"
  la_managed :: bool
  la_session :: "string option"
  la_source :: bool

definition new_session :: "string \<Rightarrow> time \<Rightarrow> 'scr \<Rightarrow> launch \<Rightarrow> nat option \<Rightarrow> nat \<Rightarrow> 'scr session" where
  "new_session sid now screen la pid ord =
     \<lparr>se_id = sid, se_agent = la_name la, se_task = la_task la, se_pid = pid, se_screen = screen,
      se_running = True, se_raw = [], se_exit_code = - 1, se_probe = la_probe la, se_line_buf = [],
      se_external = (if la_headless la \<and> (la_probe la = None \<or> la_managed la) then la_session la else None),
      se_headless = la_headless la, se_last_activity = now, se_awaiting = None,
      se_live = \<lparr>lv_activity = (if la_source la then Some Starting else None), lv_usage = None\<rparr>,
      se_structured = la_source la, se_feed = [], se_next_seq = 1, se_transport = la_source la,
      se_order = ord, se_registered = True\<rparr>"

definition start_session :: "string \<Rightarrow> time \<Rightarrow> 'scr \<Rightarrow> launch \<Rightarrow> 'scr manager \<Rightarrow> (session_info \<times> 'scr manager) option" where
  "start_session sid now screen la m =
     (case la_args la of
        None \<Rightarrow> None
      | Some args \<Rightarrow>
          if \<not> check_arg_sizes args then None
          else (case la_spawned la of
             None \<Rightarrow> None
           | Some pid \<Rightarrow>
               (let s = new_session sid now screen la pid (mg_next_order m)
                in Some (info_of s, m\<lparr>mg_sessions := mg_sessions m @ [s],
                     mg_next_order := mg_next_order m + 1\<rparr>))))"

subsection \<open>The reader thread\<close>

definition read_chunk ::
  "'scr emu \<Rightarrow> (string \<Rightarrow> string) \<Rightarrow> (string \<Rightarrow> json option) \<Rightarrow> time \<Rightarrow> string \<Rightarrow> 'scr session \<Rightarrow>
   'scr session \<times> string option"
where
  "read_chunk em lossy parse now bytes s =
     (let raw = se_raw s @ bytes;
          (buf, slot) = (case se_probe s of
             None \<Rightarrow> (se_line_buf s, se_external s)
           | Some key \<Rightarrow> capture_id (\<lambda>line. extract_session_id_from_line parse key (lossy line)) bytes
               (se_line_buf s, se_external s));
          screen = em_process em (se_screen s) bytes
      in (s\<lparr>se_last_activity := now, se_raw := drop (length raw - MAX_RAW) raw, se_line_buf := buf,
            se_external := slot, se_screen := screen\<rparr>,
          terminal_replies (em_cursor em screen) bytes))"

definition reader_output ::
  "'scr emu \<Rightarrow> (string \<Rightarrow> string) \<Rightarrow> (string \<Rightarrow> json option) \<Rightarrow> time \<Rightarrow> string \<Rightarrow> string \<Rightarrow> 'scr manager \<Rightarrow>
   'scr manager option"
where
  "reader_output em lossy parse now sid bytes m = (case session_object m sid of
     None \<Rightarrow> Some m
   | Some s \<Rightarrow>
       (let (s', replies) = read_chunk em lossy parse now bytes s
        in map_option (\<lambda>r. (update_session sid (\<lambda>_. s') m)
             \<lparr>mg_written := mg_written m @ (if r = [] then [] else [(sid, r)]),
              mg_events := mg_events m @ [OutputEvent sid (em_frame em (se_screen s'))]\<rparr>) replies))"

text \<open>The child was reaped: the exit code is stored before the session counts as ended.\<close>

definition reader_exit :: "string \<Rightarrow> int \<Rightarrow> 'scr manager \<Rightarrow> 'scr manager" where
  "reader_exit sid code m = (update_session sid
       (\<lambda>s. s\<lparr>se_exit_code := code, se_running := False, se_transport := False\<rparr>) m)
     \<lparr>mg_events := mg_events m @ [ExitEvent sid (Some code)]\<rparr>"

subsection \<open>The state task\<close>

fun mirror_event :: "agent_event \<Rightarrow> 'scr session \<Rightarrow> 'scr session" where
  "mirror_event (InputRequested r) s = s\<lparr>se_awaiting := Some (reason_of r)\<rparr>"
| "mirror_event (InputResolved _) s = s\<lparr>se_awaiting := None\<rparr>"
| "mirror_event (IdleEvent _) s = s\<lparr>se_awaiting := None\<rparr>"
| "mirror_event (SessionEvent (Some sid) _ _) s =
     (if sid \<noteq> [] \<and> se_external s = None then s\<lparr>se_external := Some sid\<rparr> else s)"
| "mirror_event _ s = s"

definition record_event :: "agent_event \<Rightarrow> 'scr session \<Rightarrow> 'scr session" where
  "record_event e s =
     (let feed = se_feed s @ [(se_next_seq s, e)]
      in s\<lparr>se_next_seq := se_next_seq s + 1, se_feed := drop (length feed - FEED_CAP) feed\<rparr>)"

definition state_event :: "(f64 \<Rightarrow> f64 \<Rightarrow> f64) \<Rightarrow> agent_event \<Rightarrow> 'scr session \<Rightarrow> 'scr session" where
  "state_event fadd e s = record_event e (mirror_event e (s\<lparr>se_live := apply_event fadd e (se_live s)\<rparr>))"

definition handle_state_event :: "(f64 \<Rightarrow> f64 \<Rightarrow> f64) \<Rightarrow> string \<Rightarrow> agent_event \<Rightarrow> 'scr manager \<Rightarrow> 'scr manager" where
  "handle_state_event fadd sid e m = (case session_object m sid of
     None \<Rightarrow> m
   | Some s \<Rightarrow> (update_session sid (state_event fadd e) m)
       \<lparr>mg_pushes := mg_pushes m @
          [\<lparr>ap_session = sid, ap_task = se_task s, ap_seq = se_next_seq s, ap_event = e\<rparr>],
        mg_events := mg_events m @ [StateEvent sid (se_live (state_event fadd e s))]\<rparr>)"

subsection \<open>Terminal queries are answered\<close>

lemma length_u16: "n < 65536 \<Longrightarrow> length (nat_str n) \<le> 5"
proof -
  assume "n < 65536"
  then have "length (nat_str n) \<le> length (nat_str 65535)" by (intro length_nat_str_mono) simp
  also have "\<dots> = 5" by (simp add: nat_str.simps)
  finally show ?thesis .
qed

lemma csi_reply_bound:
  assumes "csi_reply cursor bytes = Some (r, n)" and "fst cursor < 65535" and "snd cursor < 65535"
  shows "0 < n \<and> n \<le> length bytes \<and> length r \<le> 8 * n"
  using assms length_u16 [of "fst cursor + 1"] length_u16 [of "snd cursor + 1"]
  by (auto simp: csi_reply_def split: if_splits dest!: prefix_length_le)

lemma decrqm_reply_bound:
  assumes "decrqm_reply bytes = Some (r, n)"
  shows "0 < n \<and> n \<le> length bytes \<and> length r \<le> 8 * n"
proof -
  define p where "p = (if prefix (esc # ''[?'') bytes then 3 else 2 :: nat)"
  define i where "i = length (takeWhile is_digit (drop p bytes))"
  have "prefix ''$p'' (drop i (drop p bytes))" and n: "n = p + i + 2"
    and r: "length r \<le> i + 7"
    using assms by (auto simp: decrqm_reply_def p_def i_def Let_def split: if_splits)
  then have "2 \<le> length (drop i (drop p bytes))" by (auto dest: prefix_length_le)
  moreover have "2 \<le> p" by (simp add: p_def)
  ultimately show ?thesis using n r by auto
qed

lemma osc_reply_bound:
  assumes "osc_reply bytes = Some (r, n)"
  shows "0 < n \<and> n \<le> length bytes \<and> length r \<le> 8 * n"
  using assms
  by (auto simp: osc_reply_def osc_colour_def Let_def split: if_splits dest!: prefix_length_le)

lemma query_reply_bound:
  assumes "query_reply cursor c bytes = Some (r, n)" and "fst cursor < 65535" and "snd cursor < 65535"
  shows "0 < n \<and> n \<le> length bytes \<and> length r \<le> 8 * n"
  using assms csi_reply_bound [of cursor bytes r n] decrqm_reply_bound [of bytes r n] osc_reply_bound [of bytes r n]
  by (auto simp: query_reply_def split: if_splits option.splits)

lemma replies_from_total:
  assumes "fst cursor < 65535" and "snd cursor < 65535"
  shows "\<exists>out. replies_from cursor bytes acc = Some (acc @ out) \<and> length out \<le> 8 * length bytes"
proof (induction "length bytes" arbitrary: bytes acc rule: less_induct)
  case less
  show ?case
  proof (cases bytes)
    case (Cons b tl)
    show ?thesis
    proof (cases tl)
      case Nil
      with Cons show ?thesis by (subst replies_from.simps) simp
    next
      case (Cons c rest)
      note bytes = \<open>bytes = b # tl\<close> this
      show ?thesis
      proof (cases "if b = esc then query_reply cursor c bytes else None")
        case None
        then have "replies_from cursor bytes acc = replies_from cursor tl acc"
          unfolding bytes by (subst replies_from.simps) (auto split: if_splits)
        moreover obtain out where "replies_from cursor tl acc = Some (acc @ out)" "length out \<le> 8 * length tl"
          using less [of tl acc] bytes by auto
        ultimately show ?thesis using bytes by auto
      next
        case (Some p)
        obtain r n where p: "p = (r, n)" by (cases p)
        have hit: "b = esc" "query_reply cursor c bytes = Some (r, n)" using Some p by (auto split: if_splits)
        then have "replies_from cursor bytes acc = replies_from cursor (drop n bytes) (acc @ r)"
          unfolding bytes by (subst replies_from.simps) simp
        moreover have n: "0 < n" "n \<le> length bytes" "length r \<le> 8 * n"
          using query_reply_bound [OF hit(2) assms] by auto
        moreover obtain out where "replies_from cursor (drop n bytes) (acc @ r) = Some ((acc @ r) @ out)"
            "length out \<le> 8 * length (drop n bytes)"
          using less [of "drop n bytes" "acc @ r"] n by fastforce
        ultimately show ?thesis by (intro exI [of _ "r @ out"]) auto
      qed
    qed
  qed (subst replies_from.simps, simp)
qed

lemma replies_from_acc:
  assumes "fst cursor < 65535" and "snd cursor < 65535" and "terminal_replies cursor bytes = Some out"
  shows "replies_from cursor bytes acc = Some (acc @ out)"
proof -
  have "\<exists>out. \<forall>acc. replies_from cursor bytes acc = Some (acc @ out)"
  proof (induction "length bytes" arbitrary: bytes rule: less_induct)
    case less
    show ?case
    proof (cases "\<exists>b c rest. bytes = b # c # rest")
      case False
      then show ?thesis
        by (intro exI [of _ "[]"] allI, subst replies_from.simps) (auto split: list.splits)
    next
      case True
      then obtain b c rest where bytes: "bytes = b # c # rest" by blast
      show ?thesis
      proof (cases "if b = esc then query_reply cursor c bytes else None")
        case None
        then have "replies_from cursor bytes acc = replies_from cursor (c # rest) acc" for acc
          unfolding bytes by (subst replies_from.simps) (auto split: if_splits)
        then show ?thesis using less [of "c # rest"] bytes by simp
      next
        case (Some p)
        obtain r n where p: "p = (r, n)" by (cases p)
        have hit: "b = esc" "query_reply cursor c bytes = Some (r, n)" using Some p by (auto split: if_splits)
        then have "replies_from cursor bytes acc = replies_from cursor (drop n bytes) (acc @ r)" for acc
          unfolding bytes by (subst replies_from.simps) simp
        moreover have "length (drop n bytes) < length bytes"
          using query_reply_bound [OF hit(2) assms(1,2)] bytes by auto
        then obtain out where "\<forall>acc. replies_from cursor (drop n bytes) acc = Some (acc @ out)"
          using less by blast
        ultimately show ?thesis by (intro exI [of _ "r @ out"]) simp
      qed
    qed
  qed
  then obtain out' where "\<forall>acc. replies_from cursor bytes acc = Some (acc @ out')" by blast
  with assms(3) show ?thesis by (simp add: terminal_replies_def)
qed

text \<open>The queries with their answers.\<close>

definition answers :: "nat \<times> nat \<Rightarrow> (string \<times> string) list" where
  "answers cursor =
     [(esc # ''[6n'', esc # ''['' @ nat_str (fst cursor + 1) @ '';'' @ nat_str (snd cursor + 1) @ ''R''),
      (esc # ''[5n'', esc # ''[0n''), (esc # ''[?u'', esc # ''[?0u''), (esc # ''[>c'', esc # ''[>0;276;0c''),
      (esc # ''[c'', esc # ''[?62;1;2;6;9;15;22c''),
      (esc # '']10;?'' @ [bel], esc # '']10;rgb:ffff/ffff/ffff'' @ [bel]),
      (esc # '']11;?'' @ [bel], esc # '']11;rgb:0000/0000/0000'' @ [bel])]"

lemma query_reply_answers:
  assumes "(q, a) \<in> set (answers cursor)"
  shows "\<exists>c tl. q = esc # c # tl \<and> query_reply cursor c (q @ rest) = Some (a, length q)"
proof -
  have "\<forall>p \<in> set (answers cursor). \<exists>c tl. fst p = esc # c # tl \<and>
      query_reply cursor c (fst p @ rest) = Some (snd p, length (fst p))"
    unfolding answers_def by (simp add: query_reply_def csi_reply_def osc_reply_def osc_colour_def)
  from bspec [OF this assms] show ?thesis by simp
qed

lemma replies_from_skip:
  assumes "esc \<notin> set pre" and "bytes \<noteq> []"
  shows "replies_from cursor (pre @ bytes) acc = replies_from cursor bytes acc"
  using assms(1)
proof (induction pre)
  case (Cons b pre)
  then obtain c rest where "pre @ bytes = c # rest" using assms(2) by (cases "pre @ bytes") auto
  moreover have "b \<noteq> esc" using Cons.prems by auto
  ultimately have "replies_from cursor ((b # pre) @ bytes) acc = replies_from cursor (pre @ bytes) acc"
    by (subst replies_from.simps) simp
  with Cons show ?case by simp
qed simp


text \<open>A query that two reads cut in two is never answered.\<close>

theorem split_query_unanswered:
  assumes "0 < k" and "k < 4"
  shows "terminal_replies cursor (take k (esc # ''[6n'')) = Some [] \<and>
    terminal_replies cursor (drop k (esc # ''[6n'')) = Some []"
proof -
  consider "k = 1" | "k = 2" | "k = 3" using assms by linarith
  then show ?thesis
    by cases (simp_all add: terminal_replies_def replies_from.simps query_reply_def csi_reply_def decrqm_reply_def)
qed

subsection \<open>The session id does not depend on the reads\<close>

fun first_some :: "('a \<Rightarrow> 'b option) \<Rightarrow> 'a list \<Rightarrow> 'b option" where
  "first_some f [] = None"
| "first_some f (x # xs) = (case f x of Some y \<Rightarrow> Some y | None \<Rightarrow> first_some f xs)"

lemma first_some_append: "first_some f (xs @ ys) = (case first_some f xs of Some y \<Rightarrow> Some y | None \<Rightarrow> first_some f ys)"
  by (induction xs) (auto split: option.splits)

text \<open>The complete lines of the whole output, and the id the first of them that has one carries.\<close>

definition complete_lines :: "string \<Rightarrow> string list" where
  "complete_lines text = map (\<lambda>w. w @ [CHR 0x0A]) (butlast (split_on CHR 0x0A text))"

lemma split_on_extends:
  assumes "c \<notin> set w"
  obtains u ws where "split_on c (w @ zs) = (w @ u) # ws"
  using assms
proof (induction w arbitrary: thesis)
  case Nil
  then show ?case by (cases "split_on c zs") auto
next
  case (Cons x w)
  then obtain u ws where "split_on c (w @ zs) = (w @ u) # ws" by auto
  with Cons.prems show ?case by auto
qed

lemma complete_lines_append:
  "complete_lines (xs @ ys) = complete_lines xs @ complete_lines (last (split_on CHR 0x0A xs) @ ys)"
  unfolding complete_lines_def split_on_append [of _ xs] by (simp add: butlast_append)

lemma capture_lines_Some: "snd (capture_lines probe buf (Some s)) = Some s"
  by (induction probe buf "Some s" rule: capture_lines.induct)
    (subst capture_lines.simps, auto simp: Let_def split: option.splits)

lemma capture_lines_None:
  "snd (capture_lines probe buf None) = first_some probe (complete_lines buf) \<and>
   (first_some probe (complete_lines buf) = None \<longrightarrow>
     fst (capture_lines probe buf None) = last (split_on CHR 0x0A buf))"
proof (induction probe buf "None :: string option" rule: capture_lines.induct)
  case (1 probe buf)
  show ?case
  proof (cases "CHR 0x0A \<in> set buf")
    case False
    then show ?thesis by (subst (1 2) capture_lines.simps) (simp add: complete_lines_def split_on_single)
  next
    case True
    define w where "w = takeWhile (\<lambda>c. c \<noteq> CHR 0x0A) buf"
    define rest where "rest = drop (length w + 1) buf"
    have w: "CHR 0x0A \<notin> set w" by (auto simp: w_def dest: set_takeWhileD)
    have "split_once CHR 0x0A buf = Some (w, rest)"
      using True by (simp add: split_once_def w_def rest_def drop_Suc tl_drop dropWhile_eq_drop)
    then have buf: "buf = w @ CHR 0x0A # rest" by (simp add: split_once_Some)
    have lines: "complete_lines buf = (w @ [CHR 0x0A]) # complete_lines rest"
      "last (split_on CHR 0x0A buf) = last (split_on CHR 0x0A rest)"
      using w by (simp_all add: buf complete_lines_def split_on_first)
    have run: "capture_lines probe buf None = (case probe (w @ [CHR 0x0A]) of
        Some found \<Rightarrow> (rest, Some found) | None \<Rightarrow> capture_lines probe rest None)"
      using True by (subst capture_lines.simps) (simp add: w_def [symmetric] rest_def Let_def split: option.split)
    show ?thesis
    proof (cases "probe (w @ [CHR 0x0A])")
      case None
      then show ?thesis
        using 1 [OF _ refl refl] True None by (simp add: run lines w_def [symmetric] rest_def)
    next
      case (Some found)
      then show ?thesis by (simp add: run lines)
    qed
  qed
qed

text \<open>The id captured from an agent's output is the one on the first complete line that carries one, however
  the reads cut the output; a seeded id is never replaced.\<close>

theorem session_id_from_any_reads:
  fixes probe :: "string \<Rightarrow> string option" and reads :: "string list"
  assumes "\<forall>w \<in> set (split_on CHR 0x0A (concat reads)). length w \<le> MAX_LINE_BUF"
  shows "snd (fold (capture_id probe) reads ([], None)) = first_some probe (complete_lines (concat reads)) \<and>
    snd (fold (capture_id probe) reads ([], Some seeded)) = Some seeded"
proof -
  have "snd (fold (capture_id probe) rs (buf, Some x)) = Some x" for rs buf x
    by (induction rs arbitrary: buf) (auto simp: capture_id_def split_def Let_def capture_lines_Some)
  moreover
  let ?st = "\<lambda>rs. fold (capture_id probe) rs ([], None)"
  have "snd (?st rs) = first_some probe (complete_lines (concat rs)) \<and>
      (first_some probe (complete_lines (concat rs)) = None \<longrightarrow> fst (?st rs) = last (split_on CHR 0x0A (concat rs)))"
    if "prefix (concat rs) (concat reads)" for rs
    using that
  proof (induction rs rule: rev_induct)
    case Nil
    then show ?case by (simp add: complete_lines_def)
  next
    case (snoc r rs)
    have IH: "snd (?st rs) = first_some probe (complete_lines (concat rs))"
      "first_some probe (complete_lines (concat rs)) = None \<Longrightarrow> fst (?st rs) = last (split_on CHR 0x0A (concat rs))"
      using snoc by (auto dest: append_prefixD)
    let ?t = "last (split_on CHR 0x0A (concat rs))"
    have lines: "complete_lines (concat (rs @ [r])) = complete_lines (concat rs) @ complete_lines (?t @ r)"
      by (simp add: complete_lines_append [of "concat rs" r])
    have tail: "last (split_on CHR 0x0A (concat (rs @ [r]))) = last (split_on CHR 0x0A (?t @ r))"
      by (simp add: split_on_append [of _ "concat rs" r])
    obtain zs where zs: "concat reads = concat (rs @ [r]) @ zs" using snoc.prems by (auto simp: prefix_def)
    have short: "length (last (split_on CHR 0x0A (concat (rs @ [r])))) \<le> MAX_LINE_BUF"
    proof -
      let ?l = "last (split_on CHR 0x0A (concat (rs @ [r])))"
      have "CHR 0x0A \<notin> set ?l" using split_on_no_sep [OF last_in_set [OF split_on_not_Nil]] .
      then obtain u ws where "split_on CHR 0x0A (?l @ zs) = (?l @ u) # ws" by (rule split_on_extends)
      then have "?l @ u \<in> set (split_on CHR 0x0A (concat reads))"
        unfolding zs split_on_append [of _ "concat (rs @ [r])"] by simp
      with assms show ?thesis by fastforce
    qed
    obtain buf slot where st: "?st rs = (buf, slot)" by (cases "?st rs")
    define p where "p = capture_lines probe (buf @ r) slot"
    have "?st (rs @ [r]) = capture_id probe r (buf, slot)" by (simp add: st)
    also have "\<dots> = (if length (fst p) > MAX_LINE_BUF then [] else fst p, snd p)"
      by (simp add: capture_id_def p_def split_def Let_def)
    finally have st': "?st (rs @ [r]) = (if length (fst p) > MAX_LINE_BUF then [] else fst p, snd p)" .
    show ?case
    proof (cases "first_some probe (complete_lines (concat rs))")
      case (Some x)
      then have "snd p = Some x" using IH(1) st by (simp add: p_def capture_lines_Some)
      then show ?thesis using Some by (simp only: st' lines first_some_append) simp
    next
      case None
      then have "p = capture_lines probe (?t @ r) None" using IH st by (simp add: p_def)
      then show ?thesis
        using None short capture_lines_None [of probe "?t @ r"] unfolding st' lines tail first_some_append by simp
    qed
  qed
  ultimately show ?thesis by simp
qed

subsection \<open>The feed of a session\<close>

definition feed_push :: "'scr session \<Rightarrow> nat \<Rightarrow> agent_event \<Rightarrow> agent_push" where
  "feed_push s n e = \<lparr>ap_session = se_id s, ap_task = se_task s, ap_seq = n, ap_event = e\<rparr>"

text \<open>The events of a session, numbered from one.\<close>

definition numbered :: "'a list \<Rightarrow> (nat \<times> 'a) list" where
  "numbered evs = zip (map Suc [0..<length evs]) evs"

lemma numbered_snoc: "numbered (evs @ [e]) = numbered evs @ [(length evs + 1, e)]"
  by (simp add: numbered_def)

lemma length_numbered [simp]: "length (numbered evs) = length evs"
  by (simp add: numbered_def)

lemma filter_numbered: "filter (\<lambda>(n, _). n > a) (numbered evs) = drop a (numbered evs)"
proof (induction evs rule: rev_induct)
  case (snoc e evs)
  then show ?case by (auto simp: numbered_snoc)
qed (simp add: numbered_def)

lemma last_numbered: "evs \<noteq> [] \<Longrightarrow> fst (last (numbered evs)) = length evs"
  by (cases evs rule: rev_cases) (simp_all add: numbered_snoc)

lemma mirror_event_keeps [simp]:
  "se_id (mirror_event e s) = se_id s" "se_task (mirror_event e s) = se_task s"
  "se_order (mirror_event e s) = se_order s" "se_registered (mirror_event e s) = se_registered s"
  "se_feed (mirror_event e s) = se_feed s" "se_next_seq (mirror_event e s) = se_next_seq s"
  by (induction e s rule: mirror_event.induct; simp)+

lemma state_event_keeps [simp]:
  "se_id (state_event fadd e s) = se_id s" "se_task (state_event fadd e s) = se_task s"
  "se_order (state_event fadd e s) = se_order s" "se_registered (state_event fadd e s) = se_registered s"
  "se_next_seq (state_event fadd e s) = se_next_seq s + 1"
  by (simp_all add: state_event_def record_event_def Let_def)

lemma keep_last:
  "drop (length (drop (length xs - n) xs @ [x]) - n) (drop (length xs - n) xs @ [x]) = drop (length (xs @ [x]) - n) (xs @ [x])"
  by (cases "n \<le> length xs") (auto simp: Suc_diff_le)

lemma fold_state_event:
  assumes "se_feed s = []" and "se_next_seq s = 1"
  shows "se_next_seq (fold (state_event fadd) evs s) = length evs + 1 \<and>
    se_feed (fold (state_event fadd) evs s) = drop (length evs - FEED_CAP) (numbered evs)"
proof (induction evs rule: rev_induct)
  case (snoc e evs)
  then show ?case
    using keep_last [of "numbered evs" FEED_CAP "(length evs + 1, e)"]
    by (simp add: state_event_def record_event_def Let_def numbered_snoc del: drop_append)
qed (simp add: assms numbered_def)

lemma fold_state_event_keeps [simp]:
  "se_id (fold (state_event fadd) evs s) = se_id s" "se_task (fold (state_event fadd) evs s) = se_task s"
  by (induction evs arbitrary: s) simp_all

lemma latest_by_task_if:
  "latest_by_task m task = (let ss = filter (\<lambda>s. se_task s = Some task) (registry m)
     in if ss = [] then None else Some (last (sort_key se_order ss)))"
  by (auto simp: latest_by_task_def split: list.split)

lemma latest_by_task_update:
  fixes m :: "'scr manager"
  assumes "\<And>s. se_id (f s) = se_id s" "\<And>s. se_task (f s) = se_task s" "\<And>s. se_order (f s) = se_order s"
    "\<And>s. se_registered (f s) = se_registered s"
  shows "latest_by_task (update_session sid f m) task =
    map_option (\<lambda>s. if se_id s = sid then f s else s) (latest_by_task m task)"
proof -
  define g where "g = (\<lambda>s. if se_id s = sid then f s else s)"
  have g: "se_order (g s) = se_order s" "se_task (g s) = se_task s" "se_registered (g s) = se_registered s" for s
    using assms by (simp_all add: g_def)
  have "filter (\<lambda>s. se_task s = Some task) (registry (update_session sid f m)) =
      map g (filter (\<lambda>s. se_task s = Some task) (registry m))"
    by (simp add: registry_def update_session_def filter_map o_def g flip: g_def)
  moreover have "sort_key se_order (map g ss) = map g (sort_key se_order ss)" for ss
  proof -
    have "insort_key se_order (g x) (map g xs) = map g (insort_key se_order x xs)" for x xs
      by (induction xs) (simp_all add: g)
    then show ?thesis by (induction ss) simp_all
  qed
  moreover have "sort_key se_order ss = [] \<longleftrightarrow> ss = []" for ss :: "'scr session list"
    by (metis length_0_conv length_sort)
  ultimately show ?thesis
    by (simp add: latest_by_task_if Let_def last_map flip: g_def)
qed

lemma handle_state_eq:
  "session_object m sid = Some s \<Longrightarrow> handle_state_event fadd sid e m = (update_session sid (state_event fadd e) m)
     \<lparr>mg_pushes := mg_pushes m @ [\<lparr>ap_session = sid, ap_task = se_task s, ap_seq = se_next_seq s, ap_event = e\<rparr>],
      mg_events := mg_events m @ [StateEvent sid (se_live (state_event fadd e s))]\<rparr>"
  by (simp add: handle_state_event_def)

lemma fold_handle_state:
  fixes fadd :: "f64 \<Rightarrow> f64 \<Rightarrow> f64" and evs :: "agent_event list" and m :: "'scr manager"
  assumes "latest_by_task m task = Some s" and "session_object m (se_id s) = Some s"
    and "se_feed s = []" and "se_next_seq s = 1"
  defines "m' \<equiv> fold (handle_state_event fadd (se_id s)) evs m"
  shows "latest_by_task m' task = Some (fold (state_event fadd) evs s) \<and>
    session_object m' (se_id s) = Some (fold (state_event fadd) evs s) \<and>
    mg_pushes m' = mg_pushes m @ map (\<lambda>(n, e). feed_push s n e) (numbered evs)"
  unfolding m'_def
proof (induction evs rule: rev_induct)
  case Nil
  show ?case using assms by (simp add: numbered_def)
next
  case (snoc e evs)
  let ?m = "fold (handle_state_event fadd (se_id s)) evs m" and ?s = "fold (state_event fadd) evs s"
  have step: "handle_state_event fadd (se_id s) e ?m = (update_session (se_id s) (state_event fadd e) ?m)
       \<lparr>mg_pushes := mg_pushes ?m @ [feed_push s (length evs + 1) e],
        mg_events := mg_events ?m @ [StateEvent (se_id s) (se_live (state_event fadd e ?s))]\<rparr>"
    using snoc fold_state_event [OF assms(3,4)] by (subst handle_state_eq [of _ _ ?s]) (simp_all add: feed_push_def)
  have "latest_by_task (update_session (se_id s) (state_event fadd e) ?m) task = Some (state_event fadd e ?s)"
    using snoc by (subst latest_by_task_update) simp_all
  moreover have "latest_by_task (M\<lparr>mg_pushes := p, mg_events := q\<rparr>) task = latest_by_task M task" for M :: "'scr manager" and p q
    by (simp add: latest_by_task_def registry_def)
  moreover have "session_object (update_session (se_id s) (state_event fadd e) ?m) (se_id s) = Some (state_event fadd e ?s)"
  proof -
    have "List.find (\<lambda>x. se_id x = se_id s) (map (\<lambda>x. if se_id x = se_id s then state_event fadd e x else x) xs) =
        map_option (state_event fadd e) (List.find (\<lambda>x. se_id x = se_id s) xs)" for xs :: "'scr session list"
      by (induction xs) auto
    with snoc show ?thesis by (simp add: session_object_def update_session_def)
  qed
  ultimately show ?case using snoc by (simp add: step session_object_def numbered_snoc)
qed

text \<open>A client that asks for a session's events after its cursor, and goes on with the pushes behind the
  cursor of the reply, gets every event after its cursor exactly once, in order and under its own number, as
  long as no more than the limit and the feed's capacity are behind.\<close>

theorem feed_backfill_exact:
  fixes m :: "'scr manager" and s :: "'scr session" and fadd :: "f64 \<Rightarrow> f64 \<Rightarrow> f64"
    and evs more :: "agent_event list" and task :: string and after limit :: nat
  assumes "latest_by_task m task = Some s" and "session_object m (se_id s) = Some s"
    and "se_feed s = []" and "se_next_seq s = 1"
    and "after \<le> length evs" and "length evs - after \<le> limit" and "length evs - after \<le> FEED_CAP"
  defines "m1 \<equiv> fold (handle_state_event fadd (se_id s)) evs m"
  defines "m2 \<equiv> fold (handle_state_event fadd (se_id s)) more m1"
  defines "reply \<equiv> events_for_task m1 task after limit"
  shows "fst reply = Some (se_id s) \<and> snd (snd reply) = length evs \<and>
    fst (snd reply) @ filter (\<lambda>p. ap_seq p > snd (snd reply)) (drop (length (mg_pushes m)) (mg_pushes m2)) =
      map (\<lambda>(n, e). feed_push s n e) (drop after (numbered (evs @ more)))"
proof -
  let ?p = "\<lambda>(n, e). feed_push s n e"
  let ?s = "fold (state_event fadd) evs s"
  have m1: "latest_by_task m1 task = Some ?s"
    using fold_handle_state [OF assms(1-4), of fadd evs] by (simp add: m1_def)
  have feed: "se_feed ?s = drop (length evs - FEED_CAP) (numbered evs)"
    using fold_state_event [OF assms(3,4), of fadd evs] by simp
  have window: "filter (\<lambda>(n, _). n > after) (drop k (numbered evs)) = drop after (numbered evs)" if "k \<le> after" for k
  proof -
    have "filter (\<lambda>(n, _). n > after) (numbered evs) =
        filter (\<lambda>(n, _). n > after) (take k (numbered evs)) @ filter (\<lambda>(n, _). n > after) (drop k (numbered evs))"
      by (simp flip: filter_append)
    moreover have "filter (\<lambda>(n, _). n > after) (take k (numbered evs)) = []"
      using that by (auto simp: filter_empty_conv numbered_def take_zip set_zip)
    ultimately show ?thesis by (simp add: filter_numbered)
  qed
  have "length evs - FEED_CAP \<le> after" using assms(5,7) by simp
  then have "filter (\<lambda>(n, _). n > after) (se_feed ?s) = drop after (numbered evs)"
    unfolding feed by (rule window)
  moreover have "(\<lambda>(n, e). \<lparr>ap_session = se_id ?s, ap_task = se_task ?s, ap_seq = n, ap_event = e\<rparr>) = ?p"
    by (simp add: feed_push_def)
  moreover have "length (map ?p (drop after (numbered evs))) \<le> limit" using assms(6) by simp
  ultimately have reply: "reply = (Some (se_id s), map ?p (drop after (numbered evs)),
      if drop after (numbered evs) = [] then after else ap_seq (last (map ?p (drop after (numbered evs)))))"
    by (simp add: reply_def events_for_task_def m1 Let_def)
  have "ap_seq (last (map ?p (drop after (numbered evs)))) = length evs" if "after < length evs"
  proof -
    have "last (drop after (numbered evs)) = last (numbered evs)" "evs \<noteq> []" using that by (auto simp: last_drop)
    then show ?thesis
      using that last_numbered [of evs] by (simp add: last_map feed_push_def split_def)
  qed
  then have evs: "fst (snd reply) = map ?p (drop after (numbered evs))"
      "snd (snd reply) = length evs" "fst reply = Some (se_id s)"
    using assms(5) by (auto simp: reply)
  have "mg_pushes m2 = mg_pushes m @ map ?p (numbered (evs @ more))"
    using fold_handle_state [OF assms(1-4), of fadd "evs @ more"] by (simp add: m1_def m2_def)
  moreover have "filter (\<lambda>p. ap_seq p > n) (map ?p xs) = map ?p (filter (\<lambda>(k, _). k > n) xs)" for n xs
    by (induction xs) (auto simp: feed_push_def)
  ultimately have live: "filter (\<lambda>p. ap_seq p > length evs) (drop (length (mg_pushes m)) (mg_pushes m2)) =
      map ?p (drop (length evs) (numbered (evs @ more)))"
    by (simp add: filter_numbered)
  have "numbered (evs @ more) = numbered evs @ drop (length evs) (numbered (evs @ more))"
  proof -
    have "take (length evs) (numbered (evs @ more)) = numbered evs"
      by (simp add: numbered_def take_zip take_map)
    then show ?thesis by (metis append_take_drop_id)
  qed
  then have "drop after (numbered (evs @ more)) = drop after (numbered evs) @ drop (length evs) (numbered (evs @ more))"
    using assms(5) by (metis drop_append diff_is_0_eq drop0 length_numbered)
  with evs live show ?thesis by simp
qed

subsection \<open>Closing the sessions of a task\<close>

definition sessions_wf :: "'scr manager \<Rightarrow> bool" where
  "sessions_wf m \<longleftrightarrow> distinct (map se_id (mg_sessions m))"

definition closed_session :: "'scr session \<Rightarrow> 'scr session" where
  "closed_session s = s\<lparr>se_registered := False, se_running := False, se_transport := False\<rparr>"

definition close_where :: "('scr session \<Rightarrow> bool) \<Rightarrow> 'scr session list \<Rightarrow> 'scr session list" where
  "close_where P = map (\<lambda>s. if se_registered s \<and> P s then closed_session s else s)"

definition pids_of :: "'scr session list \<Rightarrow> nat list" where
  "pids_of ss = List.map_filter se_pid ss"

lemma close_session_registered:
  assumes "sessions_wf m" and "s \<in> set (registry m)"
  shows "close_session (se_id s) m = m\<lparr>mg_sessions := close_where (\<lambda>x. se_id x = se_id s) (mg_sessions m),
    mg_killed := mg_killed m @ pids_of [s]\<rparr>"
proof -
  have same: "x = s" if "x \<in> set (mg_sessions m)" "se_id x = se_id s" for x
    using that assms by (auto simp: sessions_wf_def registry_def distinct_map inj_on_def)
  then have "get_session m (se_id s) = Some s"
    using assms find_Some_unique [of se_id "registry m" s]
    by (auto simp: get_session_def sessions_wf_def registry_def distinct_map_filter)
  moreover have "map (\<lambda>x. if se_id x = se_id s then closed_session x else x) (mg_sessions m) =
      close_where (\<lambda>x. se_id x = se_id s) (mg_sessions m)"
    using same assms(2) by (auto simp: close_where_def registry_def)
  ultimately show ?thesis
    by (simp add: close_session_def update_session_def pids_of_def List.map_filter_simps flip: closed_session_def
        split: option.split)
qed

lemma close_where_ids: "map se_id (close_where P ss) = map se_id ss"
  by (simp add: close_where_def closed_session_def)

lemma fold_close:
  assumes "sessions_wf m" and "set xs \<subseteq> set (registry m)" and "distinct (map se_id xs)"
  shows "fold close_session (map se_id xs) m = m\<lparr>mg_sessions := close_where (\<lambda>x. se_id x \<in> se_id ` set xs) (mg_sessions m),
    mg_killed := mg_killed m @ pids_of xs\<rparr>"
  using assms
proof (induction xs arbitrary: m)
  case Nil
  then show ?case by (simp add: close_where_def pids_of_def List.map_filter_simps)
next
  case (Cons x xs)
  let ?m = "close_session (se_id x) m"
  have m: "?m = m\<lparr>mg_sessions := close_where (\<lambda>y. se_id y = se_id x) (mg_sessions m),
      mg_killed := mg_killed m @ pids_of [x]\<rparr>"
    using Cons.prems by (intro close_session_registered) auto
  have "y \<in> set (registry ?m)" if "y \<in> set xs" for y
  proof -
    have "se_id x \<notin> se_id ` set xs" using Cons.prems(3) by simp
    then have "se_id y \<noteq> se_id x" using that by (metis image_eqI)
    moreover have "y \<in> set (registry m)" using that Cons.prems(2) by auto
    ultimately show ?thesis by (force simp: m registry_def close_where_def)
  qed
  moreover have "sessions_wf ?m" using Cons.prems(1) by (simp add: sessions_wf_def m close_where_ids)
  ultimately have "fold close_session (map se_id xs) ?m =
      ?m\<lparr>mg_sessions := close_where (\<lambda>y. se_id y \<in> se_id ` set xs) (mg_sessions ?m), mg_killed := mg_killed ?m @ pids_of xs\<rparr>"
    using Cons.prems(3) by (intro Cons.IH) auto
  moreover have "close_where (\<lambda>y. se_id y \<in> se_id ` set xs) (close_where (\<lambda>y. se_id y = se_id x) ss) =
      close_where (\<lambda>y. se_id y \<in> se_id ` set (x # xs)) ss" for ss :: "'a session list"
    by (induction ss) (auto simp: close_where_def closed_session_def)
  moreover have "pids_of (x # xs) = pids_of [x] @ pids_of xs"
    by (simp add: pids_of_def List.map_filter_simps split: option.split)
  ultimately show ?case by (simp add: m)
qed

text \<open>Closing a task's sessions takes exactly those out of the registry, stops them, and terminates exactly
  their processes, each once; every other session stays as it is.\<close>

theorem close_by_task_exact:
  fixes m :: "'scr manager" and task :: string
  assumes "sessions_wf m"
  defines "m' \<equiv> close_sessions_by_task task m"
  shows "mg_sessions m' = close_where (\<lambda>s. se_task s = Some task) (mg_sessions m) \<and>
    mg_killed m' = mg_killed m @ pids_of (filter (\<lambda>s. se_task s = Some task) (registry m)) \<and>
    registry m' = filter (\<lambda>s. se_task s \<noteq> Some task) (registry m) \<and>
    latest_by_task m' task = None \<and> \<not> has_live_interactive m' task \<and>
    (\<forall>t. t \<noteq> task \<longrightarrow> latest_by_task m' t = latest_by_task m t)"
proof -
  let ?xs = "filter (\<lambda>s. se_task s = Some task) (registry m)"
  have "close_where (\<lambda>x. se_id x \<in> se_id ` set ?xs) (mg_sessions m) =
      close_where (\<lambda>s. se_task s = Some task) (mg_sessions m)"
    using assms(1) unfolding close_where_def
    by (intro map_cong refl if_cong) (auto simp: registry_def sessions_wf_def distinct_map inj_on_def)
  moreover have "distinct (map se_id ?xs)"
    using assms(1) by (simp add: sessions_wf_def registry_def distinct_map_filter)
  ultimately have m': "m' = m\<lparr>mg_sessions := close_where (\<lambda>s. se_task s = Some task) (mg_sessions m),
      mg_killed := mg_killed m @ pids_of ?xs\<rparr>"
    using fold_close [OF assms(1), of ?xs] by (simp add: m'_def close_sessions_by_task_def)
  have reg: "registry m' = filter (\<lambda>s. se_task s \<noteq> Some task) (registry m)"
  proof -
    have "filter se_registered (close_where (\<lambda>s. se_task s = Some task) ss) =
        filter (\<lambda>s. se_task s \<noteq> Some task) (filter se_registered ss)" for ss :: "'scr session list"
      by (induction ss) (auto simp: close_where_def closed_session_def)
    then show ?thesis by (simp add: m' registry_def)
  qed
  then have "latest_by_task m' task = None" "\<not> has_live_interactive m' task"
    by (auto simp: latest_by_task_if Let_def has_live_interactive_def)
  moreover have "latest_by_task m' t = latest_by_task m t" if "t \<noteq> task" for t
  proof -
    have "filter (\<lambda>s. se_task s = Some t) (registry m') = filter (\<lambda>s. se_task s = Some t) (registry m)"
      unfolding reg filter_filter using that by (intro filter_cong) auto
    then show ?thesis by (simp add: latest_by_task_if)
  qed
  ultimately show ?thesis using reg by (simp add: m')
qed

subsection \<open>Waiting for the exit of a session\<close>

text \<open>
  The reader thread, a waiter that polls, and \<open>close\<close> run concurrently on one session object: each step
  is one atomic access.  A poll of the waiter looks the session up, reads the flag and then the code;
  \<open>close\<close> first takes the session out of the registry and then clears the flag.
\<close>

datatype reader_at = Reading | CodeStored | ReaderDone
datatype waiter_at = Polling | Found | FlagRead bool | WaitResult "int option"

record exit_race =
  xr_running :: bool
  xr_code :: int
  xr_removed :: bool
  xr_reader :: reader_at
  xr_waiter :: waiter_at

definition race_start :: exit_race where
  "race_start = \<lparr>xr_running = True, xr_code = - 1, xr_removed = False, xr_reader = Reading, xr_waiter = Polling\<rparr>"

inductive race_step :: "int \<Rightarrow> exit_race \<Rightarrow> exit_race \<Rightarrow> bool" for status where
  store: "xr_reader r = Reading \<Longrightarrow> race_step status r (r\<lparr>xr_code := status, xr_reader := CodeStored\<rparr>)"
| clear: "xr_reader r = CodeStored \<Longrightarrow> race_step status r (r\<lparr>xr_running := False, xr_reader := ReaderDone\<rparr>)"
| remove: "race_step status r (r\<lparr>xr_removed := True\<rparr>)"
| stop: "xr_removed r \<Longrightarrow> race_step status r (r\<lparr>xr_running := False\<rparr>)"
| look_up: "xr_waiter r = Polling \<Longrightarrow>
    race_step status r (r\<lparr>xr_waiter := (if xr_removed r then WaitResult None else Found)\<rparr>)"
| read_flag: "xr_waiter r = Found \<Longrightarrow> race_step status r (r\<lparr>xr_waiter := FlagRead (xr_running r)\<rparr>)"
| read_code: "xr_waiter r = FlagRead b \<Longrightarrow>
    race_step status r (r\<lparr>xr_waiter := (if b then Polling else WaitResult (Some (xr_code r)))\<rparr>)"

inductive_cases race_stepE: "race_step status r r'"

definition race_ok :: "int \<Rightarrow> exit_race \<Rightarrow> bool" where
  "race_ok status r \<longleftrightarrow>
     xr_code r = (if xr_reader r = Reading then - 1 else status) \<and>
     (xr_running r \<or> xr_removed r \<or> xr_reader r = ReaderDone) \<and>
     (xr_waiter r = FlagRead False \<longrightarrow> xr_removed r \<or> xr_reader r = ReaderDone) \<and>
     (xr_waiter r = WaitResult None \<longrightarrow> xr_removed r) \<and>
     (\<forall>c. xr_waiter r = WaitResult (Some c) \<longrightarrow> c = status \<or> (xr_removed r \<and> c = - 1))"

lemma race_ok_step: "race_step status r r' \<Longrightarrow> race_ok status r \<Longrightarrow> race_ok status r'"
  by (erule race_stepE) (auto simp: race_ok_def split: if_splits)

text \<open>C27: however the reader thread, a waiter and a close interleave, a waiter that returns while nobody closed
  the session returns the real exit status, never the value that stands for no status yet; after a close it
  returns nothing, the status, or that value.\<close>

theorem wait_reads_exit_status:
  fixes status :: int and r :: exit_race and res :: "int option"
  assumes "(race_step status)\<^sup>*\<^sup>* race_start r" and "xr_waiter r = WaitResult res"
  shows "if xr_removed r then res \<in> {None, Some status, Some (- 1)} else res = Some status"
proof -
  have "race_ok status r"
    using assms(1)
  proof (induction rule: rtranclp_induct)
    case base
    show ?case by (simp add: race_ok_def race_start_def)
  next
    case (step y z)
    then show ?case using race_ok_step by blast
  qed
  with assms(2) show ?thesis by (cases res) (auto simp: race_ok_def)
qed

subsection \<open>The registry along its operations\<close>

lemma update_session_wf:
  "(\<And>s. se_id (f s) = se_id s) \<Longrightarrow> sessions_wf (update_session sid f m) = sessions_wf m"
  by (simp add: sessions_wf_def update_session_def o_def if_distrib [of se_id] cong: if_cong)

subsection \<open>Concrete instances\<close>

definition no_emu :: "string emu" where
  "no_emu = \<lparr>em_process = (@), em_frame = (\<lambda>s. s), em_cursor = (\<lambda>_. (0, 0)), em_text = (\<lambda>s. s),
     em_resize = (\<lambda>s _ _. s)\<rparr>"

definition task_launch :: launch where
  "task_launch = \<lparr>la_name = ''pi'', la_task = Some ''t'', la_headless = True, la_args = Some [''-p''],
     la_spawned = Some (Some 7), la_probe = None, la_managed = False, la_session = Some ''x'', la_source = True\<rparr>"

definition no_sessions :: "string manager" where
  "no_sessions = \<lparr>mg_sessions = [], mg_next_order = 0, mg_killed = [], mg_written = [], mg_events = [], mg_pushes = []\<rparr>"

definition one_session :: "string manager" where
  "one_session = (case start_session ''s'' 0 [] task_launch no_sessions of Some (_, m) \<Rightarrow> m | None \<Rightarrow> no_sessions)"

lemma one_session_simps:
  "mg_sessions one_session = [new_session ''s'' 0 [] task_launch (Some 7) 0]"
  "mg_killed one_session = []" "mg_pushes one_session = []"
  "latest_by_task one_session ''t'' = Some (new_session ''s'' 0 [] task_launch (Some 7) 0)"
  "session_object one_session ''s'' = Some (new_session ''s'' 0 [] task_launch (Some 7) 0)"
  by (simp_all add: one_session_def start_session_def task_launch_def no_sessions_def check_arg_sizes_def
      MAX_ARG_BYTES_def latest_by_task_def registry_def new_session_def session_object_def Let_def)


theorem session_id_from_any_reads_witness:
  "snd (fold (capture_id (\<lambda>line. if prefix ''{'' line then Some line else None))
     [''sta'', ''rt'' @ [CHR 0x0A] @ ''{i'', ''d}'' @ [CHR 0x0A]] ([], None)) = Some (''{id}'' @ [CHR 0x0A])"
  using session_id_from_any_reads [of "[''sta'', ''rt'' @ [CHR 0x0A] @ ''{i'', ''d}'' @ [CHR 0x0A]]"
      "\<lambda>line. if prefix ''{'' line then Some line else None"]
  by (simp add: MAX_LINE_BUF_def complete_lines_def)

theorem feed_backfill_exact_witness:
  "snd (snd (events_for_task (fold (handle_state_event (\<lambda>x _. x) ''s'') [TurnStarted, TitleEvent ''a''] one_session)
     ''t'' 1 10)) = 2"
  using feed_backfill_exact [of one_session "''t''" "new_session ''s'' 0 [] task_launch (Some 7) 0" 1
      "[TurnStarted, TitleEvent ''a'']" 10 "\<lambda>x _. x" "[]"]
  by (simp add: one_session_simps FEED_CAP_def new_session_def)

theorem close_by_task_exact_witness:
  "mg_killed (close_sessions_by_task ''t'' one_session) = [7]"
  using close_by_task_exact [of one_session "''t''"]
  by (simp add: sessions_wf_def one_session_simps registry_def new_session_def task_launch_def pids_of_def
      List.map_filter_simps)

lemma race_run:
  "(race_step 3)\<^sup>*\<^sup>* race_start (race_start\<lparr>xr_code := 3, xr_reader := ReaderDone, xr_running := False,
     xr_waiter := WaitResult (Some 3)\<rparr>)"
proof -
  have 1: "race_step 3 race_start (race_start\<lparr>xr_code := 3, xr_reader := CodeStored\<rparr>)"
    using race_step.store [of race_start 3] by (simp add: race_start_def)
  have 2: "race_step 3 (race_start\<lparr>xr_code := 3, xr_reader := CodeStored\<rparr>)
      (race_start\<lparr>xr_code := 3, xr_reader := ReaderDone, xr_running := False\<rparr>)"
    using race_step.clear [of "race_start\<lparr>xr_code := 3, xr_reader := CodeStored\<rparr>" 3] by (simp add: race_start_def)
  have 3: "race_step 3 (race_start\<lparr>xr_code := 3, xr_reader := ReaderDone, xr_running := False\<rparr>)
      (race_start\<lparr>xr_code := 3, xr_reader := ReaderDone, xr_running := False, xr_waiter := Found\<rparr>)"
    using race_step.look_up [of "race_start\<lparr>xr_code := 3, xr_reader := ReaderDone, xr_running := False\<rparr>" 3]
    by (simp add: race_start_def)
  have 4: "race_step 3 (race_start\<lparr>xr_code := 3, xr_reader := ReaderDone, xr_running := False, xr_waiter := Found\<rparr>)
      (race_start\<lparr>xr_code := 3, xr_reader := ReaderDone, xr_running := False, xr_waiter := FlagRead False\<rparr>)"
    using race_step.read_flag [of "race_start\<lparr>xr_code := 3, xr_reader := ReaderDone, xr_running := False,
        xr_waiter := Found\<rparr>" 3] by simp
  have 5: "race_step 3 (race_start\<lparr>xr_code := 3, xr_reader := ReaderDone, xr_running := False, xr_waiter := FlagRead False\<rparr>)
      (race_start\<lparr>xr_code := 3, xr_reader := ReaderDone, xr_running := False, xr_waiter := WaitResult (Some 3)\<rparr>)"
    using race_step.read_code [of "race_start\<lparr>xr_code := 3, xr_reader := ReaderDone, xr_running := False,
        xr_waiter := FlagRead False\<rparr>" False 3] by simp
  show ?thesis
    using 1 2 3 4 5 by (meson converse_rtranclp_into_rtranclp r_into_rtranclp)
qed

theorem wait_reads_exit_status_witness:
  "\<exists>r. (race_step 3)\<^sup>*\<^sup>* race_start r \<and> xr_waiter r = WaitResult (Some 3) \<and> \<not> xr_removed r \<and>
     (if xr_removed r then Some (3 :: int) \<in> {None, Some 3, Some (- 1)} else Some (3 :: int) = Some 3)"
  using race_run wait_reads_exit_status [OF race_run, of "Some 3"]
  by (intro exI [of _ "race_start\<lparr>xr_code := 3, xr_reader := ReaderDone, xr_running := False,
     xr_waiter := WaitResult (Some 3)\<rparr>"]) (simp add: race_start_def)

end
