(* ===== verification/Detect.thy ===== *)
theory Detect
  imports Sessions
begin

text \<open>
  Recognising an agent that waits for its user from what its terminal shows,
  \<open>crates/favetto/src/agents/detect.rs\<close>.  \<open>lower\<close> is \<open>str::to_lowercase\<close>.
\<close>

subsection \<open>The lines of a screen\<close>

definition last_n :: "nat \<Rightarrow> 'a list \<Rightarrow> 'a list" where
  "last_n n xs = drop (length xs - n) xs"

definition prompt_lines :: "string \<Rightarrow> nat \<Rightarrow> string list" where
  "prompt_lines text n = last_n n (filter (\<lambda>l. l \<noteq> []) (map trim (lines text)))"

text \<open>The characters in front of a menu entry.\<close>

definition menu_marks :: "string list" where
  "menu_marks = [''>'', [CHR 0xE2, CHR 0x9D, CHR 0xAF], [CHR 0xE2, CHR 0x96, CHR 0xB6], '' '', ''*'', ''-'', ''|'']"

definition numbered_option :: "string \<Rightarrow> bool" where
  "numbered_option line =
     (let trimmed = strip_all menu_marks line;
          digits = takeWhile is_digit trimmed
      in digits \<noteq> [] \<and>
         (case drop (length digits) trimmed of
            [] \<Rightarrow> False
          | c # _ \<Rightarrow> c = CHR '')'' \<or> c = CHR ''.'' \<or> c = CHR '':''))"

definition menu_size :: "string list \<Rightarrow> nat" where
  "menu_size ls = length (filter numbered_option ls)"

definition has_any :: "string list \<Rightarrow> string \<Rightarrow> bool" where
  "has_any pats s \<longleftrightarrow> (\<exists>p \<in> set pats. sublist p s)"

definition CONFIRM_MARKERS :: "string list" where
  "CONFIRM_MARKERS = [''[y/n]'', ''(y/n)'', ''[Y/n]'', ''[yes/no]'', ''(yes/no)'', ''yes/no'', ''press enter'',
     ''press any key'', ''press a key'', ''esc to cancel'']"

definition PROMPT_VERBS :: "string list" where
  "PROMPT_VERBS = [''permission'', ''allow'', ''deny'', ''reject'', ''approve'', ''passphrase'', ''pinentry'',
     ''password'', ''enter pass'', ''enter your'', ''do you want'', ''are you sure'', ''proceed'', ''continue'',
     ''select an option'', ''choose an option'', ''confirm'']"

definition marks_prompt :: "(string \<Rightarrow> string) \<Rightarrow> string \<Rightarrow> bool" where
  "marks_prompt lower line =
     (let low = lower line
      in has_any CONFIRM_MARKERS low \<or>
         ((contains_char CHR ''?'' low \<or> suffix '':'' line) \<and> has_any PROMPT_VERBS low))"

definition has_prompt_marker :: "(string \<Rightarrow> string) \<Rightarrow> string list \<Rightarrow> bool" where
  "has_prompt_marker lower ls \<longleftrightarrow> menu_size ls \<ge> 2 \<or> (\<exists>l \<in> set ls. marks_prompt lower l)"

subsection \<open>Classification\<close>

text \<open>\<open>chars().take(n)\<close> on UTF-8 bytes.\<close>

fun take_chars :: "nat \<Rightarrow> string \<Rightarrow> string" where
  "take_chars n [] = []"
| "take_chars n (b # bs) =
     (if is_cont b then b # take_chars n bs
      else case n of 0 \<Rightarrow> [] | Suc m \<Rightarrow> b # take_chars m bs)"

definition screen_reason :: "awaiting_kind \<Rightarrow> string list \<Rightarrow> awaiting_reason" where
  "screen_reason k ls = \<lparr>aw_kind = k,
     aw_message = (if ls = [] then [] else take_chars 200 (last ls)),
     aw_request_id = None, aw_options = [], aw_allow_always = False\<rparr>"

definition classify :: "(string \<Rightarrow> string) \<Rightarrow> string list \<Rightarrow> awaiting_reason" where
  "classify lower ls =
     (let joined = lower (join [CHR 0x0A] ls)
      in if has_any [''passphrase'', ''pinentry'', ''password'', ''enter pass''] joined
         then screen_reason AwPinentry ls
         else if has_any [''permission'', ''allow'', ''deny'', ''approve''] joined
         then screen_reason AwPermission ls
         else if has_any [''do you want'', ''are you sure'', ''continue?'', ''proceed?'', ''yes/no'', ''[y/n]'',
             ''(y/n)''] joined
         then screen_reason AwConfirmation ls
         else if has_any [''select'', ''choose''] joined \<and> (\<exists>l \<in> set ls. numbered_option l)
         then screen_reason AwChoice ls
         else if menu_size ls \<ge> 2 then screen_reason AwChoice ls
         else screen_reason AwOther ls)"

definition match_prompt :: "(string \<Rightarrow> string) \<Rightarrow> string list \<Rightarrow> awaiting_reason option" where
  "match_prompt lower ls =
     (if ls = [] \<or> \<not> has_prompt_marker lower ls then None else Some (classify lower ls))"

definition generic_awaiting_input :: "(string \<Rightarrow> string) \<Rightarrow> string \<Rightarrow> awaiting_reason option" where
  "generic_awaiting_input lower text = match_prompt lower (prompt_lines text 5)"

definition opencode_awaiting_input :: "(string \<Rightarrow> string) \<Rightarrow> string \<Rightarrow> awaiting_reason option" where
  "opencode_awaiting_input lower text =
     (let ls = prompt_lines text 6;
          joined = lower (join [CHR 0x0A] ls);
          option_lines = length (filter (\<lambda>l. has_any [''allow once'', ''allow always'', ''reject''] (lower l)) ls);
          is_dialog = has_any [''permission'', ''allow'', ''reject''] joined \<and> option_lines \<ge> 2
      in if \<not> is_dialog then None else Some (classify lower ls))"

definition claude_awaiting_input :: "(string \<Rightarrow> string) \<Rightarrow> string \<Rightarrow> awaiting_reason option" where
  "claude_awaiting_input lower text =
     (let ls = prompt_lines text 8;
          joined = lower (join [CHR 0x0A] ls);
          is_dialog = sublist ''do you want to proceed'' joined \<or>
            (sublist ''esc to cancel'' joined \<and> menu_size ls \<ge> 2)
      in if \<not> is_dialog then None else Some (classify lower ls))"

subsection \<open>Only the bottom of the screen counts\<close>

lemma lines_append: "lines (xs @ [CHR 0x0A] @ ys) = lines (xs @ [CHR 0x0A]) @ lines ys"
proof -
  have "split_on CHR 0x0A (xs @ CHR 0x0A # ys) = split_on CHR 0x0A xs @ split_on CHR 0x0A ys" for ys
  proof (induction xs)
    case (Cons x xs)
    then show ?case by (cases "split_on CHR 0x0A xs") auto
  qed simp
  from this [of ys] this [of "[]"] show ?thesis by (simp add: lines_def Let_def butlast_append)
qed

lemma last_n_append: "n \<le> length ys \<Longrightarrow> last_n n (xs @ ys) = last_n n ys"
  by (simp add: last_n_def)

lemma prompt_lines_bottom:
  assumes "n \<le> length (filter (\<lambda>l. l \<noteq> []) (map trim (lines bottom)))"
  shows "prompt_lines (upper @ [CHR 0x0A] @ bottom) n = prompt_lines bottom n"
  using assms by (simp add: prompt_lines_def lines_append last_n_append del: append.simps)

text \<open>What has scrolled above the last eight lines with text cannot make a screen look like a prompt, nor hide
  or change the prompt below it.\<close>

theorem detection_is_local:
  assumes "8 \<le> length (filter (\<lambda>l. l \<noteq> []) (map trim (lines bottom)))"
  shows "generic_awaiting_input lower (upper @ [CHR 0x0A] @ bottom) = generic_awaiting_input lower bottom \<and>
    opencode_awaiting_input lower (upper @ [CHR 0x0A] @ bottom) = opencode_awaiting_input lower bottom \<and>
    claude_awaiting_input lower (upper @ [CHR 0x0A] @ bottom) = claude_awaiting_input lower bottom"
proof -
  have "prompt_lines (upper @ [CHR 0x0A] @ bottom) n = prompt_lines bottom n" if "n \<le> 8" for n
    by (rule prompt_lines_bottom) (use that assms in linarith)
  from this [of 5] this [of 6] this [of 8] show ?thesis
    by (simp add: generic_awaiting_input_def opencode_awaiting_input_def claude_awaiting_input_def del: append.simps)
qed

text \<open>The marker with a capital letter never matches: it is compared with lower-case text only.\<close>

theorem capital_marker_dead:
  assumes "\<And>s. \<forall>c \<in> set (lower s). c \<noteq> CHR ''Y''"
  shows "\<not> sublist ''[Y/n]'' (lower line)"
proof
  assume "sublist ''[Y/n]'' (lower line)"
  then have "set ''[Y/n]'' \<subseteq> set (lower line)" by (rule set_mono_sublist)
  then have "CHR ''Y'' \<in> set (lower line)" by simp
  with assms show False by blast
qed

text \<open>A session is only ever reported as waiting while its process runs, and by the generic rule only after the
  terminal was quiet.\<close>

theorem detection_needs_quiet:
  assumes "detect_awaiting_input agent_detect (generic_awaiting_input lower) em now quiet m sid = Some r"
  obtains s where "get_session m sid = Some s" "se_running s"
    "agent_detect (se_screen s) = Some r \<or>
     (quiet \<le> now - se_last_activity s \<and> has_prompt_marker lower (prompt_lines (em_text em (se_screen s)) 5) \<and>
      r = classify lower (prompt_lines (em_text em (se_screen s)) 5))"
  using assms
  by (auto simp: detect_awaiting_input_def generic_awaiting_input_def match_prompt_def
      split: option.splits if_splits)

end
