(* ===== verification/Sse.thy ===== *)
theory Sse
  imports EventBus Settings Runs
begin

text \<open>
  The event stream over HTTP, end to end: the frames of \<open>GET /events\<close> in \<open>crates/favetto/src/server.rs\<close>, and
  the reader of the web client, \<open>web/src/sse.rs\<close>: its incremental parser, its cursor, its backoff and its
  reconnect loop.

  The writer of frames is the HTTP library: \<open>sse_lib\<close> is what it renders.  \<open>lossy\<close> is
  \<open>String::from_utf8_lossy\<close>; \<open>note\<close> is a push as a notification, its method and its parameters as text.
\<close>

abbreviation nl :: char where "nl \<equiv> CHR 0x0A"

subsection \<open>Numbers\<close>

definition parse_i64 :: "string \<Rightarrow> int option" where
  "parse_i64 s = (case s of
     [] \<Rightarrow> None
   | c # t \<Rightarrow>
       (let neg = (c = CHR ''-'');
            ds = (if neg \<or> c = CHR ''+'' then t else s);
            v = (if neg then - int (digits_val ds) else int (digits_val ds))
        in if ds \<noteq> [] \<and> list_all is_digit ds \<and> - (2 ^ 63) \<le> v \<and> v < 2 ^ 63 then Some v else None))"

definition parse_u64 :: "string \<Rightarrow> 64 word option" where
  "parse_u64 s = (let ds = (case s of c # t \<Rightarrow> if c = CHR ''+'' then t else s | [] \<Rightarrow> [])
     in if ds \<noteq> [] \<and> list_all is_digit ds \<and> digits_val ds < 2 ^ 64 then Some (of_nat (digits_val ds)) else None)"

subsection \<open>The frames of the server\<close>

record sse_lib =
  sl_named :: "string \<Rightarrow> string \<Rightarrow> int option \<Rightarrow> string"
  sl_comment :: "string \<Rightarrow> int option \<Rightarrow> string"
  sl_keep_alive :: string

definition sse_frame :: "sse_lib \<Rightarrow> (server_push \<Rightarrow> (string \<times> string) option) \<Rightarrow> server_push \<Rightarrow> string" where
  "sse_frame lib note push = (case note push of
     Some (method, params) \<Rightarrow> sl_named lib method params (event_id push)
   | None \<Rightarrow> sl_comment lib ''dropped unencodable push'' (event_id push))"

text \<open>The body: the pushes in order, with keep-alive comments (\<open>None\<close>) anywhere between them.\<close>

definition sse_body :: "sse_lib \<Rightarrow> (server_push \<Rightarrow> (string \<times> string) option) \<Rightarrow> server_push option list \<Rightarrow> string" where
  "sse_body lib note items = concat (map (\<lambda>i. case i of
     Some push \<Rightarrow> sse_frame lib note push | None \<Rightarrow> sl_keep_alive lib) items)"

text \<open>\<open>Last-Event-ID\<close>, and the query parameter as the fallback.\<close>

definition last_event_id :: "string option \<Rightarrow> int option" where
  "last_event_id header = Option.bind header (\<lambda>v. parse_i64 (trim v))"

definition events_cursor :: "string option \<Rightarrow> int option \<Rightarrow> int option" where
  "events_cursor header query = (case last_event_id header of Some c \<Rightarrow> Some c | None \<Rightarrow> query)"

subsection \<open>The parser\<close>

record sse_event =
  ss_id :: "string option"
  ss_event :: "string option"
  ss_data :: string
  ss_retry :: "64 word option"

definition sse_is_empty :: "sse_event \<Rightarrow> bool" where
  "sse_is_empty e \<longleftrightarrow> ss_id e = None \<and> ss_event e = None \<and> ss_data e = []"

definition sse_cursor :: "sse_event \<Rightarrow> int option" where
  "sse_cursor e = Option.bind (ss_id e) (\<lambda>i. parse_i64 (trim i))"

record sse_parser =
  sp_buffer :: string
  sp_id :: "string option"
  sp_event :: "string option"
  sp_data :: "string list"
  sp_retry :: "64 word option"

definition new_parser :: sse_parser where
  "new_parser = \<lparr>sp_buffer = [], sp_id = None, sp_event = None, sp_data = [], sp_retry = None\<rparr>"

definition take_event :: "sse_parser \<Rightarrow> sse_event \<times> sse_parser" where
  "take_event p = (\<lparr>ss_id = sp_id p, ss_event = sp_event p, ss_data = join [nl] (sp_data p), ss_retry = sp_retry p\<rparr>,
     p\<lparr>sp_id := None, sp_event := None, sp_data := [], sp_retry := None\<rparr>)"

definition sse_line :: "string \<Rightarrow> sse_parser \<Rightarrow> sse_event list \<times> sse_parser" where
  "sse_line line p =
     (if line = [] then
        (if sp_data p \<noteq> [] then (let (e, p') = take_event p in ([e], p')) else ([], p))
      else if prefix '':'' line then ([], p)
      else
        (let (field, value) = (case split_once CHR '':'' line of
               Some (f, v) \<Rightarrow> (f, case strip_prefix '' '' v of Some r \<Rightarrow> r | None \<Rightarrow> v)
             | None \<Rightarrow> (line, []))
         in ([], if field = ''id'' then (if contains_char CHR 0x00 value then p else p\<lparr>sp_id := Some value\<rparr>)
               else if field = ''event'' then p\<lparr>sp_event := Some value\<rparr>
               else if field = ''data'' then p\<lparr>sp_data := sp_data p @ [value]\<rparr>
               else if field = ''retry'' then
                 (case parse_u64 (trim value) of Some ms \<Rightarrow> p\<lparr>sp_retry := Some ms\<rparr> | None \<Rightarrow> p)
               else p)))"

lemma take_event_buffer [simp]: "sp_buffer (snd (take_event p)) = sp_buffer p"
  by (simp add: take_event_def)

lemma sse_line_buffer [simp]: "sp_buffer (snd (sse_line line p)) = sp_buffer p"
  by (simp add: sse_line_def split_def Let_def split: option.split)

function sse_drain :: "(string \<Rightarrow> string) \<Rightarrow> sse_parser \<Rightarrow> sse_event list \<times> sse_parser" where
  "sse_drain lossy p = (case split_once nl (sp_buffer p) of
     None \<Rightarrow> ([], p)
   | Some (line, rest) \<Rightarrow>
       (let r = sse_line (lossy (strip_cr line)) (p\<lparr>sp_buffer := rest\<rparr>);
            rs = sse_drain lossy (snd r)
        in (fst r @ fst rs, snd rs)))"
  by pat_completeness auto
termination
  by (relation "measure (\<lambda>(_, p). length (sp_buffer p))") (auto simp: split_once_Some)

definition push_bytes :: "(string \<Rightarrow> string) \<Rightarrow> sse_parser \<Rightarrow> string \<Rightarrow> sse_event list \<times> sse_parser" where
  "push_bytes lossy p chunk = sse_drain lossy (p\<lparr>sp_buffer := sp_buffer p @ chunk\<rparr>)"

text \<open>The chunks of one response.\<close>

fun push_chunks :: "(string \<Rightarrow> string) \<Rightarrow> sse_parser \<Rightarrow> string list \<Rightarrow> sse_event list \<times> sse_parser" where
  "push_chunks lossy p [] = ([], p)"
| "push_chunks lossy p (c # cs) =
     (let r = push_bytes lossy p c; rs = push_chunks lossy (snd r) cs in (fst r @ fst rs, snd rs))"

subsection \<open>The cursor, the backoff and the reconnect loop\<close>

definition advance_cursor :: "int option \<Rightarrow> sse_event \<Rightarrow> int option" where
  "advance_cursor current e = (case sse_cursor e of
     Some i \<Rightarrow> Some (case current of Some c \<Rightarrow> max c i | None \<Rightarrow> i)
   | None \<Rightarrow> current)"

record backoff =
  bo_base :: "64 word"
  bo_max :: "64 word"

definition default_backoff :: backoff where
  "default_backoff = \<lparr>bo_base = 1000, bo_max = 30000\<rparr>"

definition delay_ms :: "backoff \<Rightarrow> 32 word \<Rightarrow> 64 word" where
  "delay_ms b attempt = min (saturating_mul (bo_base b) (push_bit (unat (min attempt 20)) 1)) (bo_max b)"

definition saturating_inc :: "32 word \<Rightarrow> 32 word" where
  "saturating_inc n = (if n = - 1 then n else n + 1)"

datatype sse_status = SseConnected | SseReconnecting "32 word" "64 word" | SseUnauthorized

text \<open>What one attempt comes to: the chunks of a response, however it ended; a 401; or any other failure.\<close>

datatype sse_attempt = Streamed "string list" | Http401 | StreamFailed

text \<open>The loop, over the answers of the network to each attempt, which depend on the cursor it sends.\<close>

fun sse_run ::
  "(string \<Rightarrow> string) \<Rightarrow> 32 word \<Rightarrow> int option \<Rightarrow> (int option \<Rightarrow> sse_attempt) list \<Rightarrow>
   sse_event list \<times> sse_status list \<times> int option"
where
  "sse_run lossy attempt cursor [] = ([], [], cursor)"
| "sse_run lossy attempt cursor (w # ws) = (case w cursor of
     Http401 \<Rightarrow> ([], [SseUnauthorized], cursor)
   | StreamFailed \<Rightarrow>
       (let (es, sts, c) = sse_run lossy (saturating_inc attempt) cursor ws
        in (es, SseReconnecting (saturating_inc attempt) (delay_ms default_backoff attempt) # sts, c))
   | Streamed chunks \<Rightarrow>
       (let received = fst (push_chunks lossy new_parser chunks);
            (es, sts, c) = sse_run lossy (saturating_inc 0) (foldl advance_cursor cursor received) ws
        in (received @ es, SseConnected # SseReconnecting (saturating_inc 0) (delay_ms default_backoff 0) # sts, c)))"

subsection \<open>Chunks do not matter\<close>

declare sse_drain.simps [simp del]

text \<open>The parser as a fold over the complete lines of its input.\<close>

fun sse_fold :: "(string \<Rightarrow> string) \<Rightarrow> string list \<Rightarrow> sse_parser \<Rightarrow> sse_event list \<times> sse_parser" where
  "sse_fold lossy [] p = ([], p)"
| "sse_fold lossy (l # ls) p =
     (let r = sse_line (lossy (strip_cr l)) p; rs = sse_fold lossy ls (snd r) in (fst r @ fst rs, snd rs))"

lemma sse_fold_append:
  "sse_fold lossy (ls @ ms) p =
     (let r = sse_fold lossy ls p; rs = sse_fold lossy ms (snd r) in (fst r @ fst rs, snd rs))"
  by (induction ls arbitrary: p) (simp_all add: Let_def)

lemma sse_line_set_buffer:
  "sse_line l (p\<lparr>sp_buffer := b\<rparr>) = (fst (sse_line l p), (snd (sse_line l p))\<lparr>sp_buffer := b\<rparr>)"
  by (simp add: sse_line_def take_event_def split_def Let_def split: option.split)

lemma sse_fold_set_buffer:
  "sse_fold lossy ls (p\<lparr>sp_buffer := b\<rparr>) = (fst (sse_fold lossy ls p), (snd (sse_fold lossy ls p))\<lparr>sp_buffer := b\<rparr>)"
  by (induction ls arbitrary: p) (simp_all add: sse_line_set_buffer Let_def)

lemma split_once_None: "split_once c s = None \<longleftrightarrow> c \<notin> set s"
  by (auto simp: split_once_def)

lemma sse_drain_fold:
  "sse_drain lossy p = (let ws = split_on nl (sp_buffer p); r = sse_fold lossy (butlast ws) p
     in (fst r, (snd r)\<lparr>sp_buffer := last ws\<rparr>))"
proof (induction lossy p rule: sse_drain.induct)
  case (1 lossy p)
  show ?case
  proof (cases "split_once nl (sp_buffer p)")
    case None
    then have "split_on nl (sp_buffer p) = [sp_buffer p]" by (simp add: split_once_None split_on_single)
    with None show ?thesis by (simp add: sse_drain.simps)
  next
    case (Some lr)
    obtain line rest where lr: "lr = (line, rest)" by fastforce
    with Some have buf: "sp_buffer p = line @ nl # rest" "nl \<notin> set line" by (simp_all add: split_once_Some)
    let ?q = "snd (sse_line (lossy (strip_cr line)) p)"
    have ih: "sse_drain lossy (?q\<lparr>sp_buffer := rest\<rparr>) =
        (fst (sse_fold lossy (butlast (split_on nl rest)) ?q),
         (snd (sse_fold lossy (butlast (split_on nl rest)) ?q))\<lparr>sp_buffer := last (split_on nl rest)\<rparr>)"
      using 1 [OF Some lr [symmetric] refl] by (simp add: sse_line_set_buffer sse_fold_set_buffer Let_def)
    have "split_on nl (sp_buffer p) = line # split_on nl rest" using buf by (simp add: split_on_first)
    then show ?thesis
      by (simp add: sse_drain.simps [of lossy p] Some lr ih Let_def sse_line_set_buffer sse_fold_set_buffer)
  qed
qed

lemma push_bytes_fold:
  "push_bytes lossy p chunk = (let ws = split_on nl (sp_buffer p @ chunk); r = sse_fold lossy (butlast ws) p
     in (fst r, (snd r)\<lparr>sp_buffer := last ws\<rparr>))"
  by (simp add: push_bytes_def sse_drain_fold Let_def sse_fold_set_buffer)

lemma push_bytes_append:
  "push_bytes lossy p (a @ b) = (let r = push_bytes lossy p a; rs = push_bytes lossy (snd r) b in (fst r @ fst rs, snd rs))"
proof -
  have "split_on nl (sp_buffer p @ a @ b) =
      butlast (split_on nl (sp_buffer p @ a)) @ split_on nl (last (split_on nl (sp_buffer p @ a)) @ b)"
    using split_on_append [of nl "sp_buffer p @ a" b] by simp
  then show ?thesis
    by (simp add: push_bytes_fold Let_def butlast_append sse_fold_append sse_fold_set_buffer)
qed

lemma push_bytes_nl: "nl \<notin> set (sp_buffer (snd (push_bytes lossy p a)))"
  by (simp add: push_bytes_fold Let_def) (metis last_in_set split_on_no_sep split_on_not_Nil)

lemma push_bytes_Nil: "nl \<notin> set (sp_buffer p) \<Longrightarrow> push_bytes lossy p [] = ([], p)"
  by (simp add: push_bytes_fold Let_def split_on_single)

lemma push_chunks_concat: "nl \<notin> set (sp_buffer p) \<Longrightarrow> push_chunks lossy p cs = push_bytes lossy p (concat cs)"
proof (induction cs arbitrary: p)
  case (Cons c cs)
  then show ?case using Cons.IH [OF push_bytes_nl] by (simp add: push_bytes_append Let_def)
qed (simp add: push_bytes_Nil)

subsection \<open>What the server writes is what the client reads\<close>

text \<open>Valid UTF-8, as \<open>str::from_utf8\<close> checks it.\<close>

fun utf8 :: "string \<Rightarrow> bool" where
  "utf8 [] = True"
| "utf8 (a # s) =
     (let n = (of_char a :: nat); within = (\<lambda>b lo hi. lo \<le> (of_char b :: nat) \<and> (of_char b :: nat) \<le> hi)
      in if n < 128 then utf8 s
         else if 0xC2 \<le> n \<and> n \<le> 0xDF then
           (case s of b # t \<Rightarrow> is_cont b \<and> utf8 t | _ \<Rightarrow> False)
         else if 0xE0 \<le> n \<and> n \<le> 0xEF then
           (case s of b # c # t \<Rightarrow> within b (if n = 0xE0 then 0xA0 else 0x80) (if n = 0xED then 0x9F else 0xBF) \<and>
              is_cont c \<and> utf8 t | _ \<Rightarrow> False)
         else if 0xF0 \<le> n \<and> n \<le> 0xF4 then
           (case s of b # c # d # t \<Rightarrow> within b (if n = 0xF0 then 0x90 else 0x80) (if n = 0xF4 then 0x8F else 0xBF) \<and>
              is_cont c \<and> is_cont d \<and> utf8 t | _ \<Rightarrow> False)
         else False)"

lemma utf8_ascii: "list_all is_ascii a \<Longrightarrow> utf8 (a @ s) = utf8 s"
  by (induction a) (auto simp: is_ascii_def)

definition clean :: "string \<Rightarrow> bool" where
  "clean s \<longleftrightarrow> utf8 s \<and> nl \<notin> set s \<and> CHR 0x0D \<notin> set s"

definition id_line :: "int option \<Rightarrow> string" where
  "id_line i = (case i of Some n \<Rightarrow> ''id: '' @ int_str n @ [nl] | None \<Rightarrow> [])"

text \<open>The text/event-stream format, and that the standard library keeps valid text.\<close>

definition writes_sse :: "sse_lib \<Rightarrow> bool" where
  "writes_sse lib \<longleftrightarrow>
     (\<forall>m d i. clean m \<longrightarrow> clean d \<longrightarrow> sl_named lib m d i = ''event: '' @ m @ nl # ''data: '' @ d @ nl # id_line i @ [nl]) \<and>
     sl_keep_alive lib = '': keep-alive'' @ [nl, nl]"

definition keeps_text :: "(string \<Rightarrow> string) \<Rightarrow> bool" where
  "keeps_text lossy \<longleftrightarrow> (\<forall>s. utf8 s \<longrightarrow> lossy s = s)"

text \<open>Every push has a notification; its text is a line.\<close>

definition encodable :: "(server_push \<Rightarrow> (string \<times> string) option) \<Rightarrow> server_push \<Rightarrow> bool" where
  "encodable note push \<longleftrightarrow> (case note push of Some (m, d) \<Rightarrow> clean m \<and> clean d | None \<Rightarrow> False)"

definition received_as :: "(server_push \<Rightarrow> (string \<times> string) option) \<Rightarrow> server_push \<Rightarrow> sse_event" where
  "received_as note push = \<lparr>ss_id = map_option int_str (event_id push), ss_event = map_option fst (note push),
     ss_data = (case note push of Some (_, d) \<Rightarrow> d | None \<Rightarrow> []), ss_retry = None\<rparr>"

lemma is_ascii_digit: "is_digit c \<Longrightarrow> is_ascii c \<and> c \<noteq> nl \<and> c \<noteq> CHR 0x0D \<and> c \<noteq> CHR 0x00"
  by (auto simp: is_digit_def is_ascii_def)

lemma int_str_chars: "c \<in> set (int_str n) \<Longrightarrow> is_digit c \<or> c = CHR ''-''"
  by (auto simp: int_str_def dest: nat_str_digits split: if_splits)

lemma clean_int_str: "clean (int_str n) \<and> CHR 0x00 \<notin> set (int_str n)"
proof -
  have "is_ascii c \<and> c \<noteq> nl \<and> c \<noteq> CHR 0x0D \<and> c \<noteq> CHR 0x00" if "c \<in> set (int_str n)" for c
    using int_str_chars [OF that] is_ascii_digit by (auto simp: is_ascii_def)
  then show ?thesis using utf8_ascii [of "int_str n" "[]"] by (auto simp: clean_def list_all_iff)
qed

lemma clean_prefix: "list_all is_ascii a \<Longrightarrow> nl \<notin> set a \<Longrightarrow> CHR 0x0D \<notin> set a \<Longrightarrow> clean s \<Longrightarrow> clean (a @ s)"
  by (simp add: clean_def utf8_ascii)

lemma strip_cr_clean: "clean s \<Longrightarrow> strip_cr s = s"
  by (auto simp: clean_def strip_cr_def dest: last_in_set)

text \<open>A parser between two frames.\<close>

definition idle :: "sse_parser \<Rightarrow> bool" where
  "idle p \<longleftrightarrow> sp_id p = None \<and> sp_event p = None \<and> sp_data p = [] \<and> sp_retry p = None"

lemma sse_line_field:
  assumes "CHR '':'' \<notin> set f" and "f \<noteq> []"
  shows "split_once CHR '':'' (f @ CHR '':'' # CHR '' '' # v) = Some (f, CHR '' '' # v)"
    "\<not> prefix '':'' (f @ CHR '':'' # CHR '' '' # v)"
  using assms by (auto simp: split_once_append) (cases f, auto)

lemma sse_line_event: "sse_line (''event: '' @ v) p = ([], p\<lparr>sp_event := Some v\<rparr>)"
  using sse_line_field [of "''event''" v] by (simp add: sse_line_def strip_prefix_def)

lemma sse_line_data: "sse_line (''data: '' @ v) p = ([], p\<lparr>sp_data := sp_data p @ [v]\<rparr>)"
  using sse_line_field [of "''data''" v] by (simp add: sse_line_def strip_prefix_def)

lemma sse_line_id: "CHR 0x00 \<notin> set v \<Longrightarrow> sse_line (''id: '' @ v) p = ([], p\<lparr>sp_id := Some v\<rparr>)"
  using sse_line_field [of "''id''" v] by (simp add: sse_line_def strip_prefix_def contains_char_def)

lemma sse_line_dispatch:
  "sp_data p = [d] \<Longrightarrow> sse_line [] p = ([\<lparr>ss_id = sp_id p, ss_event = sp_event p, ss_data = d, ss_retry = sp_retry p\<rparr>],
     p\<lparr>sp_id := None, sp_event := None, sp_data := [], sp_retry := None\<rparr>)"
  by (simp add: sse_line_def take_event_def)

lemma lossy_line: "keeps_text lossy \<Longrightarrow> clean s \<Longrightarrow> lossy (strip_cr s) = s"
  by (simp add: keeps_text_def strip_cr_clean) (simp add: clean_def)

text \<open>The lines of a frame, and what the parser makes of them.\<close>

definition frame_lines :: "(server_push \<Rightarrow> (string \<times> string) option) \<Rightarrow> server_push option \<Rightarrow> string list" where
  "frame_lines note i = (case i of
     None \<Rightarrow> ['': keep-alive'', []]
   | Some push \<Rightarrow> (case note push of
       None \<Rightarrow> []
     | Some (m, d) \<Rightarrow> [''event: '' @ m, ''data: '' @ d]
         @ (case event_id push of Some n \<Rightarrow> [''id: '' @ int_str n] | None \<Rightarrow> []) @ [[]]))"

definition piece :: "sse_lib \<Rightarrow> (server_push \<Rightarrow> (string \<times> string) option) \<Rightarrow> server_push option \<Rightarrow> string" where
  "piece lib note i = (case i of Some push \<Rightarrow> sse_frame lib note push | None \<Rightarrow> sl_keep_alive lib)"

lemma sse_body_pieces: "sse_body lib note items = concat (map (piece lib note) items)"
  by (simp add: sse_body_def piece_def [abs_def])

lemma clean_Nil: "clean []"
  by (simp add: clean_def)

lemma clean_keep_alive: "clean '': keep-alive''"
  using clean_prefix [OF _ _ _ clean_Nil, of "'': keep-alive''"] by (simp add: is_ascii_def)

lemma clean_event: "clean m \<Longrightarrow> clean (''event: '' @ m)"
  by (rule clean_prefix) (simp_all add: is_ascii_def)

lemma clean_data: "clean d \<Longrightarrow> clean (''data: '' @ d)"
  by (rule clean_prefix) (simp_all add: is_ascii_def)

lemma clean_id: "clean (''id: '' @ int_str n)"
  by (rule clean_prefix) (simp_all add: is_ascii_def clean_int_str)

lemmas clean_lines = clean_Nil clean_keep_alive clean_event clean_data clean_id

lemma piece_lines:
  assumes "writes_sse lib" and "\<And>p. i = Some p \<Longrightarrow> encodable note p"
  shows "piece lib note i = concat (map (\<lambda>l. l @ [nl]) (frame_lines note i))"
    and "\<forall>l \<in> set (frame_lines note i). clean l"
proof -
  show "piece lib note i = concat (map (\<lambda>l. l @ [nl]) (frame_lines note i))"
  proof (cases i)
    case None
    then show ?thesis using assms(1) by (simp add: piece_def writes_sse_def frame_lines_def)
  next
    case (Some p)
    with assms(2) obtain m d where "note p = Some (m, d)" "clean m" "clean d"
      by (auto simp: encodable_def split: option.splits)
    with Some assms(1) show ?thesis
      by (simp add: piece_def sse_frame_def writes_sse_def frame_lines_def id_line_def split: option.split)
  qed
  show "\<forall>l \<in> set (frame_lines note i). clean l"
  proof (cases i)
    case None
    then show ?thesis using clean_lines(1,2) by (simp add: frame_lines_def)
  next
    case (Some p)
    with assms(2) obtain m d where n: "note p = Some (m, d)" "clean m" "clean d"
      by (auto simp: encodable_def split: option.splits)
    have "clean l" if "l \<in> set ([''event: '' @ m, ''data: '' @ d] @ (case event_id p of Some n \<Rightarrow> [''id: '' @ int_str n] | None \<Rightarrow> []) @ [[]])" for l
      using that clean_event [OF n(2)] clean_data [OF n(3)] clean_id clean_Nil
      by (cases "event_id p") (simp_all only: option.case set_append list.set append_Nil Un_iff insert_iff empty_iff simp_thms, metis+)
    with Some n show ?thesis by (simp only: frame_lines_def option.case prod.case) blast
  qed
qed

lemma fold_frame:
  assumes "keeps_text lossy" and "\<And>p. i = Some p \<Longrightarrow> encodable note p" and "idle p"
  shows "sse_fold lossy (frame_lines note i) p = (case i of Some push \<Rightarrow> [received_as note push] | None \<Rightarrow> [], p)"
proof (cases i)
  case None
  define k where "k = '': keep-alive''"
  have "sse_line k p = ([], p)" "sse_line [] p = ([], p)"
    using assms(3) by (simp_all add: k_def sse_line_def idle_def)
  moreover have "lossy (strip_cr k) = k" "lossy (strip_cr []) = []"
    unfolding k_def by (rule lossy_line [OF assms(1)], rule clean_lines)+
  moreover have "frame_lines note i = [k, []]" using None by (simp add: frame_lines_def k_def)
  ultimately show ?thesis using None by (simp add: Let_def)
next
  case (Some push)
  with assms(2) obtain m d where n: "note push = Some (m, d)" "clean m" "clean d"
    by (auto simp: encodable_def split: option.splits)
  define e where "e = ''event: '' @ m"
  define f where "f = ''data: '' @ d"
  define g where "g = (\<lambda>n. ''id: '' @ int_str n)"
  have dec: "lossy (strip_cr e) = e" "lossy (strip_cr f) = f" "\<And>n. lossy (strip_cr (g n)) = g n" "lossy (strip_cr []) = []"
    unfolding e_def f_def g_def
    by (rule lossy_line [OF assms(1)], (rule clean_lines n)+)+
  have run: "\<And>q. sse_line e q = ([], q\<lparr>sp_event := Some m\<rparr>)" "\<And>q. sse_line f q = ([], q\<lparr>sp_data := sp_data q @ [d]\<rparr>)"
    "\<And>q n. sse_line (g n) q = ([], q\<lparr>sp_id := Some (int_str n)\<rparr>)"
    unfolding e_def f_def g_def
    by (rule sse_line_event, rule sse_line_data, rule sse_line_id, simp add: clean_int_str)
  have fields: "sp_id p = None" "sp_event p = None" "sp_data p = []" "sp_retry p = None"
    using assms(3) by (simp_all add: idle_def)
  have ls: "frame_lines note i = [e, f] @ (case event_id push of Some n \<Rightarrow> [g n] | None \<Rightarrow> []) @ [[]]"
    using Some n(1) by (simp add: frame_lines_def e_def f_def g_def split: option.split)
  have same: "p\<lparr>sp_event := None, sp_data := [], sp_id := None, sp_retry := None\<rparr> = p"
    using fields by (cases p) simp
  show ?thesis
    unfolding ls using Some n(1) fields same
    by (cases "event_id push") (simp_all add: dec run Let_def sse_line_dispatch received_as_def)
qed

text \<open>The pushes of a body, without its heartbeats.\<close>

definition carried :: "server_push option list \<Rightarrow> server_push list" where
  "carried items = List.map_filter (\<lambda>i. i) items"

lemma carried_simps [simp]:
  "carried [] = []" "carried (None # items) = carried items" "carried (Some p # items) = p # carried items"
  by (simp_all add: carried_def map_filter_simps)

lemma fold_frames:
  assumes "keeps_text lossy" and "\<forall>p \<in> set (carried items). encodable note p" and "idle p"
  shows "sse_fold lossy (concat (map (frame_lines note) items)) p = (map (received_as note) (carried items), p)"
  using assms(2)
proof (induction items)
  case (Cons i items)
  have "sse_fold lossy (frame_lines note i) p = (case i of Some push \<Rightarrow> [received_as note push] | None \<Rightarrow> [], p)"
    using Cons.prems by (intro fold_frame assms) auto
  moreover have "\<forall>p \<in> set (carried items). encodable note p" using Cons.prems by (cases i) auto
  ultimately show ?case using Cons.IH by (cases i) (simp_all add: sse_fold_append Let_def)
qed simp

lemma body_lines:
  assumes "writes_sse lib" and "\<forall>p \<in> set (carried items). encodable note p"
  shows "split_on nl (sse_body lib note items) = concat (map (frame_lines note) items) @ [[]]"
proof -
  have "sse_body lib note items = concat (map (\<lambda>l. l @ [nl]) (concat (map (frame_lines note) items))) \<and>
      (\<forall>l \<in> set (concat (map (frame_lines note) items)). nl \<notin> set l)"
    using assms(2)
  proof (induction items)
    case (Cons i items)
    have enc: "\<And>p. i = Some p \<Longrightarrow> encodable note p" and "\<forall>p \<in> set (carried items). encodable note p"
      using Cons.prems by (cases i; auto)+
    with Cons.IH piece_lines [OF assms(1) enc, of i] show ?case
      by (auto simp: sse_body_pieces clean_def)
  qed (simp add: sse_body_def)
  moreover have "(\<forall>l \<in> set ls. nl \<notin> set l) \<Longrightarrow> split_on nl (concat (map (\<lambda>l. l @ [nl]) ls)) = ls @ [[]]" for ls
    by (induction ls) (simp_all add: split_on_first)
  ultimately show ?thesis by simp
qed

text \<open>C32: what the server writes on an event stream, the web client reads back: however the network cuts the
  bytes, and wherever the stream breaks off, the client has received a prefix of the pushes, in order, each as
  it was sent and with its durable id, and all of them when the stream was read to its end.\<close>

theorem sse_roundtrip:
  assumes "writes_sse lib" and "keeps_text lossy" and "\<forall>p \<in> set (carried items). encodable note p"
    and "prefix (concat chunks) (sse_body lib note items)"
  shows "prefix (fst (push_chunks lossy new_parser chunks)) (map (received_as note) (carried items)) \<and>
    (concat chunks = sse_body lib note items \<longrightarrow>
       fst (push_chunks lossy new_parser chunks) = map (received_as note) (carried items))"
proof -
  let ?L = "concat (map (frame_lines note) items)" and ?x = "concat chunks"
  have idle: "idle new_parser" by (simp add: idle_def new_parser_def)
  have run: "fst (push_chunks lossy new_parser chunks) = fst (sse_fold lossy (butlast (split_on nl ?x)) new_parser)"
    by (simp add: push_chunks_concat push_bytes_fold Let_def new_parser_def)
  have all: "fst (sse_fold lossy ?L new_parser) = map (received_as note) (carried items)"
    using fold_frames [OF assms(2,3) idle] by simp
  obtain y where "sse_body lib note items = ?x @ y" using assms(4) by (auto simp: prefix_def)
  with body_lines [OF assms(1,3)] split_on_append [of nl ?x y]
  have "butlast (split_on nl ?x) @ split_on nl (last (split_on nl ?x) @ y) = ?L @ [[]]" by simp
  then have "butlast (butlast (split_on nl ?x) @ split_on nl (last (split_on nl ?x) @ y)) = ?L" by simp
  then have "?L = butlast (split_on nl ?x) @ butlast (split_on nl (last (split_on nl ?x) @ y))"
    by (simp add: butlast_append)
  then have "prefix (fst (sse_fold lossy (butlast (split_on nl ?x)) new_parser)) (fst (sse_fold lossy ?L new_parser))"
    by (simp add: sse_fold_append Let_def)
  then show ?thesis
    using run all body_lines [OF assms(1,3)] by auto
qed

subsection \<open>The cursor\<close>

lemma strip_one_other: "s \<noteq> [] \<Longrightarrow> \<forall>w \<in> set encs. w \<noteq> [] \<longrightarrow> hd w \<noteq> hd s \<Longrightarrow> strip_one encs s = None"
proof -
  assume "s \<noteq> []" "\<forall>w \<in> set encs. w \<noteq> [] \<longrightarrow> hd w \<noteq> hd s"
  then have "\<not> (w \<noteq> [] \<and> prefix w s)" if "w \<in> set encs" for w
    using that by (cases w; cases s) auto
  then show ?thesis by (auto simp: strip_one_def find_None_iff split: option.split)
qed

lemma number_char: "is_digit c \<or> c = CHR ''-'' \<Longrightarrow> (of_char c :: nat) = 45 \<or> (48 \<le> (of_char c :: nat) \<and> (of_char c :: nat) \<le> 57)"
  by (auto simp: is_digit_def)

definition number_code :: "char \<Rightarrow> bool" where
  "number_code c \<longleftrightarrow> (of_char c :: nat) = 45 \<or> (48 \<le> (of_char c :: nat) \<and> (of_char c :: nat) \<le> 57)"

lemma ws_no_number: "list_all (\<lambda>w. \<not> number_code (hd w) \<and> \<not> number_code (hd (rev w))) ws_encs"
  by (simp add: ws_encs_def number_code_def)

lemma ws_not_number:
  assumes "is_digit c \<or> c = CHR ''-''" and "w \<in> set ws_encs"
  shows "hd w \<noteq> c" and "hd (rev w) \<noteq> c"
  using ws_no_number assms(2) number_char [OF assms(1)] by (auto simp: list_all_iff number_code_def)

lemma nat_str_not_Nil: "nat_str n \<noteq> []"
  by (subst nat_str.simps) simp

lemma int_str_not_Nil: "int_str n \<noteq> []"
  by (simp add: int_str_def nat_str_not_Nil)

lemma trim_int_str: "trim (int_str n) = int_str n"
proof -
  have ends: "is_digit (hd (int_str n)) \<or> hd (int_str n) = CHR ''-''" "is_digit (last (int_str n)) \<or> last (int_str n) = CHR ''-''"
    using int_str_chars int_str_not_Nil by (metis hd_in_set, metis last_in_set)
  have "strip_one ws_encs (int_str n) = None"
    using ws_not_number(1) [OF ends(1)] by (intro strip_one_other int_str_not_Nil) auto
  moreover have "strip_one (map rev ws_encs) (rev (int_str n)) = None"
    using ws_not_number(2) [OF ends(2)] int_str_not_Nil [of n]
    by (intro strip_one_other) (auto simp: hd_rev)
  ultimately show ?thesis by (simp add: trim_def trim_start_def trim_end_def strip_all_id)
qed

lemma parse_int_str: "- (2 ^ 63) \<le> n \<Longrightarrow> n < 2 ^ 63 \<Longrightarrow> parse_i64 (int_str n) = Some n"
proof -
  assume bounds: "- (2 ^ 63) \<le> n" "n < 2 ^ 63"
  have digits: "list_all is_digit (nat_str m)" for m using nat_str_digits by (auto simp: list_all_iff)
  show ?thesis
  proof (cases "n < 0")
    case True
    with bounds digits nat_str_not_Nil show ?thesis
      by (simp add: parse_i64_def int_str_def Let_def)
  next
    case False
    obtain c t where ct: "nat_str (nat n) = c # t" using nat_str_not_Nil by (metis neq_Nil_conv)
    then have "is_digit c" using nat_str_digits by (metis list.set_intros(1))
    then have "c \<noteq> CHR ''-''" "c \<noteq> CHR ''+''" by (auto simp: is_digit_def)
    moreover have "digits_val (c # t) = nat n" using digits_val_nat_str [of "nat n"] by (simp add: ct)
    ultimately show ?thesis using False bounds ct digits [of "nat n"]
      by (simp add: parse_i64_def int_str_def Let_def)
  qed
qed

definition in_i64 :: "int \<Rightarrow> bool" where
  "in_i64 n \<longleftrightarrow> - (2 ^ 63) \<le> n \<and> n < 2 ^ 63"

lemma sse_cursor_received:
  "(\<And>n. event_id push = Some n \<Longrightarrow> in_i64 n) \<Longrightarrow> sse_cursor (received_as note push) = event_id push"
  by (cases "event_id push") (simp_all add: sse_cursor_def received_as_def trim_int_str parse_int_str in_i64_def)

text \<open>The durable events among some pushes.\<close>

definition published :: "server_push list \<Rightarrow> event list" where
  "published ps = List.map_filter (\<lambda>p. case p of PEvent e \<Rightarrow> Some e | _ \<Rightarrow> None) ps"

lemma published_simps [simp]:
  "published [] = []" "published (PEvent e # ps) = e # published ps" "published (PTaskUpdated t # ps) = published ps"
  "published (PCatalogUpdated # ps) = published ps" "published (PAgentEvent j # ps) = published ps"
  by (simp_all add: published_def map_filter_simps)

lemma published_append [simp]: "published (ps @ qs) = published ps @ published qs"
proof (induction ps)
  case (Cons p ps)
  then show ?case by (cases p) simp_all
qed simp

lemma published_map [simp]: "published (map PEvent es) = es"
  by (induction es) simp_all

lemma published_mem: "e \<in> set (published ps) \<longleftrightarrow> PEvent e \<in> set ps"
proof (induction ps)
  case (Cons p ps)
  then show ?case by (cases p) auto
qed simp

lemma advance_received:
  assumes "\<forall>e \<in> set (published ps). in_i64 (e_id e)"
  shows "foldl advance_cursor (Some c) (map (received_as note) ps) = Some (foldl max c (map e_id (published ps)))"
  using assms
proof (induction ps arbitrary: c)
  case (Cons p ps)
  have "sse_cursor (received_as note p) = event_id p"
    using Cons.prems by (intro sse_cursor_received) (cases p; auto)
  then have "advance_cursor (Some c) (received_as note p) =
      Some (case p of PEvent e \<Rightarrow> max c (e_id e) | _ \<Rightarrow> c)"
    by (cases p) (simp_all add: advance_cursor_def)
  with Cons show ?case by (cases p) simp_all
qed simp

subsection \<open>Nothing is lost across reconnections\<close>

text \<open>
  How one connection answers a client with cursor \<open>c\<close>, while \<open>log\<close> is the log of durable events to come:
  the stream was subscribed after the first \<open>m\<close> events had been published, the replay query saw the first \<open>n\<close>
  of them, at most 500 behind the cursor, and the events published meanwhile follow in the order of the log,
  until the stream lags or closes.  The network hands over any prefix of it.
\<close>

definition serves ::
  "sse_lib \<Rightarrow> (server_push \<Rightarrow> (string \<times> string) option) \<Rightarrow> event list \<Rightarrow> int \<Rightarrow> string list \<Rightarrow> bool"
where
  "serves lib note log c chunks \<longleftrightarrow> (\<exists>d rs items n m k. m \<le> n \<and> tables_wf d \<and>
     filter (\<lambda>e. c < e_id e) (events d) = filter (\<lambda>e. c < e_id e) (take n log) \<and>
     int (length (filter (\<lambda>e. c < e_id e) (events d))) \<le> EVENT_REPLAY_LIMIT \<and>
     published (follow_live LagEnd rs) = take k (drop m log) \<and>
     carried items = resumable (Some d) (Some c) EVENT_REPLAY_LIMIT LagEnd rs \<and>
     (\<forall>p \<in> set (carried items). encodable note p) \<and>
     prefix (concat chunks) (sse_body lib note items))"

text \<open>A replayed window followed by a later one of the log leaves no gap behind any event.\<close>

lemma window_gapless:
  assumes "sorted_wrt (<) (map e_id log)" and "m \<le> n"
    and "prefix xs (filter (\<lambda>e. c < e_id e) (take n log) @ take k (drop m log))"
    and "x \<in> set xs" and "e \<in> set log" and "c < e_id e" and "e_id e \<le> e_id x"
  shows "e \<in> set xs"
proof -
  let ?A = "filter (\<lambda>e. c < e_id e) (take n log)" and ?B = "take k (drop m log)"
  have order: "i \<le> j" if "i < length log" "j < length log" "e_id (log ! i) \<le> e_id (log ! j)" for i j
    using sorted_wrt_nth_less [OF assms(1), of j i] that by fastforce
  obtain i where i: "i < length log" "e = log ! i" using assms(5) by (metis in_set_conv_nth)
  have in_A: "e \<in> set ?A" if "x \<in> set ?A"
  proof -
    from that obtain j where j: "j < length log" "j < n" "x = log ! j"
      by (auto simp: in_set_conv_nth)
    with order [of i j] i assms(7) have "i < n" by simp
    with i have "e \<in> set (take n log)" by (auto simp: in_set_conv_nth)
    with assms(6) show ?thesis by simp
  qed
  obtain rest where rest: "?A @ ?B = xs @ rest" using assms(3) by (auto simp: prefix_def)
  show ?thesis
  proof (cases "x \<in> set ?A")
    case True
    from rest consider (inside) us where "?A = xs @ us" | (beyond) us where "xs = ?A @ us"
      by (auto simp: append_eq_append_conv2)
    then show ?thesis
    proof cases
      case inside
      have "sorted_wrt (<) (map e_id (take n log))" using assms(1) by (simp flip: take_map add: sorted_wrt_take)
      then have "sorted_wrt (<) (map e_id ?A)" by (simp add: sorted_wrt_map sorted_wrt_filter)
      then have "\<forall>u \<in> set xs. \<forall>v \<in> set us. e_id u < e_id v" unfolding inside by (auto simp: sorted_wrt_append)
      moreover have "e \<in> set xs \<union> set us" using in_A [OF True] inside by (metis set_append)
      ultimately show ?thesis using assms(4,7) by force
    qed (use in_A [OF True] in auto)
  next
    case False
    from rest consider (inside) us where "?A = xs @ us" | (beyond) us where "xs = ?A @ us"
      by (auto simp: append_eq_append_conv2)
    then obtain us where us: "xs = ?A @ us"
    proof cases
      case inside
      then have "x \<in> set ?A" using assms(4) by (metis Un_iff set_append)
      with False show ?thesis by blast
    qed (rule that)
    with rest have "prefix us ?B" by auto
    then have "prefix us (drop m log)" using take_is_prefix prefix_order.trans by blast
    then obtain ws where ws: "drop m log = us @ ws" by (auto simp: prefix_def)
    have nth: "us ! a = log ! (m + a)" "m + a < length log" if "a < length us" for a
    proof -
      show len: "m + a < length log" using that arg_cong [OF ws, of length] by simp
      have "drop m log ! a = us ! a" using that by (simp add: ws nth_append)
      then show "us ! a = log ! (m + a)" using len by simp
    qed
    have "x \<in> set us" using False us assms(4) by auto
    then obtain a where a: "a < length us" "us ! a = x" by (metis in_set_conv_nth)
    with nth [OF a(1)] i assms(7) have ia: "i \<le> m + a" by (intro order) simp_all
    show ?thesis
    proof (cases "i < n")
      case True
      with i assms(6) have "e \<in> set ?A" by (auto simp: in_set_conv_nth)
      then show ?thesis by (simp add: us)
    next
      case False
      then have "i - m < length us" "m + (i - m) = i" using assms(2) ia a(1) by simp_all
      then have "e \<in> set us" using nth(1) [of "i - m"] i(2) by (metis nth_mem)
      then show ?thesis by (simp add: us)
    qed
  qed
qed

lemma foldl_max_mem: "foldl max (c :: int) xs = c \<or> foldl max c xs \<in> set xs"
proof (induction xs arbitrary: c)
  case (Cons x xs)
  from Cons [of "max c x"] show ?case by (auto simp: max_def split: if_splits)
qed simp

lemma foldl_max_ge: "(c :: int) \<le> foldl max c xs"
proof (induction xs arbitrary: c)
  case (Cons x xs)
  from Cons [of "max c x"] show ?case by simp
qed simp

text \<open>One connection: what it delivers, and where it leaves the cursor.\<close>

lemma connection_gapless:
  assumes "writes_sse lib" and "keeps_text lossy" and "sorted_wrt (<) (map e_id log)"
    and "\<forall>e \<in> set log. in_i64 (e_id e)" and "serves lib note log c chunks"
  obtains c' where "foldl advance_cursor (Some c) (fst (push_chunks lossy new_parser chunks)) = Some c'" "c \<le> c'"
    "\<forall>e \<in> set log. c < e_id e \<longrightarrow> e_id e \<le> c' \<longrightarrow>
       received_as note (PEvent e) \<in> set (fst (push_chunks lossy new_parser chunks))"
proof -
  obtain d rs items n m k where s: "m \<le> n" "tables_wf d"
    "filter (\<lambda>e. c < e_id e) (events d) = filter (\<lambda>e. c < e_id e) (take n log)"
    "int (length (filter (\<lambda>e. c < e_id e) (events d))) \<le> EVENT_REPLAY_LIMIT"
    "published (follow_live LagEnd rs) = take k (drop m log)"
    "carried items = resumable (Some d) (Some c) EVENT_REPLAY_LIMIT LagEnd rs"
    "\<forall>p \<in> set (carried items). encodable note p" "prefix (concat chunks) (sse_body lib note items)"
    using assms(5) unfolding serves_def by blast
  have "events_after d c EVENT_REPLAY_LIMIT = filter (\<lambda>e. c < e_id e) (take n log)"
    using s(2-4) by (simp add: events_after_sorted EVENT_REPLAY_LIMIT_def)
  then have all: "published (carried items) = filter (\<lambda>e. c < e_id e) (take n log) @ take k (drop m log)"
    by (simp add: s(5,6) resumable_def)
  from sse_roundtrip [OF assms(1,2) s(7,8)]
  obtain j where recv: "fst (push_chunks lossy new_parser chunks) = map (received_as note) (take j (carried items))"
    by (metis prefix_def append_eq_conv_conj take_map)
  let ?xs = "published (take j (carried items))"
  have pre: "prefix ?xs (filter (\<lambda>e. c < e_id e) (take n log) @ take k (drop m log))"
    unfolding all [symmetric] by (metis append_take_drop_id prefixI published_append)
  have "set ?xs \<subseteq> set log"
    using set_mono_prefix [OF pre] by (auto dest: in_set_takeD in_set_dropD)
  then have range: "\<forall>e \<in> set ?xs. in_i64 (e_id e)" using assms(4) by blast
  let ?c = "foldl max c (map e_id ?xs)"
  show ?thesis
  proof (rule that [of ?c])
    show "foldl advance_cursor (Some c) (fst (push_chunks lossy new_parser chunks)) = Some ?c"
      unfolding recv by (rule advance_received [OF range])
    show "c \<le> ?c" by (rule foldl_max_ge)
    show "\<forall>e \<in> set log. c < e_id e \<longrightarrow> e_id e \<le> ?c \<longrightarrow>
        received_as note (PEvent e) \<in> set (fst (push_chunks lossy new_parser chunks))"
    proof (intro ballI impI)
      fix e assume e: "e \<in> set log" "c < e_id e" "e_id e \<le> ?c"
      with foldl_max_mem [of c "map e_id ?xs"] obtain x where "x \<in> set ?xs" "e_id e \<le> e_id x" by fastforce
      then have "e \<in> set ?xs" using window_gapless [OF assms(3) s(1) pre _ e(1,2)] by blast
      then show "received_as note (PEvent e) \<in> set (fst (push_chunks lossy new_parser chunks))"
        unfolding recv by (simp add: published_mem)
    qed
  qed
qed

text \<open>C33: over any number of connections that the network cuts anywhere, or refuses, the web client misses no
  durable event: every event after its first cursor and up to the cursor it holds at the end reached it, as
  long as every replay found at most 500 events behind the cursor and events are published in the order of
  the log.\<close>

theorem sse_never_skips:
  assumes "writes_sse lib" and "keeps_text lossy" and "sorted_wrt (<) (map e_id log)"
    and "\<forall>e \<in> set log. in_i64 (e_id e)"
    and "\<forall>w \<in> set ws. \<forall>c chunks. w (Some c) = Streamed chunks \<longrightarrow> serves lib note log c chunks"
    and "sse_run lossy attempt (Some c0) ws = (es, sts, last_cursor)"
  shows "\<exists>c. last_cursor = Some c \<and> c0 \<le> c \<and>
    (\<forall>e \<in> set log. c0 < e_id e \<longrightarrow> e_id e \<le> c \<longrightarrow> received_as note (PEvent e) \<in> set es)"
  using assms(5,6)
proof (induction ws arbitrary: attempt c0 es sts)
  case (Cons w ws)
  show ?case
  proof (cases "w (Some c0)")
    case (Streamed chunks)
    with Cons.prems(1) have "serves lib note log c0 chunks" by simp
    from connection_gapless [OF assms(1-4) this]
    obtain c1 where c1: "foldl advance_cursor (Some c0) (fst (push_chunks lossy new_parser chunks)) = Some c1" "c0 \<le> c1"
      "\<forall>e \<in> set log. c0 < e_id e \<longrightarrow> e_id e \<le> c1 \<longrightarrow>
         received_as note (PEvent e) \<in> set (fst (push_chunks lossy new_parser chunks))" by blast
    obtain es' sts' where r: "sse_run lossy (saturating_inc 0) (Some c1) ws = (es', sts', last_cursor)"
      "es = fst (push_chunks lossy new_parser chunks) @ es'"
      using Cons.prems(2) Streamed c1(1) by (auto simp: Let_def split: prod.splits)
    from Cons.IH [OF _ r(1)] Cons.prems(1) obtain c where c: "last_cursor = Some c" "c1 \<le> c"
      "\<forall>e \<in> set log. c1 < e_id e \<longrightarrow> e_id e \<le> c \<longrightarrow> received_as note (PEvent e) \<in> set es'" by auto
    have "received_as note (PEvent e) \<in> set es" if "e \<in> set log" "c0 < e_id e" "e_id e \<le> c" for e
      using that c1(3) c(3) r(2) by (cases "e_id e \<le> c1") auto
    with c c1(2) show ?thesis by auto
  next
    case Http401
    with Cons.prems(2) show ?thesis by auto
  next
    case StreamFailed
    then obtain es' sts' where "sse_run lossy (saturating_inc attempt) (Some c0) ws = (es', sts', last_cursor)" "es = es'"
      using Cons.prems(2) by (auto split: prod.splits)
    with Cons.IH Cons.prems(1) show ?thesis by auto
  qed
qed auto

text \<open>The pauses between attempts: a second at first, doubling, and at most half a minute.\<close>

lemma delay_exact:
  "unat (delay_ms default_backoff attempt) = min (1000 * 2 ^ unat (min attempt 20)) 30000"
proof -
  let ?k = "unat (min attempt 20)"
  have k: "?k \<le> 20" using min.cobounded2 [of attempt 20] by (simp add: word_le_nat_alt)
  then obtain f where "checked_shl 1 ?k = Some f" "unat f = 2 ^ ?k" using unat_checked_shl_1 [of ?k] by auto
  then have "unat (push_bit ?k 1 :: 64 word) = 2 ^ ?k" using k by (simp add: checked_shl_def)
  then show ?thesis
    by (simp add: delay_ms_def default_backoff_def unat_min unat_saturating_mul)
qed

subsection \<open>Concrete instances\<close>

definition plain_sse :: sse_lib where
  "plain_sse = \<lparr>sl_named = (\<lambda>m d i. ''event: '' @ m @ nl # ''data: '' @ d @ nl # id_line i @ [nl]),
     sl_comment = (\<lambda>t i. '': '' @ t @ nl # id_line i @ [nl]), sl_keep_alive = '': keep-alive'' @ [nl, nl]\<rparr>"

definition plain_note :: "server_push \<Rightarrow> (string \<times> string) option" where
  "plain_note p = Some (''event'', ''{}'')"

lemma plain_ok: "writes_sse plain_sse" "keeps_text (\<lambda>s. s)" "encodable plain_note p"
proof -
  show "writes_sse plain_sse" by (simp add: writes_sse_def plain_sse_def)
  show "keeps_text (\<lambda>s. s)" by (simp add: keeps_text_def)
  have "clean ''event''" "clean ''{}''"
    using clean_prefix [OF _ _ _ clean_Nil, of "''event''"] clean_prefix [OF _ _ _ clean_Nil, of "''{}''"]
    by (simp_all add: is_ascii_def)
  then show "encodable plain_note p" by (simp add: encodable_def plain_note_def)
qed

definition two_items :: "server_push option list" where
  "two_items = [Some (PEvent (ev 1)), None, Some (PEvent (ev 2))]"

definition cut_body :: "string list" where
  "cut_body = (let b = sse_body plain_sse plain_note two_items in [take 9 b, drop 9 b])"

lemma cut_body_whole: "concat cut_body = sse_body plain_sse plain_note two_items"
  by (simp add: cut_body_def Let_def)

theorem sse_roundtrip_witness:
  "map ss_id (fst (push_chunks (\<lambda>s. s) new_parser cut_body)) = [Some ''1'', Some ''2'']"
proof -
  have "fst (push_chunks (\<lambda>s. s) new_parser cut_body) = map (received_as plain_note) (carried two_items)"
    using sse_roundtrip [OF plain_ok(1,2), of two_items plain_note cut_body] plain_ok(3) cut_body_whole by auto
  moreover have "int_str 1 = ''1''" "int_str 2 = ''2''" by code_simp+
  ultimately show ?thesis by (simp add: two_items_def received_as_def ev_def)
qed

definition one_answer :: "int option \<Rightarrow> sse_attempt" where
  "one_answer c = (if c = Some 0 then Streamed cut_body else StreamFailed)"

lemma one_answer_serves:
  "\<forall>w \<in> set [one_answer]. \<forall>c chunks. w (Some c) = Streamed chunks \<longrightarrow> serves plain_sse plain_note [ev 1, ev 2] c chunks"
proof -
  have "tables_wf (log_db [1, 2])" by (rule log_db_wf) simp_all
  moreover have "filter (\<lambda>e. 0 < e_id e) (events (log_db [1, 2])) = [ev 1, ev 2]" by (simp add: log_db_def ev_def)
  ultimately have "serves plain_sse plain_note [ev 1, ev 2] 0 cut_body"
    unfolding serves_def
    by (intro exI [of _ "log_db [1, 2]"] exI [of _ "[]"] exI [of _ two_items] exI [of _ 2] exI [of _ 2] exI [of _ 0])
      (use events_after_sorted [of "log_db [1, 2]" EVENT_REPLAY_LIMIT 0] plain_ok(3) cut_body_whole in
        \<open>simp add: resumable_def two_items_def EVENT_REPLAY_LIMIT_def ev_def\<close>)
  then show ?thesis by (auto simp: one_answer_def split: if_splits)
qed

theorem sse_never_skips_witness:
  "received_as plain_note (PEvent (ev 1)) \<in> set (fst (sse_run (\<lambda>s. s) 0 (Some 0) [one_answer]))"
proof -
  obtain es sts c where r: "sse_run (\<lambda>s. s) 0 (Some 0) [one_answer] = (es, sts, c)" using prod_cases3 by blast
  have "fst (push_chunks (\<lambda>s. s) new_parser cut_body) = map (received_as plain_note) (carried two_items)"
    using sse_roundtrip [OF plain_ok(1,2), of two_items plain_note cut_body] plain_ok(3) cut_body_whole by auto
  then have "foldl advance_cursor (Some 0) (fst (push_chunks (\<lambda>s. s) new_parser cut_body)) = Some 2"
    using advance_received [of "carried two_items" 0 plain_note] by (simp add: two_items_def ev_def in_i64_def)
  then have "c = Some 2" using r by (auto simp: one_answer_def Let_def)
  moreover have "\<forall>e \<in> set [ev 1, ev 2]. in_i64 (e_id e)" by (simp add: ev_def in_i64_def)
  moreover have "sorted_wrt (<) (map e_id [ev 1, ev 2])" by (simp add: ev_def)
  ultimately show ?thesis
    using sse_never_skips [OF plain_ok(1,2) _ _ one_answer_serves r] r by (auto simp: ev_def)
qed

end
