(* ===== verification/WebClient.thy ===== *)
theory WebClient
  imports Sse Sessions
begin

text \<open>
  What the web client keeps, \<open>web/src/state.rs\<close>, \<open>web/src/notifications.rs\<close>, \<open>web/src/config.rs\<close> and the
  handlers of \<open>web/src/app.rs\<close>: the cache of tasks and events, the agent feed of each task, the resume cursor
  and when it is written to storage, and the notifications an event raises.

  Decoding JSON into the typed structs is \<open>serde\<close>: the record \<open>web_lib\<close>.  Signals, rendering and the platform's
  notification call are not modelled; \<open>wa_shown\<close> lists the notifications handed to the platform.
\<close>

subsection \<open>Addresses\<close>

definition normalize_base :: "string \<Rightarrow> string" where
  "normalize_base base = rev (dropWhile (\<lambda>c. c = CHR ''/'') (rev (trim base)))"

definition url_for :: "string \<Rightarrow> string \<Rightarrow> string" where
  "url_for base path = (let base = normalize_base base in if base = [] then path else base @ path)"

definition validate_daemon_url :: "string \<Rightarrow> string + string" where
  "validate_daemon_url input =
     (let url = normalize_base input
      in if url = [] then Inl ''Enter the daemon address''
         else (case (case strip_prefix ''http://'' url of Some r \<Rightarrow> Some r | None \<Rightarrow> strip_prefix ''https://'' url) of
             None \<Rightarrow> Inl ''Address must start with http:// or https://''
           | Some rest \<Rightarrow>
               if rest = [] \<or> (\<exists>i \<in> set [0..<length rest]. strip_one ws_encs (drop i rest) \<noteq> None)
               then Inl ''Enter a valid daemon address'' else Inr url))"

datatype onboarding_step = StepDaemonUrl | StepPairing | StepReady

definition onboarding_step :: "bool \<Rightarrow> string \<Rightarrow> string option \<Rightarrow> onboarding_step" where
  "onboarding_step require_daemon_url daemon_url token =
     (if require_daemon_url \<and> trim daemon_url = [] then StepDaemonUrl
      else if (case token of None \<Rightarrow> True | Some t \<Rightarrow> trim t = []) then StepPairing
      else StepReady)"

subsection \<open>Repositories\<close>

definition repo_in_scope :: "string option \<Rightarrow> string option \<Rightarrow> bool" where
  "repo_in_scope active repo = (case active of Some a \<Rightarrow> repo = Some a | None \<Rightarrow> True)"

definition catalog_in_scope :: "string option \<Rightarrow> string option \<Rightarrow> bool" where
  "catalog_in_scope active repo = (case active of Some a \<Rightarrow> repo = Some a \<or> repo = None | None \<Rightarrow> True)"

definition task_repo :: "string \<Rightarrow> string option" where
  "task_repo name = (case strip_prefix REPO_PREFIX name of
     None \<Rightarrow> None
   | Some rest \<Rightarrow> (case split_once CHR ''/'' rest of
       None \<Rightarrow> None
     | Some (repo, rel) \<Rightarrow> if repo = [] \<or> rel = [] then None else Some repo))"

definition task_display_name :: "string \<Rightarrow> string" where
  "task_display_name name = (case task_repo name of
     Some _ \<Rightarrow> (case Option.bind (strip_prefix REPO_PREFIX name) (split_once CHR ''/'') of
         Some (_, rel) \<Rightarrow> rel | None \<Rightarrow> name)
   | None \<Rightarrow> name)"

subsection \<open>The feed of a task\<close>

definition WEB_FEED_CAP :: nat where "WEB_FEED_CAP = 500"
definition EVENT_CAP :: nat where "EVENT_CAP = 500"

text \<open>What the \<open>drain\<close> of the excess leaves.\<close>

definition keep_newest :: "nat \<Rightarrow> 'a list \<Rightarrow> 'a list" where
  "keep_newest cap xs = (if length xs > cap then drop (length xs - cap) xs else xs)"

record task_feed =
  tf_session :: string
  tf_events :: "agent_push list"
  tf_last :: nat

definition new_feed :: task_feed where
  "new_feed = \<lparr>tf_session = [], tf_events = [], tf_last = 0\<rparr>"

definition feed_add :: "agent_push \<Rightarrow> task_feed \<Rightarrow> bool \<times> task_feed" where
  "feed_add e f =
     (let f = (if tf_session f \<noteq> [] \<and> tf_session f \<noteq> ap_session e then new_feed\<lparr>tf_session := ap_session e\<rparr>
               else if tf_session f = [] then f\<lparr>tf_session := ap_session e\<rparr> else f)
      in if ap_seq e \<le> tf_last f then (False, f)
         else (True, f\<lparr>tf_last := ap_seq e, tf_events := keep_newest WEB_FEED_CAP (tf_events f @ [e])\<rparr>))"

text \<open>\<open>dedup_by_key\<close>: of neighbours with the same key the first stays.\<close>

fun dedup_key :: "('a \<Rightarrow> 'k) \<Rightarrow> 'a list \<Rightarrow> 'a list" where
  "dedup_key k (x # y # xs) = (if k x = k y then dedup_key k (x # xs) else x # dedup_key k (y # xs))"
| "dedup_key k xs = xs"

definition feed_merge :: "task_feed \<Rightarrow> task_feed \<Rightarrow> task_feed" where
  "feed_merge window f =
     (if tf_session window = [] then f
      else if tf_session f \<noteq> tf_session window then window
      else
        (let evs = fold (\<lambda>e evs. if \<exists>seen \<in> set evs. ap_seq seen = ap_seq e then evs else evs @ [e])
               (tf_events window) (tf_events f);
             evs = keep_newest WEB_FEED_CAP (dedup_key ap_seq (sort_key ap_seq evs))
         in f\<lparr>tf_events := evs, tf_last := max (if evs = [] then tf_last f else ap_seq (last evs)) (tf_last f)\<rparr>))"

subsection \<open>The cache\<close>

record catalog_entry =
  ce_name :: string
  ce_rest :: json

record web_cache =
  wc_tasks :: "uuid \<rightharpoonup> task"
  wc_events :: "event list"
  wc_catalog :: "catalog_entry list"
  wc_repos :: "json list"
  wc_active :: "string option"
  wc_cursor :: "int option"
  wc_feeds :: "uuid \<rightharpoonup> task_feed"

definition new_cache :: web_cache where
  "new_cache = \<lparr>wc_tasks = Map.empty, wc_events = [], wc_catalog = [], wc_repos = [], wc_active = None,
     wc_cursor = None, wc_feeds = Map.empty\<rparr>"

definition upsert_task :: "task \<Rightarrow> web_cache \<Rightarrow> web_cache" where
  "upsert_task t c = c\<lparr>wc_tasks := (wc_tasks c)(t_id t \<mapsto> t)\<rparr>"

definition set_tasks :: "task list \<Rightarrow> web_cache \<Rightarrow> web_cache" where
  "set_tasks ts c = c\<lparr>wc_tasks := fold (\<lambda>t m. m(t_id t \<mapsto> t)) ts Map.empty\<rparr>"

text \<open>
  \<open>binary_search_by_key\<close> on the events, which are sorted (\<open>cache_keeps_newest\<close>): the slot is behind the smaller
  ids.
\<close>

definition event_slot :: "int \<Rightarrow> event list \<Rightarrow> nat" where
  "event_slot i evs = length (takeWhile (\<lambda>x. e_id x < i) evs)"

definition push_event :: "event \<Rightarrow> web_cache \<Rightarrow> web_cache" where
  "push_event e c =
     (let i = e_id e;
          evs = wc_events c;
          k = event_slot i evs;
          evs = (if evs \<noteq> [] \<and> e_id (last evs) < i then evs @ [e]
                 else if evs \<noteq> [] \<and> e_id (last evs) = i then butlast evs @ [e]
                 else if k < length evs \<and> e_id (evs ! k) = i then evs[k := e]
                 else take k evs @ e # drop k evs)
      in c\<lparr>wc_events := keep_newest EVENT_CAP evs,
           wc_cursor := Some (case wc_cursor c of None \<Rightarrow> i | Some n \<Rightarrow> max n i)\<rparr>)"

record web_lib =
  wl_event_text :: "string \<Rightarrow> event option"
  wl_json :: "string \<Rightarrow> json option"
  wl_event :: "json \<Rightarrow> event option"
  wl_task :: "json \<Rightarrow> task option"
  wl_push :: "json \<Rightarrow> agent_push option"
  wl_uuid :: "string \<Rightarrow> uuid option"

definition upsert_feed_event :: "web_lib \<Rightarrow> agent_push \<Rightarrow> web_cache \<Rightarrow> bool \<times> web_cache" where
  "upsert_feed_event lib e c = (case Option.bind (ap_task e) (wl_uuid lib) of
     None \<Rightarrow> (False, c)
   | Some task \<Rightarrow>
       (let (changed, f) = feed_add e (case wc_feeds c task of Some f \<Rightarrow> f | None \<Rightarrow> new_feed)
        in (changed, c\<lparr>wc_feeds := (wc_feeds c)(task \<mapsto> f)\<rparr>)))"

definition set_feed :: "uuid \<Rightarrow> task_feed \<Rightarrow> web_cache \<Rightarrow> web_cache" where
  "set_feed task window c = c\<lparr>wc_feeds := (wc_feeds c)(task \<mapsto>
     feed_merge window (case wc_feeds c task of Some f \<Rightarrow> f | None \<Rightarrow> new_feed))\<rparr>"

definition apply_push :: "web_lib \<Rightarrow> string \<Rightarrow> json \<Rightarrow> web_cache \<Rightarrow> bool \<times> web_cache" where
  "apply_push lib method params c =
     (if method = ''event'' then
        (case wl_event lib params of Some e \<Rightarrow> (True, push_event e c) | None \<Rightarrow> (False, c))
      else if method = ''task.updated'' then
        (case wl_task lib params of Some t \<Rightarrow> (True, upsert_task t c) | None \<Rightarrow> (False, c))
      else if method = ''agent.event'' then
        (case wl_push lib params of Some e \<Rightarrow> upsert_feed_event lib e c | None \<Rightarrow> (False, c))
      else (False, c))"

definition store_repos :: "json list \<Rightarrow> string option \<Rightarrow> web_cache \<Rightarrow> web_cache" where
  "store_repos rs active c = c\<lparr>wc_repos := rs, wc_active := active\<rparr>"

definition set_catalog :: "catalog_entry list \<Rightarrow> web_cache \<Rightarrow> web_cache" where
  "set_catalog es c = c\<lparr>wc_catalog := es\<rparr>"

definition cached_entry :: "web_cache \<Rightarrow> string \<Rightarrow> catalog_entry option" where
  "cached_entry c name = List.find (\<lambda>e. ce_name e = name) (wc_catalog c)"

definition event_repo :: "web_lib \<Rightarrow> web_cache \<Rightarrow> event \<Rightarrow> string option" where
  "event_repo lib c e = (case Option.bind (jget (e_payload e) ''name'') as_str of
     Some name \<Rightarrow> task_repo name
   | None \<Rightarrow> Option.bind (Option.bind (Option.bind (Option.bind (jget (e_payload e) ''task_id'') as_str) (wl_uuid lib))
       (wc_tasks c)) (\<lambda>t. task_repo (t_name t)))"

definition visible_tasks :: "web_cache \<Rightarrow> task set" where
  "visible_tasks c = {t \<in> ran (wc_tasks c). repo_in_scope (wc_active c) (task_repo (t_name t))}"

definition visible_events :: "web_lib \<Rightarrow> web_cache \<Rightarrow> event list" where
  "visible_events lib c = filter (\<lambda>e. repo_in_scope (wc_active c) (event_repo lib c e)) (wc_events c)"

subsection \<open>Notifications\<close>

datatype permission = NotRequested | Granted | Denied

definition permission_str :: "permission \<Rightarrow> string" where
  "permission_str p = (case p of NotRequested \<Rightarrow> ''not_requested'' | Granted \<Rightarrow> ''granted'' | Denied \<Rightarrow> ''denied'')"

definition parse_permission :: "string \<Rightarrow> permission" where
  "parse_permission raw = (if raw = ''granted'' then Granted else if raw = ''denied'' then Denied else NotRequested)"

datatype notification_event = NotifyAwaiting | NotifyFinished

definition ALL_NOTIFICATIONS :: "notification_event list" where
  "ALL_NOTIFICATIONS = [NotifyAwaiting, NotifyFinished]"

definition notification_key :: "notification_event \<Rightarrow> string" where
  "notification_key n = (case n of NotifyAwaiting \<Rightarrow> ''task_awaiting_input'' | NotifyFinished \<Rightarrow> ''task_finished'')"

definition notification_of_kind :: "event_kind \<Rightarrow> notification_event option" where
  "notification_of_kind k = (case k of
     EvTaskAwaitingInput \<Rightarrow> Some NotifyAwaiting | EvTaskFinished \<Rightarrow> Some NotifyFinished | _ \<Rightarrow> None)"

definition parse_notification :: "string \<Rightarrow> notification_event option" where
  "parse_notification raw = List.find (\<lambda>n. notification_key n = raw) ALL_NOTIFICATIONS"

record notification_events =
  ne_awaiting :: bool
  ne_finished :: bool

definition default_notifications :: notification_events where
  "default_notifications = \<lparr>ne_awaiting = True, ne_finished = False\<rparr>"

definition notifies :: "notification_events \<Rightarrow> notification_event \<Rightarrow> bool" where
  "notifies s n = (case n of NotifyAwaiting \<Rightarrow> ne_awaiting s | NotifyFinished \<Rightarrow> ne_finished s)"

definition set_notification :: "notification_event \<Rightarrow> bool \<Rightarrow> notification_events \<Rightarrow> notification_events" where
  "set_notification n on s = (case n of NotifyAwaiting \<Rightarrow> s\<lparr>ne_awaiting := on\<rparr> | NotifyFinished \<Rightarrow> s\<lparr>ne_finished := on\<rparr>)"

definition subscribes :: "notification_events \<Rightarrow> event_kind \<Rightarrow> bool" where
  "subscribes s k = (case notification_of_kind k of Some n \<Rightarrow> notifies s n | None \<Rightarrow> False)"

definition notifications_str :: "notification_events \<Rightarrow> string" where
  "notifications_str s =
     (let keys = map notification_key (filter (notifies s) ALL_NOTIFICATIONS)
      in if keys = [] then ''none'' else join '','' keys)"

definition parse_notifications :: "string \<Rightarrow> notification_events" where
  "parse_notifications raw = fold (\<lambda>tok s. case parse_notification (trim tok) of
       Some n \<Rightarrow> set_notification n True s | None \<Rightarrow> s)
     (split_on CHR '','' raw) \<lparr>ne_awaiting = False, ne_finished = False\<rparr>"

text \<open>FNV-1a, with the sign bit cleared.\<close>

definition notification_id :: "string \<Rightarrow> 32 word" where
  "notification_id task_id =
     Bit_Operations.and (fold (\<lambda>b h. Bit_Operations.xor h (of_char b) * 0x01000193) task_id 0x811c9dc5) 0x7fffffff"

record alert =
  al_title :: string
  al_body :: string
  al_task :: string

definition payload_str :: "event \<Rightarrow> string \<Rightarrow> string option" where
  "payload_str e key = Option.bind (jget (e_payload e) key) as_str"

definition awaiting_alert :: "event \<Rightarrow> alert option" where
  "awaiting_alert e = map_option (\<lambda>tid.
     \<lparr>al_title = task_display_name (case payload_str e ''name'' of Some n \<Rightarrow> n | None \<Rightarrow> ''task'') @ '' needs input'',
      al_body = (case Option.bind (Option.bind (jget (e_payload e) ''reason'') (\<lambda>r. jget r ''message'')) as_str of
        Some m \<Rightarrow> m | None \<Rightarrow> ''needs your input''),
      al_task = tid\<rparr>) (payload_str e ''task_id'')"

definition finished_alert :: "event \<Rightarrow> alert option" where
  "finished_alert e = map_option (\<lambda>tid.
     (let name = task_display_name (case payload_str e ''name'' of Some n \<Rightarrow> n | None \<Rightarrow> ''task'');
          failed = (Option.bind (jget (e_payload e) ''success'') as_bool = Some False);
          summary = (case payload_str e ''summary'' of Some s \<Rightarrow> if s = [] then None else Some s | None \<Rightarrow> None)
      in \<lparr>al_title = name @ (if failed then '' failed'' else '' finished''),
          al_body = (case summary of Some s \<Rightarrow> s | None \<Rightarrow> if failed then ''finished with an error'' else ''finished''),
          al_task = tid\<rparr>)) (payload_str e ''task_id'')"

definition alert_for :: "event \<Rightarrow> alert option" where
  "alert_for e = (case e_kind e of
     EvTaskAwaitingInput \<Rightarrow> awaiting_alert e | EvTaskFinished \<Rightarrow> finished_alert e | _ \<Rightarrow> None)"

definition should_notify :: "permission \<Rightarrow> bool \<Rightarrow> bool" where
  "should_notify p hidden \<longleftrightarrow> p = Granted \<and> \<not> hidden"

subsection \<open>The stored cursor\<close>

definition CURSOR_FLUSH_INTERVAL_MS :: nat where "CURSOR_FLUSH_INTERVAL_MS = 1000"
definition CURSOR_KEY :: string where "CURSOR_KEY = ''favetto.event_cursor''"

record cursor_throttle =
  ct_last_flush :: "nat option"
  ct_flushed :: "int option"

definition new_throttle :: cursor_throttle where
  "new_throttle = \<lparr>ct_last_flush = None, ct_flushed = None\<rparr>"

definition should_flush :: "int \<Rightarrow> nat \<Rightarrow> cursor_throttle \<Rightarrow> bool \<times> cursor_throttle" where
  "should_flush cursor now t =
     (if ct_flushed t = Some cursor then (False, t)
      else if (case ct_last_flush t of Some l \<Rightarrow> now - l \<ge> CURSOR_FLUSH_INTERVAL_MS | None \<Rightarrow> True)
      then (True, t\<lparr>ct_last_flush := Some now, ct_flushed := Some cursor\<rparr>)
      else (False, t))"

subsection \<open>The application\<close>

text \<open>\<open>wa_asking\<close>: the alerts whose task waits for the user's answer to the permission request.\<close>

record web_app =
  wa_cache :: web_cache
  wa_throttle :: cursor_throttle
  wa_store :: "string \<rightharpoonup> string"
  wa_catalog_version :: nat
  wa_schedules_version :: nat
  wa_permission :: permission
  wa_wants :: notification_events
  wa_asking :: "alert list"
  wa_shown :: "alert list"

definition load_cursor :: "(string \<rightharpoonup> string) \<Rightarrow> int option" where
  "load_cursor store = Option.bind (store CURSOR_KEY) (\<lambda>v. parse_i64 (trim v))"

definition new_app :: "(string \<rightharpoonup> string) \<Rightarrow> permission \<Rightarrow> notification_events \<Rightarrow> web_app" where
  "new_app store p wants = \<lparr>wa_cache = new_cache\<lparr>wc_cursor := load_cursor store\<rparr>, wa_throttle = new_throttle,
     wa_store = store, wa_catalog_version = 0, wa_schedules_version = 0, wa_permission = p, wa_wants = wants,
     wa_asking = [], wa_shown = []\<rparr>"

definition set_cursor :: "nat \<Rightarrow> int \<Rightarrow> web_app \<Rightarrow> web_app" where
  "set_cursor now cursor a =
     (let (due, t) = should_flush cursor now (wa_throttle a);
          a = a\<lparr>wa_cache := (wa_cache a)\<lparr>wc_cursor := Some cursor\<rparr>, wa_throttle := t\<rparr>
      in if due then a\<lparr>wa_store := (wa_store a)(CURSOR_KEY \<mapsto> int_str cursor)\<rparr> else a)"

definition dispatch_alert :: "bool \<Rightarrow> event \<Rightarrow> web_app \<Rightarrow> web_app" where
  "dispatch_alert hidden e a =
     (if \<not> subscribes (wa_wants a) (e_kind e) then a
      else case alert_for e of
        None \<Rightarrow> a
      | Some al \<Rightarrow>
          if wa_permission a = NotRequested then a\<lparr>wa_asking := wa_asking a @ [al]\<rparr>
          else if should_notify (wa_permission a) hidden then a\<lparr>wa_shown := wa_shown a @ [al]\<rparr>
          else a)"

text \<open>The rest of the spawned task, when the user has answered.\<close>

definition permission_answered :: "permission \<Rightarrow> bool \<Rightarrow> alert \<Rightarrow> web_app \<Rightarrow> web_app" where
  "permission_answered answer hidden al a =
     (let a = a\<lparr>wa_permission := answer, wa_asking := remove1 al (wa_asking a)\<rparr>
      in if should_notify answer hidden then a\<lparr>wa_shown := wa_shown a @ [al]\<rparr> else a)"

definition web_apply_event :: "web_lib \<Rightarrow> nat \<Rightarrow> bool \<Rightarrow> sse_event \<Rightarrow> web_app \<Rightarrow> web_app" where
  "web_apply_event lib now hidden f a =
     (let a = (case sse_cursor f of Some c \<Rightarrow> set_cursor now c a | None \<Rightarrow> a);
          method = (case ss_event f of Some m \<Rightarrow> m | None \<Rightarrow> ''event'');
          a = (if method = ''catalog.updated'' then a\<lparr>wa_catalog_version := wa_catalog_version a + 1\<rparr> else a)
      in if method = ''event'' then
           (case wl_event_text lib (ss_data f) of
              None \<Rightarrow> a
            | Some e \<Rightarrow>
                (let a = (if e_kind e = EvCronTick then a\<lparr>wa_schedules_version := wa_schedules_version a + 1\<rparr> else a);
                     a = dispatch_alert hidden e a
                 in a\<lparr>wa_cache := push_event e (wa_cache a)\<rparr>))
         else (case wl_json lib (ss_data f) of
              None \<Rightarrow> a
            | Some params \<Rightarrow> a\<lparr>wa_cache := snd (apply_push lib method params (wa_cache a))\<rparr>))"

subsection \<open>The cache keeps the newest events\<close>

lemma keep_newest_drop: "keep_newest cap xs = drop (length xs - cap) xs"
  by (simp add: keep_newest_def)

lemma keep_newest_append: "keep_newest cap (keep_newest cap xs @ ys) = keep_newest cap (xs @ ys)"
  by (cases "length xs \<le> cap") (auto simp: keep_newest_drop add.commute)

lemma keep_newest_map: "keep_newest cap (map f xs) = map f (keep_newest cap xs)"
  by (simp add: keep_newest_drop drop_map)

text \<open>The reference: insertion by key into a list sorted by key, where an equal key is replaced.\<close>

fun put_by :: "('a \<Rightarrow> 'k::linorder) \<Rightarrow> 'a \<Rightarrow> 'a list \<Rightarrow> 'a list" where
  "put_by k x [] = [x]"
| "put_by k x (y # ys) = (if k x < k y then x # y # ys else if k x = k y then x # ys else y # put_by k x ys)"

lemma put_by_keys: "k ` set (put_by k x xs) = insert (k x) (k ` set xs)"
  by (induction k x xs rule: put_by.induct) auto

lemma put_by_sorted: "sorted_wrt (<) (map k xs) \<Longrightarrow> sorted_wrt (<) (map k (put_by k x xs))"
proof (induction k x xs rule: put_by.induct)
  case (2 k x y ys)
  then show ?case using put_by_keys [of k x ys] by auto
qed simp

lemma put_by_append:
  "sorted_wrt (<) (map k (xs @ y # ys)) \<Longrightarrow>
     put_by k x (xs @ y # ys) = (if k x < k y then put_by k x xs @ y # ys else xs @ put_by k x (y # ys))"
  by (induction xs) auto

lemma put_by_length: "length xs \<le> length (put_by k x xs)" "length (put_by k x xs) \<le> Suc (length xs)"
  by (induction k x xs rule: put_by.induct) auto

lemma put_by_keep_newest:
  assumes "sorted_wrt (<) (map k xs)"
  shows "keep_newest cap (put_by k x (keep_newest cap xs)) = keep_newest cap (put_by k x xs)"
proof (cases "length xs \<le> cap \<or> cap = 0")
  case False
  define n where "n = length xs - cap"
  obtain z zs where z: "drop n xs = z # zs" using False by (cases "drop n xs") (auto simp: n_def)
  have len: "length (z # zs) = cap" using False unfolding z [symmetric] by (simp add: n_def)
  have xs: "xs = take n xs @ z # zs" using z by (metis append_take_drop_id)
  have srt: "sorted_wrt (<) (map k (take n xs @ z # zs))" using assms xs by simp
  have put: "put_by k x xs = (if k x < k z then put_by k x (take n xs) @ z # zs else take n xs @ put_by k x (z # zs))"
    using put_by_append [OF srt, of x] xs by simp
  have "keep_newest cap (ys @ z # zs) = z # zs" for ys using len by (simp add: keep_newest_drop)
  moreover have "keep_newest cap (x # z # zs) = z # zs" using len by (simp add: keep_newest_drop)
  moreover have "keep_newest cap (ys @ put_by k x (z # zs)) = keep_newest cap (put_by k x (z # zs))" for ys
    using put_by_length(1) [of "z # zs" k x] len by (simp add: keep_newest_drop)
  moreover have "keep_newest cap xs = z # zs" using z by (simp add: keep_newest_drop n_def)
  moreover have "put_by k x (z # zs) = x # z # zs" if "k x < k z" using that by simp
  ultimately show ?thesis using put by (cases "k x < k z") (simp_all del: put_by.simps)
qed (auto simp: keep_newest_drop)

lemma event_slot_put:
  assumes "sorted_wrt (<) (map e_id evs)"
  shows "(let k = event_slot (e_id e) evs in
      if k < length evs \<and> e_id (evs ! k) = e_id e then evs[k := e] else take k evs @ e # drop k evs) = put_by e_id e evs"
  using assms
proof (induction evs)
  case (Cons y ys)
  then show ?case by (auto simp: event_slot_def Let_def)
qed (simp add: event_slot_def)

lemma push_event_put:
  assumes "sorted_wrt (<) (map e_id (wc_events c))"
  shows "wc_events (push_event e c) = keep_newest EVENT_CAP (put_by e_id e (wc_events c))"
proof (cases "wc_events c" rule: rev_cases)
  case (snoc ys y)
  have "put_by e_id e (ys @ [y]) = ys @ [y, e]" if "e_id y < e_id e"
    using put_by_append [of e_id ys y "[]" e] assms that by (simp add: snoc)
  moreover have "put_by e_id e (ys @ [y]) = ys @ [e]" if "e_id y = e_id e"
    using put_by_append [of e_id ys y "[]" e] assms that by (simp add: snoc)
  ultimately show ?thesis
    using event_slot_put [OF assms, of e] by (auto simp: push_event_def Let_def snoc)
qed (simp add: push_event_def event_slot_def Let_def)

lemma put_by_map:
  "sorted_wrt (<) S \<Longrightarrow> \<forall>i \<in> set S. k (f i) = i \<Longrightarrow> put_by k x (map f S) = map (f(k x := x)) (put_by (\<lambda>i. i) (k x) S)"
  by (induction S) auto

lemma put_by_sorted_list: "finite A \<Longrightarrow> put_by (\<lambda>i. i) i (sorted_list_of_set A) = sorted_list_of_set (insert i A)"
proof -
  assume fin: "finite A"
  let ?xs = "put_by (\<lambda>i. i) i (sorted_list_of_set A)"
  have "sorted_wrt (<) ?xs" using put_by_sorted [of "\<lambda>i. i" "sorted_list_of_set A" i] by simp
  then have "sorted_list_of_set (set ?xs) = ?xs"
    by (intro sorted_list_of_set.idem_if_sorted_distinct) (auto simp: strict_sorted_iff)
  moreover have "set ?xs = insert i A" using put_by_keys [of "\<lambda>i. i" i "sorted_list_of_set A"] fin by simp
  ultimately show ?thesis by simp
qed

lemma fold_put_by:
  "fold (put_by e_id) es [] = map (\<lambda>i. last (filter (\<lambda>e. e_id e = i) es)) (sorted_list_of_set (e_id ` set es))"
proof (induction es rule: rev_induct)
  case (snoc e es)
  let ?f = "\<lambda>es i. last (filter (\<lambda>e. e_id e = i) es)" and ?S = "sorted_list_of_set (e_id ` set es)"
  have own: "\<forall>i \<in> set ?S. e_id (?f es i) = i"
  proof
    fix i assume "i \<in> set ?S"
    then have "filter (\<lambda>e. e_id e = i) es \<noteq> []" by (auto simp: filter_empty_conv)
    then show "e_id (?f es i) = i" using last_in_set by fastforce
  qed
  have "(?f es)(e_id e := e) = ?f (es @ [e])" by auto
  then show ?case
    using put_by_map [where k = e_id and f = "?f es" and S = ?S and x = e] own by (simp add: snoc put_by_sorted_list)
qed simp



subsection \<open>The feed converges to the session\<close>

lemma sorted_list_eqI:
  fixes xs :: "'a::linorder list"
  assumes "sorted_wrt (<) xs" and "set xs = A"
  shows "sorted_list_of_set A = xs"
  using assms sorted_list_of_set.idem_if_sorted_distinct [of xs] by (simp add: strict_sorted_iff)

text \<open>The \<open>k\<close>-th push of a session, and a feed that holds the pushes \<open>ks\<close>.\<close>

definition nth_push :: "'scr session \<Rightarrow> agent_event list \<Rightarrow> nat \<Rightarrow> agent_push" where
  "nth_push s evs k = feed_push s k (evs ! (k - 1))"

lemma nth_push_simps [simp]: "ap_session (nth_push s evs k) = se_id s" "ap_seq (nth_push s evs k) = k"
  by (simp_all add: nth_push_def feed_push_def)

lemma numbered_pushes: "map (\<lambda>(n, e). feed_push s n e) (numbered evs) = map (nth_push s evs) [1..<length evs + 1]"
proof -
  have "[1..<length evs + 1] = map Suc [0..<length evs]" by (simp add: map_Suc_upt)
  then show ?thesis
    unfolding numbered_def by (intro nth_equalityI) (simp_all add: nth_push_def del: upt_Suc)
qed

definition holding :: "'scr session \<Rightarrow> agent_event list \<Rightarrow> nat list \<Rightarrow> nat \<Rightarrow> task_feed" where
  "holding s evs ks l = \<lparr>tf_session = se_id s, tf_events = map (nth_push s evs) ks, tf_last = l\<rparr>"

definition feed_all :: "agent_push list \<Rightarrow> task_feed \<Rightarrow> task_feed" where
  "feed_all ps f = fold (\<lambda>e f. snd (feed_add e f)) ps f"

lemma feed_add_holding:
  "se_id s \<noteq> [] \<Longrightarrow> snd (feed_add (nth_push s evs k) (holding s evs ks l)) =
     (if k \<le> l then holding s evs ks l else holding s evs (keep_newest WEB_FEED_CAP (ks @ [k])) k)"
  using keep_newest_map [of WEB_FEED_CAP "nth_push s evs" "ks @ [k]"] by (simp add: feed_add_def holding_def)

lemma feed_all_holding:
  assumes "se_id s \<noteq> []" and "length ks \<le> WEB_FEED_CAP"
  shows "feed_all (map (nth_push s evs) [a..<b]) (holding s evs ks l) =
    holding s evs (keep_newest WEB_FEED_CAP (ks @ [max a (Suc l)..<b])) (if max a (Suc l) < b then b - 1 else l)"
proof (induction b)
  case 0
  then show ?case using assms by (simp add: feed_all_def keep_newest_def)
next
  case (Suc b)
  show ?case
  proof (cases "a \<le> b")
    case True
    then have "feed_all (map (nth_push s evs) [a..<Suc b]) (holding s evs ks l) =
        snd (feed_add (nth_push s evs b) (feed_all (map (nth_push s evs) [a..<b]) (holding s evs ks l)))"
      by (simp add: feed_all_def)
    with True show ?thesis
      by (auto simp: Suc feed_add_holding assms(1) keep_newest_append max_def)
  qed (use assms(2) in \<open>simp add: feed_all_def keep_newest_def\<close>)
qed

lemma dedup_key_strict: "sorted_wrt (<) (map k xs) \<Longrightarrow> dedup_key (k :: 'a \<Rightarrow> nat) xs = xs"
  by (induction k xs rule: dedup_key.induct) auto

lemma fold_unseen:
  "distinct ws \<Longrightarrow>
     fold (\<lambda>e evs. if \<exists>seen \<in> set evs. ap_seq seen = ap_seq e then evs else evs @ [e]) (map (nth_push s evs) ws)
       (map (nth_push s evs) ks) = map (nth_push s evs) (ks @ filter (\<lambda>w. w \<notin> set ks) ws)"
proof (induction ws arbitrary: ks)
  case (Cons w ws)
  show ?case
  proof (cases "w \<in> set ks")
    case False
    have "filter (\<lambda>x. x \<noteq> w \<and> x \<notin> set ks) ws = filter (\<lambda>x. x \<notin> set ks) ws" using Cons.prems by (auto intro: filter_cong)
    with False Cons.IH [of "ks @ [w]"] Cons.prems show ?thesis by simp
  qed (use Cons in \<open>simp add: rev_image_eqI\<close>)
qed simp

lemma sort_key_pushes: "sort_key ap_seq (map (nth_push s evs) xs) = map (nth_push s evs) (sort xs)"
proof -
  have "insort_key ap_seq (nth_push s evs x) (map (nth_push s evs) ys) = map (nth_push s evs) (insort x ys)" for x ys
    by (induction ys) simp_all
  then show ?thesis by (induction xs) simp_all
qed

lemma feed_merge_holding:
  assumes "se_id s \<noteq> []" and "distinct ks" and "distinct ws"
  shows "tf_events (feed_merge (holding s evs ws n) (holding s evs ks l)) =
      map (nth_push s evs) (keep_newest WEB_FEED_CAP (sorted_list_of_set (set ks \<union> set ws)))"
    and "tf_last (feed_merge (holding s evs ws n) (holding s evs ks l)) =
      (let us = keep_newest WEB_FEED_CAP (sorted_list_of_set (set ks \<union> set ws)) in max (if us = [] then l else last us) l)"
    and "tf_session (feed_merge (holding s evs ws n) (holding s evs ks l)) = se_id s"
proof -
  let ?zs = "ks @ filter (\<lambda>w. w \<notin> set ks) ws" and ?us = "sorted_list_of_set (set ks \<union> set ws)"
  have zs: "distinct ?zs" "set ?zs = set ks \<union> set ws" using assms(2,3) by auto
  then have "sort ?zs = ?us" by (metis distinct_remdups_id sorted_list_of_set_sort_remdups)
  moreover have "sorted_wrt (<) (map ap_seq (map (nth_push s evs) ?us))" by (simp add: comp_def)
  ultimately have evs: "dedup_key ap_seq (sort_key ap_seq (map (nth_push s evs) ?zs)) = map (nth_push s evs) ?us"
    by (simp add: sort_key_pushes dedup_key_strict del: map_append)
  show "tf_events (feed_merge (holding s evs ws n) (holding s evs ks l)) = map (nth_push s evs) (keep_newest WEB_FEED_CAP ?us)"
    using evs fold_unseen [OF assms(3), of s evs ks] assms(1)
    by (simp add: feed_merge_def holding_def Let_def keep_newest_map del: map_append)
  show "tf_last (feed_merge (holding s evs ws n) (holding s evs ks l)) =
      (let us = keep_newest WEB_FEED_CAP ?us in max (if us = [] then l else last us) l)"
    using evs fold_unseen [OF assms(3), of s evs ks] assms(1)
    by (simp add: feed_merge_def holding_def Let_def keep_newest_map last_map del: map_append)
  show "tf_session (feed_merge (holding s evs ws n) (holding s evs ks l)) = se_id s"
    by (simp add: feed_merge_def holding_def Let_def)
qed

lemma keep_newest_window:
  assumes "U \<subseteq> {1..T}" and "{Suc T - cap..T} - {0} \<subseteq> U"
  shows "keep_newest cap (sorted_list_of_set U) = keep_newest cap [1..<T + 1]"
proof (cases "T \<le> cap")
  case True
  then have "{1..T} \<subseteq> {Suc T - cap..T} - {0}" by auto
  then have "U = {1..T}" using assms by auto
  then have "sorted_list_of_set U = [1..<T + 1]" by (intro sorted_list_eqI) (auto simp del: upt_Suc)
  then show ?thesis by simp
next
  case False
  define A where "A = U \<inter> {..T - cap}"
  have fin: "finite U" using assms(1) finite_subset by blast
  have "sorted_list_of_set U = sorted_list_of_set A @ [Suc T - cap..<Suc T]"
  proof (rule sorted_list_eqI)
    show "sorted_wrt (<) (sorted_list_of_set A @ [Suc T - cap..<Suc T])"
      using fin False by (auto simp: sorted_wrt_append A_def)
    show "set (sorted_list_of_set A @ [Suc T - cap..<Suc T]) = U"
      using fin False assms by (auto simp: A_def)
  qed
  then show ?thesis using False by (simp add: keep_newest_drop Suc_diff_le)
qed

text \<open>\<open>tasks.events\<close> with its defaults, and the window the task view makes of the reply to its request.\<close>

definition tasks_events :: "'scr manager \<Rightarrow> uuid \<Rightarrow> nat option \<Rightarrow> nat option \<Rightarrow> string option \<times> agent_push list \<times> nat" where
  "tasks_events m task after limit = events_for_task m task (case after of Some a \<Rightarrow> a | None \<Rightarrow> 0)
     (min (case limit of Some l \<Rightarrow> l | None \<Rightarrow> 500) 2000)"

definition backfill :: "string option \<times> agent_push list \<times> nat \<Rightarrow> task_feed" where
  "backfill reply = \<lparr>tf_session = (case fst reply of Some sid \<Rightarrow> sid | None \<Rightarrow> []),
     tf_events = fst (snd reply), tf_last = snd (snd reply)\<rparr>"

lemma backfill_window:
  fixes m :: "'scr manager" and s :: "'scr session" and fadd :: "f64 \<Rightarrow> f64 \<Rightarrow> f64"
  assumes "latest_by_task m task = Some s" and "session_object m (se_id s) = Some s"
    and "se_feed s = []" and "se_next_seq s = 1"
  shows "backfill (tasks_events (fold (handle_state_event fadd (se_id s)) evs m) task None None) =
    holding s evs [length evs - WEB_FEED_CAP + 1..<length evs + 1] (length evs)"
proof -
  let ?s = "fold (state_event fadd) evs s" and ?n = "length evs"
  have ks: "map (\<lambda>(n, e). \<lparr>ap_session = se_id ?s, ap_task = se_task ?s, ap_seq = n, ap_event = e\<rparr>)
      (filter (\<lambda>(n, _). n > 0) (se_feed ?s)) = map (nth_push s evs) [?n - FEED_CAP + 1..<?n + 1]"
  proof -
    have "filter (\<lambda>(n, _). n > 0) (drop k (numbered evs)) = drop k (numbered evs)" for k
      using set_drop_subset [of k "numbered evs"] by (auto simp: filter_id_conv numbered_def set_zip)
    moreover have "(\<lambda>(n, e). \<lparr>ap_session = se_id ?s, ap_task = se_task ?s, ap_seq = n, ap_event = e\<rparr>) =
        (\<lambda>(n, e). feed_push s n e)" by (simp add: feed_push_def)
    ultimately show ?thesis
      using fold_state_event [OF assms(3,4), of fadd evs] numbered_pushes [of s evs]
      by (simp flip: drop_map del: upt_Suc) (simp add: drop_map drop_upt del: upt_Suc)
  qed
  have "length [?n - FEED_CAP + 1..<?n + 1] - 500 = min ?n FEED_CAP - 500" by (simp del: upt_Suc)
  moreover have "?n - FEED_CAP + 1 + (min ?n FEED_CAP - 500) = ?n - WEB_FEED_CAP + 1"
    by (simp add: FEED_CAP_def WEB_FEED_CAP_def min_def)
  then have "drop (min ?n FEED_CAP - 500) [?n - FEED_CAP + 1..<?n + 1] = [?n - WEB_FEED_CAP + 1..<?n + 1]"
    by (simp only: drop_upt)
  moreover have "?n - (?n - FEED_CAP) \<le> min ?n FEED_CAP - 500 \<longrightarrow> evs = []"
    by (cases evs) (auto simp: FEED_CAP_def min_def)
  ultimately have "tasks_events (fold (handle_state_event fadd (se_id s)) evs m) task None None =
      (Some (se_id s), map (nth_push s evs) [?n - WEB_FEED_CAP + 1..<?n + 1], ?n)"
    using fold_handle_state [OF assms, of fadd evs] ks
    by (simp add: tasks_events_def events_for_task_def Let_def drop_map last_map WEB_FEED_CAP_def del: upt_Suc)
  then show ?thesis by (simp add: backfill_def holding_def del: upt_Suc)
qed

lemma keep_newest_upt: "{max x (y - cap)..<y} \<subseteq> set (keep_newest cap (ks @ [x..<y]))"
proof (cases "cap \<le> y - x")
  case True
  then have "keep_newest cap (ks @ [x..<y]) = [x + (y - x - cap)..<y]" by (simp add: keep_newest_drop drop_upt)
  with True show ?thesis by auto
next
  case False
  then have "keep_newest cap (ks @ [x..<y]) = drop (length ks + (y - x) - cap) ks @ [x..<y]"
    by (simp add: keep_newest_drop)
  then show ?thesis by auto
qed

lemma set_keep_newest: "set (keep_newest cap xs) \<subseteq> set xs"
  by (simp add: keep_newest_drop set_drop_subset)

lemma distinct_keep_newest: "distinct xs \<Longrightarrow> distinct (keep_newest cap xs)"
  by (simp add: keep_newest_drop)

lemma merge_catches_up:
  assumes "se_id s \<noteq> []" and "distinct ks" and "set ks \<subseteq> {1..l}" and "l \<le> n" and "a \<le> n"
    and "length ks \<le> WEB_FEED_CAP"
  shows "feed_merge (holding s evs [n - WEB_FEED_CAP + 1..<n + 1] n)
      (feed_all (map (nth_push s evs) [a + 1..<b + 1]) (holding s evs ks l)) =
    holding s evs (keep_newest WEB_FEED_CAP [1..<max n b + 1]) (max n b)"
proof -
  define x where "x = max (a + 1) (Suc l)"
  define us where "us = keep_newest WEB_FEED_CAP (ks @ [x..<b + 1])"
  define L where "L = (if x < b + 1 then b else l)"
  define w where "w = [n - WEB_FEED_CAP + 1..<n + 1]"
  let ?T = "max n b"
  have f1: "feed_all (map (nth_push s evs) [a + 1..<b + 1]) (holding s evs ks l) = holding s evs us L"
    using feed_all_holding [OF assms(1,6), of evs "a + 1" "b + 1" l] by (simp add: us_def x_def L_def del: upt_Suc)
  have "distinct (ks @ [x..<b + 1])" using assms(2,3) by (auto simp: x_def)
  then have us: "distinct us" unfolding us_def by (rule distinct_keep_newest)
  have sub: "set us \<subseteq> {1..?T}"
    using set_keep_newest [of WEB_FEED_CAP "ks @ [x..<b + 1]"] assms(3,4) by (fastforce simp: us_def x_def)
  have U: "keep_newest WEB_FEED_CAP (sorted_list_of_set (set us \<union> set w)) = keep_newest WEB_FEED_CAP [1..<?T + 1]"
  proof (rule keep_newest_window)
    show "set us \<union> set w \<subseteq> {1..?T}" using sub by (auto simp: w_def)
    show "{Suc ?T - WEB_FEED_CAP..?T} - {0} \<subseteq> set us \<union> set w"
    proof
      fix k assume k: "k \<in> {Suc ?T - WEB_FEED_CAP..?T} - {0}"
      show "k \<in> set us \<union> set w"
      proof (cases "k \<le> n")
        case True
        with k show ?thesis by (auto simp: w_def)
      next
        case False
        with k assms(4,5) have "k \<in> {max x (b + 1 - WEB_FEED_CAP)..<b + 1}" by (auto simp: x_def)
        then show ?thesis using keep_newest_upt [of x "b + 1" WEB_FEED_CAP ks] by (auto simp: us_def)
      qed
    qed
  qed
  have dw: "distinct w" by (simp add: w_def)
  have "max (if keep_newest WEB_FEED_CAP [1..<?T + 1] = [] then L else last (keep_newest WEB_FEED_CAP [1..<?T + 1])) L = ?T"
    using assms(4) by (auto simp: keep_newest_drop WEB_FEED_CAP_def last_drop L_def x_def)
  moreover define merged where "merged = feed_merge (holding s evs w n) (holding s evs us L)"
  ultimately have "tf_events merged = map (nth_push s evs) (keep_newest WEB_FEED_CAP [1..<?T + 1])"
      "tf_last merged = ?T" "tf_session merged = se_id s"
    using feed_merge_holding [OF assms(1) us dw, of evs n L] unfolding U Let_def by simp_all
  then have "merged = holding s evs (keep_newest WEB_FEED_CAP [1..<?T + 1]) ?T" by (simp add: holding_def)
  then show ?thesis unfolding f1 merged_def w_def .
qed

text \<open>A feed from before the connection: of another session, or with some of the first events of this one.\<close>

definition earlier_feed :: "'scr session \<Rightarrow> agent_event list \<Rightarrow> task_feed \<Rightarrow> bool" where
  "earlier_feed s evs f \<longleftrightarrow> (tf_session f = [] \<longrightarrow> f = new_feed) \<and>
     (tf_session f = se_id s \<longrightarrow> (\<exists>ks l. f = holding s evs ks l \<and> distinct ks \<and> set ks \<subseteq> {1..l} \<and> l \<le> length evs \<and>
        length ks \<le> WEB_FEED_CAP))"

lemma holding_more: "set ks \<subseteq> {1..length evs} \<Longrightarrow> holding s (evs @ later) ks l = holding s evs ks l"
  by (auto simp: holding_def nth_push_def nth_append subset_iff Suc_le_eq)

lemma feed_all_other:
  assumes "se_id s \<noteq> []" and "tf_session f \<noteq> se_id s" and "tf_session f = [] \<longrightarrow> f = new_feed" and "ks \<noteq> []"
  shows "feed_all (map (nth_push s evs) ks) f = feed_all (map (nth_push s evs) ks) (holding s evs [] 0)"
  using assms by (cases ks) (auto simp: feed_all_def feed_add_def new_feed_def holding_def Let_def)

text \<open>C30: the agent feed of the web client converges to the session's: whatever the feed held before and whatever
  it missed, when a connection has delivered the pushes behind the \<open>a\<close>-th, with the reply of the daemon to
  the task view's request, computed after at least \<open>a\<close> events, merged in anywhere between them, the feed shows
  exactly the last 500 events of the session, each once and in order.\<close>

theorem feed_converges:
  fixes m :: "'scr manager" and s :: "'scr session" and fadd :: "f64 \<Rightarrow> f64 \<Rightarrow> f64" and f :: task_feed
    and evs later :: "agent_event list" and task :: string and a b :: nat
  assumes "latest_by_task m task = Some s" and "session_object m (se_id s) = Some s"
    and "se_feed s = []" and "se_next_seq s = 1" and "se_id s \<noteq> []" and "earlier_feed s evs f"
    and "a \<le> length evs" and "a \<le> b" and "b \<le> length (evs @ later)"
  defines "m1 \<equiv> fold (handle_state_event fadd (se_id s)) evs m"
  defines "m2 \<equiv> fold (handle_state_event fadd (se_id s)) later m1"
  defines "pushes \<equiv> drop (length (mg_pushes m)) (mg_pushes m2)"
  defines "window \<equiv> backfill (tasks_events m1 task None None)"
  shows "tf_events (feed_all (drop b pushes) (feed_merge window (feed_all (drop a (take b pushes)) f))) =
    keep_newest WEB_FEED_CAP pushes"
proof -
  let ?all = "evs @ later" and ?n = "length evs" and ?N = "length (evs @ later)"
  let ?P = "nth_push s ?all" and ?H = "holding s (evs @ later)" and ?w = "[?n - WEB_FEED_CAP + 1..<?n + 1]"
  have "mg_pushes m2 = mg_pushes m @ map (\<lambda>(n, e). feed_push s n e) (numbered ?all)"
    using fold_handle_state [OF assms(1-4), of fadd ?all] by (simp add: m1_def m2_def)
  then have pushes: "pushes = map ?P [1..<?N + 1]" using numbered_pushes [of s ?all] by (simp add: pushes_def)
  have split: "drop a (take b pushes) = map ?P [a + 1..<b + 1]" "drop b pushes = map ?P [b + 1..<?N + 1]"
    using assms(8,9) unfolding pushes by (simp_all add: take_map drop_map drop_upt take_upt del: upt_Suc)
  have "window = holding s evs ?w ?n" using backfill_window [OF assms(1-4), of fadd evs] by (simp add: window_def m1_def)
  moreover have "set ?w \<subseteq> {1..?n}" by auto
  ultimately have window: "window = ?H ?w ?n" by (simp only: holding_more)
  have "feed_merge window (feed_all (drop a (take b pushes)) f) = ?H (keep_newest WEB_FEED_CAP [1..<max ?n b + 1]) (max ?n b)"
  proof (cases "tf_session f = se_id s")
    case True
    then obtain ks l where f: "f = holding s evs ks l" "distinct ks" "set ks \<subseteq> {1..l}" "l \<le> ?n" "length ks \<le> WEB_FEED_CAP"
      using assms(6) by (auto simp: earlier_feed_def)
    then have "f = ?H ks l" using holding_more [of ks evs s later l] by fastforce
    then show ?thesis
      unfolding window split using merge_catches_up [OF assms(5) f(2-4) assms(7) f(5), of ?all b] by (simp del: upt_Suc)
  next
    case False
    show ?thesis
    proof (cases "a < b")
      case True
      then have "feed_all (drop a (take b pushes)) f = feed_all (drop a (take b pushes)) (?H [] 0)"
        unfolding split using assms(5,6) False by (intro feed_all_other) (auto simp: earlier_feed_def)
      then show ?thesis
        unfolding window split using merge_catches_up [OF assms(5) _ _ _ assms(7), of "[]" 0 ?all b] by (simp del: upt_Suc)
    next
      case same: False
      then have "feed_merge window (feed_all (drop a (take b pushes)) f) = window"
        unfolding window split using False assms(5) by (simp add: feed_merge_def feed_all_def holding_def del: upt_Suc)
      then show ?thesis using same assms(7,8) by (simp add: window keep_newest_drop drop_upt max_absorb1 del: upt_Suc)
    qed
  qed
  moreover have "length (keep_newest WEB_FEED_CAP [1..<max ?n b + 1]) \<le> WEB_FEED_CAP" by (simp add: keep_newest_drop)
  then have "feed_all (drop b pushes) (?H (keep_newest WEB_FEED_CAP [1..<max ?n b + 1]) (max ?n b)) =
      ?H (keep_newest WEB_FEED_CAP (keep_newest WEB_FEED_CAP [1..<max ?n b + 1] @ [max (b + 1) (Suc (max ?n b))..<?N + 1]))
        (if max (b + 1) (Suc (max ?n b)) < ?N + 1 then ?N else max ?n b)"
    unfolding split using feed_all_holding [OF assms(5)] by (simp del: upt_Suc)
  moreover have "[1..<max ?n b + 1] @ [max (b + 1) (Suc (max ?n b))..<?N + 1] = [1..<?N + 1]"
    using assms(9) upt_add_eq_append [of 1 "max ?n b + 1" "?N - max ?n b"] by (simp add: max_absorb2 del: upt_Suc)
  ultimately show ?thesis using pushes by (simp add: holding_def keep_newest_map keep_newest_append del: upt_Suc)
qed

text \<open>A backfill that was answered before a newer session of the task began replaces its live events.\<close>

theorem stale_backfill_drops_live:
  assumes "tf_session window \<noteq> []" and "tf_session window \<noteq> ap_session e"
  shows "feed_merge window (feed_all (es @ [e]) f) = window"
proof -
  have "tf_session (snd (feed_add e g)) = ap_session e" for g
    by (auto simp: feed_add_def Let_def)
  then show ?thesis using assms by (simp add: feed_merge_def feed_all_def)
qed

subsection \<open>The stored cursor\<close>

definition cursor_frames :: "(nat \<times> int) list \<Rightarrow> web_app \<Rightarrow> web_app" where
  "cursor_frames fs a = fold (\<lambda>(now, c). set_cursor now c) fs a"

fun cursor_writes :: "(nat \<times> int) list \<Rightarrow> cursor_throttle \<Rightarrow> nat" where
  "cursor_writes [] t = 0"
| "cursor_writes ((now, c) # fs) t =
     (let (due, t') = should_flush c now t in (if due then 1 else 0) + cursor_writes fs t')"

lemma cursor_stored:
  assumes "fs \<noteq> []" and "wa_throttle a = new_throttle"
  shows "\<exists>now c. (now, c) \<in> set fs \<and> wa_store (cursor_frames fs a) CURSOR_KEY = Some (int_str c) \<and>
    wa_throttle (cursor_frames fs a) = \<lparr>ct_last_flush = Some now, ct_flushed = Some c\<rparr> \<and>
    (fst (last fs) < now + CURSOR_FLUSH_INTERVAL_MS \<or> c = snd (last fs))"
  using assms(1)
proof (induction fs rule: rev_nonempty_induct)
  case (single x)
  then show ?case using assms(2)
    by (cases x) (simp add: cursor_frames_def set_cursor_def should_flush_def new_throttle_def CURSOR_FLUSH_INTERVAL_MS_def)
next
  case (snoc x xs)
  obtain n i where x: "x = (n, i)" by fastforce
  from snoc.IH obtain now c where ih: "(now, c) \<in> set xs"
    "wa_store (cursor_frames xs a) CURSOR_KEY = Some (int_str c)"
    "wa_throttle (cursor_frames xs a) = \<lparr>ct_last_flush = Some now, ct_flushed = Some c\<rparr>" by blast
  have step: "cursor_frames (xs @ [x]) a = set_cursor n i (cursor_frames xs a)" by (simp add: cursor_frames_def x)
  show ?case
  proof (cases "c \<noteq> i \<and> n - now \<ge> CURSOR_FLUSH_INTERVAL_MS")
    case True
    then show ?thesis unfolding step
      by (intro exI [of _ n] exI [of _ i]) (simp add: set_cursor_def should_flush_def ih x CURSOR_FLUSH_INTERVAL_MS_def)
  next
    case False
    then show ?thesis unfolding step
      by (intro exI [of _ now] exI [of _ c]) (use ih in \<open>auto simp: set_cursor_def should_flush_def x\<close>)
  qed
qed

lemma cursor_writes_since:
  "ct_last_flush t = Some l \<Longrightarrow> sorted (l # map fst fs) \<Longrightarrow>
     cursor_writes fs t * CURSOR_FLUSH_INTERVAL_MS \<le> last (l # map fst fs) - l"
proof (induction fs arbitrary: t l)
  case (Cons f fs)
  obtain n c where f: "f = (n, c)" by fastforce
  show ?case
  proof (cases "fst (should_flush c n t)")
    case True
    then have t: "ct_last_flush (snd (should_flush c n t)) = Some n" "l + CURSOR_FLUSH_INTERVAL_MS \<le> n"
      using Cons.prems by (auto simp: should_flush_def f CURSOR_FLUSH_INTERVAL_MS_def split: if_splits)
    have "n \<le> last (n # map fst fs)" using Cons.prems(2) by (cases fs rule: rev_cases) (auto simp: f)
    with Cons.IH [OF t(1)] Cons.prems(2) t(2) True show ?thesis by (auto simp: f split_def Let_def)
  next
    case False
    then have "snd (should_flush c n t) = t" by (auto simp: should_flush_def split: if_splits)
    moreover have "last (l # map fst fs) \<le> last (l # map fst (f # fs))" using Cons.prems(2) by (auto simp: f)
    moreover have "sorted (l # map fst fs)" using Cons.prems(2) by simp
    ultimately show ?thesis using Cons.IH [of t l] Cons.prems(1) False by (auto simp: f split_def Let_def)
  qed
qed simp

text \<open>The web client's resume cursor in storage is never more than a second behind: after any frames it is a
  cursor the client received, and it is the latest one or was written less than a second before the latest
  frame; and it is written at most once per second.\<close>

theorem cursor_stored_within_a_second:
  assumes "fs \<noteq> []" and "wa_throttle a = new_throttle" and "\<forall>(now, c) \<in> set fs. in_i64 c"
    and "sorted (map fst fs)"
  shows "\<exists>now c. (now, c) \<in> set fs \<and> load_cursor (wa_store (cursor_frames fs a)) = Some c \<and>
      (fst (last fs) < now + CURSOR_FLUSH_INTERVAL_MS \<or> c = snd (last fs))"
    and "cursor_writes fs new_throttle \<le> 1 + (fst (last fs) - fst (hd fs)) div CURSOR_FLUSH_INTERVAL_MS"
proof -
  obtain now c where c: "(now, c) \<in> set fs" "wa_store (cursor_frames fs a) CURSOR_KEY = Some (int_str c)"
    "fst (last fs) < now + CURSOR_FLUSH_INTERVAL_MS \<or> c = snd (last fs)"
    using cursor_stored [OF assms(1,2)] by blast
  moreover have "in_i64 c" using assms(3) c(1) by auto
  then have "load_cursor (wa_store (cursor_frames fs a)) = Some c"
    using c(2) by (simp add: load_cursor_def trim_int_str parse_int_str in_i64_def)
  ultimately show "\<exists>now c. (now, c) \<in> set fs \<and> load_cursor (wa_store (cursor_frames fs a)) = Some c \<and>
      (fst (last fs) < now + CURSOR_FLUSH_INTERVAL_MS \<or> c = snd (last fs))" by blast
  obtain n i gs where fs: "fs = (n, i) # gs" using assms(1) by (cases fs) auto
  have "cursor_writes fs new_throttle = 1 + cursor_writes gs \<lparr>ct_last_flush = Some n, ct_flushed = Some i\<rparr>"
    by (simp add: fs should_flush_def new_throttle_def)
  moreover have "cursor_writes gs \<lparr>ct_last_flush = Some n, ct_flushed = Some i\<rparr> * CURSOR_FLUSH_INTERVAL_MS \<le> fst (last fs) - n"
    using cursor_writes_since [of "\<lparr>ct_last_flush = Some n, ct_flushed = Some i\<rparr>" n gs] assms(4)
    by (auto simp: fs last_map split: if_splits)
  ultimately show "cursor_writes fs new_throttle \<le> 1 + (fst (last fs) - fst (hd fs)) div CURSOR_FLUSH_INTERVAL_MS"
    by (simp add: fs CURSOR_FLUSH_INTERVAL_MS_def less_eq_div_iff_mult_less_eq)
qed

subsection \<open>Notifications\<close>

lemma task_display_name_core: "task_display_name name = display_name name"
  by (simp add: task_display_name_def task_repo_def display_name_def split_repo_def split: option.split)

lemma notifications_roundtrip: "parse_notifications (notifications_str s) = s"
proof -
  obtain a b where s: "s = \<lparr>ne_awaiting = a, ne_finished = b\<rparr>" by (cases s)
  show ?thesis unfolding s by (cases a rule: bool.exhaust; cases b rule: bool.exhaust; hypsubst; code_simp)
qed

lemma permission_roundtrip: "parse_permission (permission_str p) = p"
  by (cases p) (simp_all add: parse_permission_def permission_str_def)

lemma notification_id_nonneg: "notification_id tid < 2 ^ 31"
proof -
  have "Bit_Operations.and h 0x7fffffff \<le> 0x7fffffff" for h :: "32 word" by (rule word_and_le1)
  then have "notification_id tid \<le> 0x7fffffff" by (simp add: notification_id_def)
  also have "\<dots> < (2 ^ 31 :: 32 word)" by simp
  finally show ?thesis .
qed

text \<open>The body of the finish notification.\<close>

definition finish_body :: "task \<Rightarrow> bool \<Rightarrow> string" where
  "finish_body t success = (case finished_summary t of
     Some s \<Rightarrow> if s \<noteq> [] then s else if success then ''finished'' else ''finished with an error''
   | None \<Rightarrow> if success then ''finished'' else ''finished with an error'')"

lemma finished_alert_payload:
  assumes "e_payload e = finished_payload t success"
  shows "finished_alert e = Some \<lparr>al_title = display_name (t_name t) @ (if success then '' finished'' else '' failed''),
    al_body = finish_body t success, al_task = t_id t\<rparr>"
  using assms
  by (cases "finished_summary t")
    (simp_all add: finished_alert_def payload_str_def finished_payload_def task_display_name_core finish_body_def Let_def)

lemma awaiting_alert_payload:
  assumes "e_payload e = mk_obj [(''task_id'', JStr (t_id t)), (''name'', JStr (t_name t)), (''session_id'', JStr sid),
    (''reason'', reason)]" and "Option.bind (jget reason ''message'') as_str = Some message"
  shows "awaiting_alert e = Some \<lparr>al_title = display_name (t_name t) @ '' needs input'', al_body = message,
    al_task = t_id t\<rparr>"
  using assms by (simp add: awaiting_alert_def payload_str_def task_display_name_core)

text \<open>The event the executor announces at the end of a run raises exactly one notification, when the user
  subscribed to finished tasks, allowed notifications and looks at the application: it names the task as the
  catalog displays it, opens that task and says that it failed exactly when the run did.  While the user has
  not been asked, it is kept for the answer; otherwise nothing is shown.  In any case the event enters the feed.\<close>

theorem finish_notifies:
  fixes a :: web_app and hidden :: bool and now :: nat
  assumes "e_kind e = EvTaskFinished" and "e_payload e = finished_payload t success"
    and "ss_event f = Some ''event''" and "wl_event_text lib (ss_data f) = Some e"
  defines "al \<equiv> \<lparr>al_title = display_name (t_name t) @ (if success then '' finished'' else '' failed''),
    al_body = finish_body t success, al_task = t_id t\<rparr>"
    and "a' \<equiv> web_apply_event lib now hidden f a"
  shows "wa_shown a' = wa_shown a @ (if ne_finished (wa_wants a) \<and> wa_permission a = Granted \<and> \<not> hidden then [al] else [])"
    and "wa_asking a' = wa_asking a @ (if ne_finished (wa_wants a) \<and> wa_permission a = NotRequested then [al] else [])"
    and "wc_events (wa_cache a') = wc_events (push_event e (wa_cache a))"
proof -
  define a1 where "a1 = (case sse_cursor f of Some c \<Rightarrow> set_cursor now c a | None \<Rightarrow> a)"
  have a1: "wa_shown a1 = wa_shown a" "wa_asking a1 = wa_asking a" "wa_wants a1 = wa_wants a"
      "wa_permission a1 = wa_permission a" "wc_events (wa_cache a1) = wc_events (wa_cache a)"
    by (simp_all add: a1_def set_cursor_def Let_def split_def split: option.split)
  have a': "a' = (let b = dispatch_alert hidden e a1 in b\<lparr>wa_cache := push_event e (wa_cache b)\<rparr>)"
    using assms(1,3,4) by (simp add: a'_def web_apply_event_def Let_def flip: a1_def)
  have al: "alert_for e = Some al"
    using assms(1) finished_alert_payload [OF assms(2)] by (simp add: alert_for_def al_def)
  have sub: "subscribes (wa_wants a1) (e_kind e) \<longleftrightarrow> ne_finished (wa_wants a)"
    by (simp add: subscribes_def assms(1) notification_of_kind_def notifies_def a1)
  have d: "wa_shown (dispatch_alert hidden e a1) =
      wa_shown a @ (if ne_finished (wa_wants a) \<and> wa_permission a = Granted \<and> \<not> hidden then [al] else [])"
    "wa_asking (dispatch_alert hidden e a1) =
      wa_asking a @ (if ne_finished (wa_wants a) \<and> wa_permission a = NotRequested then [al] else [])"
    unfolding dispatch_alert_def sub al by (cases "wa_permission a"; simp add: a1 should_notify_def)+
  show "wa_shown a' = wa_shown a @ (if ne_finished (wa_wants a) \<and> wa_permission a = Granted \<and> \<not> hidden then [al] else [])"
    "wa_asking a' = wa_asking a @ (if ne_finished (wa_wants a) \<and> wa_permission a = NotRequested then [al] else [])"
    unfolding a' Let_def using d by simp_all
  have "wa_cache (dispatch_alert hidden e a1) = wa_cache a1"
    by (simp add: dispatch_alert_def split: option.split)
  then have "wa_cache a' = push_event e (wa_cache a1)" unfolding a' by (simp add: Let_def)
  then show "wc_events (wa_cache a') = wc_events (push_event e (wa_cache a))"
    using a1(5) by (simp add: push_event_def Let_def)
qed

subsection \<open>Instances\<close>


theorem feed_converges_witness:
  "map ap_seq (tf_events (feed_all [] (feed_merge
     (backfill (tasks_events (fold (handle_state_event (\<lambda>x _. x) ''s'') [TurnStarted, TitleEvent ''a''] one_session)
        ''t'' None None)) (feed_all [] new_feed)))) = [1, 2]"
proof -
  define s :: "string session" where "s = new_session ''s'' 0 [] task_launch (Some 7) 0"
  define m1 where "m1 = fold (handle_state_event (\<lambda>x _. x) ''s'') [TurnStarted, TitleEvent ''a''] one_session"
  have s: "latest_by_task one_session ''t'' = Some s" "session_object one_session (se_id s) = Some s" "se_feed s = []"
      "se_next_seq s = 1" "se_id s = ''s''" "earlier_feed s evs new_feed" for evs
    by (simp_all add: s_def one_session_simps new_session_def earlier_feed_def new_feed_def)
  have pushes: "mg_pushes m1 = map (\<lambda>(n, e). feed_push s n e) (numbered [TurnStarted, TitleEvent ''a''])"
    using fold_handle_state [OF s(1-4), of "\<lambda>x _. x" "[TurnStarted, TitleEvent ''a'']"]
    by (simp only: s(5) m1_def one_session_simps(3) append_Nil)
  then have "map ap_seq (mg_pushes m1) = [1, 2]" "length (mg_pushes m1) = 2"
    by (simp_all add: numbered_def feed_push_def)
  then show ?thesis
    using feed_converges [OF s(1-4), where f = new_feed and evs = "[TurnStarted, TitleEvent ''a'']" and a = 2 and b = 2
        and later = "[]" and fadd = "\<lambda>x _. x"] s(6)
    by (simp add: s(5) one_session_simps(3) keep_newest_def WEB_FEED_CAP_def del: fold.simps(2) flip: m1_def)
qed

theorem cursor_stored_within_a_second_witness:
  "cursor_writes [(0, 1), (500, 2), (999, 3), (1000, 4)] new_throttle \<le> 2"
  using cursor_stored_within_a_second(2) [of "[(0, 1), (500, 2), (999, 3), (1000, 4)]" "new_app Map.empty Granted default_notifications"]
  by (simp add: new_app_def in_i64_def CURSOR_FLUSH_INTERVAL_MS_def)

definition finish_event :: event where
  "finish_event = \<lparr>e_id = 1, e_kind = EvTaskFinished, e_payload = finished_payload (sample_task ''t'' ''triage'') True,
     e_created_at = 0\<rparr>"

definition one_event_lib :: web_lib where
  "one_event_lib = \<lparr>wl_event_text = (\<lambda>_. Some finish_event), wl_json = (\<lambda>_. None), wl_event = (\<lambda>_. None),
     wl_task = (\<lambda>_. None), wl_push = (\<lambda>_. None), wl_uuid = Some\<rparr>"

theorem finish_notifies_witness:
  "map al_title (wa_shown (web_apply_event one_event_lib 0 False
     \<lparr>ss_id = None, ss_event = Some ''event'', ss_data = ''{}'', ss_retry = None\<rparr>
     (new_app Map.empty Granted \<lparr>ne_awaiting = True, ne_finished = True\<rparr>))) = [''triage finished'']"
proof -
  have "display_name (t_name (sample_task ''t'' ''triage'')) = ''triage''" by code_simp
  then show ?thesis
    using finish_notifies(1) [of finish_event "sample_task ''t'' ''triage''" True
        "\<lparr>ss_id = None, ss_event = Some ''event'', ss_data = ''{}'', ss_retry = None\<rparr>" one_event_lib 0 False
        "new_app Map.empty Granted \<lparr>ne_awaiting = True, ne_finished = True\<rparr>"]
    by (simp add: finish_event_def one_event_lib_def new_app_def)
qed

end
