(* ===== verification/Rpc.thy ===== *)
theory Rpc
  imports Wire Workflow Auth Sessions
begin

text \<open>
  Requests and responses, from a client's call to the daemon's dispatcher and back: error codes and responses
  (\<open>favetto-wire/src/rpc/mod.rs\<close>), \<open>POST /rpc\<close> (\<open>crates/favetto/src/transport.rs\<close>), the connection that serves the
  Unix socket and the WebSocket (\<open>crates/favetto/src/server.rs\<close>), the web client (\<open>web/src/client.rs\<close>) and the
  native client (\<open>crates/favetto-tui/src/client.rs\<close>).

  \<open>ser\<close> and \<open>de\<close> are MessagePack, \<open>to_json\<close> and \<open>of_json\<close> serde.  \<open>run\<close> executes a method on the daemon's
  state: the methods themselves are modelled in the theories of their components.
\<close>

subsection \<open>Errors and responses\<close>

definition rpc_code :: "rpc_error \<Rightarrow> int" where
  "rpc_code e = (case e of
     ParseError _ \<Rightarrow> -32700 | InvalidRequest _ \<Rightarrow> -32600 | MethodNotFound _ \<Rightarrow> -32601
   | InvalidParams _ \<Rightarrow> -32602 | Internal _ \<Rightarrow> -32603 | rpc_error.Unauthorized _ \<Rightarrow> -32001)"

text \<open>\<open>Internal None\<close> carries the text of a library's error, \<open>err\<close>.\<close>

definition rpc_message :: "string \<Rightarrow> rpc_error \<Rightarrow> string" where
  "rpc_message err e = (case e of
     ParseError m \<Rightarrow> m | InvalidRequest m \<Rightarrow> m | MethodNotFound m \<Rightarrow> m | InvalidParams m \<Rightarrow> m
   | Internal m \<Rightarrow> (case m of Some m \<Rightarrow> m | None \<Rightarrow> err) | rpc_error.Unauthorized m \<Rightarrow> m)"

definition to_object :: "string \<Rightarrow> rpc_error \<Rightarrow> rpc_error_object" where
  "to_object err e = \<lparr>er_code = rpc_code e, er_message = rpc_message err e, er_data = None\<rparr>"

definition response_ok :: "nat \<Rightarrow> json \<Rightarrow> rpc_response" where
  "response_ok i v = \<lparr>rs_id = i, rs_result = Some v, rs_error = None\<rparr>"

definition response_error :: "string \<Rightarrow> nat \<Rightarrow> rpc_error \<Rightarrow> rpc_response" where
  "response_error err i e = \<lparr>rs_id = i, rs_result = None, rs_error = Some (to_object err e)\<rparr>"

subsection \<open>The dispatcher\<close>

text \<open>The methods of \<open>dispatch_method\<close>, and those that only a connection handles.\<close>

definition DISPATCHED :: "string list" where
  "DISPATCHED = [''system.ping'', ''config.validate'', ''tasks.list'', ''tasks.get'', ''tasks.runs'', ''tasks.cancel'',
     ''tasks.retry'', ''tasks.start'', ''catalog.list'', ''catalog.get'', ''catalog.add'', ''catalog.update'',
     ''workflow.get'', ''workflow.inspect'', ''workflow.create'', ''workflow.spawn'', ''workflow.cancel'',
     ''workflow.retry'', ''events.tail'', ''tasks.events'', ''agents.list'', ''providers.list'', ''agents.input'',
     ''agents.resize'', ''agents.reply'', ''schedules.list'', ''schedules.upsert'', ''schedules.delete'',
     ''notifications.list'', ''notifications.test'', ''hooks.upsert'', ''usage.stats'', ''repos.list'', ''repos.add'',
     ''repos.remove'', ''repos.activate'', ''repos.refresh'']"

definition CONNECTION_METHODS :: "string list" where
  "CONNECTION_METHODS = [''events.subscribe'', ''agents.start'', ''tasks.start_oneshot'', ''agents.attach'', ''agents.close'']"

definition CLIENT_METHODS :: "string list" where
  "CLIENT_METHODS = [''system.ping'', ''config.validate'', ''tasks.list'', ''tasks.get'', ''tasks.runs'', ''tasks.events'',
     ''tasks.cancel'', ''tasks.retry'', ''tasks.start'', ''tasks.start_oneshot'', ''catalog.list'', ''catalog.get'',
     ''catalog.add'', ''catalog.update'', ''workflow.get'', ''workflow.inspect'', ''workflow.create'', ''workflow.spawn'',
     ''workflow.cancel'', ''workflow.retry'', ''events.tail'', ''events.subscribe'', ''agents.list'', ''agents.start'',
     ''agents.input'', ''agents.resize'', ''agents.attach'', ''agents.close'', ''agents.reply'', ''providers.list'',
     ''schedules.list'', ''schedules.upsert'', ''schedules.delete'', ''notifications.list'', ''notifications.test'',
     ''hooks.upsert'', ''usage.stats'', ''repos.list'', ''repos.add'', ''repos.remove'', ''repos.activate'', ''repos.refresh'']"

type_synonym 's methods = "string \<Rightarrow> json \<Rightarrow> 's \<Rightarrow> (rpc_error + json) \<times> 's"

definition dispatch_method :: "'s methods \<Rightarrow> rpc_request \<Rightarrow> 's \<Rightarrow> (rpc_error + json) \<times> 's" where
  "dispatch_method run req s =
     (if rq_method req \<in> set DISPATCHED then run (rq_method req) (rq_params req) s
      else (Inl (MethodNotFound (''unknown method: '' @ rq_method req)), s))"

definition dispatch :: "string \<Rightarrow> 's methods \<Rightarrow> rpc_request \<Rightarrow> 's \<Rightarrow> rpc_response \<times> 's" where
  "dispatch err run req s = (case dispatch_method run req s of
     (Inr v, s) \<Rightarrow> (response_ok (rq_id req) v, s)
   | (Inl e, s) \<Rightarrow> (response_error err (rq_id req) e, s))"

definition parse_params :: "(json \<Rightarrow> string + 'p) \<Rightarrow> string \<Rightarrow> json \<Rightarrow> rpc_error + 'p" where
  "parse_params de method params = (case de params of
     Inr p \<Rightarrow> Inr p
   | Inl e \<Rightarrow> Inl (InvalidParams (''invalid params for '' @ method @ '': '' @ e)))"

subsection \<open>POST /rpc\<close>

text \<open>Status and body; a body beyond the limit does not reach the handler.\<close>

definition rpc_handler ::
  "(frame \<Rightarrow> string option) \<Rightarrow> (string \<Rightarrow> frame option) \<Rightarrow> string \<Rightarrow> 's methods \<Rightarrow> string \<Rightarrow> headers \<Rightarrow> string \<Rightarrow>
   's \<Rightarrow> (nat \<times> string) \<times> 's"
where
  "rpc_handler ser de err run token headers body s =
     (if length body > MAX_FRAME_LEN then ((413, ''length limit exceeded''), s)
      else if \<not> bearer_authorized headers token then ((401, ''missing or invalid bearer token''), s)
      else case wire_decode de body of
        Inl _ \<Rightarrow> ((400, ''malformed frame''), s)
      | Inr (FRequest req) \<Rightarrow>
          (let (resp, s) = dispatch err run req s
           in (case wire_encode ser (FResponse resp) of
                 Inr bytes \<Rightarrow> ((200, bytes), s)
               | Inl _ \<Rightarrow> ((500, ''failed to encode response''), s)))
      | Inr _ \<Rightarrow> ((400, ''expected a request frame''), s))"

subsection \<open>The web client\<close>

datatype client_error =
    CeEncode | CeDecode | CeNetwork | CeHttp nat string | CeUnauthorized | CeRpc int string
  | CeUnexpectedFrame | CeEmptyResponse | CeIdMismatch nat nat

definition encode_request ::
  "(frame \<Rightarrow> string option) \<Rightarrow> ('p \<Rightarrow> json option) \<Rightarrow> string \<Rightarrow> nat \<Rightarrow> 'p \<Rightarrow> client_error + string"
where
  "encode_request ser to_json method i p = (case to_json p of
     None \<Rightarrow> Inl CeEncode
   | Some j \<Rightarrow> (case ser (FRequest \<lparr>rq_id = i, rq_method = method, rq_params = j\<rparr>) of
       None \<Rightarrow> Inl CeEncode | Some b \<Rightarrow> Inr b))"

definition decode_response ::
  "(string \<Rightarrow> frame option) \<Rightarrow> (json \<Rightarrow> 'r option) \<Rightarrow> string \<Rightarrow> nat \<Rightarrow> client_error + 'r"
where
  "decode_response de of_json bytes expected = (case de bytes of
     None \<Rightarrow> Inl CeDecode
   | Some (FResponse r) \<Rightarrow>
       (if rs_id r \<noteq> expected then Inl (CeIdMismatch expected (rs_id r))
        else case rs_error r of
          Some e \<Rightarrow> Inl (CeRpc (er_code e) (er_message e))
        | None \<Rightarrow> (case rs_result r of
            None \<Rightarrow> Inl CeEmptyResponse
          | Some v \<Rightarrow> (case of_json v of None \<Rightarrow> Inl CeDecode | Some x \<Rightarrow> Inr x)))
   | Some _ \<Rightarrow> Inl CeUnexpectedFrame)"

record rpc_client =
  rc_base :: string
  rc_token :: "string option"
  rc_next :: "64 word"

definition new_client :: "string \<Rightarrow> rpc_client" where
  "new_client base = \<lparr>rc_base = rev (dropWhile (\<lambda>c. c = CHR ''/'') (rev (trim base))), rc_token = None, rc_next = 1\<rparr>"

definition with_token :: "string option \<Rightarrow> rpc_client \<Rightarrow> rpc_client" where
  "with_token tok c = c\<lparr>rc_token := (case tok of Some t \<Rightarrow> if t \<noteq> [] then Some t else None | None \<Rightarrow> None)\<rparr>"

definition take_id :: "rpc_client \<Rightarrow> nat \<times> rpc_client" where
  "take_id c = (unat (rc_next c), c\<lparr>rc_next := rc_next c + 1\<rparr>)"

text \<open>\<open>http\<close>: what posting a body with a token brings back, \<open>None\<close> when the request never reached the daemon.\<close>

definition call ::
  "(frame \<Rightarrow> string option) \<Rightarrow> (string \<Rightarrow> frame option) \<Rightarrow> (string \<Rightarrow> string) \<Rightarrow> ('p \<Rightarrow> json option) \<Rightarrow>
   (json \<Rightarrow> 'r option) \<Rightarrow> (string option \<Rightarrow> string \<Rightarrow> 's \<Rightarrow> (nat \<times> string) option \<times> 's) \<Rightarrow>
   string \<Rightarrow> 'p \<Rightarrow> rpc_client \<Rightarrow> 's \<Rightarrow> (client_error + 'r) \<times> rpc_client \<times> 's"
where
  "call ser de lossy to_json of_json http method p c s =
     (let (i, c) = take_id c
      in case encode_request ser to_json method i p of
           Inl e \<Rightarrow> (Inl e, c, s)
         | Inr body \<Rightarrow> (case http (rc_token c) body s of
             (None, s) \<Rightarrow> (Inl CeNetwork, c, s)
           | (Some (status, bytes), s) \<Rightarrow>
               ((if 200 \<le> status \<and> status \<le> 299 then decode_response de of_json bytes i
                 else if status = 401 then Inl CeUnauthorized
                 else Inl (CeHttp status (lossy bytes))), c, s)))"

text \<open>Pairing and login answer with a token.\<close>

definition decode_token_response :: "(string \<Rightarrow> json option) \<Rightarrow> (string \<Rightarrow> string) \<Rightarrow> nat \<Rightarrow> string \<Rightarrow> client_error + string" where
  "decode_token_response parse lossy status bytes =
     (if 200 \<le> status \<and> status \<le> 299 then
        (case parse bytes of
           None \<Rightarrow> Inl CeDecode
         | Some v \<Rightarrow> (case Option.bind (jget v ''token'') as_str of
             Some t \<Rightarrow> if t \<noteq> [] then Inr t else Inl CeDecode
           | None \<Rightarrow> Inl CeDecode))
      else if status = 401 then Inl CeUnauthorized
      else Inl (CeHttp status (lossy bytes)))"

subsection \<open>The connection\<close>

text \<open>
  What a connection calls: typed parameters, the two methods that open a session, attaching to and closing a
  session, and the other methods.  An error of theirs is its text.
\<close>

record ('sp, 'op, 's) conn_lib =
  cx_start_params :: "json \<Rightarrow> string + 'sp"
  cx_oneshot_params :: "json \<Rightarrow> string + 'op"
  cx_session_params :: "json \<Rightarrow> string + string"
  cx_cursor_params :: "json \<Rightarrow> string + int option"
  cx_start :: "'sp \<Rightarrow> 's \<Rightarrow> (string + string) \<times> 's"
  cx_oneshot :: "'op \<Rightarrow> 's \<Rightarrow> (string + string \<times> json) \<times> 's"
  cx_attach :: "string \<Rightarrow> 's \<Rightarrow> string + json"
  cx_close :: "string \<Rightarrow> 's \<Rightarrow> string option \<times> 's"
  cx_run :: "'s methods"

record 's conn =
  cn_state :: 's
  cn_attached :: "string set"
  cn_cursor :: "int option"

definition handle_request :: "string \<Rightarrow> ('sp, 'op, 's) conn_lib \<Rightarrow> rpc_request \<Rightarrow> 's conn \<Rightarrow> rpc_response \<times> 's conn" where
  "handle_request err cx req c =
     (let i = rq_id req; method = rq_method req; params = rq_params req; s = cn_state c
      in if method = ''events.subscribe'' then
           (response_ok i (mk_obj [(''subscribed'', JBool True)]),
            c\<lparr>cn_cursor := (case cx_cursor_params cx params of Inr cursor \<Rightarrow> cursor | Inl _ \<Rightarrow> None)\<rparr>)
         else if method = ''agents.start'' then
           (case parse_params (cx_start_params cx) method params of
              Inl e \<Rightarrow> (response_error err i e, c)
            | Inr p \<Rightarrow> (case cx_start cx p s of
                (Inl m, s) \<Rightarrow> (response_error err i (InvalidParams m), c\<lparr>cn_state := s\<rparr>)
              | (Inr sid, s) \<Rightarrow> (case cx_attach cx sid s of
                  Inr v \<Rightarrow> (response_ok i v, c\<lparr>cn_state := s, cn_attached := insert sid (cn_attached c)\<rparr>)
                | Inl m \<Rightarrow> (response_error err i (Internal (Some m)), c\<lparr>cn_state := s\<rparr>))))
         else if method = ''tasks.start_oneshot'' then
           (case parse_params (cx_oneshot_params cx) method params of
              Inl e \<Rightarrow> (response_error err i e, c)
            | Inr p \<Rightarrow> (case cx_oneshot cx p s of
                (Inl m, s) \<Rightarrow> (response_error err i (Internal (Some m)), c\<lparr>cn_state := s\<rparr>)
              | (Inr (sid, v), s) \<Rightarrow> (response_ok i v, c\<lparr>cn_state := s, cn_attached := insert sid (cn_attached c)\<rparr>)))
         else if method = ''agents.attach'' then
           (case parse_params (cx_session_params cx) method params of
              Inl e \<Rightarrow> (response_error err i e, c)
            | Inr sid \<Rightarrow> (case cx_attach cx sid s of
                Inr v \<Rightarrow> (response_ok i v, c\<lparr>cn_attached := insert sid (cn_attached c)\<rparr>)
              | Inl m \<Rightarrow> (response_error err i (Internal (Some m)), c)))
         else if method = ''agents.close'' then
           (case parse_params (cx_session_params cx) method params of
              Inl e \<Rightarrow> (response_error err i e, c)
            | Inr sid \<Rightarrow>
                (let c = c\<lparr>cn_attached := cn_attached c - {sid}\<rparr>
                 in case cx_close cx sid s of
                      (None, s) \<Rightarrow> (response_ok i (mk_obj [(''closed'', JStr sid)]), c\<lparr>cn_state := s\<rparr>)
                    | (Some m, s) \<Rightarrow> (response_error err i (Internal (Some m)), c\<lparr>cn_state := s\<rparr>)))
         else
           (let (resp, s) = dispatch err (cx_run cx) req s in (resp, c\<lparr>cn_state := s\<rparr>)))"

text \<open>The forwarder of agent frames: only those of the sessions the connection attached to.\<close>

definition forward_agent_event :: "(string \<Rightarrow> string) \<Rightarrow> (string \<Rightarrow> live_state \<Rightarrow> json) \<Rightarrow> 's conn \<Rightarrow> session_event \<Rightarrow> rpc_notification option" where
  "forward_agent_event b64 live_json c e =
     (let (sid, n) = (case e of
        OutputEvent sid data \<Rightarrow> (sid, \<lparr>nt_method = ''agent.output'',
          nt_params = mk_obj [(''session_id'', JStr sid), (''data'', JStr (b64 data))]\<rparr>)
      | ExitEvent sid code \<Rightarrow> (sid, \<lparr>nt_method = ''agent.exit'',
          nt_params = mk_obj [(''session_id'', JStr sid), (''code'', case code of Some k \<Rightarrow>
            JNum (if k < 0 then NegInt k else PosInt (nat k)) | None \<Rightarrow> JNull)]\<rparr>)
      | StateEvent sid live \<Rightarrow> (sid, \<lparr>nt_method = ''agent.state'', nt_params = live_json sid live\<rparr>))
      in if sid \<in> cn_attached c then Some n else None)"

subsection \<open>The native client\<close>

text \<open>
  A client and the connection that serves it, as one system.  \<open>rl_up\<close> and \<open>rl_down\<close> are the frames under way,
  \<open>rl_pending\<close> the map of the client from ids to the senders of their responses, \<open>rl_waiting\<close> the callers that
  wait, \<open>rl_ended\<close> how calls ended.  \<open>rl_calls\<close> and \<open>rl_served\<close> record what was asked and answered.
  Ids are not wrapped: that takes 2^64 calls on one connection.
\<close>

datatype call_end = Answered rpc_response | TimedOut | ConnectionClosed | SendFailed

record 's rpc_link =
  rl_next :: nat
  rl_pending :: "nat set"
  rl_waiting :: "nat set"
  rl_ended :: "(nat \<times> call_end) list"
  rl_reading :: bool
  rl_up :: "rpc_request list"
  rl_down :: "frame list"
  rl_conn :: "'s conn"
  rl_calls :: "rpc_request list"
  rl_served :: "(rpc_request \<times> rpc_response) list"

definition connect_link :: "'s conn \<Rightarrow> 's rpc_link" where
  "connect_link c = \<lparr>rl_next = 1, rl_pending = {}, rl_waiting = {}, rl_ended = [], rl_reading = True, rl_up = [],
     rl_down = [], rl_conn = c, rl_calls = [], rl_served = []\<rparr>"

inductive link_step :: "string \<Rightarrow> ('sp, 'op, 's) conn_lib \<Rightarrow> 's rpc_link \<Rightarrow> 's rpc_link \<Rightarrow> bool"
  for err :: string and cx :: "('sp, 'op, 's) conn_lib"
where
  request: "req = \<lparr>rq_id = rl_next l, rq_method = m, rq_params = p\<rparr> \<Longrightarrow>
     link_step err cx l (l\<lparr>rl_next := rl_next l + 1, rl_pending := insert (rl_next l) (rl_pending l),
       rl_waiting := insert (rl_next l) (rl_waiting l), rl_up := rl_up l @ [req], rl_calls := rl_calls l @ [req]\<rparr>)"
| send_failed: "link_step err cx l (l\<lparr>rl_next := rl_next l + 1, rl_pending := insert (rl_next l) (rl_pending l),
       rl_ended := rl_ended l @ [(rl_next l, SendFailed)]\<rparr>)"
| served: "rl_up l = req # up \<Longrightarrow> handle_request err cx req (rl_conn l) = (resp, c) \<Longrightarrow>
     link_step err cx l (l\<lparr>rl_up := up, rl_down := rl_down l @ [FResponse resp], rl_conn := c,
       rl_served := rl_served l @ [(req, resp)]\<rparr>)"
| pushed: "link_step err cx l (l\<lparr>rl_down := rl_down l @ [FNotification n]\<rparr>)"
| answered: "rl_reading l \<Longrightarrow> rl_down l = FResponse r # down \<Longrightarrow> rs_id r \<in> rl_pending l \<Longrightarrow> rs_id r \<in> rl_waiting l \<Longrightarrow>
     link_step err cx l (l\<lparr>rl_down := down, rl_pending := rl_pending l - {rs_id r}, rl_waiting := rl_waiting l - {rs_id r},
       rl_ended := rl_ended l @ [(rs_id r, Answered r)]\<rparr>)"
| too_late: "rl_reading l \<Longrightarrow> rl_down l = FResponse r # down \<Longrightarrow> rs_id r \<in> rl_pending l \<Longrightarrow> rs_id r \<notin> rl_waiting l \<Longrightarrow>
     link_step err cx l (l\<lparr>rl_down := down, rl_pending := rl_pending l - {rs_id r}\<rparr>)"
| unknown: "rl_reading l \<Longrightarrow> rl_down l = FResponse r # down \<Longrightarrow> rs_id r \<notin> rl_pending l \<Longrightarrow>
     link_step err cx l (l\<lparr>rl_down := down\<rparr>)"
| notified: "rl_reading l \<Longrightarrow> rl_down l = FNotification n # down \<Longrightarrow> link_step err cx l (l\<lparr>rl_down := down\<rparr>)"
| stopped: "link_step err cx l (l\<lparr>rl_reading := False\<rparr>)"
| timed_out: "i \<in> rl_waiting l \<Longrightarrow>
     link_step err cx l (l\<lparr>rl_waiting := rl_waiting l - {i}, rl_ended := rl_ended l @ [(i, TimedOut)]\<rparr>)"
| sender_dropped: "i \<in> rl_waiting l \<Longrightarrow> i \<notin> rl_pending l \<Longrightarrow>
     link_step err cx l (l\<lparr>rl_waiting := rl_waiting l - {i}, rl_ended := rl_ended l @ [(i, ConnectionClosed)]\<rparr>)"

inductive_cases link_stepE: "link_step err cx l l'"

lemma dispatch_id: "rs_id (fst (dispatch err run req s)) = rq_id req"
  by (simp add: dispatch_def response_ok_def response_error_def split: prod.split sum.split)

lemma response_ids [simp]: "rs_id (response_ok i v) = i" "rs_id (response_error err i e) = i"
  by (simp_all add: response_ok_def response_error_def)

lemma if_response_id: "rs_id (fst x) = n \<Longrightarrow> rs_id (fst y) = n \<Longrightarrow> rs_id (fst (if b then x else y)) = n"
  by simp

lemma handle_request_id: "rs_id (fst (handle_request err cx req c)) = rq_id req"
  unfolding handle_request_def Let_def
  by (intro if_response_id; simp add: split_def dispatch_id split: sum.split prod.split option.split)

definition response_ids_of :: "frame list \<Rightarrow> nat list" where
  "response_ids_of fs = concat (map (\<lambda>f. case f of FResponse r \<Rightarrow> [rs_id r] | _ \<Rightarrow> []) fs)"

lemma response_ids_of_simps [simp]:
  "response_ids_of [] = []" "response_ids_of (FResponse r # fs) = rs_id r # response_ids_of fs"
  "response_ids_of (FNotification n # fs) = response_ids_of fs" "response_ids_of (FRequest q # fs) = response_ids_of fs"
  "response_ids_of (fs @ gs) = response_ids_of fs @ response_ids_of gs"
  by (simp_all add: response_ids_of_def)

definition served_by :: "string \<Rightarrow> ('sp, 'op, 's) conn_lib \<Rightarrow> rpc_request \<times> rpc_response \<Rightarrow> bool" where
  "served_by err cx = (\<lambda>(req, r). \<exists>c. r = fst (handle_request err cx req c))"

definition link_ok :: "string \<Rightarrow> ('sp, 'op, 's) conn_lib \<Rightarrow> 's rpc_link \<Rightarrow> bool" where
  "link_ok err cx l \<longleftrightarrow>
     distinct (map rq_id (rl_calls l)) \<and> (\<forall>q \<in> set (rl_calls l). rq_id q < rl_next l) \<and>
     (\<forall>i \<in> fst ` set (rl_ended l). i < rl_next l) \<and>
     set (rl_up l) \<subseteq> set (rl_calls l) \<and> fst ` set (rl_served l) \<subseteq> set (rl_calls l) \<and>
     (\<forall>x \<in> set (rl_served l). served_by err cx x) \<and>
     (\<forall>r. FResponse r \<in> set (rl_down l) \<longrightarrow> r \<in> snd ` set (rl_served l)) \<and>
     distinct (map rq_id (rl_up l) @ response_ids_of (rl_down l)) \<and>
     rl_waiting l \<subseteq> set (map rq_id (rl_up l) @ response_ids_of (rl_down l)) \<and>
     rl_waiting l \<subseteq> rl_pending l \<and> rl_waiting l \<inter> fst ` set (rl_ended l) = {} \<and>
     distinct (map fst (rl_ended l)) \<and>
     (\<forall>(i, e) \<in> set (rl_ended l). e \<noteq> ConnectionClosed \<and> (\<forall>r. e = Answered r \<longrightarrow> i = rs_id r \<and> r \<in> snd ` set (rl_served l)))"

lemma response_ids_mem: "i \<in> set (response_ids_of fs) \<longleftrightarrow> (\<exists>r. FResponse r \<in> set fs \<and> i = rs_id r)"
proof (induction fs)
  case (Cons f fs)
  then show ?case by (cases f) auto
qed simp

lemma served_by_id: "served_by err cx (req, r) \<Longrightarrow> rs_id r = rq_id req"
  using handle_request_id by (auto simp: served_by_def)

lemma link_ok_below:
  assumes "link_ok err cx l"
  shows "i \<in> set (response_ids_of (rl_down l)) \<Longrightarrow> i < rl_next l" and "i \<in> rl_waiting l \<Longrightarrow> i < rl_next l"
proof -
  show below: "i < rl_next l" if "i \<in> set (response_ids_of (rl_down l))" for i
    using that assms served_by_id by (fastforce simp: link_ok_def response_ids_mem)
  assume "i \<in> rl_waiting l"
  then have "i \<in> set (map rq_id (rl_up l) @ response_ids_of (rl_down l))" using assms by (auto simp: link_ok_def)
  then show "i < rl_next l" using below assms by (auto simp: link_ok_def)
qed

lemma link_ok_step:
  assumes "link_step err cx l l'" and "link_ok err cx l"
  shows "link_ok err cx l'"
  using assms
proof (induction rule: link_step.induct)
  case (request req l m p)
  then have "rl_next l \<notin> set (response_ids_of (rl_down l))" using link_ok_below by blast
  with request show ?case by (auto simp: link_ok_def)
next
  case (send_failed l)
  then have "rl_next l \<notin> rl_waiting l" using link_ok_below by blast
  with send_failed show ?case by (auto simp: link_ok_def)
next
  case (served l req up resp c)
  have "rs_id resp = rq_id req" using handle_request_id [of err cx req "rl_conn l"] served.hyps(2) by simp
  moreover have "served_by err cx (req, resp)" using served.hyps(2) by (auto simp: served_by_def intro: exI [of _ "rl_conn l"])
  ultimately show ?case using served by (auto simp: link_ok_def)
next
  case (pushed l n)
  then show ?case by (simp add: link_ok_def)
next
  case (answered l r down)
  then have new: "r \<in> snd ` set (rl_served l)" "rs_id r \<notin> fst ` set (rl_ended l)" "rs_id r < rl_next l"
    using link_ok_below(2) [OF answered.prems answered.hyps(4)] by (simp_all add: link_ok_def) blast
  have "distinct (map rq_id (rl_up l) @ rs_id r # response_ids_of down)"
    and "rl_waiting l \<subseteq> set (map rq_id (rl_up l) @ rs_id r # response_ids_of down)"
    using answered by (simp_all add: link_ok_def)
  then have wires: "distinct (map rq_id (rl_up l) @ response_ids_of down)"
    "rl_waiting l - {rs_id r} \<subseteq> set (map rq_id (rl_up l) @ response_ids_of down)" by auto
  show ?case using answered.prems answered.hyps(2) new wires unfolding link_ok_def
    by (elim conjE, intro conjI) (simp; blast)+
next
  case (too_late l r down)
  then show ?case by (auto simp: link_ok_def)
next
  case (unknown l r down)
  then show ?case by (auto simp: link_ok_def)
next
  case (notified l n down)
  then show ?case by (simp add: link_ok_def)
next
  case (stopped l)
  then show ?case by (simp add: link_ok_def)
next
  case (timed_out i l)
  then have "i < rl_next l" using link_ok_below(2) by blast
  with timed_out show ?case by (auto simp: link_ok_def)
next
  case (sender_dropped i l)
  then show ?case by (auto simp: link_ok_def)
qed

lemma link_ok_reachable: "(link_step err cx)\<^sup>*\<^sup>* (connect_link c) l \<Longrightarrow> link_ok err cx l"
proof (induction rule: rtranclp_induct)
  case base
  show ?case by (simp add: link_ok_def connect_link_def)
qed (rule link_ok_step)

text \<open>C34: however calls, pushes, timeouts and the two ends of a connection interleave, each call ends at most once;
  an answer it gets is what the connection made of this very request; no call ends as closed; and when nothing
  is under way any more, no caller waits.\<close>

theorem calls_get_their_answers:
  assumes "(link_step err cx)\<^sup>*\<^sup>* (connect_link c) l"
  shows "distinct (map fst (rl_ended l)) \<and>
    (\<forall>i r. (i, Answered r) \<in> set (rl_ended l) \<longrightarrow>
       (\<exists>req \<in> set (rl_calls l). rq_id req = i \<and> (\<exists>c. r = fst (handle_request err cx req c)))) \<and>
    (\<forall>i. (i, ConnectionClosed) \<notin> set (rl_ended l)) \<and>
    (rl_up l = [] \<and> rl_down l = [] \<longrightarrow> rl_waiting l = {})"
proof -
  have ok: "link_ok err cx l" using link_ok_reachable [OF assms] .
  have "\<exists>req \<in> set (rl_calls l). rq_id req = i \<and> (\<exists>c. r = fst (handle_request err cx req c))"
    if "(i, Answered r) \<in> set (rl_ended l)" for i r
  proof -
    have "\<forall>(i, e) \<in> set (rl_ended l). e \<noteq> ConnectionClosed \<and>
        (\<forall>r. e = Answered r \<longrightarrow> i = rs_id r \<and> r \<in> snd ` set (rl_served l))"
      using ok by (simp add: link_ok_def)
    from bspec [OF this that] obtain req where req: "(req, r) \<in> set (rl_served l)" "i = rs_id r" by force
    have "fst ` set (rl_served l) \<subseteq> set (rl_calls l)" "\<forall>x \<in> set (rl_served l). served_by err cx x"
      using ok by (simp_all add: link_ok_def)
    with req(1) have "req \<in> set (rl_calls l)" "served_by err cx (req, r)" by auto
    with served_by_id [OF this(2)] req(2) show ?thesis by (intro bexI [of _ req]) (simp_all add: served_by_def)
  qed
  with ok show ?thesis by (auto simp: link_ok_def)
qed

text \<open>When the connection breaks off under waiting calls, none of them learns it: from then on a call ends only
  by its timeout (or because it cannot be sent), and no entry ever leaves the map of pending requests.\<close>

theorem closed_link_only_times_out:
  assumes "(link_step err cx)\<^sup>*\<^sup>* (connect_link c) l" and "\<not> rl_reading l" and "(link_step err cx)\<^sup>*\<^sup>* l l'"
  shows "\<not> rl_reading l' \<and> rl_pending l \<subseteq> rl_pending l' \<and>
    (\<exists>new. rl_ended l' = rl_ended l @ new \<and> (\<forall>(i, e) \<in> set new. e = TimedOut \<or> e = SendFailed))"
  using assms(3)
proof (induction rule: rtranclp_induct)
  case base
  then show ?case using assms(2) by simp
next
  case (step l1 l2)
  have "link_ok err cx l1" using assms(1) step.hyps(1) by (intro link_ok_reachable) (rule rtranclp_trans)
  then have sub: "rl_waiting l1 \<subseteq> rl_pending l1" by (simp add: link_ok_def)
  from step.hyps(2) step.IH sub show ?case by (cases rule: link_stepE) auto
qed

subsection \<open>A call over HTTP\<close>

text \<open>The headers a token sets, and posting to the daemon.\<close>

definition auth_headers :: "string option \<Rightarrow> headers" where
  "auth_headers tok = (\<lambda>k. if k = ''authorization'' then map_option (\<lambda>t. ''Bearer '' @ t) tok else None)"

definition post_rpc ::
  "(frame \<Rightarrow> string option) \<Rightarrow> (string \<Rightarrow> frame option) \<Rightarrow> string \<Rightarrow> 's methods \<Rightarrow> string \<Rightarrow> string option \<Rightarrow>
   string \<Rightarrow> 's \<Rightarrow> (nat \<times> string) option \<times> 's"
where
  "post_rpc ser de err run token tok body s =
     (let (reply, s) = rpc_handler ser de err run token (auth_headers tok) body s in (Some reply, s))"

lemma bearer_auth_headers: "bearer_authorized (auth_headers tok) token \<longleftrightarrow> tok = Some token"
  by (cases tok) (auto simp: bearer_authorized_def auth_headers_def token_verify_def strip_prefix_def)


text \<open>The documented methods are those of the dispatcher and those of a connection; over HTTP the latter, and only
  they among the documented ones, are unknown.\<close>

lemma documented_methods: "set CLIENT_METHODS = set DISPATCHED \<union> set CONNECTION_METHODS"
    "set DISPATCHED \<inter> set CONNECTION_METHODS = {}"
  by code_simp+

theorem connection_methods_unknown_over_http:
  assumes "rq_method req \<in> set CONNECTION_METHODS"
  shows "dispatch err run req s =
    (response_error err (rq_id req) (MethodNotFound (''unknown method: '' @ rq_method req)), s)"
proof -
  have "rq_method req \<notin> set DISPATCHED" using assms documented_methods(2) by blast
  then show ?thesis by (simp add: dispatch_def dispatch_method_def)
qed

subsection \<open>Instances\<close>

definition echo_conn :: "(unit, unit, unit) conn_lib" where
  "echo_conn = \<lparr>cx_start_params = (\<lambda>_. Inl []), cx_oneshot_params = (\<lambda>_. Inl []), cx_session_params = (\<lambda>_. Inl []),
     cx_cursor_params = (\<lambda>_. Inl []), cx_start = (\<lambda>_ s. (Inl [], s)), cx_oneshot = (\<lambda>_ s. (Inl [], s)),
     cx_attach = (\<lambda>_ _. Inl []), cx_close = (\<lambda>_ s. (None, s)), cx_run = (\<lambda>_ p s. (Inr p, s))\<rparr>"

definition ping_request :: rpc_request where
  "ping_request = \<lparr>rq_id = 1, rq_method = ''system.ping'', rq_params = JNull\<rparr>"

definition idle_conn :: "unit conn" where
  "idle_conn = \<lparr>cn_state = (), cn_attached = {}, cn_cursor = None\<rparr>"

lemma ping_answer: "handle_request err echo_conn ping_request idle_conn = (response_ok 1 JNull, idle_conn)"
proof -
  have "''system.ping'' \<in> set DISPATCHED" by (simp add: DISPATCHED_def)
  then have "dispatch err (cx_run echo_conn) ping_request () = (response_ok 1 JNull, ())"
    by (simp add: dispatch_def dispatch_method_def ping_request_def echo_conn_def)
  moreover have "rq_method ping_request \<notin> set CONNECTION_METHODS" by (simp add: ping_request_def CONNECTION_METHODS_def)
  ultimately show ?thesis
    unfolding handle_request_def Let_def CONNECTION_METHODS_def by (simp add: idle_conn_def)
qed

definition pinged :: "unit rpc_link" where
  "pinged = (connect_link idle_conn)\<lparr>rl_next := 2, rl_pending := {1}, rl_waiting := {1}, rl_up := [ping_request],
     rl_calls := [ping_request]\<rparr>"

lemma pinged_step: "link_step err echo_conn (connect_link idle_conn) pinged"
  using link_step.request [of ping_request "connect_link idle_conn" "''system.ping''" JNull err echo_conn]
  by (simp add: pinged_def connect_link_def ping_request_def numeral_2_eq_2)

definition ponged :: "unit rpc_link" where
  "ponged = pinged\<lparr>rl_up := [], rl_pending := {}, rl_waiting := {}, rl_served := [(ping_request, response_ok 1 JNull)],
     rl_ended := [(1, Answered (response_ok 1 JNull))]\<rparr>"

lemma ponged_reachable: "(link_step err echo_conn)\<^sup>*\<^sup>* (connect_link idle_conn) ponged"
proof -
  define l where "l = pinged\<lparr>rl_up := [], rl_down := [FResponse (response_ok 1 JNull)],
    rl_served := [(ping_request, response_ok 1 JNull)]\<rparr>"
  have "link_step err echo_conn pinged l"
    using link_step.served [of pinged ping_request "[]" err echo_conn "response_ok 1 JNull" idle_conn] ping_answer
    by (simp add: l_def pinged_def connect_link_def)
  moreover have "link_step err echo_conn l ponged"
    using link_step.answered [of l "response_ok 1 JNull" "[]" err echo_conn]
    by (simp add: l_def ponged_def pinged_def connect_link_def)
  ultimately show ?thesis using pinged_step by (meson rtranclp.rtrancl_into_rtrancl rtranclp.rtrancl_refl)
qed

theorem calls_get_their_answers_witness:
  "\<exists>req \<in> set (rl_calls ponged). rq_id req = 1 \<and> (\<exists>c. response_ok 1 JNull = fst (handle_request [] echo_conn req c))"
  using calls_get_their_answers [OF ponged_reachable [of "[]"]] by (simp add: ponged_def)

theorem closed_link_only_times_out_witness:
  "\<exists>new. rl_ended (pinged\<lparr>rl_reading := False, rl_waiting := {}, rl_ended := [(1, TimedOut)]\<rparr>) = new \<and>
     (\<forall>(i, e) \<in> set new. e = TimedOut \<or> e = SendFailed)"
proof -
  let ?l = "pinged\<lparr>rl_reading := False\<rparr>"
  have "(link_step [] echo_conn)\<^sup>*\<^sup>* (connect_link idle_conn) pinged" using pinged_step by (rule r_into_rtranclp)
  then have "(link_step [] echo_conn)\<^sup>*\<^sup>* (connect_link idle_conn) ?l"
    using link_step.stopped by (rule rtranclp.rtrancl_into_rtrancl)
  moreover have "(link_step [] echo_conn)\<^sup>*\<^sup>* ?l (pinged\<lparr>rl_reading := False, rl_waiting := {}, rl_ended := [(1, TimedOut)]\<rparr>)"
    using link_step.timed_out [of 1 ?l "[]" echo_conn] by (simp add: pinged_def connect_link_def)
  ultimately show ?thesis
    using closed_link_only_times_out [of "[]" echo_conn idle_conn ?l] by (force simp: pinged_def connect_link_def)
qed

definition pong_ser :: "frame \<Rightarrow> string option" where
  "pong_ser f = (if f = FRequest ping_request then Some ''q'' else if f = FResponse (response_ok 1 JNull) then Some ''r'' else None)"

definition pong_de :: "string \<Rightarrow> frame option" where
  "pong_de b = (if b = ''q'' then Some (FRequest ping_request) else if b = ''r'' then Some (FResponse (response_ok 1 JNull)) else None)"


end
