(* ===== verification/TextBuffer.thy ===== *)
theory TextBuffer
  imports Sse
begin

text \<open>
  The text buffer of the terminal's forms, \<open>crates/favetto-tui/src/tui/text_buffer.rs\<close>: UTF-8 text and a caret, a
  byte offset.  Slicing and replacing at an offset that is not a character boundary panics in Rust: \<open>None\<close>.

  \<open>seg\<close> is the grapheme segmentation of the library \<open>unicode_segmentation\<close>, \<open>sep\<close> tells whether a grapheme has no
  word character.
\<close>

record text_buffer =
  tb_value :: string
  tb_caret :: nat

definition new_buffer :: "string \<Rightarrow> text_buffer" where
  "new_buffer v = \<lparr>tb_value = v, tb_caret = length v\<rparr>"

subsection \<open>Slices\<close>

definition slice :: "string \<Rightarrow> nat \<Rightarrow> nat \<Rightarrow> string option" where
  "slice v a b = (if a \<le> b \<and> b \<le> length v \<and> is_char_boundary v a \<and> is_char_boundary v b
     then Some (take (b - a) (drop a v)) else None)"

definition replace_range :: "string \<Rightarrow> nat \<Rightarrow> nat \<Rightarrow> string \<Rightarrow> string option" where
  "replace_range v a b s = map_option (\<lambda>_. take a v @ s @ drop b v) (slice v a b)"

definition insert_str :: "string \<Rightarrow> text_buffer \<Rightarrow> text_buffer option" where
  "insert_str s t = map_option (\<lambda>v. \<lparr>tb_value = v, tb_caret = tb_caret t + length s\<rparr>)
     (replace_range (tb_value t) (tb_caret t) (tb_caret t) s)"

subsection \<open>Graphemes\<close>

type_synonym segmentation = "string \<Rightarrow> string list"

definition prev_grapheme_start :: "segmentation \<Rightarrow> string \<Rightarrow> nat \<Rightarrow> nat option option" where
  "prev_grapheme_start seg v from1 = map_option (\<lambda>p.
     let gs = seg p in if gs = [] then None else Some (length (concat (butlast gs)))) (slice v 0 from1)"

definition next_grapheme_end :: "segmentation \<Rightarrow> string \<Rightarrow> nat \<Rightarrow> nat option option" where
  "next_grapheme_end seg v from1 = map_option (\<lambda>p.
     case seg p of [] \<Rightarrow> None | g # _ \<Rightarrow> Some (from1 + length g)) (slice v from1 (length v))"

definition is_separator :: "(string \<Rightarrow> bool) \<Rightarrow> string \<Rightarrow> nat \<Rightarrow> nat \<Rightarrow> bool option" where
  "is_separator sep v a b = map_option sep (slice v a b)"

definition backspace :: "segmentation \<Rightarrow> text_buffer \<Rightarrow> text_buffer option" where
  "backspace seg t = (case prev_grapheme_start seg (tb_value t) (tb_caret t) of
     None \<Rightarrow> None
   | Some None \<Rightarrow> Some t
   | Some (Some start) \<Rightarrow> map_option (\<lambda>v. \<lparr>tb_value = v, tb_caret = start\<rparr>)
       (replace_range (tb_value t) start (tb_caret t) []))"

definition delete_grapheme :: "segmentation \<Rightarrow> text_buffer \<Rightarrow> text_buffer option" where
  "delete_grapheme seg t = (case next_grapheme_end seg (tb_value t) (tb_caret t) of
     None \<Rightarrow> None
   | Some None \<Rightarrow> Some t
   | Some (Some end1) \<Rightarrow> map_option (\<lambda>v. t\<lparr>tb_value := v\<rparr>) (replace_range (tb_value t) (tb_caret t) end1 []))"

definition move_left :: "segmentation \<Rightarrow> text_buffer \<Rightarrow> text_buffer option" where
  "move_left seg t = map_option (\<lambda>p. case p of Some start \<Rightarrow> t\<lparr>tb_caret := start\<rparr> | None \<Rightarrow> t)
     (prev_grapheme_start seg (tb_value t) (tb_caret t))"

definition move_right :: "segmentation \<Rightarrow> text_buffer \<Rightarrow> text_buffer option" where
  "move_right seg t = map_option (\<lambda>p. case p of Some end1 \<Rightarrow> t\<lparr>tb_caret := end1\<rparr> | None \<Rightarrow> t)
     (next_grapheme_end seg (tb_value t) (tb_caret t))"

subsection \<open>Words\<close>

text \<open>The two loops of a word jump: they go on while the graphemes are (or are not) separators.\<close>

partial_function (option) skip_left :: "segmentation \<Rightarrow> (string \<Rightarrow> bool) \<Rightarrow> bool \<Rightarrow> string \<Rightarrow> nat \<Rightarrow> nat option" where
  "skip_left seg sep while_sep v pos = (case prev_grapheme_start seg v pos of
     None \<Rightarrow> None
   | Some None \<Rightarrow> Some pos
   | Some (Some start) \<Rightarrow> (case is_separator sep v start pos of
       None \<Rightarrow> None
     | Some b \<Rightarrow> if b = while_sep then skip_left seg sep while_sep v start else Some pos))"

partial_function (option) skip_right :: "segmentation \<Rightarrow> (string \<Rightarrow> bool) \<Rightarrow> bool \<Rightarrow> string \<Rightarrow> nat \<Rightarrow> nat option" where
  "skip_right seg sep while_sep v pos = (case next_grapheme_end seg v pos of
     None \<Rightarrow> None
   | Some None \<Rightarrow> Some pos
   | Some (Some end1) \<Rightarrow> (case is_separator sep v pos end1 of
       None \<Rightarrow> None
     | Some b \<Rightarrow> if b = while_sep then skip_right seg sep while_sep v end1 else Some pos))"

definition move_word_left :: "segmentation \<Rightarrow> (string \<Rightarrow> bool) \<Rightarrow> text_buffer \<Rightarrow> text_buffer option" where
  "move_word_left seg sep t = map_option (\<lambda>p. t\<lparr>tb_caret := p\<rparr>)
     (Option.bind (skip_left seg sep True (tb_value t) (tb_caret t)) (skip_left seg sep False (tb_value t)))"

definition move_word_right :: "segmentation \<Rightarrow> (string \<Rightarrow> bool) \<Rightarrow> text_buffer \<Rightarrow> text_buffer option" where
  "move_word_right seg sep t = map_option (\<lambda>p. t\<lparr>tb_caret := p\<rparr>)
     (Option.bind (skip_right seg sep False (tb_value t) (tb_caret t)) (skip_right seg sep True (tb_value t)))"

definition delete_word_before :: "segmentation \<Rightarrow> (string \<Rightarrow> bool) \<Rightarrow> text_buffer \<Rightarrow> text_buffer option" where
  "delete_word_before seg sep t = Option.bind (move_word_left seg sep t) (\<lambda>t'.
     map_option (\<lambda>v. t'\<lparr>tb_value := v\<rparr>) (replace_range (tb_value t') (tb_caret t') (tb_caret t) []))"

subsection \<open>Lines\<close>

text \<open>\<open>rfind\<close> of a newline, plus one, or 0.\<close>

definition after_last_nl :: "string \<Rightarrow> nat" where
  "after_last_nl s = (if nl \<in> set s then length s - length (takeWhile (\<lambda>c. c \<noteq> nl) (rev s)) else 0)"

definition line_start :: "text_buffer \<Rightarrow> nat option" where
  "line_start t = map_option after_last_nl (slice (tb_value t) 0 (tb_caret t))"

definition line_end :: "text_buffer \<Rightarrow> nat option" where
  "line_end t = map_option (\<lambda>s. tb_caret t + length (takeWhile (\<lambda>c. c \<noteq> nl) s))
     (slice (tb_value t) (tb_caret t) (length (tb_value t)))"

definition home :: "text_buffer \<Rightarrow> text_buffer option" where
  "home t = map_option (\<lambda>p. t\<lparr>tb_caret := p\<rparr>) (line_start t)"

definition end_of_line :: "text_buffer \<Rightarrow> text_buffer option" where
  "end_of_line t = map_option (\<lambda>p. t\<lparr>tb_caret := p\<rparr>) (line_end t)"

definition delete_to_line_start :: "text_buffer \<Rightarrow> text_buffer option" where
  "delete_to_line_start t = Option.bind (line_start t) (\<lambda>start.
     map_option (\<lambda>v. \<lparr>tb_value = v, tb_caret = start\<rparr>) (replace_range (tb_value t) start (tb_caret t) []))"

definition delete_to_line_end :: "text_buffer \<Rightarrow> text_buffer option" where
  "delete_to_line_end t = Option.bind (line_end t) (\<lambda>end1.
     map_option (\<lambda>v. t\<lparr>tb_value := v\<rparr>) (replace_range (tb_value t) (tb_caret t) end1 []))"

text \<open>The loop of \<open>column\<close>; it counts to the column of the caret, so it ends.\<close>

fun column_from :: "segmentation \<Rightarrow> string \<Rightarrow> nat \<Rightarrow> nat \<Rightarrow> nat \<Rightarrow> nat option" where
  "column_from seg v end1 pos 0 = Some pos"
| "column_from seg v end1 pos (Suc target) =
     (if pos < end1 then (case slice v pos end1 of
        None \<Rightarrow> None
      | Some s \<Rightarrow> (case seg s of [] \<Rightarrow> Some pos | g # _ \<Rightarrow> column_from seg v end1 (pos + length g) target))
      else Some pos)"

definition column :: "segmentation \<Rightarrow> text_buffer \<Rightarrow> nat \<Rightarrow> nat \<Rightarrow> nat option" where
  "column seg t start end1 = Option.bind (line_start t) (\<lambda>l. Option.bind (slice (tb_value t) l (tb_caret t)) (\<lambda>s.
     column_from seg (tb_value t) end1 start (length (seg s))))"

definition line_up :: "segmentation \<Rightarrow> text_buffer \<Rightarrow> text_buffer option" where
  "line_up seg t = Option.bind (line_start t) (\<lambda>start.
     if start = 0 then Some (t\<lparr>tb_caret := 0\<rparr>)
     else Option.bind (slice (tb_value t) 0 (start - 1)) (\<lambda>s.
       map_option (\<lambda>p. t\<lparr>tb_caret := p\<rparr>) (column seg t (after_last_nl s) (start - 1))))"

definition line_down :: "segmentation \<Rightarrow> text_buffer \<Rightarrow> text_buffer option" where
  "line_down seg t = Option.bind (line_end t) (\<lambda>end1.
     if end1 \<ge> length (tb_value t) then Some (t\<lparr>tb_caret := length (tb_value t)\<rparr>)
     else Option.bind (slice (tb_value t) (end1 + 1) (length (tb_value t))) (\<lambda>s.
       map_option (\<lambda>p. t\<lparr>tb_caret := p\<rparr>)
         (column seg t (end1 + 1) (end1 + 1 + length (takeWhile (\<lambda>c. c \<noteq> nl) s)))))"

text \<open>The editing keys.\<close>

datatype edit =
    Insert string | Backspace | Delete | MoveLeft | MoveRight | WordLeft | WordRight | DeleteWord
  | Home | End | DeleteToStart | DeleteToEnd | LineUp | LineDown

fun apply_edit :: "segmentation \<Rightarrow> (string \<Rightarrow> bool) \<Rightarrow> edit \<Rightarrow> text_buffer \<Rightarrow> text_buffer option" where
  "apply_edit seg sep (Insert s) t = insert_str s t"
| "apply_edit seg sep Backspace t = backspace seg t"
| "apply_edit seg sep Delete t = delete_grapheme seg t"
| "apply_edit seg sep MoveLeft t = move_left seg t"
| "apply_edit seg sep MoveRight t = move_right seg t"
| "apply_edit seg sep WordLeft t = move_word_left seg sep t"
| "apply_edit seg sep WordRight t = move_word_right seg sep t"
| "apply_edit seg sep DeleteWord t = delete_word_before seg sep t"
| "apply_edit seg sep Home t = home t"
| "apply_edit seg sep End t = end_of_line t"
| "apply_edit seg sep DeleteToStart t = delete_to_line_start t"
| "apply_edit seg sep DeleteToEnd t = delete_to_line_end t"
| "apply_edit seg sep LineUp t = line_up seg t"
| "apply_edit seg sep LineDown t = line_down seg t"

fun apply_edits :: "segmentation \<Rightarrow> (string \<Rightarrow> bool) \<Rightarrow> edit list \<Rightarrow> text_buffer \<Rightarrow> text_buffer option" where
  "apply_edits seg sep [] t = Some t"
| "apply_edits seg sep (e # es) t = Option.bind (apply_edit seg sep e t) (apply_edits seg sep es)"

subsection \<open>Valid text and its boundaries\<close>

text \<open>The leading bytes of the multi-byte encodings, with the first byte they admit behind them.\<close>

definition lead2 :: "char \<Rightarrow> bool" where
  "lead2 a \<longleftrightarrow> 0xC2 \<le> (of_char a :: nat) \<and> (of_char a :: nat) \<le> 0xDF"

definition lead3 :: "char \<Rightarrow> char \<Rightarrow> bool" where
  "lead3 a b \<longleftrightarrow> (let n = (of_char a :: nat); k = (of_char b :: nat) in 0xE0 \<le> n \<and> n \<le> 0xEF \<and>
     (if n = 0xE0 then 0xA0 else 0x80) \<le> k \<and> k \<le> (if n = 0xED then 0x9F else 0xBF))"

definition lead4 :: "char \<Rightarrow> char \<Rightarrow> bool" where
  "lead4 a b \<longleftrightarrow> (let n = (of_char a :: nat); k = (of_char b :: nat) in 0xF0 \<le> n \<and> n \<le> 0xF4 \<and>
     (if n = 0xF0 then 0x90 else 0x80) \<le> k \<and> k \<le> (if n = 0xF4 then 0x8F else 0xBF))"

lemma lead_cont: "lead3 a b \<Longrightarrow> is_cont b" "lead4 a b \<Longrightarrow> is_cont b"
  by (auto simp: lead3_def lead4_def is_cont_def Let_def split: if_splits)

lemma utf8_iff: "utf8 (a # s) \<longleftrightarrow> (is_ascii a \<and> utf8 s) \<or> (\<exists>b t. s = b # t \<and> lead2 a \<and> is_cont b \<and> utf8 t) \<or>
    (\<exists>b c t. s = b # c # t \<and> lead3 a b \<and> is_cont c \<and> utf8 t) \<or>
    (\<exists>b c d t. s = b # c # d # t \<and> lead4 a b \<and> is_cont c \<and> is_cont d \<and> utf8 t)"
proof -
  define n where "n = (of_char a :: nat)"
  consider "n < 128" | "128 \<le> n" "n < 0xC2" | "0xC2 \<le> n" "n \<le> 0xDF" | "0xE0 \<le> n" "n \<le> 0xEF" | "0xF0 \<le> n" "n \<le> 0xF4"
    | "0xF5 \<le> n" by linarith
  then show ?thesis
  proof cases
    case 1
    then show ?thesis by (simp add: is_ascii_def lead2_def lead3_def lead4_def Let_def flip: n_def)
  next
    case 2
    then show ?thesis by (simp add: is_ascii_def lead2_def lead3_def lead4_def Let_def flip: n_def)
  next
    case 3
    then show ?thesis by (cases s) (simp_all add: is_ascii_def lead2_def lead3_def lead4_def Let_def flip: n_def)
  next
    case 4
    then show ?thesis
      by (cases s; cases "tl s") (simp_all add: is_ascii_def lead2_def lead3_def lead4_def Let_def conj_assoc flip: n_def)
  next
    case 5
    then show ?thesis
      by (cases s; cases "tl s"; cases "tl (tl s)")
        (simp_all add: is_ascii_def lead2_def lead3_def lead4_def Let_def conj_assoc flip: n_def)
  next
    case 6
    then show ?thesis by (simp add: is_ascii_def lead2_def lead3_def lead4_def Let_def flip: n_def)
  qed
qed

declare utf8.simps(2) [simp del]

lemma not_cont: "is_ascii a \<Longrightarrow> \<not> is_cont a" "lead2 a \<Longrightarrow> \<not> is_cont a" "lead3 a b \<Longrightarrow> \<not> is_cont a" "lead4 a b \<Longrightarrow> \<not> is_cont a"
  by (auto simp: is_ascii_def lead2_def lead3_def lead4_def is_cont_def Let_def)

lemma utf8_append: "utf8 a \<Longrightarrow> utf8 b \<Longrightarrow> utf8 (a @ b)"
proof (induction "length a" arbitrary: a rule: less_induct)
  case less
  show ?case
  proof (cases a)
    case (Cons x s)
    have "utf8 (t @ b)" if "utf8 t" "length t < length a" for t using less.hyps [OF that(2,1)] less.prems(2) by simp
    with less.prems(1) show ?thesis unfolding Cons append_Cons utf8_iff by auto
  qed (use less.prems in simp)
qed

lemma utf8_hd: "utf8 (c # s) \<Longrightarrow> \<not> is_cont c"
  using not_cont by (auto simp: utf8_iff)

lemma utf8_split: "utf8 (a @ c # b) \<Longrightarrow> \<not> is_cont c \<Longrightarrow> utf8 a \<and> utf8 (c # b)"
proof (induction "length a" arbitrary: a rule: less_induct)
  case less
  show ?case
  proof (cases a)
    case (Cons x s)
    have ih: "utf8 t \<and> utf8 (c # b)" if "utf8 (t @ c # b)" "length t < length a" for t
      using less.hyps [OF that(2,1)] less.prems(2) by simp
    have *: "is_ascii x \<and> utf8 (s @ c # b) \<or> (\<exists>y t. s @ c # b = y # t \<and> lead2 x \<and> is_cont y \<and> utf8 t) \<or>
      (\<exists>y z t. s @ c # b = y # z # t \<and> lead3 x y \<and> is_cont z \<and> utf8 t) \<or>
      (\<exists>y z w t. s @ c # b = y # z # w # t \<and> lead4 x y \<and> is_cont z \<and> is_cont w \<and> utf8 t)"
      using less.prems(1) unfolding Cons append_Cons utf8_iff [of x] .
    have "utf8 (x # s) \<and> utf8 (c # b)"
      using * ih less.prems(2) lead_cont unfolding Cons utf8_iff [of x]
      by (auto simp: Cons_eq_append_conv append_eq_Cons_conv)
    then show ?thesis by (simp add: Cons)
  qed (use less.prems in simp)
qed

definition bnd :: "string \<Rightarrow> nat \<Rightarrow> bool" where
  "bnd v i \<longleftrightarrow> i \<le> length v \<and> is_char_boundary v i"

lemma bnd_append: "utf8 q \<Longrightarrow> bnd (p @ q) (length p)"
  by (cases q) (auto simp: bnd_def is_char_boundary_def dest: utf8_hd)

lemma bnd_ends [simp]: "bnd v 0" "bnd v (length v)"
  by (simp_all add: bnd_def is_char_boundary_def)

lemma bnd_split:
  assumes "utf8 v" and "bnd v i"
  shows "utf8 (take i v) \<and> utf8 (drop i v)"
proof (cases "i = 0 \<or> i = length v")
  case False
  then have "i < length v" "\<not> is_cont (v ! i)" using assms(2) by (auto simp: bnd_def is_char_boundary_def)
  moreover from this have "v = take i v @ v ! i # drop (Suc i) v" by (simp add: id_take_nth_drop)
  ultimately show ?thesis using utf8_split [of "take i v" "v ! i" "drop (Suc i) v"] assms(1) by (simp add: Cons_nth_drop_Suc)
qed (use assms(1) in auto)

lemma slice_valid:
  assumes "utf8 v" and "bnd v a" and "bnd v b" and "a \<le> b"
  obtains p s q where "v = p @ s @ q" "length p = a" "length (p @ s) = b" "slice v a b = Some s" "utf8 p" "utf8 s" "utf8 q"
proof -
  let ?s = "take (b - a) (drop a v)"
  have len: "b \<le> length v" using assms(3) by (simp add: bnd_def)
  have pq: "utf8 (take a v)" "utf8 (drop b v)" "utf8 (drop a v)" using bnd_split assms by blast+
  have drop: "drop a v = ?s @ drop b v"
  proof -
    have "drop (b - a) (drop a v) = drop b v" using assms(4) by simp
    then show ?thesis by (metis append_take_drop_id)
  qed
  have "utf8 ?s"
  proof (cases "drop b v")
    case Nil
    then show ?thesis using pq(3) drop by simp
  next
    case (Cons c r)
    then have "\<not> is_cont c" using pq(2) utf8_hd by simp
    then show ?thesis using utf8_split [of ?s c r] pq(3) drop Cons by simp
  qed
  moreover have "v = take a v @ ?s @ drop b v" using drop by (metis append_take_drop_id)
  moreover have "slice v a b = Some ?s" using assms by (simp add: slice_def bnd_def)
  ultimately show ?thesis using that [of "take a v" ?s "drop b v"] pq len assms(4) by simp
qed

lemma replace_valid:
  assumes "utf8 v" and "bnd v a" and "bnd v b" and "a \<le> b" and "utf8 s"
  shows "\<exists>v'. replace_range v a b s = Some v' \<and> utf8 v' \<and> bnd v' a \<and> bnd v' (a + length s)"
proof -
  obtain p x q where v: "v = p @ x @ q" "length p = a" "length (p @ x) = b" "slice v a b = Some x" "utf8 p" "utf8 q"
    using slice_valid [OF assms(1-4)] .
  have "replace_range v a b s = Some (p @ s @ q)" using v(1-4) by (auto simp: replace_range_def)
  moreover have "utf8 (p @ s @ q)" using v(5,6) assms(5) by (simp add: utf8_append)
  moreover have "bnd (p @ s @ q) (length p)" using v(6) assms(5) by (intro bnd_append) (simp add: utf8_append)
  moreover have "bnd ((p @ s) @ q) (length (p @ s))" using v(6) by (rule bnd_append)
  ultimately show ?thesis using v(2) by simp
qed

definition buffer_ok :: "text_buffer \<Rightarrow> bool" where
  "buffer_ok t \<longleftrightarrow> utf8 (tb_value t) \<and> bnd (tb_value t) (tb_caret t)"

text \<open>What segmentation promises: the graphemes are pieces of the text, in order, and none is empty.\<close>

definition segments :: "segmentation \<Rightarrow> bool" where
  "segments seg \<longleftrightarrow> (\<forall>s. utf8 s \<longrightarrow> concat (seg s) = s \<and> (\<forall>g \<in> set (seg s). g \<noteq> [] \<and> utf8 g))"

lemma utf8_concat: "\<forall>g \<in> set gs. utf8 g \<Longrightarrow> utf8 (concat gs)"
  by (induction gs) (simp_all add: utf8_append)

lemma prev_valid:
  assumes "segments seg" and "utf8 v" and "bnd v i"
  shows "\<exists>r. prev_grapheme_start seg v i = Some r \<and> (\<forall>k. r = Some k \<longrightarrow> k < i \<and> bnd v k)"
proof -
  obtain p q where v: "v = p @ q" "length p = i" "slice v 0 i = Some p" "utf8 p" "utf8 q"
    using slice_valid [OF assms(2) bnd_ends(1) assms(3) le0] by (metis append_Nil length_0_conv)
  have seg: "concat (seg p) = p" "\<forall>g \<in> set (seg p). g \<noteq> [] \<and> utf8 g" using assms(1) v(4) by (auto simp: segments_def)
  show ?thesis
  proof (cases "seg p" rule: rev_cases)
    case Nil
    then show ?thesis using v(3) by (simp add: prev_grapheme_start_def)
  next
    case (snoc gs g)
    then have p: "p = concat gs @ g" "g \<noteq> []" "utf8 g" using seg by auto
    then have "bnd v (length (concat gs))" using v(1,5) bnd_append [of "g @ q" "concat gs"] by (simp add: utf8_append)
    moreover have "length (concat gs) < i" using v(2) p(1,2) by (cases g) auto
    ultimately show ?thesis using v(3) p snoc by (simp add: prev_grapheme_start_def)
  qed
qed

lemma next_valid:
  assumes "segments seg" and "utf8 v" and "bnd v i"
  shows "\<exists>r. next_grapheme_end seg v i = Some r \<and> (\<forall>k. r = Some k \<longrightarrow> i < k \<and> k \<le> length v \<and> bnd v k)"
proof -
  have "i \<le> length v" using assms(3) by (simp add: bnd_def)
  then obtain p q where v: "v = p @ q" "length p = i" "slice v i (length v) = Some q" "utf8 p" "utf8 q"
    using slice_valid [OF assms(2,3) bnd_ends(2)] by (metis append_Nil2 append_eq_append_conv append_assoc length_append)
  have seg: "concat (seg q) = q" "\<forall>g \<in> set (seg q). g \<noteq> [] \<and> utf8 g" using assms(1) v(5) by (auto simp: segments_def)
  show ?thesis
  proof (cases "seg q")
    case Nil
    then show ?thesis using v(3) by (simp add: next_grapheme_end_def)
  next
    case (Cons g gs)
    then have q: "q = g @ concat gs" "g \<noteq> []" "utf8 (concat gs)" using seg utf8_concat [of gs] by auto
    then have "bnd v (length (p @ g))" using v(1) bnd_append [of "concat gs" "p @ g"] by simp
    then show ?thesis using v(1-3) q Cons by (simp add: next_grapheme_end_def)
  qed
qed

lemma separator_valid:
  "utf8 v \<Longrightarrow> bnd v a \<Longrightarrow> bnd v b \<Longrightarrow> a \<le> b \<Longrightarrow> \<exists>r. is_separator sep v a b = Some r"
  by (rule slice_valid [of v a b]) (auto simp: is_separator_def)

lemma skip_left_valid:
  assumes "segments seg" and "utf8 v"
  shows "bnd v pos \<Longrightarrow> \<exists>p. skip_left seg sep w v pos = Some p \<and> p \<le> pos \<and> bnd v p"
proof (induction pos rule: less_induct)
  case (less pos)
  obtain r where r: "prev_grapheme_start seg v pos = Some r" "\<forall>k. r = Some k \<longrightarrow> k < pos \<and> bnd v k"
    using prev_valid [OF assms less.prems] by blast
  show ?case
  proof (cases r)
    case (Some k)
    then have k: "k < pos" "bnd v k" using r(2) by auto
    obtain b where "is_separator sep v k pos = Some b" using separator_valid [OF assms(2) k(2) less.prems] k(1) by force
    moreover obtain p where "skip_left seg sep w v k = Some p" "p \<le> k" "bnd v p" using less.IH [OF k] by blast
    ultimately show ?thesis using r(1) Some k less.prems by (cases "b = w") (simp_all add: skip_left.simps [of seg sep w v pos])
  qed (use r(1) less.prems in \<open>simp add: skip_left.simps [of seg sep w v pos]\<close>)
qed

lemma skip_right_valid:
  assumes "segments seg" and "utf8 v"
  shows "bnd v pos \<Longrightarrow> \<exists>p. skip_right seg sep w v pos = Some p \<and> bnd v p"
proof (induction "length v - pos" arbitrary: pos rule: less_induct)
  case less
  obtain r where r: "next_grapheme_end seg v pos = Some r" "\<forall>k. r = Some k \<longrightarrow> pos < k \<and> k \<le> length v \<and> bnd v k"
    using next_valid [OF assms less.prems] by blast
  show ?case
  proof (cases r)
    case (Some k)
    then have k: "pos < k" "k \<le> length v" "bnd v k" using r(2) by auto
    obtain b where "is_separator sep v pos k = Some b" using separator_valid [OF assms(2) less.prems k(3)] k(1) by force
    moreover have "length v - k < length v - pos" using k(1,2) by simp
    then obtain p where "skip_right seg sep w v k = Some p" "bnd v p" using less.hyps [OF _ k(3)] by blast
    ultimately show ?thesis using r(1) Some less.prems by (cases "b = w") (simp_all add: skip_right.simps [of seg sep w v pos])
  qed (use r(1) less.prems in \<open>simp add: skip_right.simps [of seg sep w v pos]\<close>)
qed

lemma not_cont_nl: "\<not> is_cont nl"
  by (simp add: is_cont_def)

lemma utf8_nl: "utf8 (a @ nl # b) \<Longrightarrow> utf8 a \<and> utf8 b"
  using utf8_split [of a nl b] not_cont_nl by (auto simp: utf8_iff [of nl] lead2_def lead3_def lead4_def Let_def)

lemma after_last_nl_cases:
  obtains "nl \<notin> set s" "after_last_nl s = 0" | a b where "s = a @ nl # b" "after_last_nl s = length a + 1"
proof (cases "nl \<in> set s")
  case True
  then obtain a b where s: "s = a @ nl # b" "nl \<notin> set b" by (meson split_list_last)
  then have "takeWhile (\<lambda>c. c \<noteq> nl) (rev s) = rev b" by (auto simp: takeWhile_append)
  then have "after_last_nl s = length a + 1" using s by (simp add: after_last_nl_def)
  with s show ?thesis using that(2) by blast
qed (use that(1) in \<open>simp add: after_last_nl_def\<close>)

lemma after_last_nl_bnd:
  assumes "v = p @ q" and "utf8 p" and "utf8 q"
  shows "after_last_nl p \<le> length p \<and> bnd v (after_last_nl p) \<and>
    (after_last_nl p \<noteq> 0 \<longrightarrow> after_last_nl p - 1 < length v \<and> bnd v (after_last_nl p - 1))"
proof (cases rule: after_last_nl_cases [of p])
  case (2 a b)
  then have p: "utf8 (a @ nl # b)" using assms(2) by simp
  have b: "utf8 b" "utf8 (nl # b)" using utf8_nl [OF p] utf8_split [OF p not_cont_nl] by blast+
  have "bnd v (length (a @ [nl]))" using assms(1,3) 2(1) b(1) bnd_append [of "b @ q" "a @ [nl]"] by (simp add: utf8_append)
  moreover have "bnd v (length a)"
    using assms(1,3) 2(1) b(2) bnd_append [of "(nl # b) @ q" a] utf8_append [OF b(2) assms(3)] by simp
  ultimately show ?thesis using 2 assms(1) by simp
qed simp

lemma first_nl_bnd:
  assumes "v = p @ q" and "utf8 p" and "utf8 q"
  defines "e \<equiv> length p + length (takeWhile (\<lambda>c. c \<noteq> nl) q)"
  shows "e \<le> length v \<and> bnd v e \<and> (e < length v \<longrightarrow> bnd v (e + 1))"
proof -
  let ?w = "takeWhile (\<lambda>c. c \<noteq> nl) q" and ?d = "dropWhile (\<lambda>c. c \<noteq> nl) q"
  have q: "q = ?w @ ?d" by simp
  show ?thesis
  proof (cases ?d)
    case Nil
    then have "e = length v" using q assms(1) by (metis append_Nil2 e_def length_append)
    then show ?thesis by simp
  next
    case (Cons c r)
    then have "c = nl" using hd_dropWhile [of "\<lambda>c. c \<noteq> nl" q] by simp
    with Cons q have q': "q = ?w @ nl # r" by simp
    then have "utf8 (?w @ nl # r)" using assms(3) by simp
    then have r: "utf8 r" "utf8 (nl # r)" using utf8_nl utf8_split not_cont_nl by blast+
    have v: "v = (p @ ?w) @ nl # r" using assms(1) q' by simp
    have "bnd v (length (p @ ?w))" "bnd v (length ((p @ ?w) @ [nl]))"
      using bnd_append [OF r(2), of "p @ ?w"] bnd_append [OF r(1), of "(p @ ?w) @ [nl]"] v by simp_all
    moreover have "e + 1 \<le> length v" unfolding e_def by (subst v) simp
    ultimately show ?thesis by (simp add: e_def)
  qed
qed

lemma column_from_valid:
  assumes "segments seg" and "utf8 v" and "bnd v e"
  shows "bnd v pos \<Longrightarrow> pos \<le> e \<Longrightarrow> \<exists>p. column_from seg v e pos n = Some p \<and> bnd v p \<and> p \<le> e"
proof (induction n arbitrary: pos)
  case (Suc n)
  show ?case
  proof (cases "pos < e")
    case True
    obtain p s q where v: "v = p @ s @ q" "length p = pos" "length (p @ s) = e" "slice v pos e = Some s" "utf8 s" "utf8 q"
      using slice_valid [OF assms(2) Suc.prems(1) assms(3) Suc.prems(2)] .
    have seg: "concat (seg s) = s" "\<forall>g \<in> set (seg s). utf8 g" using assms(1) v(5) by (auto simp: segments_def)
    show ?thesis
    proof (cases "seg s")
      case Nil
      then show ?thesis using v(4) Suc.prems assms(3) by auto
    next
      case (Cons g gs)
      then have s: "s = g @ concat gs" "utf8 (concat gs @ q)" using seg v(6) utf8_concat [of gs] utf8_append by auto
      then have "bnd v (pos + length g)" using v(1,2) bnd_append [OF s(2), of "p @ g"] by simp
      moreover have "pos + length g \<le> e" using v(2,3) s(1) by simp
      ultimately show ?thesis using Suc.IH v(4) True Cons by simp
    qed
  qed (use Suc.prems in simp)
qed simp

subsection \<open>Every edit is valid\<close>

lemma buffer_okI: "utf8 v \<Longrightarrow> bnd v c \<Longrightarrow> buffer_ok \<lparr>tb_value = v, tb_caret = c\<rparr>"
  by (simp add: buffer_ok_def)

lemma buffer_split:
  assumes "buffer_ok t"
  obtains p q where "tb_value t = p @ q" "tb_caret t = length p" "utf8 p" "utf8 q"
    "slice (tb_value t) 0 (tb_caret t) = Some p" "slice (tb_value t) (tb_caret t) (length (tb_value t)) = Some q"
proof -
  have v: "utf8 (tb_value t)" "bnd (tb_value t) (tb_caret t)" using assms by (simp_all add: buffer_ok_def)
  let ?p = "take (tb_caret t) (tb_value t)" and ?q = "drop (tb_caret t) (tb_value t)"
  have "tb_caret t \<le> length (tb_value t)" using v(2) by (simp add: bnd_def)
  then show ?thesis using that [of ?p ?q] bnd_split [OF v] v(2) bnd_ends [of "tb_value t"] by (simp add: slice_def bnd_def)
qed

lemma line_start_valid:
  assumes "buffer_ok t"
  shows "\<exists>k. line_start t = Some k \<and> k \<le> tb_caret t \<and> bnd (tb_value t) k \<and>
    (k \<noteq> 0 \<longrightarrow> k - 1 < length (tb_value t) \<and> bnd (tb_value t) (k - 1))"
proof -
  obtain p q where v: "tb_value t = p @ q" "tb_caret t = length p" "utf8 p" "utf8 q" "slice (tb_value t) 0 (tb_caret t) = Some p"
    using buffer_split [OF assms] .
  show ?thesis using after_last_nl_bnd [OF v(1,3,4)] v(2,5) by (simp add: line_start_def)
qed

lemma line_end_valid:
  assumes "buffer_ok t"
  shows "\<exists>k. line_end t = Some k \<and> tb_caret t \<le> k \<and> k \<le> length (tb_value t) \<and> bnd (tb_value t) k \<and>
    (k < length (tb_value t) \<longrightarrow> bnd (tb_value t) (k + 1))"
proof -
  obtain p q where v: "tb_value t = p @ q" "tb_caret t = length p" "utf8 p" "utf8 q"
      "slice (tb_value t) (tb_caret t) (length (tb_value t)) = Some q"
    using buffer_split [OF assms] .
  show ?thesis using first_nl_bnd [OF v(1,3,4)] v(2,5) by (simp add: line_end_def)
qed

lemma column_valid:
  assumes "segments seg" and "buffer_ok t" and "bnd (tb_value t) s" and "bnd (tb_value t) e" and "s \<le> e"
  shows "\<exists>p. column seg t s e = Some p \<and> bnd (tb_value t) p"
proof -
  have v: "utf8 (tb_value t)" "bnd (tb_value t) (tb_caret t)" using assms(2) by (simp_all add: buffer_ok_def)
  obtain l where l: "line_start t = Some l" "l \<le> tb_caret t" "bnd (tb_value t) l" using line_start_valid [OF assms(2)] by blast
  obtain x where "slice (tb_value t) l (tb_caret t) = Some x" using slice_valid [OF v(1) l(3) v(2) l(2)] by metis
  then show ?thesis
    using l(1) column_from_valid [OF assms(1) v(1) assms(4,3,5), of "length (seg x)"] by (auto simp: column_def)
qed

lemma line_up_valid:
  assumes "segments seg" and "buffer_ok t"
  shows "\<exists>t'. line_up seg t = Some t' \<and> buffer_ok t'"
proof -
  have v: "utf8 (tb_value t)" using assms(2) by (simp add: buffer_ok_def)
  obtain k where k: "line_start t = Some k"
      "k \<noteq> 0 \<longrightarrow> k - 1 < length (tb_value t) \<and> bnd (tb_value t) (k - 1)"
    using line_start_valid [OF assms(2)] by blast
  show ?thesis
  proof (cases "k = 0")
    case False
    then have b: "bnd (tb_value t) (k - 1)" using k(2) by simp
    obtain p q where s: "tb_value t = p @ q" "length p = k - 1" "utf8 p" "utf8 q" "slice (tb_value t) 0 (k - 1) = Some p"
      using slice_valid [OF v bnd_ends(1) b le0] by (metis append_Nil length_0_conv)
    obtain c where "column seg t (after_last_nl p) (k - 1) = Some c" "bnd (tb_value t) c"
      using column_valid [OF assms _ b] after_last_nl_bnd [OF s(1,3,4)] s(2) by metis
    then show ?thesis using k(1) s(5) v False by (simp add: line_up_def buffer_ok_def)
  qed (use k v in \<open>simp add: line_up_def buffer_ok_def\<close>)
qed

lemma line_down_valid:
  assumes "segments seg" and "buffer_ok t"
  shows "\<exists>t'. line_down seg t = Some t' \<and> buffer_ok t'"
proof -
  have v: "utf8 (tb_value t)" using assms(2) by (simp add: buffer_ok_def)
  obtain k where k: "line_end t = Some k" "k < length (tb_value t) \<longrightarrow> bnd (tb_value t) (k + 1)"
    using line_end_valid [OF assms(2)] by blast
  show ?thesis
  proof (cases "k < length (tb_value t)")
    case True
    then have b: "bnd (tb_value t) (k + 1)" "k + 1 \<le> length (tb_value t)" using k(2) by auto
    let ?q = "drop (k + 1) (tb_value t)" and ?p = "take (k + 1) (tb_value t)"
    have u: "utf8 ?p" "utf8 ?q" using bnd_split [OF v b(1)] by blast+
    have s: "slice (tb_value t) (k + 1) (length (tb_value t)) = Some ?q"
      using b bnd_ends [of "tb_value t"] by (simp add: slice_def bnd_def)
    let ?e = "k + 1 + length (takeWhile (\<lambda>c. c \<noteq> nl) ?q)"
    have "bnd (tb_value t) ?e" using first_nl_bnd [OF append_take_drop_id [symmetric] u] b(2) by (simp add: min_absorb2)
    then obtain c where "column seg t (k + 1) ?e = Some c" "bnd (tb_value t) c" using column_valid [OF assms b(1)] by force
    then show ?thesis using k(1) s v True by (simp add: line_down_def buffer_ok_def)
  qed (use k v in \<open>simp add: line_down_def buffer_ok_def\<close>)
qed

fun edit_ok :: "edit \<Rightarrow> bool" where
  "edit_ok (Insert s) \<longleftrightarrow> utf8 s"
| "edit_ok _ \<longleftrightarrow> True"

lemma insert_valid: "buffer_ok t \<Longrightarrow> utf8 s \<Longrightarrow> \<exists>t'. insert_str s t = Some t' \<and> buffer_ok t'"
  using replace_valid [of "tb_value t" "tb_caret t" "tb_caret t" s] by (auto simp: insert_str_def buffer_ok_def)

lemma cut_valid:
  assumes "buffer_ok t" and "bnd (tb_value t) a" and "bnd (tb_value t) b" and "a \<le> b"
  shows "\<exists>v. replace_range (tb_value t) a b [] = Some v \<and> utf8 v \<and> bnd v a"
  using replace_valid [of "tb_value t" a b "[]"] assms by (auto simp: buffer_ok_def)

lemma step_valid:
  assumes "segments seg" and "buffer_ok t" and "edit_ok e"
  shows "\<exists>t'. apply_edit seg sep e t = Some t' \<and> buffer_ok t'"
proof -
  have v: "utf8 (tb_value t)" "bnd (tb_value t) (tb_caret t)" using assms(2) by (simp_all add: buffer_ok_def)
  obtain l r where l: "prev_grapheme_start seg (tb_value t) (tb_caret t) = Some l"
      "\<forall>k. l = Some k \<longrightarrow> k < tb_caret t \<and> bnd (tb_value t) k"
    and r: "next_grapheme_end seg (tb_value t) (tb_caret t) = Some r"
      "\<forall>k. r = Some k \<longrightarrow> tb_caret t < k \<and> k \<le> length (tb_value t) \<and> bnd (tb_value t) k"
    using prev_valid [OF assms(1) v] next_valid [OF assms(1) v] by metis
  obtain s where s: "line_start t = Some s" "s \<le> tb_caret t" "bnd (tb_value t) s" using line_start_valid [OF assms(2)] by blast
  obtain d where d: "line_end t = Some d" "tb_caret t \<le> d" "bnd (tb_value t) d" using line_end_valid [OF assms(2)] by blast
  obtain w1 where w1: "skip_left seg sep True (tb_value t) (tb_caret t) = Some w1" "w1 \<le> tb_caret t" "bnd (tb_value t) w1"
    using skip_left_valid [OF assms(1) v] by blast
  obtain w where w: "skip_left seg sep False (tb_value t) w1 = Some w" "w \<le> w1" "bnd (tb_value t) w"
    using skip_left_valid [OF assms(1) v(1) w1(3)] by blast
  obtain u1 where u1: "skip_right seg sep False (tb_value t) (tb_caret t) = Some u1" "bnd (tb_value t) u1"
    using skip_right_valid [OF assms(1) v] by blast
  obtain u where u: "skip_right seg sep True (tb_value t) u1 = Some u" "bnd (tb_value t) u"
    using skip_right_valid [OF assms(1) v(1) u1(2)] by blast
  have cut: "\<exists>x. replace_range (tb_value t) a b [] = Some x \<and> utf8 x \<and> bnd x a"
    if "bnd (tb_value t) a" "bnd (tb_value t) b" "a \<le> b" for a b using cut_valid [OF assms(2) that] .
  show ?thesis
  proof (cases e)
    case (Insert x)
    then show ?thesis using insert_valid assms(2,3) by simp
  next
    case Backspace
    then show ?thesis using l assms(2) cut [OF _ v(2)] by (cases l) (force simp: backspace_def buffer_ok_def)+
  next
    case Delete
    then show ?thesis using r assms(2) cut [OF v(2)] by (cases r) (force simp: delete_grapheme_def buffer_ok_def)+
  next
    case MoveLeft
    then show ?thesis using l v by (cases l) (simp_all add: move_left_def buffer_ok_def)
  next
    case MoveRight
    then show ?thesis using r v by (cases r) (simp_all add: move_right_def buffer_ok_def)
  next
    case WordLeft
    then show ?thesis using w1 w v by (simp add: move_word_left_def buffer_ok_def)
  next
    case WordRight
    then show ?thesis using u1 u v by (simp add: move_word_right_def buffer_ok_def)
  next
    case DeleteWord
    then show ?thesis using w1 w v cut [OF w(3) v(2)] by (auto simp: delete_word_before_def move_word_left_def buffer_ok_def)
  next
    case DeleteToStart
    then show ?thesis using s cut [OF s(3) v(2) s(2)] by (auto simp: delete_to_line_start_def buffer_ok_def)
  next
    case DeleteToEnd
    then show ?thesis using cut [OF v(2) d(3,2)] d by (auto simp: delete_to_line_end_def buffer_ok_def)
  qed (use s d v line_up_valid [OF assms(1,2)] line_down_valid [OF assms(1,2)] in
    \<open>simp_all add: home_def end_of_line_def buffer_ok_def\<close>)
qed

subsection \<open>The properties\<close>

text \<open>C36: no sequence of editing keys panics the terminal: whatever is typed or pasted, however the caret moves and
  whatever is deleted, the text stays valid UTF-8 and the caret on a character boundary, so the slice of every later
  edit is legal.\<close>

theorem edits_never_panic:
  assumes "segments seg" and "utf8 v" and "\<And>s. Insert s \<in> set es \<Longrightarrow> utf8 s"
  shows "\<exists>t. apply_edits seg sep es (new_buffer v) = Some t \<and> utf8 (tb_value t) \<and>
    tb_caret t \<le> length (tb_value t) \<and> is_char_boundary (tb_value t) (tb_caret t)"
proof -
  have "\<exists>t'. apply_edits seg sep es t = Some t' \<and> buffer_ok t'" if "buffer_ok t" "\<And>e. e \<in> set es \<Longrightarrow> edit_ok e" for t
    using that
  proof (induction es arbitrary: t)
    case (Cons e es)
    then obtain t' where "apply_edit seg sep e t = Some t'" "buffer_ok t'" using step_valid [OF assms(1)] by force
    then show ?case using Cons by auto
  qed simp
  moreover have "edit_ok e" if "e \<in> set es" for e by (cases e rule: edit.exhaust) (use that assms(3) in auto)
  moreover have "buffer_ok (new_buffer v)" using assms(2) by (simp add: buffer_ok_def new_buffer_def)
  ultimately show ?thesis by (force simp: buffer_ok_def bnd_def)
qed

text \<open>For the witness: a segmentation whose graphemes are the characters, with a separator that is a blank.\<close>

function by_char :: "segmentation" where
  "by_char [] = []"
| "by_char (c # s) = (c # takeWhile is_cont s) # by_char (dropWhile is_cont s)"
  by pat_completeness auto
termination by (relation "measure length") (auto simp: less_Suc_eq_le length_dropWhile_le)

lemma segments_by_char: "segments by_char"
proof -
  have "concat (by_char s) = s \<and> (\<forall>g \<in> set (by_char s). g \<noteq> [] \<and> utf8 g)" if "utf8 s" for s
    using that
  proof (induction s rule: by_char.induct)
    case (2 c s)
    have "utf8 (c # takeWhile is_cont s) \<and> utf8 (dropWhile is_cont s)"
    proof (cases "dropWhile is_cont s")
      case (Cons d r)
      then have "\<not> is_cont d" using hd_dropWhile [of is_cont s] by simp
      moreover have "c # s = (c # takeWhile is_cont s) @ d # r" using Cons by (metis append_Cons takeWhile_dropWhile_id)
      ultimately show ?thesis using utf8_split [of "c # takeWhile is_cont s" d r] 2(2) Cons by simp
    qed (use 2(2) in \<open>simp add: takeWhile_eq_all_conv [THEN iffD2] dropWhile_eq_Nil_conv [THEN iffD2]\<close>)
    then show ?case using 2(1) by simp
  qed simp
  then show ?thesis by (simp add: segments_def)
qed

theorem edits_never_panic_witness:
  "\<exists>t. apply_edits by_char (\<lambda>g. g = '' '') [Insert ''a b'', WordLeft, LineUp, DeleteWord] (new_buffer [CHR 0xC3, CHR 0xA9]) = Some t \<and>
    utf8 (tb_value t) \<and> tb_caret t \<le> length (tb_value t) \<and> is_char_boundary (tb_value t) (tb_caret t)"
proof (rule edits_never_panic [OF segments_by_char])
  show "utf8 [CHR 0xC3, CHR 0xA9]" by code_simp
  show "\<And>s. Insert s \<in> set [Insert ''a b'', WordLeft, LineUp, DeleteWord] \<Longrightarrow> utf8 s" by (simp, code_simp)
qed

text \<open>The caret need not stay on a grapheme boundary: in a text that starts with a combining accent, \<open>Home\<close> and typing a
  letter leaves it between the letter and its accent, under every segmentation.\<close>

lemma caret_inside_grapheme:
  "apply_edits seg sep [Home, Insert ''e''] (new_buffer [CHR 0xCC, CHR 0x81]) =
    Some \<lparr>tb_value = [CHR ''e'', CHR 0xCC, CHR 0x81], tb_caret = 1\<rparr>"
  by (simp add: new_buffer_def home_def line_start_def slice_def is_char_boundary_def after_last_nl_def insert_str_def replace_range_def)

end
