(* ===== verification/TuiApp.thy ===== *)
theory TuiApp
  imports TextBuffer Sessions Auth
begin

text \<open>
  The state of the terminal client and what a push of the daemon does to it
  (\<open>crates/favetto-tui/src/tui/app/mod.rs\<close>): the rows in the scope of the active repository, the catalog tree, the
  event list with its cursor, the sound cues (\<open>sound.rs\<close>) and the sessions behind the Activity and Usage columns.
\<close>

subsection \<open>Catalog entries\<close>

record tui_entry =
  te_name :: string
  te_agent :: "string option"
  te_provider :: "string option"
  te_model :: "string option"
  te_cwd :: "string option"
  te_schedule :: "string option"
  te_kind :: string
  te_needs :: "string option"
  te_vars :: "task_var list"
  te_prompt :: string
  te_repo :: "string option"

definition stem :: "tui_entry \<Rightarrow> string" where
  "stem e = (case rsplit_once CHR ''/'' (te_name e) of Some (_, s) \<Rightarrow> s | None \<Rightarrow> te_name e)"

definition kind_label :: "tui_entry \<Rightarrow> string" where
  "kind_label e = (if te_kind e = ''action'' then ''action'' else if te_schedule e \<noteq> None then ''scheduled'' else ''agent'')"

text \<open>The dash of an empty cell, in UTF-8.\<close>

definition dash :: string where "dash = [CHR 0xE2, CHR 0x80, CHR 0x94]"

definition model_display :: "tui_entry \<Rightarrow> string" where
  "model_display e = (case (te_provider e, te_model e) of
     (Some p, Some m) \<Rightarrow> p @ ''/'' @ m | (None, Some m) \<Rightarrow> m | (Some p, None) \<Rightarrow> p | (None, None) \<Rightarrow> dash)"

datatype catalog_row = FolderRow string nat bool | TaskRow nat nat

subsection \<open>The state\<close>

datatype tab = TabTasks | TabCatalog | TabAgent | TabEvents | TabScheduler | TabNotifications | TabUsage

definition TABS :: "tab list" where
  "TABS = [TabTasks, TabCatalog, TabAgent, TabEvents, TabScheduler, TabNotifications, TabUsage]"

datatype sound_cue = CueTaskFinished | CueTaskFailed | CueTaskStarted | CueAwaitingInput | CueAttention

record tui_repo =
  tr_name :: string
  tr_path :: string
  tr_active :: bool
  tr_available :: bool
  tr_source :: repo_source

text \<open>The fields of \<open>App\<close> that the operations below read or write.\<close>

record tui_app =
  ap_tab :: tab
  ap_tasks :: "task list"
  ap_tasks_selected :: nat
  ap_events :: "event list"
  ap_events_selected :: nat
  ap_last_event_id :: int
  ap_catalog :: "tui_entry list"
  ap_catalog_selected :: nat
  ap_collapsed :: "string set"
  ap_preview :: "(string \<times> string) option"
  ap_preview_pending :: "string option"
  ap_preview_scroll :: nat
  ap_preview_visible :: bool
  ap_known_repos :: "tui_repo list"
  ap_active_repo :: "string option"
  ap_catalog_dirty :: bool
  ap_schedules_dirty :: bool
  ap_repos_dirty :: bool
  ap_inspecting :: bool
  ap_inspect_dirty :: bool
  ap_usage_dirty :: bool
  ap_agent_session :: "string option"
  ap_agent_running :: bool
  ap_agent_status :: string
  ap_frames :: "string list"
  ap_sessions :: "session_info list"
  ap_task_state :: "string \<rightharpoonup> agent_activity option \<times> agent_usage option"
  ap_cues :: "sound_cue list"
  ap_muted :: bool
  ap_suppressed :: bool

definition new_tui :: tui_app where
  "new_tui = \<lparr>ap_tab = TabTasks, ap_tasks = [], ap_tasks_selected = 0, ap_events = [], ap_events_selected = 0,
     ap_last_event_id = 0, ap_catalog = [], ap_catalog_selected = 0, ap_collapsed = {}, ap_preview = None,
     ap_preview_pending = None, ap_preview_scroll = 0, ap_preview_visible = True, ap_known_repos = [],
     ap_active_repo = None, ap_catalog_dirty = False, ap_schedules_dirty = False, ap_repos_dirty = False,
     ap_inspecting = False, ap_inspect_dirty = False, ap_usage_dirty = False, ap_agent_session = None,
     ap_agent_running = False, ap_agent_status = [], ap_frames = [], ap_sessions = [], ap_task_state = Map.empty,
     ap_cues = [], ap_muted = False, ap_suppressed = False\<rparr>"

subsection \<open>The scope of the active repository\<close>

definition repo_visible :: "tui_app \<Rightarrow> string option \<Rightarrow> bool" where
  "repo_visible a repo = (case ap_active_repo a of Some r \<Rightarrow> repo = Some r | None \<Rightarrow> True)"

definition catalog_visible :: "tui_app \<Rightarrow> string option \<Rightarrow> bool" where
  "catalog_visible a repo = (case ap_active_repo a of Some r \<Rightarrow> repo = Some r \<or> repo = None | None \<Rightarrow> True)"

definition visible_catalog :: "tui_app \<Rightarrow> tui_entry list" where
  "visible_catalog a = filter (\<lambda>e. catalog_visible a (te_repo e)) (ap_catalog a)"

definition tui_task_repo :: "string \<Rightarrow> string option" where
  "tui_task_repo name = map_option fst (split_repo name)"

definition tui_visible_tasks :: "tui_app \<Rightarrow> task list" where
  "tui_visible_tasks a = filter (\<lambda>t. repo_visible a (tui_task_repo (t_name t))) (ap_tasks a)"

text \<open>\<open>parse\<close> is \<open>Uuid::parse_str\<close>, to the canonical form.\<close>

definition tui_event_repo :: "(string \<Rightarrow> uuid option) \<Rightarrow> tui_app \<Rightarrow> event \<Rightarrow> string option" where
  "tui_event_repo parse a e = (case Option.bind (jget (e_payload e) ''name'') as_str of
     Some name \<Rightarrow> tui_task_repo name
   | None \<Rightarrow> Option.bind (Option.bind (jget (e_payload e) ''task_id'') as_str) (\<lambda>raw.
       Option.bind (parse raw) (\<lambda>i. Option.bind (find (\<lambda>t. t_id t = i) (ap_tasks a)) (\<lambda>t. tui_task_repo (t_name t)))))"

definition tui_visible_events :: "(string \<Rightarrow> uuid option) \<Rightarrow> tui_app \<Rightarrow> event list" where
  "tui_visible_events parse a = filter (\<lambda>e. repo_visible a (tui_event_repo parse a e)) (ap_events a)"

definition selected_task :: "tui_app \<Rightarrow> task option" where
  "selected_task a = (let v = tui_visible_tasks a in
     if v = [] then None else Some (v ! min (ap_tasks_selected a) (length v - 1)))"

definition select_next :: "tui_app \<Rightarrow> tui_app" where
  "select_next a = (let n = length (tui_visible_tasks a) in
     if n > 0 then a\<lparr>ap_tasks_selected := min (ap_tasks_selected a + 1) (n - 1)\<rparr> else a)"

definition select_prev :: "tui_app \<Rightarrow> tui_app" where
  "select_prev a = a\<lparr>ap_tasks_selected := ap_tasks_selected a - 1\<rparr>"

definition selected_event :: "(string \<Rightarrow> uuid option) \<Rightarrow> tui_app \<Rightarrow> event option" where
  "selected_event parse a = (let v = tui_visible_events parse a; n = length v in
     if n = 0 then None else Some (v ! (n - 1 - min (ap_events_selected a) (n - 1))))"

subsection \<open>The catalog tree\<close>

text \<open>The chain of \<open>rsplit_once\<close>: the folders above a name.\<close>

function folder_prefixes :: "string \<Rightarrow> string list" where
  "folder_prefixes name = (case rsplit_once CHR ''/'' name of None \<Rightarrow> [] | Some (p, _) \<Rightarrow> p # folder_prefixes p)"
  by pat_completeness auto
termination by (relation "measure length") (auto simp: rsplit_once_Some)

declare folder_prefixes.simps [simp del]

definition under :: "string \<Rightarrow> string \<Rightarrow> bool" where
  "under folder key \<longleftrightarrow> prefix (folder @ ''/'') key"

text \<open>The entries in scope with their index into the catalog, and the sorted records of folders and tasks.\<close>

definition scoped_entries :: "tui_app \<Rightarrow> (nat \<times> tui_entry) list" where
  "scoped_entries a = filter (\<lambda>(i, e). catalog_visible a (te_repo e)) (enumerate 0 (ap_catalog a))"

definition catalog_records :: "tui_app \<Rightarrow> ((string \<times> bool) \<times> nat) list" where
  "catalog_records a = (let entries = scoped_entries a in
     sort_key fst (map (\<lambda>f. ((f, False), 0)) (remdups (concat (map (\<lambda>(i, e). folder_prefixes (te_name e)) entries))) @
       map (\<lambda>(i, e). ((te_name e, True), i)) entries))"

definition row_hidden :: "tui_app \<Rightarrow> string \<Rightarrow> bool" where
  "row_hidden a key \<longleftrightarrow> (\<exists>c \<in> ap_collapsed a. under c key)"

definition catalog_row_of :: "tui_app \<Rightarrow> (string \<times> bool) \<times> nat \<Rightarrow> catalog_row" where
  "catalog_row_of a r = (case r of ((key, is_task), i) \<Rightarrow>
     let depth = length (filter (\<lambda>c. c = CHR ''/'') key) in
     if is_task then TaskRow i depth else FolderRow key depth (key \<in> ap_collapsed a))"

definition catalog_rows :: "tui_app \<Rightarrow> catalog_row list" where
  "catalog_rows a = map (catalog_row_of a) (filter (\<lambda>r. \<not> row_hidden a (fst (fst r))) (catalog_records a))"

definition selected_catalog_task :: "tui_app \<Rightarrow> nat option" where
  "selected_catalog_task a = (let rows = catalog_rows a; k = ap_catalog_selected a in
     if k < length rows then (case rows ! k of TaskRow i _ \<Rightarrow> Some i | _ \<Rightarrow> None) else None)"

definition clamp :: "nat \<Rightarrow> nat \<Rightarrow> nat" where
  "clamp n k = (if n = 0 then 0 else min k (n - 1))"

definition select_catalog_row :: "nat \<Rightarrow> tui_app \<Rightarrow> tui_app" where
  "select_catalog_row k a = (let rows = catalog_rows a in
     if rows = [] then a\<lparr>ap_catalog_selected := 0\<rparr>
     else (let k = min k (length rows - 1); a = a\<lparr>ap_catalog_selected := k, ap_preview_scroll := 0\<rparr> in
       case rows ! k of FolderRow _ _ _ \<Rightarrow> a\<lparr>ap_preview := None\<rparr> | _ \<Rightarrow> a))"

definition toggle_catalog_folder :: "tui_app \<Rightarrow> tui_app \<times> bool" where
  "toggle_catalog_folder a = (let rows = catalog_rows a; k = ap_catalog_selected a in
     if k < length rows then (case rows ! k of
         FolderRow path _ _ \<Rightarrow>
           (let a = a\<lparr>ap_collapsed := if path \<in> ap_collapsed a then ap_collapsed a - {path} else insert path (ap_collapsed a)\<rparr>
            in (a\<lparr>ap_catalog_selected := clamp (length (catalog_rows a)) k\<rparr>, True))
       | _ \<Rightarrow> (a, False))
     else (a, False))"

definition set_catalog_tui :: "tui_entry list \<Rightarrow> tui_app \<Rightarrow> tui_app" where
  "set_catalog_tui es a = (let a = a\<lparr>ap_catalog := es\<rparr> in
     a\<lparr>ap_catalog_selected := clamp (length (catalog_rows a)) (ap_catalog_selected a), ap_preview := None\<rparr>)"

definition catalog_entry_tui :: "tui_app \<Rightarrow> string \<Rightarrow> tui_entry option" where
  "catalog_entry_tui a name = find (\<lambda>e. te_name e = name) (ap_catalog a)"

definition catalog_preview_target :: "tui_app \<Rightarrow> string option" where
  "catalog_preview_target a =
     (if \<not> ap_preview_visible a \<or> ap_tab a \<noteq> TabCatalog then None
      else Option.bind (selected_catalog_task a) (\<lambda>i.
        if i < length (ap_catalog a) then
          (let name = te_name (ap_catalog a ! i) in
           if map_option fst (ap_preview a) = Some name \<or> ap_preview_pending a = Some name then None else Some name)
        else None))"

definition clamp_selections :: "(string \<Rightarrow> uuid option) \<Rightarrow> tui_app \<Rightarrow> tui_app" where
  "clamp_selections parse a =
     (let a = a\<lparr>ap_tasks_selected := clamp (length (tui_visible_tasks a)) (ap_tasks_selected a)\<rparr>;
          a = a\<lparr>ap_events_selected := clamp (length (tui_visible_events parse a)) (ap_events_selected a)\<rparr>
      in a\<lparr>ap_catalog_selected := clamp (length (catalog_rows a)) (ap_catalog_selected a)\<rparr>)"

definition set_repos_tui :: "(string \<Rightarrow> uuid option) \<Rightarrow> tui_repo list \<Rightarrow> string option \<Rightarrow> tui_app \<Rightarrow> tui_app" where
  "set_repos_tui parse rs active a =
     (clamp_selections parse (a\<lparr>ap_known_repos := rs, ap_active_repo := active\<rparr>))\<lparr>ap_preview := None\<rparr>"

subsection \<open>What the tree shows\<close>

lemma folder_prefixes_exact: "p \<in> set (folder_prefixes name) \<longleftrightarrow> under p name"
proof (induction name rule: folder_prefixes.induct)
  case (1 name)
  show ?case
  proof (cases "rsplit_once CHR ''/'' name")
    case None
    then have "CHR ''/'' \<notin> set name" by (auto simp: rsplit_once_def split_once_def split: if_splits option.splits)
    then show ?thesis using None by (auto simp: folder_prefixes.simps [of name] under_def prefix_def)
  next
    case (Some x)
    obtain q r where x: "x = (q, r)" by (cases x)
    then have name: "name = q @ CHR ''/'' # r" "CHR ''/'' \<notin> set r" using Some by (simp_all add: rsplit_once_Some)
    have "under p name \<longleftrightarrow> p = q \<or> under p q"
      using name(2) unfolding under_def name(1)
      by (auto simp: prefix_def append_eq_append_conv2 Cons_eq_append_conv append_eq_Cons_conv)
    then show ?thesis using 1 [OF Some x [symmetric]] Some x by (simp add: folder_prefixes.simps [of name])
  qed
qed

lemma records_set: "set (catalog_records a) =
    {((f, False), 0) | f. \<exists>e \<in> set (visible_catalog a). under f (te_name e)} \<union>
    {((te_name e, True), i) | i e. i < length (ap_catalog a) \<and> e = ap_catalog a ! i \<and> catalog_visible a (te_repo e)}"
proof -
  have entries: "set (scoped_entries a) = {(i, ap_catalog a ! i) | i. i < length (ap_catalog a) \<and> catalog_visible a (te_repo (ap_catalog a ! i))}"
    by (auto simp: scoped_entries_def in_set_enumerate_eq)
  have vis: "set (visible_catalog a) = snd ` set (scoped_entries a)"
    unfolding entries by (force simp: visible_catalog_def in_set_conv_nth)
  show ?thesis
    by (fastforce simp: catalog_records_def Let_def vis folder_prefixes_exact entries)
qed

abbreviation depth_of :: "string \<Rightarrow> nat" where
  "depth_of key \<equiv> length (filter (\<lambda>c. c = CHR ''/'') key)"

lemma under_less: "under f k \<Longrightarrow> f < k"
proof -
  assume "under f k"
  then obtain r where "k = f @ CHR ''/'' # r" by (auto simp: under_def prefix_def)
  moreover have "f < f @ CHR ''/'' # r" for r by (induction f) auto
  ultimately show ?thesis by simp
qed

lemma under_trans: "under f g \<Longrightarrow> under g k \<Longrightarrow> under f k"
  unfolding under_def by (metis append_prefixD prefix_order.trans)

text \<open>The outermost collapsed folder above a hidden row is not hidden itself.\<close>

lemma hidden_under_visible:
  assumes "row_hidden a key"
  obtains f where "f \<in> ap_collapsed a" "under f key" "\<not> row_hidden a f"
proof -
  let ?P = "\<lambda>f. f \<in> ap_collapsed a \<and> under f key"
  obtain f where f: "?P f" "\<And>g. ?P g \<Longrightarrow> length f \<le> length g"
    using assms ex_has_least_nat [of ?P _ length] by (auto simp: row_hidden_def)
  have "\<not> row_hidden a f"
  proof
    assume "row_hidden a f"
    then obtain g where g: "g \<in> ap_collapsed a" "under g f" by (auto simp: row_hidden_def)
    then have "length f \<le> length g" using f(1) under_trans by (intro f(2)) blast
    moreover have "length g < length f" using g(2) by (auto simp: under_def prefix_def)
    ultimately show False by simp
  qed
  with f(1) that show ?thesis by blast
qed

lemma records_sorted: "sorted (map fst (catalog_records a))"
  by (simp add: catalog_records_def Let_def)

lemma records_distinct: "distinct (catalog_records a)"
proof -
  have "distinct (map (\<lambda>f. ((f, False), 0::nat)) (remdups fs))" for fs :: "string list"
    by (simp add: distinct_map inj_on_def)
  moreover have "distinct (map (\<lambda>(i, e). ((te_name e, True), i)) (scoped_entries a))"
  proof -
    have "distinct (map fst (scoped_entries a))"
      unfolding scoped_entries_def by (rule distinct_map_filter) simp
    then have "distinct (map (snd \<circ> (\<lambda>(i, e). ((te_name e, True), i))) (scoped_entries a))"
      by (simp add: comp_def split_def)
    then show ?thesis using distinct_map by (metis map_map)
  qed
  ultimately show ?thesis by (auto simp: catalog_records_def Let_def)
qed

lemma task_row_iff: "TaskRow i d \<in> set (catalog_rows a) \<longleftrightarrow>
    (\<exists>key. ((key, True), i) \<in> set (catalog_records a) \<and> \<not> row_hidden a key \<and> d = depth_of key)"
  by (force simp: catalog_rows_def catalog_row_of_def Let_def image_iff split: if_splits)

lemma folder_row_iff: "FolderRow f d c \<in> set (catalog_rows a) \<longleftrightarrow>
    (\<exists>i. ((f, False), i) \<in> set (catalog_records a)) \<and> \<not> row_hidden a f \<and> d = depth_of f \<and> c = (f \<in> ap_collapsed a)"
  by (force simp: catalog_rows_def catalog_row_of_def Let_def image_iff split: if_splits)

text \<open>C38: the catalog tree shows every entry in scope exactly once, unless a folder above it is collapsed, and every
  folder above such an entry, each at its depth; and no entry is lost: a hidden one lies under a collapsed folder
  whose row is shown.\<close>

theorem catalog_tree_exact:
  "distinct (catalog_rows a) \<and>
   set (catalog_rows a) =
     {TaskRow i (depth_of (te_name e)) | i e. i < length (ap_catalog a) \<and> e = ap_catalog a ! i \<and>
        catalog_visible a (te_repo e) \<and> \<not> (\<exists>c \<in> ap_collapsed a. prefix (c @ ''/'') (te_name e))} \<union>
     {FolderRow f (depth_of f) (f \<in> ap_collapsed a) | f. (\<exists>e \<in> set (visible_catalog a). prefix (f @ ''/'') (te_name e)) \<and>
        \<not> (\<exists>c \<in> ap_collapsed a. prefix (c @ ''/'') f)} \<and>
   (\<forall>e \<in> set (visible_catalog a). (\<exists>c \<in> ap_collapsed a. prefix (c @ ''/'') (te_name e)) \<longrightarrow>
      (\<exists>f. prefix (f @ ''/'') (te_name e) \<and> FolderRow f (depth_of f) True \<in> set (catalog_rows a)))"
proof (intro conjI ballI impI)
  have inj: "inj_on (catalog_row_of a) (set (catalog_records a))"
    unfolding records_set by (auto simp: inj_on_def catalog_row_of_def)
  show "distinct (catalog_rows a)"
    unfolding catalog_rows_def distinct_map
    using records_distinct inj by (auto intro: inj_on_subset)
  show rows: "set (catalog_rows a) =
     {TaskRow i (depth_of (te_name e)) | i e. i < length (ap_catalog a) \<and> e = ap_catalog a ! i \<and>
        catalog_visible a (te_repo e) \<and> \<not> (\<exists>c \<in> ap_collapsed a. prefix (c @ ''/'') (te_name e))} \<union>
     {FolderRow f (depth_of f) (f \<in> ap_collapsed a) | f. (\<exists>e \<in> set (visible_catalog a). prefix (f @ ''/'') (te_name e)) \<and>
        \<not> (\<exists>c \<in> ap_collapsed a. prefix (c @ ''/'') f)}"
    (is "_ = ?tasks \<union> ?folders")
  proof (rule set_eqI)
    fix r show "r \<in> set (catalog_rows a) \<longleftrightarrow> r \<in> ?tasks \<union> ?folders"
      by (cases r) (auto simp: task_row_iff folder_row_iff records_set row_hidden_def under_def)
  qed
  fix e assume e: "e \<in> set (visible_catalog a)" "\<exists>c \<in> ap_collapsed a. prefix (c @ ''/'') (te_name e)"
  then have "row_hidden a (te_name e)" by (simp add: row_hidden_def under_def)
  then obtain f where "f \<in> ap_collapsed a" "under f (te_name e)" "\<not> row_hidden a f" by (rule hidden_under_visible)
  then show "\<exists>f. prefix (f @ ''/'') (te_name e) \<and> FolderRow f (depth_of f) True \<in> set (catalog_rows a)"
    using e(1) unfolding rows by (auto simp: row_hidden_def under_def intro!: exI [of _ f])
qed

lemma nth_filter_split:
  "k < length (filter P xs) \<Longrightarrow> \<exists>ys zs. xs = ys @ filter P xs ! k # zs \<and> length (filter P ys) = k"
proof (induction xs arbitrary: k)
  case (Cons x xs)
  show ?case
  proof (cases "P x")
    case True
    show ?thesis
    proof (cases k)
      case (Suc m)
      then obtain ys zs where "xs = ys @ filter P xs ! m # zs" "length (filter P ys) = m" using Cons True by force
      then show ?thesis using True Suc by (intro exI [of _ "x # ys"] exI [of _ zs]) simp
    qed (use True in \<open>auto intro: exI [of _ "[]"]\<close>)
  next
    case False
    then obtain ys zs where "xs = ys @ filter P xs ! k # zs" "length (filter P ys) = k" using Cons by force
    then show ?thesis using False by (intro exI [of _ "x # ys"] exI [of _ zs]) simp
  qed
qed simp

lemma records_collapsed [simp]:
  "catalog_records (a\<lparr>ap_collapsed := C\<rparr>) = catalog_records a"
  "catalog_records (a\<lparr>ap_catalog_selected := k\<rparr>) = catalog_records a"
  "catalog_rows (a\<lparr>ap_catalog_selected := k\<rparr>) = catalog_rows a"
proof -
  show *: "catalog_records (a\<lparr>ap_collapsed := C\<rparr>) = catalog_records a"
    "catalog_records (a\<lparr>ap_catalog_selected := k\<rparr>) = catalog_records a"
    by (simp_all add: catalog_records_def scoped_entries_def catalog_visible_def)
  have "catalog_row_of (a\<lparr>ap_catalog_selected := k\<rparr>) = catalog_row_of a"
    by (simp add: catalog_row_of_def fun_eq_iff Let_def split: prod.split)
  then show "catalog_rows (a\<lparr>ap_catalog_selected := k\<rparr>) = catalog_rows a"
    by (simp add: catalog_rows_def * row_hidden_def)
qed

lemma fold_keeps_row:
  assumes "ap_catalog_selected a < length (catalog_rows a)" and "catalog_rows a ! ap_catalog_selected a = FolderRow f d c"
    and "\<And>g. g \<noteq> f \<Longrightarrow> g \<in> C \<longleftrightarrow> g \<in> ap_collapsed a"
  shows "ap_catalog_selected a < length (catalog_rows (a\<lparr>ap_collapsed := C\<rparr>)) \<and>
    catalog_rows (a\<lparr>ap_collapsed := C\<rparr>) ! ap_catalog_selected a = FolderRow f d (f \<in> C) \<and> c = (f \<in> ap_collapsed a)"
proof -
  let ?P = "\<lambda>a r. \<not> row_hidden a (fst (fst r))" and ?k = "ap_catalog_selected a" and ?b = "a\<lparr>ap_collapsed := C\<rparr>"
  let ?R = "filter (?P a) (catalog_records a)"
  have k: "?k < length ?R" "catalog_row_of a (?R ! ?k) = FolderRow f d c" using assms(1,2) by (simp_all add: catalog_rows_def)
  then obtain i where r: "?R ! ?k = ((f, False), i)" "c = (f \<in> ap_collapsed a)" "d = depth_of f"
    by (auto simp: catalog_row_of_def Let_def split: prod.splits if_splits)
  obtain ys zs where split: "catalog_records a = ys @ ((f, False), i) # zs" "length (filter (?P a) ys) = ?k"
    using nth_filter_split [OF k(1)] unfolding r(1) by blast
  have "?P ?b x = ?P a x" if "x \<in> set ys" for x
  proof -
    have "fst x \<le> (f, False)" using records_sorted [of a] that unfolding split(1) by (auto simp: sorted_append)
    then have "fst (fst x) \<le> f" by (cases x) (auto simp: less_eq_prod_def)
    then have "\<not> under f (fst (fst x))" using under_less by fastforce
    then have "c \<in> C \<longleftrightarrow> c \<in> ap_collapsed a" if "under c (fst (fst x))" for c using assms(3) [of c] that by blast
    then show ?thesis by (auto simp: row_hidden_def)
  qed
  then have ys: "filter (?P ?b) ys = filter (?P a) ys" by (intro filter_cong) auto
  have "?R ! ?k \<in> set ?R" using k(1) by (rule nth_mem)
  then have "\<not> row_hidden a f" unfolding r(1) by simp
  moreover have "c \<in> C \<longleftrightarrow> c \<in> ap_collapsed a" if "under c f" for c using assms(3) [of c] that under_less [of f f] by blast
  ultimately have "\<not> row_hidden ?b f" by (auto simp: row_hidden_def)
  then have "catalog_rows ?b = map (catalog_row_of ?b) (filter (?P a) ys) @ FolderRow f d (f \<in> C) #
      map (catalog_row_of ?b) (filter (?P ?b) zs)"
    unfolding catalog_rows_def records_collapsed split(1) by (simp add: r ys catalog_row_of_def)
  then show ?thesis using split(2) r(2) by (simp add: nth_append)
qed

lemma clamp_less [simp]: "k < n \<Longrightarrow> clamp n k = k"
  by (simp add: clamp_def)

definition folded :: "string \<Rightarrow> string set \<Rightarrow> string set" where
  "folded f C = (if f \<in> C then C - {f} else insert f C)"

lemma toggle_at:
  assumes "ap_catalog_selected a < length (catalog_rows a)" and "catalog_rows a ! ap_catalog_selected a = FolderRow f d c"
  defines "b \<equiv> a\<lparr>ap_collapsed := folded f (ap_collapsed a)\<rparr>"
  shows "toggle_catalog_folder a = (b, True) \<and> ap_catalog_selected a < length (catalog_rows b) \<and>
    catalog_rows b ! ap_catalog_selected a = FolderRow f d (\<not> c)"
proof -
  have b: "ap_catalog_selected a < length (catalog_rows b) \<and> catalog_rows b ! ap_catalog_selected a = FolderRow f d (\<not> c)"
    using fold_keeps_row [OF assms(1,2), of "folded f (ap_collapsed a)"] by (auto simp: b_def folded_def split: if_splits)
  have "toggle_catalog_folder a = (b\<lparr>ap_catalog_selected := clamp (length (catalog_rows b)) (ap_catalog_selected a)\<rparr>, True)"
    using assms(1,2) unfolding toggle_catalog_folder_def Let_def b_def folded_def by simp
  then show ?thesis using b by (simp add: b_def)
qed

text \<open>Folding the selected folder opens or closes it, keeps the selection on it, and folding it again restores the
  state.\<close>

theorem toggle_folder_exact:
  assumes "ap_catalog_selected a < length (catalog_rows a)" and "catalog_rows a ! ap_catalog_selected a = FolderRow f d c"
  shows "snd (toggle_catalog_folder a) \<and> ap_catalog_selected (fst (toggle_catalog_folder a)) = ap_catalog_selected a \<and>
    catalog_rows (fst (toggle_catalog_folder a)) ! ap_catalog_selected a = FolderRow f d (\<not> c) \<and>
    fst (toggle_catalog_folder (fst (toggle_catalog_folder a))) = a"
proof -
  let ?b = "a\<lparr>ap_collapsed := folded f (ap_collapsed a)\<rparr>"
  have b: "toggle_catalog_folder a = (?b, True)" "ap_catalog_selected ?b < length (catalog_rows ?b)"
      "catalog_rows ?b ! ap_catalog_selected ?b = FolderRow f d (\<not> c)"
    using toggle_at [OF assms] by simp_all
  have "folded f (folded f (ap_collapsed a)) = ap_collapsed a" by (auto simp: folded_def)
  then have "toggle_catalog_folder ?b = (a, True)" using toggle_at [OF b(2,3)] by simp
  with b show ?thesis by simp
qed

text \<open>The rows of a folder need not follow it: a name that continues the folder's with a character before the slash
  comes between the folder and what is in it.\<close>

definition named :: "string \<Rightarrow> tui_entry" where
  "named name = \<lparr>te_name = name, te_agent = None, te_provider = None, te_model = None, te_cwd = None, te_schedule = None,
     te_kind = [], te_needs = None, te_vars = [], te_prompt = [], te_repo = None\<rparr>"

lemma folder_rows_apart:
  "catalog_rows (new_tui\<lparr>ap_catalog := [named ''deploy-all'', named ''deploy/prod'']\<rparr>) =
    [FolderRow ''deploy'' 0 False, TaskRow 0 0, TaskRow 1 1]"
  by code_simp

theorem catalog_tree_exact_witness:
  "\<exists>f. prefix (f @ ''/'') ''deploy/prod'' \<and> FolderRow f (depth_of f) True \<in>
     set (catalog_rows (new_tui\<lparr>ap_catalog := [named ''deploy/prod''], ap_collapsed := {''deploy''}\<rparr>))"
proof -
  let ?a = "new_tui\<lparr>ap_catalog := [named ''deploy/prod''], ap_collapsed := {''deploy''}\<rparr>"
  have "named ''deploy/prod'' \<in> set (visible_catalog ?a)"
    by (simp add: visible_catalog_def catalog_visible_def new_tui_def)
  moreover have "\<exists>c \<in> ap_collapsed ?a. prefix (c @ ''/'') (te_name (named ''deploy/prod''))" by (simp add: named_def)
  ultimately show ?thesis using catalog_tree_exact [of ?a] by (fastforce simp: named_def)
qed

section \<open>Pushes\<close>

subsection \<open>Sound cues\<close>

definition cue_key :: "sound_cue \<Rightarrow> string" where
  "cue_key c = (case c of CueTaskFinished \<Rightarrow> ''task_finished'' | CueTaskFailed \<Rightarrow> ''task_failed''
   | CueTaskStarted \<Rightarrow> ''task_started'' | CueAwaitingInput \<Rightarrow> ''awaiting_input'' | CueAttention \<Rightarrow> ''attention'')"

definition cue_priority :: "sound_cue \<Rightarrow> nat" where
  "cue_priority c = (case c of CueAwaitingInput \<Rightarrow> 5 | CueTaskFailed \<Rightarrow> 4 | CueTaskFinished \<Rightarrow> 3 | CueAttention \<Rightarrow> 2
   | CueTaskStarted \<Rightarrow> 1)"

definition cue_merge :: "sound_cue \<Rightarrow> sound_cue \<Rightarrow> sound_cue" where
  "cue_merge a b = (if cue_priority b > cue_priority a then b else a)"

definition coalesce_batch :: "sound_cue list \<Rightarrow> sound_cue option" where
  "coalesce_batch cs = (case cs of [] \<Rightarrow> None | c # cs \<Rightarrow> Some (fold (\<lambda>c m. cue_merge m c) cs c))"

definition cue_for_event :: "event \<Rightarrow> sound_cue option" where
  "cue_for_event e = (case e_kind e of
     EvTaskFinished \<Rightarrow> Some (if Option.bind (jget (e_payload e) ''success'') as_bool = Some True then CueTaskFinished else CueTaskFailed)
   | EvTaskStarted \<Rightarrow> Some CueTaskStarted
   | EvTaskAwaitingInput \<Rightarrow> Some CueAwaitingInput
   | _ \<Rightarrow> None)"

definition MAX_SOUND_CUES :: nat where "MAX_SOUND_CUES = 64"

definition enqueue_sound :: "sound_cue \<Rightarrow> tui_app \<Rightarrow> tui_app" where
  "enqueue_sound c a = a\<lparr>ap_cues := (if length (ap_cues a) \<ge> MAX_SOUND_CUES then tl (ap_cues a) else ap_cues a) @ [c]\<rparr>"

definition take_sound_cues :: "tui_app \<Rightarrow> sound_cue list \<times> tui_app" where
  "take_sound_cues a = (ap_cues a, a\<lparr>ap_cues := []\<rparr>)"

definition toggle_sound_muted :: "tui_app \<Rightarrow> tui_app" where
  "toggle_sound_muted a = a\<lparr>ap_muted := \<not> ap_muted a\<rparr>"

subsection \<open>Events\<close>

definition ingest_event :: "event \<Rightarrow> tui_app \<Rightarrow> tui_app" where
  "ingest_event e a = (if e_id e > ap_last_event_id a then
     (let a = a\<lparr>ap_last_event_id := e_id e\<rparr>;
          a = (if ap_suppressed a then a else case cue_for_event e of Some c \<Rightarrow> enqueue_sound c a | None \<Rightarrow> a)
      in a\<lparr>ap_events := ap_events a @ [e]\<rparr>)
   else a)"

text \<open>\<open>sync_initial\<close> on the events: the tail of the log, silently; the cursor it leaves is what it subscribes with.\<close>

definition SYNC_TAIL :: nat where "SYNC_TAIL = 100"

definition sync_events :: "db \<Rightarrow> tui_app \<Rightarrow> tui_app" where
  "sync_events d a =
     (fold ingest_event (tail_events d (int SYNC_TAIL)) (a\<lparr>ap_suppressed := True\<rparr>))\<lparr>ap_suppressed := False\<rparr>"

subsection \<open>Sessions\<close>

definition put_session :: "session_info \<Rightarrow> session_info list \<Rightarrow> session_info list" where
  "put_session s xs = filter (\<lambda>x. si_id x \<noteq> si_id s) xs @ [s]"

definition retain_state ::
  "string \<Rightarrow> agent_activity option \<Rightarrow> agent_usage option \<Rightarrow> (string \<rightharpoonup> agent_activity option \<times> agent_usage option) \<Rightarrow>
    string \<rightharpoonup> agent_activity option \<times> agent_usage option" where
  "retain_state tid act use m = (let (a0, u0) = (case m tid of Some p \<Rightarrow> p | None \<Rightarrow> (None, None)) in
     m(tid \<mapsto> (if act = None then a0 else act, if use = None then u0 else use)))"

definition set_agent_sessions :: "session_info list \<Rightarrow> tui_app \<Rightarrow> tui_app" where
  "set_agent_sessions xs a =
     a\<lparr>ap_task_state := fold (\<lambda>s m. case si_task s of Some tid \<Rightarrow> retain_state tid (si_activity s) (si_usage s) m | None \<Rightarrow> m)
         xs (ap_task_state a),
       ap_sessions := fold put_session xs []\<rparr>"

definition apply_agent_state :: "string \<Rightarrow> agent_activity option \<Rightarrow> agent_usage option \<Rightarrow> tui_app \<Rightarrow> tui_app" where
  "apply_agent_state sid act use a = (case find (\<lambda>s. si_id s = sid) (ap_sessions a) of
     None \<Rightarrow> a
   | Some s \<Rightarrow> a\<lparr>ap_sessions := map (\<lambda>x. if si_id x = sid then x\<lparr>si_activity := act, si_usage := use\<rparr> else x) (ap_sessions a),
       ap_task_state := (case si_task s of Some tid \<Rightarrow> retain_state tid act use (ap_task_state a) | None \<Rightarrow> ap_task_state a)\<rparr>)"

definition session_rank :: "session_info \<Rightarrow> bool \<times> bool \<times> string" where
  "session_rank s = (si_running s, si_activity s \<noteq> None, si_id s)"

definition task_session :: "tui_app \<Rightarrow> string \<Rightarrow> session_info option" where
  "task_session a tid = (case filter (\<lambda>s. si_task s = Some tid) (ap_sessions a) of
     [] \<Rightarrow> None
   | s # ss \<Rightarrow> Some (fold (\<lambda>s m. if session_rank m \<le> session_rank s then s else m) ss s))"

definition task_activity_usage :: "tui_app \<Rightarrow> string \<Rightarrow> agent_activity option \<times> agent_usage option" where
  "task_activity_usage a tid = (let live = task_session a tid; stored = ap_task_state a tid in
     (case Option.bind live si_activity of Some x \<Rightarrow> Some x | None \<Rightarrow> Option.bind stored fst,
      case Option.bind live si_usage of Some x \<Rightarrow> Some x | None \<Rightarrow> Option.bind stored snd))"

definition pending_request :: "tui_app \<Rightarrow> (string \<times> input_request) option" where
  "pending_request a = Option.bind (ap_agent_session a) (\<lambda>sid.
     Option.bind (find (\<lambda>s. si_id s = sid) (ap_sessions a)) (\<lambda>s.
       case si_activity s of
         Some (Waiting req) \<Rightarrow> Some (si_id s, req)
       | _ \<Rightarrow> Option.bind (si_awaiting s) (\<lambda>aw. Option.bind (aw_request_id aw) (\<lambda>i.
           Some (si_id s, \<lparr>iq_id = i, iq_kind = aw_kind aw, iq_message = aw_message aw, iq_options = aw_options aw,
             iq_allow_always = aw_allow_always aw\<rparr>)))))"

definition agent_output :: "string \<Rightarrow> string \<Rightarrow> tui_app \<Rightarrow> tui_app" where
  "agent_output sid frame a = (if ap_agent_session a = Some sid then a\<lparr>ap_frames := ap_frames a @ [frame]\<rparr> else a)"

definition agent_exit :: "string \<Rightarrow> int option \<Rightarrow> tui_app \<Rightarrow> tui_app" where
  "agent_exit sid code a = (if ap_agent_session a = Some sid
     then a\<lparr>ap_agent_running := False,
       ap_agent_status := (case code of Some c \<Rightarrow> ''exited ('' @ int_str c @ '') '' | None \<Rightarrow> ''exited '') @ dash @ '' Ctrl+N for a new session''\<rparr>
     else a)"

subsection \<open>A push\<close>

text \<open>What decodes the parameters of a push: the derived deserialisers and base64.\<close>

record tui_lib =
  tl_event :: "json \<Rightarrow> event option"
  tl_task :: "json \<Rightarrow> task option"
  tl_activity :: "json \<Rightarrow> agent_activity option"
  tl_usage :: "json \<Rightarrow> agent_usage option"
  tl_base64 :: "string \<Rightarrow> string option"

fun as_i64 :: "json \<Rightarrow> int option" where
  "as_i64 (JNum (PosInt n)) = (if n < 2 ^ 63 then Some (int n) else None)"
| "as_i64 (JNum (NegInt i)) = Some i"
| "as_i64 _ = None"

definition as_i32 :: "int \<Rightarrow> int" where
  "as_i32 i = sint (word_of_int i :: 32 word)"

definition mark_workflow_inspect_dirty :: "tui_app \<Rightarrow> tui_app" where
  "mark_workflow_inspect_dirty a = (if ap_inspecting a then a\<lparr>ap_inspect_dirty := True\<rparr> else a)"

definition position :: "('a \<Rightarrow> bool) \<Rightarrow> 'a list \<Rightarrow> nat option" where
  "position P xs = (let i = length (takeWhile (\<lambda>x. \<not> P x) xs) in if i < length xs then Some i else None)"

definition store_task :: "task \<Rightarrow> tui_app \<Rightarrow> tui_app" where
  "store_task t a = (case position (\<lambda>x. t_id x = t_id t) (ap_tasks a) of
     Some i \<Rightarrow> (let a = (if t_attempt t > t_attempt (ap_tasks a ! i)
                     then a\<lparr>ap_task_state := (ap_task_state a)(t_id t := None)\<rparr> else a)
               in a\<lparr>ap_tasks := (ap_tasks a)[i := t]\<rparr>)
   | None \<Rightarrow> a\<lparr>ap_tasks := t # ap_tasks a\<rparr>)"

definition EVENTS_KEPT :: nat where "EVENTS_KEPT = 1000"

definition handle_notification :: "tui_lib \<Rightarrow> string \<Rightarrow> json \<Rightarrow> tui_app \<Rightarrow> tui_app" where
  "handle_notification lib meth p a =
     (let sid = Option.bind (jget p ''session_id'') as_str;
          a = (if meth = ''event'' then mark_workflow_inspect_dirty (case tl_event lib p of
                   Some e \<Rightarrow> ingest_event e (if e_kind e = EvCronTick then a\<lparr>ap_schedules_dirty := True\<rparr> else a)
                 | None \<Rightarrow> a)
               else if meth = ''task.updated'' then
                 (let a = mark_workflow_inspect_dirty (case tl_task lib p of Some t \<Rightarrow> store_task t a | None \<Rightarrow> a)
                  in if ap_tab a = TabUsage then a\<lparr>ap_usage_dirty := True\<rparr> else a)
               else if meth = ''catalog.updated'' then a\<lparr>ap_catalog_dirty := True, ap_repos_dirty := True\<rparr>
               else if meth = ''agent.output'' then
                 (case (sid, Option.bind (Option.bind (jget p ''data'') as_str) (tl_base64 lib)) of
                    (Some sid, Some frame) \<Rightarrow> agent_output sid frame a | _ \<Rightarrow> a)
               else if meth = ''agent.exit'' then
                 (let code = map_option as_i32 (Option.bind (jget p ''code'') as_i64);
                      a = (case sid of Some sid \<Rightarrow> agent_exit sid code a | None \<Rightarrow> a)
                  in if ap_suppressed a then a else enqueue_sound CueAttention a)
               else if meth = ''agent.state'' then
                 (case sid of
                    Some sid \<Rightarrow> apply_agent_state sid (Option.bind (jget p ''activity'') (tl_activity lib))
                      (Option.bind (jget p ''usage'') (tl_usage lib)) a
                  | None \<Rightarrow> a)
               else a)
      in a\<lparr>ap_events := drop (length (ap_events a) - EVENTS_KEPT) (ap_events a)\<rparr>)"

subsection \<open>What the event list holds\<close>

text \<open>The list is a stretch of the log in order, and the cursor is not behind it.\<close>

definition log_ok :: "tui_app \<Rightarrow> bool" where
  "log_ok a \<longleftrightarrow> sorted_wrt (<) (map e_id (ap_events a)) \<and> (\<forall>e \<in> set (ap_events a). e_id e \<le> ap_last_event_id a)"

lemma events_kept [simp]:
  "ap_events (enqueue_sound c a) = ap_events a" "ap_last_event_id (enqueue_sound c a) = ap_last_event_id a"
  "ap_events (mark_workflow_inspect_dirty a) = ap_events a"
  "ap_last_event_id (mark_workflow_inspect_dirty a) = ap_last_event_id a"
  "ap_events (store_task t a) = ap_events a" "ap_last_event_id (store_task t a) = ap_last_event_id a"
  "ap_events (agent_output sid f a) = ap_events a" "ap_last_event_id (agent_output sid f a) = ap_last_event_id a"
  "ap_events (agent_exit sid x a) = ap_events a" "ap_last_event_id (agent_exit sid x a) = ap_last_event_id a"
  "ap_events (apply_agent_state sid u w a) = ap_events a"
  "ap_last_event_id (apply_agent_state sid u w a) = ap_last_event_id a"
  by (simp_all add: enqueue_sound_def mark_workflow_inspect_dirty_def store_task_def agent_output_def agent_exit_def
      apply_agent_state_def Let_def split: option.split)

lemma ingest_events:
  "ap_events (ingest_event e a) = (if e_id e > ap_last_event_id a then ap_events a @ [e] else ap_events a)"
  "ap_last_event_id (ingest_event e a) = max (ap_last_event_id a) (e_id e)"
  by (simp_all add: ingest_event_def Let_def split: option.split)

text \<open>A push either drops events from the front or ingests one.\<close>

lemma handle_notification_events:
  "\<exists>n a'. ap_events (handle_notification lib meth p a) = drop n (ap_events a') \<and>
    ap_last_event_id (handle_notification lib meth p a) = ap_last_event_id a' \<and>
    length (ap_events (handle_notification lib meth p a)) \<le> EVENTS_KEPT \<and>
    (ap_events a' = ap_events a \<and> ap_last_event_id a' = ap_last_event_id a \<or>
     (\<exists>e b. tl_event lib p = Some e \<and> meth = ''event'' \<and> a' = ingest_event e b \<and> ap_events b = ap_events a \<and>
        ap_last_event_id b = ap_last_event_id a))"
proof (cases "meth = ''event'' \<and> tl_event lib p \<noteq> None")
  case True
  then obtain e where e: "meth = ''event''" "tl_event lib p = Some e" by auto
  let ?b = "if e_kind e = EvCronTick then a\<lparr>ap_schedules_dirty := True\<rparr> else a"
  show ?thesis
    by (rule exI [of _ "length (ap_events (ingest_event e ?b)) - EVENTS_KEPT"], rule exI [of _ "ingest_event e ?b"])
      (use e in \<open>auto simp: handle_notification_def Let_def\<close>)
next
  case False
  then have "ap_events (handle_notification lib meth p a) = drop (length (ap_events a) - EVENTS_KEPT) (ap_events a) \<and>
      ap_last_event_id (handle_notification lib meth p a) = ap_last_event_id a"
    by (auto simp: handle_notification_def Let_def split: option.split)
  then show ?thesis by (intro exI [of _ "length (ap_events a) - EVENTS_KEPT"] exI [of _ a]) auto
qed

lemma log_ok_ingest: "log_ok a \<Longrightarrow> log_ok (ingest_event e a)"
  by (fastforce simp: log_ok_def ingest_events sorted_wrt_append max_def)

lemma log_ok_cong: "ap_events a = ap_events b \<Longrightarrow> ap_last_event_id a = ap_last_event_id b \<Longrightarrow> log_ok a = log_ok b"
  by (simp add: log_ok_def)

lemma log_ok_drop: "log_ok b \<Longrightarrow> ap_events a = drop n (ap_events b) \<Longrightarrow> ap_last_event_id a = ap_last_event_id b \<Longrightarrow> log_ok a"
  by (auto simp: log_ok_def sorted_wrt_drop simp flip: drop_map dest: in_set_dropD)

lemma log_ok_push: "log_ok a \<Longrightarrow> log_ok (handle_notification lib meth p a)"
  using handle_notification_events [of lib meth p a] log_ok_ingest log_ok_cong log_ok_drop by metis

lemma fold_ingest:
  "sorted_wrt (<) (map e_id es) \<Longrightarrow>
    ap_events (fold ingest_event es a) = ap_events a @ filter (\<lambda>e. ap_last_event_id a < e_id e) es \<and>
    ap_last_event_id (fold ingest_event es a) = fold max (map e_id es) (ap_last_event_id a)"
proof (induction es arbitrary: a)
  case (Cons e es)
  have "filter (\<lambda>x. max (ap_last_event_id a) (e_id e) < e_id x) es = filter (\<lambda>x. ap_last_event_id a < e_id x) es"
    using Cons.prems by (intro filter_cong) auto
  then show ?case using Cons.IH [of "ingest_event e a"] Cons.prems by (auto simp: ingest_events max.commute intro!: filter_cong)
qed simp

lemma sort_key_reverses:
  assumes "sorted_wrt (<) (map e_id es)"
  shows "sort_key (\<lambda>e. - e_id e) es = rev es"
  using assms
proof (induction es)
  case (Cons e es)
  have "insort_key (\<lambda>e. - e_id e) e xs = xs @ [e]" if "\<forall>x \<in> set xs. e_id e < e_id x" for xs
    using that by (induction xs) auto
  then show ?case using Cons by simp
qed simp

lemma tail_of_sorted:
  "sorted_wrt (<) (map e_id (events d)) \<Longrightarrow> tail_events d (int n) = drop (length (events d) - n) (events d)"
  by (simp add: tail_events_def sql_limit_def sort_key_reverses take_rev)

lemma tail_of_missed:
  assumes "sorted_wrt (<) (map e_id log)"
  shows "filter (\<lambda>e. c < e_id e) (drop (length log - n) log) =
    drop (length (filter (\<lambda>e. c < e_id e) log) - n) (filter (\<lambda>e. c < e_id e) log)"
proof -
  let ?P = "\<lambda>e. c < e_id e"
  have "filter (\<lambda>e. \<not> ?P e) log @ filter ?P log = log" using assms
  proof (induction log)
    case (Cons e log)
    show ?case
    proof (cases "?P e")
      case True
      then have "\<forall>x \<in> set log. ?P x" using Cons.prems by auto
      then show ?thesis using True by simp
    qed (use Cons in simp)
  qed simp
  then obtain xs ys where log: "log = xs @ ys" "xs = filter (\<lambda>e. \<not> ?P e) log" "ys = filter ?P log" by metis
  then have f: "filter ?P (drop k xs) = []" "filter ?P (drop k ys) = drop k ys" for k
    by (auto simp: filter_empty_conv dest: in_set_dropD intro!: filter_True)
  have "filter ?P (drop (length log - n) (xs @ ys)) = drop (length log - n - length xs) ys" using f by simp
  moreover have "length log - n - length xs = length ys - n" using arg_cong [OF log(1), of length] by simp
  ultimately show ?thesis using log by metis
qed

text \<open>What later pushes add is newer than the cursor.\<close>

lemma pushes_add_newer:
  "e \<in> set (ap_events (fold (\<lambda>(meth, p). handle_notification lib meth p) ns a)) \<Longrightarrow>
    e \<in> set (ap_events a) \<or> ap_last_event_id a < e_id e"
proof (induction ns arbitrary: a)
  case (Cons n ns)
  obtain meth p where n: "n = (meth, p)" by (cases n)
  let ?b = "handle_notification lib meth p a"
  obtain k a' where a': "ap_events ?b = drop k (ap_events a')" "ap_last_event_id ?b = ap_last_event_id a'"
      "ap_events a' = ap_events a \<and> ap_last_event_id a' = ap_last_event_id a \<or>
       (\<exists>e b. a' = ingest_event e b \<and> ap_events b = ap_events a \<and> ap_last_event_id b = ap_last_event_id a)"
    using handle_notification_events [of lib meth p a] by blast
  have "e \<in> set (ap_events ?b) \<or> ap_last_event_id ?b < e_id e" using Cons n by simp
  then have "e \<in> set (ap_events a') \<or> ap_last_event_id a' < e_id e" using a'(1,2) by (auto dest: in_set_dropD)
  with a'(3) show ?case by (auto simp: ingest_events split: if_splits)
qed simp

text \<open>C37: when the terminal reconnects, it receives the newest 100 of the events it missed, in order and silently,
  and goes on behind the newest of the log; the older missed ones never reach it any more, whatever is pushed
  to it.\<close>

theorem tui_resume_exact:
  fixes a :: tui_app and d :: db
  assumes "sorted_wrt (<) (map e_id (events d))" and "\<forall>e \<in> set (ap_events a). e_id e \<le> ap_last_event_id a"
  defines "missed \<equiv> filter (\<lambda>e. ap_last_event_id a < e_id e) (events d)" and "b \<equiv> sync_events d a"
  shows "ap_events b = ap_events a @ drop (length missed - SYNC_TAIL) missed \<and>
    ap_last_event_id b = (if missed = [] then ap_last_event_id a else e_id (last missed)) \<and> ap_cues b = ap_cues a \<and>
    (\<forall>ns. set (take (length missed - SYNC_TAIL) missed) \<inter>
       set (ap_events (fold (\<lambda>(meth, p). handle_notification lib meth p) ns b)) = {})"
proof -
  let ?t = "drop (length (events d) - SYNC_TAIL) (events d)" and ?a = "a\<lparr>ap_suppressed := True\<rparr>"
  have srt: "sorted_wrt (<) (map e_id ?t)" using assms(1) by (simp flip: drop_map add: sorted_wrt_drop)
  have ev: "ap_events b = ap_events a @ drop (length missed - SYNC_TAIL) missed"
    and last: "ap_last_event_id b = fold max (map e_id ?t) (ap_last_event_id a)"
    using fold_ingest [OF srt, of ?a] tail_of_missed [OF assms(1), of "ap_last_event_id a" SYNC_TAIL]
    by (simp_all add: b_def sync_events_def tail_of_sorted [OF assms(1)] missed_def)
  have max_sorted: "fold max (map e_id es) c = (if filter (\<lambda>e. c < e_id e) es = [] then c else e_id (last (filter (\<lambda>e. c < e_id e) es)))"
    if "sorted_wrt (<) (map e_id es)" for es c
    using that
  proof (induction es rule: rev_induct)
    case (snoc e es)
    show ?case
    proof (cases "filter (\<lambda>e. c < e_id e) es")
      case Nil
      then show ?thesis using snoc by (auto simp: sorted_wrt_append max_def)
    next
      case (Cons x xs)
      then have l: "last (filter (\<lambda>e. c < e_id e) es) \<in> set (filter (\<lambda>e. c < e_id e) es)" by (metis last_in_set list.discI)
      then have "e_id (last (filter (\<lambda>e. c < e_id e) es)) < e_id e" "c < e_id (last (filter (\<lambda>e. c < e_id e) es))"
        using snoc.prems by (auto simp: sorted_wrt_append)
      then show ?thesis using snoc Cons by (auto simp: sorted_wrt_append max_def)
    qed
  qed simp
  have n: "length missed - SYNC_TAIL < length missed" if "missed \<noteq> []" using that by (cases missed) (simp_all add: SYNC_TAIL_def)
  have cur: "ap_last_event_id b = (if missed = [] then ap_last_event_id a else e_id (last missed))"
  proof -
    have tm: "filter (\<lambda>e. ap_last_event_id a < e_id e) ?t = drop (length missed - SYNC_TAIL) missed"
      using tail_of_missed [OF assms(1)] by (simp add: missed_def)
    show ?thesis unfolding last max_sorted [OF srt] tm using n by (cases "missed = []") simp_all
  qed
  have silent: "ap_cues (fold ingest_event es c) = ap_cues c" if "ap_suppressed c" for es c
    using that by (induction es arbitrary: c) (simp_all add: ingest_event_def Let_def)
  have srtm: "sorted_wrt (<) (map e_id missed)" using assms(1) by (simp add: missed_def sorted_wrt_map sorted_wrt_filter)
  have "e \<notin> set (ap_events b) \<and> e_id e \<le> ap_last_event_id b" if e: "e \<in> set (take (length missed - SYNC_TAIL) missed)" for e
  proof -
    let ?n = "length missed - SYNC_TAIL"
    have m: "missed \<noteq> []" "e \<in> set missed" using e by (auto dest: in_set_takeD)
    have "sorted_wrt (<) (map e_id (take ?n missed @ drop ?n missed))" using srtm by simp
    then have older: "\<forall>x \<in> set (drop ?n missed). e_id e < e_id x"
      using e unfolding map_append sorted_wrt_append by auto
    moreover have "last missed \<in> set (drop ?n missed)"
      using n [OF m(1)] last_in_set [of "drop ?n missed"] last_drop [of ?n missed] by simp
    moreover have "e \<notin> set (ap_events a)" using m(2) assms(2) by (auto simp: missed_def)
    ultimately show ?thesis using m(1) by (auto simp: ev cur)
  qed
  then have "set (take (length missed - SYNC_TAIL) missed) \<inter>
      set (ap_events (fold (\<lambda>(meth, p). handle_notification lib meth p) ns b)) = {}" for ns
    using pushes_add_newer [of _ lib ns b] by fastforce
  then show ?thesis using ev cur silent [of ?a] by (simp add: b_def sync_events_def)
qed

definition event_n :: "nat \<Rightarrow> event" where
  "event_n n = \<lparr>e_id = int n, e_kind = EvTaskFinished, e_payload = JNull, e_created_at = 0\<rparr>"

theorem tui_resume_exact_witness:
  "map e_id (ap_events (sync_events (empty_db\<lparr>events := map event_n [1..<103]\<rparr>) (new_tui\<lparr>ap_last_event_id := 1\<rparr>))) = map int [3..<103]"
proof -
  let ?log = "map event_n [1..<103]" and ?d = "empty_db\<lparr>events := map event_n [1..<103]\<rparr>" and ?a = "new_tui\<lparr>ap_last_event_id := 1\<rparr>"
  have srt: "sorted_wrt (<) (map e_id ?log)" by (simp add: event_n_def comp_def sorted_wrt_map del: upt.simps upt_Suc)
  have "[1..<103] = 1 # [2..<103]" by (simp add: upt_conv_Cons del: upt_Suc)
  then have "filter (\<lambda>e. ap_last_event_id ?a < e_id e) ?log = map event_n [2..<103]"
    by (auto simp: event_n_def comp_def filter_empty_conv simp del: upt_Suc intro!: filter_True)
  then have "ap_events (sync_events ?d ?a) = drop 1 (map event_n [2..<103])"
    using tui_resume_exact [of ?d ?a undefined] srt by (simp add: new_tui_def SYNC_TAIL_def del: upt_Suc)
  then show ?thesis by (simp add: event_n_def drop_map comp_def del: upt_Suc)
qed

text \<open>After any pushes the list holds at most 1000 events, in order and without repetition.\<close>

theorem event_list_bounded:
  fixes lib :: tui_lib
  assumes "log_ok a" and "ns \<noteq> []"
  defines "b \<equiv> fold (\<lambda>(meth, p). handle_notification lib meth p) ns a"
  shows "length (ap_events b) \<le> EVENTS_KEPT \<and> sorted_wrt (<) (map e_id (ap_events b))"
proof -
  have ok: "log_ok (fold (\<lambda>(meth, p). handle_notification lib meth p) ns a)" for ns
    using assms(1) by (induction ns rule: rev_induct) (auto simp: log_ok_push)
  obtain ns' meth p where "ns = ns' @ [(meth, p)]" using assms(2) by (cases ns rule: rev_cases) auto
  then have "length (ap_events b) \<le> EVENTS_KEPT"
    unfolding b_def using handle_notification_events [of lib meth p] by (auto simp: b_def)
  then show ?thesis using ok [of ns] by (simp add: b_def log_ok_def)
qed

text \<open>A new attempt does inherit the usage of the run before it: the push of the attempt forgets it, and the next
  refresh, in which the exited session is still listed, brings it back.\<close>

lemma attempt_inherits_usage:
  assumes "t_attempt old < t_attempt t" and "t_id old = t_id t" and "si_task s = Some (t_id t)" and "si_usage s = Some u"
  shows "snd (task_activity_usage (set_agent_sessions [s] (store_task t (a\<lparr>ap_tasks := [old]\<rparr>))) (t_id t)) = Some u"
  using assms by (simp add: task_activity_usage_def set_agent_sessions_def task_session_def put_session_def Let_def)

end
