(* ===== verification/TuiForms.thy ===== *)
theory TuiForms
  imports TuiApp
begin

text \<open>
  The dialogs of the terminal client: the keys a line editor takes, the reply to an agent's question, the form of a
  task's variables (\<open>tui/app/task_vars.rs\<close>, \<open>favetto-wire/src/task_var.rs\<close>), the one-shot wizard
  (\<open>tui/app/wizard.rs\<close>) and the confirmation of task commands (\<open>tui/app/mod.rs\<close>, \<open>tui/app/input.rs\<close>).
\<close>

subsection \<open>Keys\<close>

text \<open>A character key carries the UTF-8 bytes of its character.\<close>

datatype key_code =
    KEsc | KEnter | KTab | KBackTab | KUp | KDown | KLeft | KRight | KHome | KEnd | KBackspace | KDelete | KChar string | KOther

record key_event =
  k_code :: key_code
  k_ctrl :: bool
  k_alt :: bool
  k_shift :: bool

text \<open>The editing keys, the same in every dialog with a text buffer.\<close>

definition edit_of_key :: "key_event \<Rightarrow> edit option" where
  "edit_of_key k = (case k_code k of
     KBackspace \<Rightarrow> Some (if k_alt k then DeleteWord else Backspace)
   | KDelete \<Rightarrow> Some Delete
   | KLeft \<Rightarrow> Some (if k_alt k \<or> k_ctrl k then WordLeft else MoveLeft)
   | KRight \<Rightarrow> Some (if k_alt k \<or> k_ctrl k then WordRight else MoveRight)
   | KHome \<Rightarrow> Some Home
   | KEnd \<Rightarrow> Some End
   | KChar c \<Rightarrow>
       if k_ctrl k \<and> c = ''a'' then Some Home
       else if k_ctrl k \<and> c = ''e'' then Some End
       else if k_ctrl k \<and> c = ''u'' then Some DeleteToStart
       else if k_ctrl k \<and> c = ''k'' then Some DeleteToEnd
       else if k_ctrl k \<and> c = ''w'' then Some DeleteWord
       else if \<not> k_ctrl k \<and> \<not> k_alt k then Some (Insert c)
       else None
   | _ \<Rightarrow> None)"

fun key_ok :: "key_event \<Rightarrow> bool" where
  "key_ok k = (case k_code k of KChar c \<Rightarrow> utf8 c | _ \<Rightarrow> True)"

lemma edit_of_key_ok: "key_ok k \<Longrightarrow> edit_of_key k = Some e \<Longrightarrow> edit_ok e"
  by (auto simp: edit_of_key_def split: key_code.splits if_splits)

subsection \<open>Replies\<close>

datatype input_reply = ReplyOnce | ReplyAlways | ReplyReject | ReplyConfirmed bool | ReplyValue string | ReplyCancelled

definition reply_for :: "input_request \<Rightarrow> nat \<Rightarrow> string \<Rightarrow> input_reply" where
  "reply_for req selected v =
     (if iq_options req = [] then ReplyValue v
      else (let label = (if selected < length (iq_options req) then iq_options req ! selected else []);
                has = str_contains (map ascii_lower label)
            in case iq_kind req of
                 AwPermission \<Rightarrow>
                   if has ''always'' \<or> has ''remember'' then ReplyAlways
                   else if has ''reject'' \<or> has ''deny'' \<or> has ''block'' \<or> has ''cancel'' then ReplyReject
                   else if iq_allow_always req \<and> selected = 1 \<and> length (iq_options req) > 2 then ReplyAlways
                   else ReplyOnce
               | AwConfirmation \<Rightarrow> ReplyConfirmed (\<not> (has ''no'' \<or> has ''deny'' \<or> has ''reject'' \<or> has ''cancel''))
               | _ \<Rightarrow> ReplyValue label))"

record reply_prompt =
  rp_session :: string
  rp_request :: input_request
  rp_selected :: nat
  rp_input :: text_buffer

definition new_reply :: "string \<Rightarrow> input_request \<Rightarrow> reply_prompt" where
  "new_reply sid req = \<lparr>rp_session = sid, rp_request = req, rp_selected = 0, rp_input = new_buffer []\<rparr>"

definition has_options :: "reply_prompt \<Rightarrow> bool" where
  "has_options p \<longleftrightarrow> iq_options (rp_request p) \<noteq> []"

definition prompt_reply :: "reply_prompt \<Rightarrow> input_reply" where
  "prompt_reply p = reply_for (rp_request p) (rp_selected p) (tb_value (rp_input p))"

datatype reply_outcome = Asking reply_prompt | ReplyClosed | SendReply string string input_reply

text \<open>The keys of the reply prompt; unlike the forms it has no word and line keys.\<close>

definition handle_reply_key :: "segmentation \<Rightarrow> (string \<Rightarrow> bool) \<Rightarrow> key_event \<Rightarrow> reply_prompt \<Rightarrow> reply_outcome option" where
  "handle_reply_key seg sep k p =
     (let edit = (\<lambda>e. if has_options p then Some (Asking p)
                   else map_option (\<lambda>t. Asking (p\<lparr>rp_input := t\<rparr>)) (apply_edit seg sep e (rp_input p)))
      in case k_code k of
           KEsc \<Rightarrow> Some ReplyClosed
         | KEnter \<Rightarrow> Some (SendReply (rp_session p) (iq_id (rp_request p)) (prompt_reply p))
         | KUp \<Rightarrow> Some (Asking (if has_options p then p\<lparr>rp_selected := rp_selected p - 1\<rparr> else p))
         | KDown \<Rightarrow> Some (Asking (if has_options p
             then p\<lparr>rp_selected := min (rp_selected p + 1) (length (iq_options (rp_request p)) - 1)\<rparr> else p))
         | KBackspace \<Rightarrow> edit Backspace
         | KDelete \<Rightarrow> edit Delete
         | KLeft \<Rightarrow> edit MoveLeft
         | KRight \<Rightarrow> edit MoveRight
         | KHome \<Rightarrow> edit Home
         | KEnd \<Rightarrow> edit End
         | KChar c \<Rightarrow> if \<not> k_ctrl k \<and> \<not> k_alt k then edit (Insert c) else Some (Asking p)
         | _ \<Rightarrow> Some (Asking p))"

text \<open>The permission prompt of opencode answers what its labels say; but a confirmation is refused whenever its label
  happens to contain the letters of ``no''.\<close>

lemma reply_for_permission:
  assumes "iq_kind req = AwPermission" and "iq_options req = [''Allow once'', ''Allow always'', ''Reject'']"
  shows "map (\<lambda>i. reply_for req i v) [0, 1, 2] = [ReplyOnce, ReplyAlways, ReplyReject]"
  unfolding reply_for_def assms by (code_simp, simp)

lemma know_is_no:
  assumes "iq_kind req = AwConfirmation" and "iq_options req = [''Run now'', ''Later'']"
  shows "reply_for req 0 v = ReplyConfirmed False" and "reply_for req 1 v = ReplyConfirmed True"
  unfolding reply_for_def assms by code_simp+

subsection \<open>The form of a task's variables\<close>

datatype var_coerce_error = NotInChoices string | NotAnInteger | NotBoolean

fun coerce_error_text :: "var_coerce_error \<Rightarrow> string" where
  "coerce_error_text (NotInChoices s) = ''must be one of: '' @ s"
| "coerce_error_text NotAnInteger = ''must be an integer''"
| "coerce_error_text NotBoolean = ''must be true or false''"

definition coerce :: "task_var \<Rightarrow> string \<Rightarrow> var_coerce_error + json" where
  "coerce v raw = (if (case v_choices v of Some cs \<Rightarrow> raw \<notin> set cs | None \<Rightarrow> False)
     then Inl (NotInChoices (join '', '' (the (v_choices v))))
     else (case v_type v of
       VtString \<Rightarrow> Inr (JStr raw)
     | VtInt \<Rightarrow> (case parse_i64 (trim raw) of
         Some n \<Rightarrow> Inr (JNum (if n < 0 then NegInt n else PosInt (nat n))) | None \<Rightarrow> Inl NotAnInteger)
     | VtBool \<Rightarrow> (let s = map ascii_lower (trim raw) in
         if s = ''true'' \<or> s = ''1'' then Inr (JBool True)
         else if s = ''false'' \<or> s = ''0'' then Inr (JBool False)
         else Inl NotBoolean)))"

record task_vars_form =
  tf_task :: string
  tf_vars :: "task_var list"
  tf_current :: nat
  tf_values :: "text_buffer list"
  tf_choice :: "nat list"
  tf_error :: "string option"

definition nth_opt :: "'a list \<Rightarrow> nat \<Rightarrow> 'a option" where
  "nth_opt xs i = (if i < length xs then Some (xs ! i) else None)"

definition or_default :: "'a \<Rightarrow> 'a option \<Rightarrow> 'a" where
  "or_default d x = (case x of Some y \<Rightarrow> y | None \<Rightarrow> d)"

datatype start_action = StartTask string | OpenTaskForm task_vars_form

definition begin_catalog_task :: "tui_entry \<Rightarrow> start_action" where
  "begin_catalog_task e = (if te_vars e = [] then StartTask (te_name e) else OpenTaskForm
     \<lparr>tf_task = te_name e, tf_vars = te_vars e, tf_current = 0,
      tf_values = map (\<lambda>v. new_buffer (or_default [] (v_default v))) (te_vars e),
      tf_choice = map (\<lambda>v. case (v_choices v, v_default v) of
          (Some cs, Some d) \<Rightarrow> or_default 0 (position (\<lambda>c. c = d) cs) | _ \<Rightarrow> 0) (te_vars e),
      tf_error = None\<rparr>)"

text \<open>The value of the \<open>i\<close>-th field.\<close>

definition field_value :: "task_vars_form \<Rightarrow> nat \<Rightarrow> task_var \<Rightarrow> string" where
  "field_value f i v = (case v_choices v of
     Some cs \<Rightarrow> or_default [] (nth_opt cs (or_default 0 (nth_opt (tf_choice f) i)))
   | None \<Rightarrow> or_default [] (map_option tb_value (nth_opt (tf_values f) i)))"

fun submit_fields :: "task_vars_form \<Rightarrow> nat \<Rightarrow> task_var list \<Rightarrow> (string \<times> json) list \<Rightarrow> string + json" where
  "submit_fields f i [] m = Inr (JObj m)"
| "submit_fields f i (v # vs) m = (let raw = field_value f i v in
     if raw = [] then (if v_required v then Inl (v_prompt v @ '' is required'') else submit_fields f (i + 1) vs m)
     else (case coerce v raw of
         Inl e \<Rightarrow> Inl (v_prompt v @ '': '' @ coerce_error_text e)
       | Inr j \<Rightarrow> submit_fields f (i + 1) vs (obj_insert (v_name v) j m)))"

definition submit_task_vars :: "task_vars_form \<Rightarrow> string + json" where
  "submit_task_vars f = submit_fields f 0 (tf_vars f) []"

datatype form_outcome = Editing task_vars_form | FormClosed | StartTaskWithInput string json

definition form_submit :: "task_vars_form \<Rightarrow> form_outcome" where
  "form_submit f = (case submit_task_vars f of
     Inr input \<Rightarrow> StartTaskWithInput (tf_task f) input | Inl e \<Rightarrow> Editing (f\<lparr>tf_error := Some e\<rparr>))"

definition form_edit :: "segmentation \<Rightarrow> (string \<Rightarrow> bool) \<Rightarrow> edit \<Rightarrow> task_vars_form \<Rightarrow> form_outcome option" where
  "form_edit seg sep e f = (case nth_opt (tf_values f) (tf_current f) of
     Some t \<Rightarrow> map_option (\<lambda>t. Editing (f\<lparr>tf_values := (tf_values f)[tf_current f := t]\<rparr>)) (apply_edit seg sep e t)
   | None \<Rightarrow> Some (Editing f))"

definition form_next :: "task_vars_form \<Rightarrow> form_outcome" where
  "form_next f = (if tf_current f < length (tf_vars f) - 1 then Editing (f\<lparr>tf_current := tf_current f + 1\<rparr>) else form_submit f)"

definition form_prev :: "task_vars_form \<Rightarrow> form_outcome" where
  "form_prev f = Editing (f\<lparr>tf_current := tf_current f - 1\<rparr>)"

text \<open>The indexing of \<open>choice_selected\<close> panics out of range.\<close>

definition form_choose :: "(nat \<Rightarrow> nat) \<Rightarrow> task_vars_form \<Rightarrow> form_outcome option" where
  "form_choose g f = (case nth_opt (tf_choice f) (tf_current f) of
     Some s \<Rightarrow> Some (Editing (f\<lparr>tf_choice := (tf_choice f)[tf_current f := g s]\<rparr>)) | None \<Rightarrow> None)"

definition handle_task_vars_key ::
  "segmentation \<Rightarrow> (string \<Rightarrow> bool) \<Rightarrow> key_event \<Rightarrow> task_vars_form \<Rightarrow> form_outcome option" where
  "handle_task_vars_key seg sep k f =
     (let var = nth_opt (tf_vars f) (tf_current f);
          choices = Option.bind var v_choices;
          has_choices = (choices \<noteq> None);
          multiline = (case var of Some v \<Rightarrow> v_multiline v | None \<Rightarrow> False)
      in case k_code k of
           KEsc \<Rightarrow> Some FormClosed
         | KTab \<Rightarrow> Some (form_next f)
         | KBackTab \<Rightarrow> Some (form_prev f)
         | KDown \<Rightarrow>
             if has_choices then form_choose (\<lambda>s. if the choices = [] then s else min (s + 1) (length (the choices) - 1)) f
             else if multiline then form_edit seg sep LineDown f
             else Some (form_next f)
         | KUp \<Rightarrow>
             if has_choices then form_choose (\<lambda>s. s - 1) f
             else if multiline then form_edit seg sep LineUp f
             else Some (form_prev f)
         | KEnter \<Rightarrow>
             if k_ctrl k then Some (form_submit f)
             else if multiline then form_edit seg sep (Insert [nl]) f
             else if k_alt k then Some (form_submit f)
             else Some (form_next f)
         | _ \<Rightarrow>
             if has_choices then Some (Editing f)
             else (case edit_of_key k of Some e \<Rightarrow> form_edit seg sep e f | None \<Rightarrow> Some (Editing f)))"

fun form_keys :: "segmentation \<Rightarrow> (string \<Rightarrow> bool) \<Rightarrow> key_event list \<Rightarrow> form_outcome \<Rightarrow> form_outcome option" where
  "form_keys seg sep (k # ks) (Editing f) = Option.bind (handle_task_vars_key seg sep k f) (form_keys seg sep ks)"
| "form_keys seg sep _ r = Some r"

text \<open>What keeps the keys of the form legal.\<close>

definition form_ok :: "task_var list \<Rightarrow> string \<Rightarrow> task_vars_form \<Rightarrow> bool" where
  "form_ok vs task f \<longleftrightarrow> tf_vars f = vs \<and> tf_task f = task \<and> length (tf_choice f) = length vs \<and>
     length (tf_values f) = length vs \<and> (\<forall>t \<in> set (tf_values f). buffer_ok t)"

lemma form_ok_begin:
  assumes "begin_catalog_task e = OpenTaskForm f" and "\<And>v d. v \<in> set (te_vars e) \<Longrightarrow> v_default v = Some d \<Longrightarrow> utf8 d"
  shows "form_ok (te_vars e) (te_name e) f"
proof -
  have "buffer_ok (new_buffer (or_default [] (v_default v)))" if "v \<in> set (te_vars e)" for v
    using assms(2) [OF that] by (cases "v_default v") (simp_all add: or_default_def buffer_ok_def new_buffer_def)
  then show ?thesis using assms(1) by (auto simp: begin_catalog_task_def form_ok_def split: if_splits)
qed

text \<open>A field that ends up in the input was coerced from a value that is not empty, and no required one is missing.\<close>

definition input_ok :: "task_var list \<Rightarrow> (string \<times> json) list \<Rightarrow> bool" where
  "input_ok vs m \<longleftrightarrow> (\<forall>v \<in> set vs. (v_required v \<longrightarrow> map_of m (v_name v) \<noteq> None) \<and>
     (\<forall>j. map_of m (v_name v) = Some j \<longrightarrow> (\<exists>raw. raw \<noteq> [] \<and> coerce v raw = Inr j)))"

lemma submit_fields_other:
  "submit_fields f i vs m = Inr j \<Longrightarrow> \<exists>m'. j = JObj m' \<and> (\<forall>k. k \<notin> v_name ` set vs \<longrightarrow> map_of m' k = map_of m k)"
proof (induction f i vs m rule: submit_fields.induct)
  case (2 f i v vs m)
  show ?case
  proof (cases "field_value f i v = []")
    case True
    then have "submit_fields f (i + 1) vs m = Inr j" using 2(3) by (simp split: if_splits)
    then show ?thesis using 2(1) [OF refl True] True 2(3) by (auto split: if_splits)
  next
    case False
    then obtain x where x: "coerce v (field_value f i v) = Inr x" "submit_fields f (i + 1) vs (obj_insert (v_name v) x m) = Inr j"
      using 2(3) by (auto simp: Let_def split: sum.splits)
    then show ?thesis using 2(2) [OF refl False x(1) x(2)] by auto
  qed
qed auto

lemma submit_fields_ok:
  "submit_fields f i vs m = Inr j \<Longrightarrow> distinct (map v_name vs) \<Longrightarrow> \<forall>v \<in> set vs. map_of m (v_name v) = None \<Longrightarrow>
    \<exists>m'. j = JObj m' \<and> input_ok vs m'"
proof (induction f i vs m rule: submit_fields.induct)
  case (2 f i v vs m)
  have new: "v_name v \<notin> v_name ` set vs" using 2(4) by simp
  show ?case
  proof (cases "field_value f i v = []")
    case True
    then have *: "\<not> v_required v" "submit_fields f (i + 1) vs m = Inr j" using 2(3) by (simp_all split: if_splits)
    obtain m' where m': "j = JObj m'" "input_ok vs m'" using 2(1) [OF refl True *] 2(4,5) by auto
    have "map_of m' (v_name v) = None" using submit_fields_other [OF *(2)] new m'(1) 2(5) by auto
    then show ?thesis using m' *(1) by (simp add: input_ok_def)
  next
    case False
    then obtain x where x: "coerce v (field_value f i v) = Inr x" "submit_fields f (i + 1) vs (obj_insert (v_name v) x m) = Inr j"
      using 2(3) by (auto simp: Let_def split: sum.splits)
    have "\<forall>w \<in> set vs. map_of (obj_insert (v_name v) x m) (v_name w) = None" using 2(5) new by (auto simp: image_iff)
    then obtain m' where m': "j = JObj m'" "input_ok vs m'" using 2(2) [OF refl False x] 2(4) by auto
    have "map_of m' (v_name v) = Some x" using submit_fields_other [OF x(2)] new m'(1) by auto
    then show ?thesis using m' x(1) False by (auto simp: input_ok_def)
  qed
qed (auto simp: input_ok_def)

lemma submit_task_vars_ok:
  assumes "form_ok vs task f" and "distinct (map v_name vs)" and "submit_task_vars f = Inr j"
  shows "\<exists>m. j = JObj m \<and> input_ok vs m \<and> (\<forall>k. map_of m k \<noteq> None \<longrightarrow> k \<in> v_name ` set vs)"
proof -
  have vs: "submit_fields f 0 vs [] = Inr j" using assms(1,3) by (simp add: submit_task_vars_def form_ok_def)
  show ?thesis using submit_fields_ok [OF vs assms(2)] submit_fields_other [OF vs] by force
qed

definition outcome_ok :: "task_var list \<Rightarrow> string \<Rightarrow> form_outcome \<Rightarrow> bool" where
  "outcome_ok vs task r = (case r of
     Editing f \<Rightarrow> form_ok vs task f
   | FormClosed \<Rightarrow> True
   | StartTaskWithInput name j \<Rightarrow> name = task \<and>
       (\<exists>m. j = JObj m \<and> input_ok vs m \<and> (\<forall>k. map_of m k \<noteq> None \<longrightarrow> k \<in> v_name ` set vs)))"

lemma form_submit_ok: "form_ok vs task f \<Longrightarrow> distinct (map v_name vs) \<Longrightarrow> outcome_ok vs task (form_submit f)"
  using submit_task_vars_ok [of vs task f]
  by (auto simp: form_submit_def outcome_ok_def form_ok_def split: sum.split)

lemma form_move_ok:
  assumes "form_ok vs task f" and "distinct (map v_name vs)"
  shows "outcome_ok vs task (form_next f)" and "outcome_ok vs task (form_prev f)"
  using assms form_submit_ok [OF assms]
  by (auto simp: form_next_def form_prev_def outcome_ok_def form_ok_def)

lemma form_edit_ok:
  assumes "segments seg" and "form_ok vs task f" and "edit_ok e"
  shows "\<exists>r. form_edit seg sep e f = Some r \<and> outcome_ok vs task r"
proof (cases "tf_current f < length (tf_values f)")
  case True
  then have "buffer_ok (tf_values f ! tf_current f)" using assms(2) by (simp add: form_ok_def)
  then obtain t where t: "apply_edit seg sep e (tf_values f ! tf_current f) = Some t" "buffer_ok t"
    using step_valid [OF assms(1) _ assms(3)] by blast
  have "\<forall>x \<in> set ((tf_values f)[tf_current f := t]). buffer_ok x"
    using assms(2) t(2) set_update_subset_insert [of "tf_values f" "tf_current f" t] by (auto simp: form_ok_def)
  then show ?thesis using True t(1) assms(2) by (simp add: form_edit_def nth_opt_def outcome_ok_def form_ok_def)
qed (use assms(2) in \<open>simp add: form_edit_def nth_opt_def outcome_ok_def\<close>)

lemma form_choose_ok:
  assumes "form_ok vs task f" and "tf_current f < length vs"
  shows "\<exists>r. form_choose g f = Some r \<and> outcome_ok vs task r"
  using assms by (simp add: form_choose_def nth_opt_def outcome_ok_def form_ok_def)

lemma handle_task_vars_ok:
  assumes "segments seg" and "form_ok vs task f" and "distinct (map v_name vs)" and "key_ok k"
  shows "\<exists>r. handle_task_vars_key seg sep k f = Some r \<and> outcome_ok vs task r"
proof -
  have stay: "outcome_ok vs task (Editing f)" "outcome_ok vs task FormClosed" using assms(2) by (simp_all add: outcome_ok_def)
  have "edit_ok (Insert [nl])" by code_simp
  then have ed: "\<exists>r. form_edit seg sep e f = Some r \<and> outcome_ok vs task r" if "e \<in> {LineDown, LineUp, Insert [nl]}" for e
    using that form_edit_ok [OF assms(1,2), of e] by auto
  have ek: "\<exists>r. form_edit seg sep e f = Some r \<and> outcome_ok vs task r" if "edit_of_key k = Some e" for e
    using form_edit_ok [OF assms(1,2) edit_of_key_ok [OF assms(4) that]] .
  have ch: "\<exists>r. form_choose g f = Some r \<and> outcome_ok vs task r" if "Option.bind (nth_opt (tf_vars f) (tf_current f)) v_choices \<noteq> None" for g
    using that assms(2) by (intro form_choose_ok) (auto simp: nth_opt_def form_ok_def split: if_splits)
  note moves = form_move_ok [OF assms(2,3)] form_submit_ok [OF assms(2,3)]
  show ?thesis
    unfolding handle_task_vars_key_def Let_def
    using stay ed ek ch moves by (cases "k_code k") (auto split: option.split)
qed

text \<open>C39: the form of a task's variables never panics, whatever is typed, and when it starts the task, it starts the
  one it was opened for with an object that has exactly declared fields: every required one, and each of them
  read from a text that is not empty, of the declared type and among the declared choices.\<close>

theorem task_form_sound:
  assumes "begin_catalog_task e = OpenTaskForm f" and "segments seg" and "distinct (map v_name (te_vars e))"
    and "\<And>v d. v \<in> set (te_vars e) \<Longrightarrow> v_default v = Some d \<Longrightarrow> utf8 d"
    and "\<And>k c. k \<in> set ks \<Longrightarrow> k_code k = KChar c \<Longrightarrow> utf8 c"
  shows "\<exists>r. form_keys seg sep ks (Editing f) = Some r \<and>
    (\<forall>name input. r = StartTaskWithInput name input \<longrightarrow> name = te_name e \<and>
       (\<exists>m. input = JObj m \<and> dom (map_of m) \<subseteq> v_name ` set (te_vars e) \<and>
         (\<forall>v \<in> set (te_vars e). v_required v \<longrightarrow> v_name v \<in> dom (map_of m)) \<and>
         (\<forall>v \<in> set (te_vars e). \<forall>j. map_of m (v_name v) = Some j \<longrightarrow> (\<exists>raw. raw \<noteq> [] \<and> coerce v raw = Inr j))))"
proof -
  let ?ok = "outcome_ok (te_vars e) (te_name e)"
  have "\<exists>r'. form_keys seg sep ks r = Some r' \<and> ?ok r'" if "?ok r" "\<And>k. k \<in> set ks \<Longrightarrow> key_ok k" for r
    using that
  proof (induction ks arbitrary: r)
    case (Cons k ks)
    show ?case
    proof (cases r)
      case (Editing g)
      then obtain r1 where "handle_task_vars_key seg sep k g = Some r1" "?ok r1"
        using handle_task_vars_ok [OF assms(2) _ assms(3), of "te_name e" g k] Cons.prems by (auto simp: outcome_ok_def)
      then show ?thesis using Cons Editing by auto
    qed (use Cons.prems in auto)
  qed (cases r, auto)
  moreover have "?ok (Editing f)" using form_ok_begin [OF assms(1,4)] by (simp add: outcome_ok_def)
  moreover have "key_ok k" if "k \<in> set ks" for k using assms(5) [OF that] by (auto split: key_code.split)
  ultimately obtain r where "form_keys seg sep ks (Editing f) = Some r" "?ok r" by blast
  then show ?thesis by (auto simp: outcome_ok_def input_ok_def)
qed

theorem task_form_sound_witness:
  "\<exists>m. form_keys by_char (\<lambda>g. g = '' '') [\<lparr>k_code = KChar ''7'', k_ctrl = False, k_alt = False, k_shift = False\<rparr>,
      \<lparr>k_code = KEnter, k_ctrl = False, k_alt = False, k_shift = False\<rparr>]
    (case begin_catalog_task ((named ''t'')\<lparr>te_vars := [\<lparr>v_name = ''n'', v_prompt = ''N'', v_default = None, v_required = True,
       v_multiline = False, v_type = VtInt, v_choices = None\<rparr>]\<rparr>) of OpenTaskForm f \<Rightarrow> Editing f | _ \<Rightarrow> FormClosed) =
      Some (StartTaskWithInput ''t'' (JObj m)) \<and> ''n'' \<in> dom (map_of m)"
proof -
  let ?v = "\<lparr>v_name = ''n'', v_prompt = ''N'', v_default = None, v_required = True,
       v_multiline = False, v_type = VtInt, v_choices = None\<rparr>"
  let ?e = "(named ''t'')\<lparr>te_vars := [?v]\<rparr>"
  let ?f = "\<lparr>tf_task = ''t'', tf_vars = [?v], tf_current = 0, tf_values = [new_buffer []], tf_choice = [0], tf_error = None\<rparr>"
  let ?ks = "[\<lparr>k_code = KChar ''7'', k_ctrl = False, k_alt = False, k_shift = False\<rparr>,
      \<lparr>k_code = KEnter, k_ctrl = False, k_alt = False, k_shift = False\<rparr>]"
  have f: "begin_catalog_task ?e = OpenTaskForm ?f" by (simp add: begin_catalog_task_def named_def or_default_def)
  have run: "form_keys by_char (\<lambda>g. g = '' '') ?ks (Editing ?f) =
      Some (StartTaskWithInput ''t'' (JObj [(''n'', JNum (PosInt 7))]))" by code_simp
  have "''n'' \<in> dom (map_of [(''n'', JNum (PosInt 7))])"
    using task_form_sound [OF f segments_by_char, of ?ks "\<lambda>g. g = '' ''"] run by (simp add: named_def utf8.simps)
  then show ?thesis using f run by auto
qed

section \<open>The one-shot wizard\<close>

record agent_caps =
  ac_interactive :: bool
  ac_headless :: bool
  ac_resume :: bool
  ac_model_selection :: bool
  ac_providers :: bool
  ac_structured_output :: bool
  ac_reports_session_id :: bool
  ac_prompt_prefill :: bool
  ac_interactive_prompt :: bool
  ac_reports_state :: bool
  ac_permission_channel :: bool
  ac_concurrent_attach :: bool

definition no_caps :: agent_caps where
  "no_caps = \<lparr>ac_interactive = False, ac_headless = False, ac_resume = False, ac_model_selection = False,
     ac_providers = False, ac_structured_output = False, ac_reports_session_id = False, ac_prompt_prefill = False,
     ac_interactive_prompt = False, ac_reports_state = False, ac_permission_channel = False, ac_concurrent_attach = False\<rparr>"

record agent_entry =
  ae_name :: string
  ae_command :: string
  ae_available :: bool
  ae_caps :: agent_caps

record model_entry =
  me_id :: string
  me_name :: string

record provider_entry =
  pe_id :: string
  pe_name :: string
  pe_models :: "model_entry list"

datatype wizard_step = AgentStep | ProviderStep | ModelStep | DirStep

record wizard =
  wz_step :: wizard_step
  wz_selected :: nat
  wz_choices :: "(string \<times> string) list"
  wz_providers :: "provider_entry list"
  wz_caps :: agent_caps
  wz_agent_caps :: "string \<rightharpoonup> agent_caps"
  wz_available :: "string \<rightharpoonup> bool"
  wz_agent :: "string option"
  wz_provider :: "string option"
  wz_model :: "string option"
  wz_dir :: text_buffer
  wz_loading :: bool
  wz_error :: "string option"

definition open_wizard :: "agent_entry list \<Rightarrow> string option \<Rightarrow> wizard" where
  "open_wizard agents cwd = \<lparr>wz_step = AgentStep, wz_selected = 0,
     wz_choices = map (\<lambda>a. (ae_name a, ae_name a)) (filter (\<lambda>a. trim (ae_command a) \<noteq> []) agents), wz_providers = [],
     wz_caps = no_caps, wz_agent_caps = map_of (rev (map (\<lambda>a. (ae_name a, ae_caps a)) agents)),
     wz_available = map_of (rev (map (\<lambda>a. (ae_name a, ae_available a)) agents)),
     wz_agent = None, wz_provider = None, wz_model = None, wz_dir = new_buffer (or_default [] cwd), wz_loading = False,
     wz_error = None\<rparr>"

text \<open>The selection moves to the next choice that is not marked unavailable, or stays.\<close>

definition choice_open :: "wizard \<Rightarrow> nat \<Rightarrow> bool" where
  "choice_open w i = or_default True (wz_available w (snd (wz_choices w ! i)))"

definition move_selection :: "bool \<Rightarrow> wizard \<Rightarrow> wizard" where
  "move_selection forward w =
     (case find (choice_open w) (if wz_choices w = [] then [] else if forward then [wz_selected w + 1..<length (wz_choices w)] else rev [0..<wz_selected w]) of
        Some i \<Rightarrow> w\<lparr>wz_selected := i\<rparr> | None \<Rightarrow> w)"

definition wizard_set_providers :: "provider_entry list \<Rightarrow> wizard \<Rightarrow> wizard" where
  "wizard_set_providers ps w = w\<lparr>wz_choices := map (\<lambda>p. (pe_name p, pe_id p)) ps, wz_providers := ps, wz_loading := False,
     wz_error := None, wz_selected := 0, wz_step := (if ac_providers (wz_caps w) then ProviderStep else DirStep)\<rparr>"

definition wizard_error :: "string \<Rightarrow> wizard \<Rightarrow> wizard" where
  "wizard_error msg w = w\<lparr>wz_loading := False, wz_error := Some msg\<rparr>"

datatype wizard_action =
    WzNone wizard
  | WzClosed
  | LoadProviders wizard
  | WizardStart string "string option" "string option" "string option"

definition agent_chosen :: "string \<Rightarrow> wizard \<Rightarrow> wizard_action" where
  "agent_chosen name w =
     (if wz_available w name = Some False then WzNone (w\<lparr>wz_error := Some (''agent '' @ quoted name @ '' is not installed'')\<rparr>)
      else (let caps = or_default no_caps (wz_agent_caps w name);
                w = w\<lparr>wz_agent := Some name, wz_caps := caps, wz_error := None, wz_choices := []\<rparr>
            in if \<not> ac_providers caps then WzNone (w\<lparr>wz_step := DirStep, wz_selected := 0\<rparr>)
               else LoadProviders (w\<lparr>wz_loading := True\<rparr>)))"

definition provider_chosen :: "string \<Rightarrow> wizard \<Rightarrow> wizard_action" where
  "provider_chosen i w = (let w = w\<lparr>wz_provider := Some i, wz_selected := 0\<rparr> in
     WzNone (if \<not> ac_model_selection (wz_caps w) then w\<lparr>wz_choices := [], wz_step := DirStep\<rparr>
       else w\<lparr>wz_step := ModelStep, wz_choices := (case find (\<lambda>p. pe_id p = i) (wz_providers w) of
           Some p \<Rightarrow> map (\<lambda>m. (me_name m, me_id m)) (pe_models p) | None \<Rightarrow> [])\<rparr>))"

definition wizard_enter :: "wizard \<Rightarrow> wizard_action" where
  "wizard_enter w = (if wz_loading w then WzNone w else
     (case wz_step w of
        DirStep \<Rightarrow> (let d = trim (tb_value (wz_dir w)) in
          WizardStart (or_default [] (wz_agent w)) (wz_provider w) (wz_model w) (if d = [] then None else Some d))
      | st \<Rightarrow> (case nth_opt (wz_choices w) (wz_selected w) of
          None \<Rightarrow> WzNone w
        | Some (_, v) \<Rightarrow> (case st of
            AgentStep \<Rightarrow> agent_chosen v w
          | ProviderStep \<Rightarrow> provider_chosen v w
          | _ \<Rightarrow> WzNone (w\<lparr>wz_model := Some v, wz_step := DirStep\<rparr>)))))"

definition handle_wizard_key :: "segmentation \<Rightarrow> (string \<Rightarrow> bool) \<Rightarrow> key_event \<Rightarrow> wizard \<Rightarrow> wizard_action option" where
  "handle_wizard_key seg sep k w = (case k_code k of
     KEsc \<Rightarrow> Some WzClosed
   | KUp \<Rightarrow> Some (WzNone (if wz_step w = AgentStep then move_selection False w else w\<lparr>wz_selected := wz_selected w - 1\<rparr>))
   | KDown \<Rightarrow> Some (WzNone (if wz_step w = AgentStep then move_selection True w
       else if wz_choices w \<noteq> [] then w\<lparr>wz_selected := min (wz_selected w + 1) (length (wz_choices w) - 1)\<rparr> else w))
   | KEnter \<Rightarrow> Some (wizard_enter w)
   | _ \<Rightarrow> if wz_step w = DirStep then (case edit_of_key k of
         Some e \<Rightarrow> map_option (\<lambda>t. WzNone (w\<lparr>wz_dir := t\<rparr>)) (apply_edit seg sep e (wz_dir w))
       | None \<Rightarrow> Some (WzNone w))
     else Some (WzNone w))"

text \<open>One round: a key, and the answer to the request it makes, which arrives before the next key.\<close>

datatype fetch = Fetched "provider_entry list" | FetchFailed string

definition wizard_round :: "segmentation \<Rightarrow> (string \<Rightarrow> bool) \<Rightarrow> key_event \<times> fetch \<Rightarrow> wizard \<Rightarrow> wizard_action option" where
  "wizard_round seg sep kf w = (case handle_wizard_key seg sep (fst kf) w of
     Some (LoadProviders w) \<Rightarrow> Some (WzNone (case snd kf of
       Fetched ps \<Rightarrow> wizard_set_providers ps w | FetchFailed msg \<Rightarrow> wizard_error msg w))
   | r \<Rightarrow> r)"

fun wizard_rounds ::
  "segmentation \<Rightarrow> (string \<Rightarrow> bool) \<Rightarrow> (key_event \<times> fetch) list \<Rightarrow> wizard_action \<Rightarrow> wizard_action option" where
  "wizard_rounds seg sep (kf # kfs) (WzNone w) = Option.bind (wizard_round seg sep kf w) (wizard_rounds seg sep kfs)"
| "wizard_rounds seg sep _ r = Some r"

subsection \<open>What the wizard starts\<close>

definition agent_picked :: "agent_entry list \<Rightarrow> agent_entry \<Rightarrow> wizard \<Rightarrow> bool" where
  "agent_picked agents a w \<longleftrightarrow> a \<in> set agents \<and> trim (ae_command a) \<noteq> [] \<and> ae_available a \<and>
     wz_agent w = Some (ae_name a) \<and> wz_caps w = ae_caps a"

definition picks_ok :: "fetch set \<Rightarrow> agent_caps \<Rightarrow> string option \<Rightarrow> string option \<Rightarrow> bool" where
  "picks_ok F caps prov mdl \<longleftrightarrow> (prov \<noteq> None \<longleftrightarrow> ac_providers caps) \<and>
     (mdl \<noteq> None \<longleftrightarrow> ac_providers caps \<and> ac_model_selection caps) \<and>
     (\<forall>i. prov = Some i \<longrightarrow> (\<exists>ps p. Fetched ps \<in> F \<and> p \<in> set ps \<and> pe_id p = i \<and>
        (\<forall>m. mdl = Some m \<longrightarrow> m \<in> me_id ` set (pe_models p))))"

definition wizard_ok :: "agent_entry list \<Rightarrow> fetch set \<Rightarrow> wizard \<Rightarrow> bool" where
  "wizard_ok agents F w \<longleftrightarrow> \<not> wz_loading w \<and> buffer_ok (wz_dir w) \<and>
     wz_agent_caps w = map_of (rev (map (\<lambda>a. (ae_name a, ae_caps a)) agents)) \<and>
     wz_available w = map_of (rev (map (\<lambda>a. (ae_name a, ae_available a)) agents)) \<and>
     (case wz_step w of
        AgentStep \<Rightarrow> wz_provider w = None \<and> wz_model w = None \<and>
          (\<forall>c \<in> set (wz_choices w). \<exists>a \<in> set agents. trim (ae_command a) \<noteq> [] \<and> snd c = ae_name a)
      | ProviderStep \<Rightarrow> (\<exists>a. agent_picked agents a w \<and> ac_providers (ae_caps a)) \<and> wz_provider w = None \<and> wz_model w = None \<and>
          Fetched (wz_providers w) \<in> F \<and> wz_choices w = map (\<lambda>p. (pe_name p, pe_id p)) (wz_providers w)
      | ModelStep \<Rightarrow> (\<exists>a. agent_picked agents a w \<and> ac_providers (ae_caps a) \<and> ac_model_selection (ae_caps a)) \<and> wz_model w = None \<and>
          Fetched (wz_providers w) \<in> F \<and>
          (\<exists>p \<in> set (wz_providers w). wz_provider w = Some (pe_id p) \<and> (\<forall>c \<in> set (wz_choices w). snd c \<in> me_id ` set (pe_models p)))
      | DirStep \<Rightarrow> (\<exists>a. agent_picked agents a w \<and> picks_ok F (ae_caps a) (wz_provider w) (wz_model w)))"

lemma map_of_agents:
  "distinct (map ae_name agents) \<Longrightarrow> a \<in> set agents \<Longrightarrow> map_of (rev (map (\<lambda>a. (ae_name a, g a)) agents)) (ae_name a) = Some (g a)"
  by (rule map_of_is_SomeI) (auto simp: rev_map comp_def distinct_map inj_on_def)

lemma wizard_ok_open: "(\<And>d. cwd = Some d \<Longrightarrow> utf8 d) \<Longrightarrow> wizard_ok agents F (open_wizard agents cwd)"
  by (cases cwd) (auto simp: wizard_ok_def open_wizard_def or_default_def new_buffer_def buffer_ok_def)

text \<open>What an outcome of a round has to be.\<close>

definition action_ok :: "agent_entry list \<Rightarrow> fetch set \<Rightarrow> wizard_action \<Rightarrow> bool" where
  "action_ok agents F r = (case r of
     WzNone w \<Rightarrow> wizard_ok agents F w
   | WzClosed \<Rightarrow> True
   | LoadProviders w \<Rightarrow> False
   | WizardStart ag pr md cwd \<Rightarrow> \<exists>a \<in> set agents. ag = ae_name a \<and> trim (ae_command a) \<noteq> [] \<and> ae_available a \<and> picks_ok F (ae_caps a) pr md)"

definition answered :: "fetch \<Rightarrow> wizard_action \<Rightarrow> wizard_action" where
  "answered a r = (case r of
     LoadProviders w \<Rightarrow> WzNone (case a of Fetched ps \<Rightarrow> wizard_set_providers ps w | FetchFailed msg \<Rightarrow> wizard_error msg w)
   | r \<Rightarrow> r)"

lemma wizard_round_answered: "wizard_round seg sep kf w = map_option (answered (snd kf)) (handle_wizard_key seg sep (fst kf) w)"
  by (auto simp: wizard_round_def answered_def split: option.split wizard_action.split)

lemma enter_agent_ok:
  assumes "distinct (map ae_name agents)" and "wizard_ok agents F w" and "wz_step w = AgentStep"
    and "c \<in> set (wz_choices w)" and "x \<in> F"
  shows "action_ok agents F (answered x (agent_chosen (snd c) w))"
proof -
  have w: "\<not> wz_loading w" "buffer_ok (wz_dir w)" "wz_provider w = None" "wz_model w = None"
      "wz_agent_caps w = map_of (rev (map (\<lambda>a. (ae_name a, ae_caps a)) agents))"
      "wz_available w = map_of (rev (map (\<lambda>a. (ae_name a, ae_available a)) agents))"
    using assms(2,3) by (simp_all add: wizard_ok_def)
  obtain a where a: "a \<in> set agents" "trim (ae_command a) \<noteq> []" "snd c = ae_name a"
    using assms(2-4) by (auto simp: wizard_ok_def)
  have m: "wz_agent_caps w (ae_name a) = Some (ae_caps a)" "wz_available w (ae_name a) = Some (ae_available a)"
    unfolding w(5,6) using map_of_agents [OF assms(1) a(1)] by blast+
  show ?thesis
  proof (cases "ae_available a")
    case True
    then show ?thesis
      using w a m assms(3,5) unfolding agent_chosen_def a(3) Let_def
      by (cases x) (auto simp: answered_def action_ok_def wizard_ok_def wizard_set_providers_def wizard_error_def or_default_def
          agent_picked_def picks_ok_def)
  next
    case False
    then show ?thesis
      using assms(2,3) m by (simp add: agent_chosen_def a(3) answered_def action_ok_def wizard_ok_def)
  qed
qed

lemma enter_provider_ok:
  assumes "wizard_ok agents F w" and "wz_step w = ProviderStep" and "c \<in> set (wz_choices w)"
  shows "action_ok agents F (provider_chosen (snd c) w)"
proof -
  obtain a where a: "agent_picked agents a w" "ac_providers (ae_caps a)" using assms(1,2) by (auto simp: wizard_ok_def)
  have w: "Fetched (wz_providers w) \<in> F" "wz_choices w = map (\<lambda>p. (pe_name p, pe_id p)) (wz_providers w)"
    using assms(1,2) by (simp_all add: wizard_ok_def)
  have "find (\<lambda>p. pe_id p = snd c) (wz_providers w) \<noteq> None" using assms(3) unfolding w(2) find_None_iff by auto
  then obtain q where f: "find (\<lambda>p. pe_id p = snd c) (wz_providers w) = Some q" by blast
  then have q: "find (\<lambda>p. pe_id p = snd c) (wz_providers w) = Some q" "q \<in> set (wz_providers w)" "pe_id q = snd c"
    by (auto simp: find_Some_iff)
  show ?thesis
  proof (cases "ac_model_selection (ae_caps a)")
    case True
    then show ?thesis using a q w assms(1,2)
      by (auto simp: provider_chosen_def Let_def action_ok_def wizard_ok_def agent_picked_def intro!: bexI [of _ q])
  next
    case False
    then have "picks_ok F (ae_caps a) (Some (snd c)) None" using a(2) q w(1) by (auto simp: picks_ok_def)
    then show ?thesis using False a assms(1,2)
      by (auto simp: provider_chosen_def Let_def action_ok_def wizard_ok_def agent_picked_def)
  qed
qed

lemma enter_model_ok:
  assumes "wizard_ok agents F w" and "wz_step w = ModelStep" and "c \<in> set (wz_choices w)"
  shows "action_ok agents F (WzNone (w\<lparr>wz_model := Some (snd c), wz_step := DirStep\<rparr>))"
proof -
  obtain a p where a: "agent_picked agents a w" "ac_providers (ae_caps a)" "ac_model_selection (ae_caps a)"
    and p: "p \<in> set (wz_providers w)" "wz_provider w = Some (pe_id p)" "snd c \<in> me_id ` set (pe_models p)"
    using assms by (auto simp: wizard_ok_def)
  have "Fetched (wz_providers w) \<in> F" using assms(1,2) by (simp add: wizard_ok_def)
  then have "picks_ok F (ae_caps a) (wz_provider w) (Some (snd c))"
    using a(2,3) p unfolding picks_ok_def by (auto intro!: exI [of _ "wz_providers w"] bexI exI [of _ p])
  then show ?thesis using a(1) assms(1,2) by (auto simp: action_ok_def wizard_ok_def agent_picked_def)
qed

lemma wizard_step_ok:
  assumes "segments seg" and "distinct (map ae_name agents)" and "wizard_ok agents F w" and "key_ok k" and "x \<in> F"
  shows "\<exists>r. wizard_round seg sep (k, x) w = Some r \<and> action_ok agents F r"
proof -
  have stay: "action_ok agents F (WzNone (w\<lparr>wz_selected := i\<rparr>))" for i
    using assms(3) by (auto simp: action_ok_def wizard_ok_def agent_picked_def split: wizard_step.splits)
  have same: "action_ok agents F (WzNone w)" using assms(3) by (simp add: action_ok_def)
  have move: "action_ok agents F (WzNone (move_selection b w))" for b
    using stay same by (simp add: move_selection_def split: option.split)
  have idle: "answered x (WzNone v) = WzNone v" "answered x WzClosed = WzClosed"
      "answered x (WizardStart p q r s) = WizardStart p q r s" for v p q r s
    by (simp_all add: answered_def)
  have pick: "c \<in> set (wz_choices w)" if "nth_opt (wz_choices w) (wz_selected w) = Some c" for c
    using that by (auto simp: nth_opt_def split: if_splits)
  have enter: "action_ok agents F (answered x (wizard_enter w))"
  proof (cases "wz_step w")
    case AgentStep
    then show ?thesis
      using same idle pick enter_agent_ok [OF assms(2,3) AgentStep _ assms(5)]
      by (fastforce simp: wizard_enter_def split: option.split)
  next
    case ProviderStep
    have "answered x (provider_chosen i w) = provider_chosen i w" for i
      by (simp add: provider_chosen_def Let_def answered_def)
    then show ?thesis
      using ProviderStep same idle pick enter_provider_ok [OF assms(3) ProviderStep]
      by (fastforce simp: wizard_enter_def split: option.split)
  next
    case ModelStep
    then show ?thesis
      using same idle pick enter_model_ok [OF assms(3) ModelStep]
      by (fastforce simp: wizard_enter_def split: option.split)
  next
    case DirStep
    then obtain a where a: "agent_picked agents a w" "picks_ok F (ae_caps a) (wz_provider w) (wz_model w)"
      using assms(3) by (auto simp: wizard_ok_def)
    then show ?thesis
      using DirStep same idle by (auto simp: wizard_enter_def Let_def action_ok_def agent_picked_def or_default_def)
  qed
  have ed: "\<exists>t. apply_edit seg sep e (wz_dir w) = Some t \<and> action_ok agents F (WzNone (w\<lparr>wz_dir := t\<rparr>))"
    if e: "edit_of_key k = Some e" for e
  proof -
    obtain t where "apply_edit seg sep e (wz_dir w) = Some t" "buffer_ok t"
      using step_valid [OF assms(1) _ edit_of_key_ok [OF assms(4) e]] assms(3) by (auto simp: wizard_ok_def)
    moreover have "action_ok agents F (WzNone (w\<lparr>wz_dir := t\<rparr>))"
      using assms(3) \<open>buffer_ok t\<close> by (auto simp: action_ok_def wizard_ok_def agent_picked_def split: wizard_step.splits)
    ultimately show ?thesis by blast
  qed
  have closed: "action_ok agents F WzClosed" by (simp add: action_ok_def)
  have other: "\<exists>r. (if wz_step w = DirStep then (case edit_of_key k of
         Some e \<Rightarrow> map_option (\<lambda>t. WzNone (w\<lparr>wz_dir := t\<rparr>)) (apply_edit seg sep e (wz_dir w))
       | None \<Rightarrow> Some (WzNone w)) else Some (WzNone w)) = Some r \<and> action_ok agents F (answered x r)"
    using same idle ed by (fastforce split: option.split)
  show ?thesis
    unfolding wizard_round_answered handle_wizard_key_def fst_conv snd_conv
    using stay same move idle enter closed other by (cases "k_code k") auto
qed

text \<open>C40: the wizard never panics and starts only what was offered: an agent of the list that has a command and is
  installed; a provider, out of the fetched ones, exactly if the agent exposes providers; and a model, one of
  that provider's, exactly if the agent takes one as well.\<close>

theorem wizard_starts_offered:
  assumes "segments seg" and "distinct (map ae_name agents)" and "\<And>d. cwd = Some d \<Longrightarrow> utf8 d"
    and "\<And>k x c. (k, x) \<in> set rounds \<Longrightarrow> k_code k = KChar c \<Longrightarrow> utf8 c"
  shows "\<exists>r. wizard_rounds seg sep rounds (WzNone (open_wizard agents cwd)) = Some r \<and>
    (\<forall>agent provider mdl dir. r = WizardStart agent provider mdl dir \<longrightarrow>
      (\<exists>a \<in> set agents. agent = ae_name a \<and> trim (ae_command a) \<noteq> [] \<and> ae_available a \<and>
        (provider \<noteq> None \<longleftrightarrow> ac_providers (ae_caps a)) \<and>
        (mdl \<noteq> None \<longleftrightarrow> ac_providers (ae_caps a) \<and> ac_model_selection (ae_caps a)) \<and>
        (\<forall>i. provider = Some i \<longrightarrow> (\<exists>ps p. Fetched ps \<in> snd ` set rounds \<and> p \<in> set ps \<and> pe_id p = i \<and>
           (\<forall>m. mdl = Some m \<longrightarrow> m \<in> me_id ` set (pe_models p))))))"
proof -
  let ?F = "snd ` set rounds"
  have "\<exists>r'. wizard_rounds seg sep kfs r = Some r' \<and> action_ok agents ?F r'" if "action_ok agents ?F r" "set kfs \<subseteq> set rounds" for r kfs
    using that
  proof (induction kfs arbitrary: r)
    case (Cons kf kfs)
    show ?case
    proof (cases r)
      case (WzNone w)
      obtain k x where kf: "kf = (k, x)" by (cases kf)
      have "key_ok k" using assms(4) Cons.prems(2) kf by (fastforce split: key_code.split)
      moreover have "x \<in> ?F" using Cons.prems(2) kf by force
      moreover have "wizard_ok agents ?F w" using Cons.prems(1) WzNone by (simp add: action_ok_def)
      ultimately obtain r1 where "wizard_round seg sep (k, x) w = Some r1" "action_ok agents ?F r1"
        using wizard_step_ok [OF assms(1,2)] by blast
      then show ?thesis using Cons WzNone kf by auto
    qed (use Cons.prems in auto)
  qed (cases r, auto)
  moreover have "action_ok agents ?F (WzNone (open_wizard agents cwd))"
    using wizard_ok_open [OF assms(3)] by (simp add: action_ok_def)
  ultimately obtain r where "wizard_rounds seg sep rounds (WzNone (open_wizard agents cwd)) = Some r" "action_ok agents ?F r" by blast
  then show ?thesis by (auto simp: action_ok_def picks_ok_def)
qed

theorem wizard_starts_offered_witness:
  "wizard_rounds by_char (\<lambda>g. g = '' '') (replicate 2 (\<lparr>k_code = KEnter, k_ctrl = False, k_alt = False, k_shift = False\<rparr>, FetchFailed []))
      (WzNone (open_wizard [\<lparr>ae_name = ''a'', ae_command = ''c'', ae_available = True, ae_caps = no_caps\<rparr>] None)) =
      Some (WizardStart ''a'' None None None) \<and> \<not> ac_providers no_caps"
proof -
  let ?a = "\<lparr>ae_name = ''a'', ae_command = ''c'', ae_available = True, ae_caps = no_caps\<rparr>"
  let ?ks = "replicate 2 (\<lparr>k_code = KEnter, k_ctrl = False, k_alt = False, k_shift = False\<rparr>, FetchFailed [])"
  have run: "wizard_rounds by_char (\<lambda>g. g = '' '') ?ks (WzNone (open_wizard [?a] None)) = Some (WizardStart ''a'' None None None)"
  proof -
    have "trim ''c'' = ''c''" "trim [] = []" by code_simp+
    then show ?thesis
      by (simp add: numeral_2_eq_2 wizard_round_def handle_wizard_key_def wizard_enter_def open_wizard_def agent_chosen_def
          nth_opt_def or_default_def no_caps_def new_buffer_def Let_def)
  qed
  have "\<not> ac_providers (ae_caps ?a)"
    using wizard_starts_offered [OF segments_by_char, of "[?a]" None ?ks "\<lambda>g. g = '' ''"] run by simp
  with run show ?thesis by simp
qed

text \<open>But a failed fetch of the providers, or a provider without models, leaves it without choices: no key but \<open>Esc\<close>
  leads out of it.\<close>

theorem wizard_dead_end:
  assumes "wz_step w \<noteq> DirStep" and "wz_choices w = []"
  shows "\<exists>w'. handle_wizard_key seg sep k w = Some (if k_code k = KEsc then WzClosed else WzNone w') \<and>
    wz_step w' = wz_step w \<and> wz_choices w' = []"
  using assms
  by (cases "k_code k") (auto simp: handle_wizard_key_def wizard_enter_def nth_opt_def move_selection_def split: wizard_step.split)

lemma failed_fetch_dead_end:
  assumes "agent_chosen name w = LoadProviders w'"
  shows "wz_choices (wizard_error msg w') = [] \<and> wz_step (wizard_error msg w') = wz_step w"
  using assms by (auto simp: agent_chosen_def wizard_error_def Let_def split: if_splits)

end
