(* ===== verification/OneShot.thy ===== *)
theory OneShot
  imports Control Sessions
begin

text \<open>
  Opening agents from a client (\<open>crates/favetto/src/server.rs\<close>): \<open>start_agent\<close>, which decides between
  attaching, resuming and launching, and one-shot tasks, whose work is an interactive session: their start, and
  their end when the session exits.

  The registry of agents, the emulator and the spawned process are parameters: \<open>reg\<close> is \<open>get_checked\<close>,
  a launched session is what \<open>SessionManager::start\<close> answered.
\<close>

subsection \<open>\<open>agents.start\<close>\<close>

text \<open>The two capabilities of an agent that the start reads, and what it sets of an \<open>AgentContext\<close>; the rest is its default.\<close>

record agent_traits =
  at_resume :: bool
  at_concurrent_attach :: bool

record start_agent_params =
  sp_agent :: "string option"
  sp_task :: "string option"
  sp_prompt :: "string option"
  sp_session :: "string option"
  sp_rows :: "64 word option"
  sp_cols :: "64 word option"
  sp_new :: "bool option"
  sp_provider :: "string option"
  sp_model :: "string option"
  sp_cwd :: "string option"

datatype invocation =
    Interactive "string option" "string option" "string option"
  | Headless string "string option" "string option"
  | Resume string

record agent_context =
  cx_cwd :: "string option"
  cx_session :: "string option"
  cx_rows :: "16 word"
  cx_cols :: "16 word"

datatype agent_start =
    StartRefused string
  | Attached session_info
  | Launch string "string option" invocation agent_context

definition should_attach_to_live :: "session_info \<Rightarrow> bool" where
  "should_attach_to_live i \<longleftrightarrow> si_running i \<and> (\<not> si_headless i \<or> si_awaiting i \<noteq> None)"

text \<open>\<open>parse\<close> is \<open>Uuid::parse_str\<close>.\<close>

definition persisted_session_id :: "(string \<Rightarrow> uuid option) \<Rightarrow> string option \<Rightarrow> string option handler" where
  "persisted_session_id parse task = (case Option.bind task parse of
     None \<Rightarrow> ret None
   | Some i \<Rightarrow> do {
       t \<leftarrow> db_read (\<lambda>d. get_task d i);
       ret (Option.bind (Option.bind t (\<lambda>x. x)) t_session_id) })"

definition task_and_definition :: "(string \<Rightarrow> uuid option) \<Rightarrow> string \<Rightarrow> (task \<times> task_def) option handler" where
  "task_and_definition parse task = (case parse task of
     None \<Rightarrow> ret None
   | Some i \<Rightarrow> do {
       t \<leftarrow> db_read (\<lambda>d. get_task d i);
       catalog \<leftarrow> gets dn_catalog;
       ret (Option.bind (Option.bind t (\<lambda>x. x)) (\<lambda>t. map_option (Pair t) (lookup_def catalog (t_name t)))) })"

text \<open>The session id a resume uses: of the request, the task's row, or the latest session.\<close>

definition resume_id ::
  "(string \<Rightarrow> uuid option) \<Rightarrow> start_agent_params \<Rightarrow> session_info option \<Rightarrow> string option handler" where
  "resume_id parse p live = (case sp_session p of
     Some sid \<Rightarrow> ret (Some sid)
   | None \<Rightarrow> do {
       row \<leftarrow> persisted_session_id parse (sp_task p);
       ret (coalesce row (Option.bind live si_session)) })"

definition is_action_task :: "(task \<times> task_def) option \<Rightarrow> bool" where
  "is_action_task backing = (case backing of Some (_, d) \<Rightarrow> d_kind d = KindAction | None \<Rightarrow> False)"

text \<open>A fresh session: the prompt rendered for the task, and what the request leaves to its definition.\<close>

definition fresh_invocation :: "serde \<Rightarrow> start_agent_params \<Rightarrow> (task \<times> task_def) option \<Rightarrow> invocation" where
  "fresh_invocation sd p backing = (case backing of
     Some (t, d) \<Rightarrow> (let r = render_task_prompt sd d t in
       Interactive (if r = [] then sp_prompt p else Some r) (coalesce (sp_provider p) (d_provider d)) (coalesce (sp_model p) (d_model d)))
   | None \<Rightarrow> Interactive (sp_prompt p) (sp_provider p) (sp_model p))"

text \<open>The rows and columns are cast to 16 bits.\<close>

definition start_context :: "start_agent_params \<Rightarrow> agent_context" where
  "start_context p = \<lparr>cx_cwd = sp_cwd p, cx_session = sp_session p,
     cx_rows = ucast (case sp_rows p of Some r \<Rightarrow> r | None \<Rightarrow> 24),
     cx_cols = ucast (case sp_cols p of Some c \<Rightarrow> c | None \<Rightarrow> 80)\<rparr>"

definition live_headless_writer :: "session_info option \<Rightarrow> bool" where
  "live_headless_writer live = (case live of Some s \<Rightarrow> si_running s \<and> si_headless s | None \<Rightarrow> False)"

definition attachable :: "session_info option \<Rightarrow> bool" where
  "attachable live = (case live of Some s \<Rightarrow> should_attach_to_live s | None \<Rightarrow> False)"

text \<open>
  Without a live session to attach to: the agent's own session is resumed in the directory of its run, when its id
  is known and no headless run is writing to it; otherwise the latest session is handed back for a structured view.
\<close>

definition resume_or_view ::
  "(string \<Rightarrow> uuid option) \<Rightarrow> env \<Rightarrow> time \<Rightarrow> start_agent_params \<Rightarrow> string \<Rightarrow> agent_traits \<Rightarrow> session_info option \<Rightarrow>
   agent_start \<Rightarrow> agent_start handler"
where
  "resume_or_view parse env now p name agent live fresh = do {
     sid \<leftarrow> (if at_resume agent \<and> (\<not> live_headless_writer live \<or> at_concurrent_attach agent)
             then resume_id parse p live else ret None);
     (case sid of
        Some sid \<Rightarrow> do {
          cwd \<leftarrow> (case Option.bind (sp_task p) parse of Some i \<Rightarrow> resume_cwd env now i | None \<Rightarrow> ret None);
          ret (Launch name (sp_task p) (Resume sid)
            ((start_context p)\<lparr>cx_cwd := coalesce cwd (cx_cwd (start_context p))\<rparr>)) }
      | None \<Rightarrow> ret (case live of Some s \<Rightarrow> Attached s | None \<Rightarrow> fresh)) }"

text \<open>\<open>default1\<close> is the configured default agent, \<open>m\<close> the session manager.\<close>

definition open_session ::
  "(string \<Rightarrow> uuid option) \<Rightarrow> env \<Rightarrow> serde \<Rightarrow> time \<Rightarrow> 'scr manager \<Rightarrow> start_agent_params \<Rightarrow>
   (task \<times> task_def) option \<Rightarrow> string \<Rightarrow> agent_traits \<Rightarrow> agent_start handler"
where
  "open_session parse env sd now m p backing name agent =
     (let fresh = Launch name (sp_task p) (fresh_invocation sd p backing) (start_context p);
          live = Option.bind (sp_task p) (find_latest_by_task m)
      in if sp_new p = Some True then ret fresh
         else if attachable live then ret (Attached (the live))
         else resume_or_view parse env now p name agent live fresh)"

definition start_agent ::
  "(string \<Rightarrow> uuid option) \<Rightarrow> env \<Rightarrow> serde \<Rightarrow> time \<Rightarrow> (string \<Rightarrow> string + agent_traits) \<Rightarrow> string option \<Rightarrow>
   'scr manager \<Rightarrow> start_agent_params \<Rightarrow> agent_start handler"
where
  "start_agent parse env sd now reg default1 m p = do {
     backing \<leftarrow> (case sp_task p of Some tid \<Rightarrow> task_and_definition parse tid | None \<Rightarrow> ret None);
     if is_action_task backing
     then ret (StartRefused (''task '' @ quoted (d_name (snd (the backing))) @
       '' is an action task and cannot be opened as an agent session''))
     else (case coalesce (sp_agent p) default1 of
       None \<Rightarrow> ret (StartRefused ''no agent given and no default configured ([agent].default)'')
     | Some name \<Rightarrow> (case reg name of
         Inl e \<Rightarrow> ret (StartRefused e)
       | Inr agent \<Rightarrow> open_session parse env sd now m p backing name agent)) }"

text \<open>What a handler answers, whatever it started from.\<close>

definition answers :: "('a \<Rightarrow> bool) \<Rightarrow> 'a handler \<Rightarrow> bool" where
  "answers P m \<longleftrightarrow> yields (\<lambda>_. True) m (\<lambda>x _. P x)"

lemma answers_ret: "P x \<Longrightarrow> answers P (ret x)"
  by (simp add: answers_def yields_def)

lemma answers_any: "answers (\<lambda>_. True) m"
  by (simp add: answers_def yields_def)

lemma answers_bind: "answers Q m \<Longrightarrow> (\<And>x. Q x \<Longrightarrow> answers P (f x)) \<Longrightarrow> answers P (m \<bind> f)"
  by (simp add: answers_def yields_def split_def)

definition guarded_start ::
  "(string \<Rightarrow> string + agent_traits) \<Rightarrow> string option \<Rightarrow> session_info option \<Rightarrow> start_agent_params \<Rightarrow> agent_start \<Rightarrow> bool"
where
  "guarded_start reg default1 live p a \<longleftrightarrow> (case a of
     StartRefused _ \<Rightarrow> True
   | Attached i \<Rightarrow> live = Some i \<and> sp_new p \<noteq> Some True
   | Launch name task how ctx \<Rightarrow> task = sp_task p \<and> (\<exists>agent. reg name = Inr agent \<and> coalesce (sp_agent p) default1 = Some name \<and>
       (case how of
          Interactive _ _ _ \<Rightarrow> sp_new p = Some True \<or> live = None
        | Headless _ _ _ \<Rightarrow> False
        | Resume _ \<Rightarrow> sp_new p \<noteq> Some True \<and> at_resume agent \<and>
            (\<forall>i. live = Some i \<longrightarrow> si_running i \<longrightarrow> si_headless i \<and> si_awaiting i = None \<and> at_concurrent_attach agent))))"

lemma open_session_guarded:
  fixes m :: "'scr manager" and p :: start_agent_params
  assumes "coalesce (sp_agent p) default1 = Some name" "reg name = Inr agent"
  defines "live \<equiv> Option.bind (sp_task p) (find_latest_by_task m)"
  shows "answers (guarded_start reg default1 live p) (open_session parse env sd now m p backing name agent)"
proof -
  let ?may = "at_resume agent \<and> (\<not> live_headless_writer live \<or> at_concurrent_attach agent)"
  have "answers (guarded_start reg default1 live p) (resume_or_view parse env now p name agent live fresh)"
    if "fresh = Launch name (sp_task p) (Interactive a b c) ctx" "sp_new p \<noteq> Some True" "\<not> attachable live" for fresh a b c ctx
    unfolding resume_or_view_def
  proof (rule answers_bind [where Q = "\<lambda>sid. sid \<noteq> None \<longrightarrow> ?may"], goal_cases)
    case (2 sid)
    then show ?case using that assms(1,2)
      by (cases sid) (auto simp: guarded_start_def live_headless_writer_def attachable_def should_attach_to_live_def
          intro!: answers_ret answers_bind [OF answers_any] split: option.split)
  qed (simp add: answers_def yields_def)
  then show ?thesis
    using assms(1,2) unfolding open_session_def live_def [symmetric] Let_def
    by (auto simp: guarded_start_def attachable_def fresh_invocation_def Let_def intro!: answers_ret split: option.split)
qed

lemma start_agent_answers:
  "answers (guarded_start reg default1 (Option.bind (sp_task p) (find_latest_by_task m)) p)
     (start_agent parse env sd now reg default1 m p)"
  unfolding start_agent_def
  by (rule answers_bind [OF answers_any])
    (auto intro!: answers_ret open_session_guarded simp: guarded_start_def split: option.split sum.split)

text \<open>Opening an agent answers with the task's latest session, or launches a registered agent: a fresh session only
  when it is asked for or the task has none, and a resumed one beside a live session only when that is a headless
  run that does not wait for the user and the agent can attach to it concurrently. So no keystroke reaches machine
  output, and no session file gets a second writer.\<close>

theorem start_agent_guarded:
  "guarded_start reg default1 (Option.bind (sp_task p) (find_latest_by_task m)) p
     (fst (run_state (start_agent parse env sd now reg default1 m p) s))"
  using start_agent_answers unfolding answers_def yields_def by blast

subsection \<open>One-shot tasks\<close>

definition oneshot_task ::
  "time \<Rightarrow> uuid \<Rightarrow> string \<Rightarrow> string option \<Rightarrow> string option \<Rightarrow> string option \<Rightarrow> task" where
  "oneshot_task now i name prov mdl cwd = \<lparr>t_id = i, t_name = ''one-shot'', t_status = Running, t_attempt = 0,
     t_input = mk_obj [(''oneshot'', JBool True), (''agent'', JStr name), (''provider'', jopt_str prov),
       (''model'', jopt_str mdl), (''cwd'', jopt_str cwd)],
     t_output = None, t_dedupe_key = None, t_created_at = now, t_started_at = Some now, t_finished_at = None,
     t_error = None, t_failure = None, t_session_id = None, t_session_title = None, t_parent_id = None,
     t_root_id = None, t_interactive = False\<rparr>"

definition announce_oneshot :: "time \<Rightarrow> task \<Rightarrow> unit handler" where
  "announce_oneshot now t = do {
     inc_tasks;
     publish (PTaskUpdated (task_summary t));
     emit_event now EvTaskIdle (idle_payload (t_name t) (t_id t));
     emit_event now EvTaskStarted (idle_payload (t_name t) (t_id t)) }"

text \<open>\<open>launched\<close> is what the session manager answers; a refusal ends the method with an error.\<close>

definition start_oneshot_task ::
  "time \<Rightarrow> (string \<Rightarrow> string + agent_traits) \<Rightarrow> string option \<Rightarrow> string option \<Rightarrow> string option \<Rightarrow> string option \<Rightarrow>
   string option \<Rightarrow> (uuid \<Rightarrow> string + session_info) \<Rightarrow> (string + task \<times> session_info) handler"
where
  "start_oneshot_task now reg default1 requested prov mdl cwd launched = do {
     let cwd = (case map_option trim cwd of Some c \<Rightarrow> if c = [] then None else Some c | None \<Rightarrow> None);
     (case coalesce requested default1 of
        None \<Rightarrow> ret (Inl ''no agent given and no default configured ([agent].default)'')
      | Some name \<Rightarrow> (case reg name of
          Inl e \<Rightarrow> ret (Inl e)
        | Inr _ \<Rightarrow> do {
            i \<leftarrow> new_uuid;
            let t = oneshot_task now i name prov mdl cwd;
            r \<leftarrow> db_exec (insert_task t);
            if r = None then ret (Inl ''insert task'')
            else do {
              announce_oneshot now t;
              ret (case launched i of Inl e \<Rightarrow> Inl e | Inr s \<Rightarrow> Inr (t, s)) } })) }"

text \<open>The title is what \<open>resolve_session_title\<close> finds for a reported session id; it takes a while.\<close>

definition oneshot_outcome :: "time \<Rightarrow> string option \<Rightarrow> string option \<Rightarrow> int option \<Rightarrow> task \<Rightarrow> task" where
  "oneshot_outcome now sid title code t = t\<lparr>t_session_id := sid,
     t_session_title := (if sid \<noteq> None \<and> title \<noteq> None then title else t_session_title t),
     t_status := (if code = Some 0 then Succeeded else Failed),
     t_error := (if code = Some 0 then None
       else Some (''agent session exited with '' @ (case code of Some c \<Rightarrow> int_str c | None \<Rightarrow> ''?''))),
     t_finished_at := Some now\<rparr>"

definition announce_end :: "time \<Rightarrow> task \<Rightarrow> bool \<Rightarrow> unit handler" where
  "announce_end now t success = do {
     publish (PTaskUpdated (task_summary t));
     emit_event now (if success then EvTaskCompleted else EvTaskFailed) (mk_obj [(''task_id'', JStr (t_id t))]);
     emit_event now EvTaskFinished (finished_payload t success) }"

text \<open>The part behind the lookup of the title: anything may have happened to the row in between.\<close>

definition store_oneshot :: "time \<Rightarrow> task \<Rightarrow> bool \<Rightarrow> unit handler" where
  "store_oneshot now t success = do {
     fin \<leftarrow> db_call (finish_active_task t);
     if fin = Some True then announce_end now t success else ret () }"

definition finish_oneshot ::
  "time \<Rightarrow> uuid \<Rightarrow> string option \<Rightarrow> string option \<Rightarrow> int option \<Rightarrow> unit handler" where
  "finish_oneshot now tid sid title code = do {
     r \<leftarrow> db_read (\<lambda>d. get_task d tid);
     (case Option.bind r (\<lambda>x. x) of
        None \<Rightarrow> ret ()
      | Some t \<Rightarrow> if t_status t \<in> {Running, AwaitingInput}
          then store_oneshot now (oneshot_outcome now sid title code t) (code = Some 0) else ret ()) }"

text \<open>A one-shot ends once: the exit of its session, with the status it reports, and nothing after it.\<close>

lemma outcome_row:
  assumes "t = oneshot_outcome now sid title code (row_to_task r)"
  shows "row_to_task (r\<lparr>t_status := t_status t, t_attempt := t_attempt t, t_output := t_output t,
           t_started_at := t_started_at t, t_finished_at := t_finished_at t, t_error := t_error t,
           t_failure := t_failure t, t_session_id := t_session_id t, t_session_title := t_session_title t\<rparr>) = t"
  unfolding assms by (simp add: oneshot_outcome_def row_to_task_def task.defs)

lemma run_finish_oneshot:
  fixes s :: daemon and now :: time and sid title :: "string option" and code :: "int option" and r :: task_row
  assumes "dn_faults s = []" and "tables_wf (dn_db s)" and "get_row (dn_db s) tid = Some r"
    and "t_status r \<in> {Running, AwaitingInput}"
  defines "t \<equiv> oneshot_outcome now sid title code (row_to_task r)"
  shows "\<exists>s' e1 e2. run_state (finish_oneshot now tid sid title code) s = ((), s') \<and>
    get_task (dn_db s') tid = Some t \<and> (\<forall>i. i \<noteq> tid \<longrightarrow> get_row (dn_db s') i = get_row (dn_db s) i) \<and>
    dn_faults s' = [] \<and> events (dn_db s') = events (dn_db s) @ [e1, e2] \<and>
    e_kind e1 = (if code = Some 0 then EvTaskCompleted else EvTaskFailed) \<and>
    e_kind e2 = EvTaskFinished \<and> e_payload e2 = finished_payload t (code = Some 0) \<and>
    dn_pushes s' = dn_pushes s @ [PTaskUpdated (task_summary t), PEvent e1, PEvent e2]"
proof -
  have tid: "t_id t = tid" using get_row_SomeD [OF assms(3)] by (simp add: t_def oneshot_outcome_def)
  define d where "d = snd (finish_active_task t (dn_db s))"
  have hit: "fst (finish_active_task t (dn_db s))"
    unfolding finish_active_task_def cas_task_hit [OF assms(2)] using assms(3,4) tid
    by (auto simp: task_status_of_def simp del: insert_iff)
  have d: "get_row d i = map_option (\<lambda>x. if t_id x = tid \<and> t_status x \<in> {Running, AwaitingInput} then
        x\<lparr>t_status := t_status t, t_attempt := t_attempt t, t_output := t_output t,
           t_started_at := t_started_at t, t_finished_at := t_finished_at t, t_error := t_error t,
           t_failure := t_failure t, t_session_id := t_session_id t, t_session_title := t_session_title t\<rparr>
        else x) (get_row (dn_db s) i)" for i
    unfolding d_def finish_active_task_def tid by (rule cas_task_row) simp
  have rows: "get_task d tid = Some t" "\<forall>i. i \<noteq> tid \<longrightarrow> get_row d i = get_row (dn_db s) i"
  proof -
    show "get_task d tid = Some t"
      using get_row_SomeD [OF assms(3)] assms(3,4) outcome_row [of t now sid title code r]
      by (simp add: get_task_row d t_def [symmetric] del: insert_iff)
    show "\<forall>i. i \<noteq> tid \<longrightarrow> get_row d i = get_row (dn_db s) i"
      unfolding d by (auto simp: option.map_ident_strong dest: get_row_SomeD intro!: option.map_ident_strong)
  qed
  have ev: "events d = events (dn_db s)" by (simp add: d_def finish_active_task_def cas_task_def Let_def)
  have active: "t_status (row_to_task r) \<in> {Running, AwaitingInput}" using assms(4) by simp
  have "run_state (finish_oneshot now tid sid title code) s =
      run_state (announce_end now t (code = Some 0)) (s\<lparr>dn_db := d\<rparr>)"
    using assms(1,3) active hit
    by (simp add: finish_oneshot_def store_oneshot_def run_simps get_task_row t_def [symmetric] d_def [symmetric] del: insert_iff)
  then show ?thesis
    using assms(1) rows ev by (simp add: announce_end_def run_simps Let_def get_task_def get_row_def)
qed

theorem oneshot_ends_once:
  fixes s :: daemon and now :: time and tid :: uuid and sid title :: "string option" and code :: "int option"
  assumes "dn_faults s = []" and "tables_wf (dn_db s)" and "get_task (dn_db s) tid = Some t0"
  defines "s' \<equiv> snd (run_state (finish_oneshot now tid sid title code) s)"
    and "t \<equiv> oneshot_outcome now sid title code t0"
  shows "if t_status t0 \<in> {Running, AwaitingInput}
    then get_task (dn_db s') tid = Some t \<and> (\<forall>i. i \<noteq> tid \<longrightarrow> get_row (dn_db s') i = get_row (dn_db s) i) \<and>
      (\<exists>e1 e2. events (dn_db s') = events (dn_db s) @ [e1, e2] \<and>
         e_kind e1 = (if code = Some 0 then EvTaskCompleted else EvTaskFailed) \<and>
         e_kind e2 = EvTaskFinished \<and> e_payload e2 = finished_payload t (code = Some 0) \<and>
         dn_pushes s' = dn_pushes s @ [PTaskUpdated (task_summary t), PEvent e1, PEvent e2]) \<and>
      (\<forall>now2 sid2 title2 code2. run_state (finish_oneshot now2 tid sid2 title2 code2) s' = ((), s'))
    else s' = s"
proof -
  obtain r where r: "get_row (dn_db s) tid = Some r" "t0 = row_to_task r" using assms(3) by (auto simp: get_task_row)
  have ended: "t_status t \<notin> {Running, AwaitingInput}" by (simp add: t_def oneshot_outcome_def)
  have again: "run_state (finish_oneshot now2 tid sid2 title2 code2) x = ((), x)"
    if "dn_faults x = []" "get_task (dn_db x) tid = Some y" "t_status y \<notin> {Running, AwaitingInput}" for x y now2 sid2 title2 code2
    using that by (simp add: finish_oneshot_def run_simps del: insert_iff)
  show ?thesis
  proof (cases "t_status t0 \<in> {Running, AwaitingInput}")
    case True
    then have "t_status r \<in> {Running, AwaitingInput}" using r(2) by simp
    from run_finish_oneshot [OF assms(1,2) r(1) this, of now sid title code, folded r(2), folded t_def]
    obtain s2 e1 e2 where "run_state (finish_oneshot now tid sid title code) s = ((), s2)"
      and *: "get_task (dn_db s2) tid = Some t" "\<forall>i. i \<noteq> tid \<longrightarrow> get_row (dn_db s2) i = get_row (dn_db s) i"
        "dn_faults s2 = []" "events (dn_db s2) = events (dn_db s) @ [e1, e2]"
        "e_kind e1 = (if code = Some 0 then EvTaskCompleted else EvTaskFailed)" "e_kind e2 = EvTaskFinished"
        "e_payload e2 = finished_payload t (code = Some 0)"
        "dn_pushes s2 = dn_pushes s @ [PTaskUpdated (task_summary t), PEvent e1, PEvent e2]"
      by blast
    then have "s' = s2" by (simp add: s'_def)
    then show ?thesis using True * again [OF *(3,1) ended] by (simp del: insert_iff)
  next
    case False
    then show ?thesis using again [OF assms(1,3)] by (simp add: s'_def del: insert_iff)
  qed
qed

text \<open>The start inserts the running row first: when the launch is then refused, the caller gets an error, and the row
  stays behind, running, with no session whose exit would end it.\<close>

theorem refused_oneshot_strands:
  fixes s :: daemon and now :: time and requested default1 prov mdl cwd :: "string option"
    and reg :: "string \<Rightarrow> string + agent_traits" and launched :: "uuid \<Rightarrow> string + session_info"
  assumes "dn_faults s = []" and "tables_wf (dn_db s)" and "dn_uuids s = i # us" and "get_row (dn_db s) i = None"
    and "coalesce requested default1 = Some name" and "reg name = Inr agent" and "launched i = Inl e"
  defines "r \<equiv> run_state (start_oneshot_task now reg default1 requested prov mdl cwd launched) s"
  shows "fst r = Inl e \<and> task_status_of (dn_db (snd r)) i = Some Running"
proof -
  have "i \<notin> t_id ` set (tasks (dn_db s))" using assms(4) by (simp add: get_row_None)
  then have "lookup_row t_id i (tasks (dn_db s)) = None" by (simp add: lookup_row_None)
  with \<open>i \<notin> _\<close> show ?thesis
    using assms(1,3,5,6,7)
    by (simp add: r_def start_oneshot_task_def announce_oneshot_def new_uuid_def run_simps Let_def insert_task_def
        task_status_of_def get_row_def lookup_row_append oneshot_task_def split: option.split)
qed

subsection \<open>The life cycle\<close>

context handler_inv
begin

lemma oneshot_start [keeps_intros]: "keeps J (start_oneshot_task now reg def req prov mdl cwd launched)"
proof -
  have "keeps J (db_exec (insert_task (oneshot_task now i name prov mdl c)))" for i name c
    by (rule op_call [where op = "OpInsert (oneshot_task now i name prov mdl c)"]) (simp_all add: oneshot_task_def)
  moreover have "keeps J (announce_oneshot now t)" for t
    unfolding announce_oneshot_def by (intro keeps_intros)
  ultimately show ?thesis
    unfolding start_oneshot_task_def Let_def by (intro keeps_intros)
qed

lemma oneshot_finish [keeps_intros]:
  "is_terminal (t_status t) \<Longrightarrow> keeps J (store_oneshot now t success)"
  "keeps J (finish_oneshot now tid sid title code)"
proof -
  have *: "keeps J (store_oneshot now t success)" if "is_terminal (t_status t)" for t success
  proof -
    have "keeps J (db_call (finish_active_task t))" by (rule op_call [where op = "OpFinish t"]) (use that in simp_all)
    then show ?thesis unfolding store_oneshot_def announce_end_def by (intro keeps_intros that)
  qed
  then show "is_terminal (t_status t) \<Longrightarrow> keeps J (store_oneshot now t success)" .
  show "keeps J (finish_oneshot now tid sid title code)"
    unfolding finish_oneshot_def by (intro keeps_intros *) (simp add: oneshot_outcome_def)
qed

lemma agent_opened [keeps_intros]: "keeps J (start_agent parse env sd now reg def m p)"
proof -
  have id: "keeps J (persisted_session_id parse t)" for t unfolding persisted_session_id_def by (intro keeps_intros)
  have "keeps J (task_and_definition parse i)" for i unfolding task_and_definition_def by (intro keeps_intros)
  moreover have "keeps J (resume_id parse p live)" for live unfolding resume_id_def by (intro keeps_intros id)
  ultimately show ?thesis
    unfolding start_agent_def open_session_def resume_or_view_def Let_def by (intro keeps_intros resumed)
qed

end

text \<open>C18: whatever calls fail, the server's methods change the database only through the operations of the life
  cycle, each within its callers' obligations, and leave the configuration alone: the workflow and task methods,
  opening an agent, and the start and end of a one-shot task.\<close>

theorem server_refines_life_cycle:
  "db_trace s (snd (run_state (create_workflow order now p) s)) \<and>
   db_trace s (snd (run_state (spawn_workflow now q) s)) \<and>
   db_trace s (snd (run_state (cancel_task now tid) s)) \<and>
   db_trace s (snd (run_state (cancel_workflow now root) s)) \<and>
   db_trace s (snd (run_state (retry_task now tid) s)) \<and>
   db_trace s (snd (run_state (start_agent parse env sd now reg default1 m sp) s)) \<and>
   db_trace s (snd (run_state (start_oneshot_task now reg default1 req prov mdl cwd launched) s)) \<and>
   db_trace s (snd (run_state (finish_oneshot now tid sid title code) s))"
  by (intro conjI; rule db_traceI; rule trace.created trace.cancelled trace.retried trace.agent_opened
      trace.oneshot_start trace.oneshot_finish)

end
