(* ===== verification/Spec2Isabelle.thy ===== *)
theory Spec2Isabelle
  imports Attention Auth Wire Graph Repos Detect WebClient Rpc TuiForms OneShot
begin

text \<open>
  The task engine of favetto.

  Favetto is a daemon that runs coding agents.  A catalog of task definitions (Markdown files with a
  header) says what can be run; RPC clients, webhooks, cron schedules and finished tasks enqueue work;
  a dispatcher claims pending tasks, gives them a git worktree, starts an agent and records what it
  left behind; an attention tracker parks a task whose agent waits for its user; events are persisted
  and pushed to subscribers.  All of it meets in one SQLite database.  This library models that engine
  in the layers of the code and proves what makes each layer correct.

  Conventions.  A Rust \<open>String\<close> is a list of bytes; \<open>u64\<close> settings are 64-bit words, counters that the
  code cannot overflow are \<open>nat\<close> or \<open>int\<close>; a \<open>Result\<close> or an \<open>Option\<close> whose error the caller only tests
  is an \<open>option\<close>, one whose error reaches a client a sum.  A handler is a program over the record
  \<open>daemon\<close> in the state monad; every call to the database takes the next bit of a script of faults, so
  a theorem about all states is a theorem about every pattern of failing calls.  Handlers interleave
  between programs, and where the code awaits in between the model splits the handler there
  (\<open>run_started\<close> and \<open>run_finished\<close>).  Nothing is bounded by fuel: the recursive definitions are structural
  or come with a measure, and the loops of the daemon are programs over the inputs they receive.

  The theories, from the bottom:

  \<^item> Prelude: programs, invariants (\<open>keeps\<close>) and pre- and postconditions (\<open>yields\<close>) of programs, and
    the collections \<open>run_simps\<close>, \<open>keeps_intros\<close>, \<open>yields_intros\<close> the proofs run on.  Text: the operations of
    \<open>str\<close> on UTF-8 bytes.  Json: \<open>serde_json::Value\<close>.
  \<^item> Model (\<open>favetto-wire/src/model.rs\<close>): statuses, failures, usage, tasks, runs, events.
  \<^item> Settings (\<open>favetto-core/src/config.rs\<close>): retry policy and backoff on 64-bit words.
  \<^item> Catalog (\<open>favetto-core/src/tasks.rs\<close>): parsing task files, validating names, paths, references and
    variables, qualifying the references of a repository's tasks, merging a reloaded catalog.
  \<^item> Output (\<open>executor.rs\<close>): byte caps on texts, the result envelope, the bounded copy a dependent gets.
  \<^item> Template (\<open>template.rs\<close>, \<open>actions/when.rs\<close>): placeholders and predicates.
  \<^item> Db (\<open>db.rs\<close>): one record field per table, one definition per query.  The queries that change a
    task's status are instances of the locale \<open>status_cas\<close>, an extension of \<open>guarded_update\<close>: they take
    effect exactly on a row whose status is in their guard.
  \<^item> Lifecycle: what follows for the life of a task under any sequence of queries (claims, races of two
    guarded updates in \<open>update_race\<close>, the queue, retention), with the step relation \<open>task_step\<close> as the
    abstract life cycle.  Keyed: the tables with \<open>INSERT OR IGNORE\<close> (locale \<open>keyed_insert\<close>).
  \<^item> EventBus (\<open>event_bus.rs\<close>): replay and live pushes of one subscriber.
  \<^item> AgentState (\<open>favetto-wire/src/agent_state.rs\<close>, \<open>agents/state.rs\<close>, \<open>attention.rs\<close>): what a session
    reports, and the debouncer.
  \<^item> Daemon (\<open>state.rs\<close>): the state all handlers share, and how each of its calls is run.
  \<^item> Worktrees (\<open>executor.rs\<close>, \<open>paths.rs\<close>): where a task works, retention and the sweep of a repository.
  \<^item> Executor, Dependents, Runs, Handlers, Dispatch (\<open>executor.rs\<close>): enqueueing and the startup
    reconciler; children, dependents and fan-in barriers; one run from claim to hand-off (locale
    \<open>handoff_inv\<close>: what everything behind the outcome write keeps); the refinement of the life cycle by all
    of these handlers, whatever fails (locale \<open>handler_inv\<close>); the dispatcher and its limits.
  \<^item> Kahn, Workflow, Control (\<open>server.rs\<close>): the cycle check, creating and spawning workflows, cancelling,
    retrying and inspecting them.
  \<^item> Attention (\<open>attention.rs\<close>): the watch loop of a session and its effect on the task.
  \<^item> Scheduler (\<open>scheduler.rs\<close>, \<open>server.rs\<close>): cron schedules, against the abstract table of schedules and the
    jobs that are live.
  \<^item> Webhooks (\<open>webhooks.rs\<close>): the GitHub and Linear receivers.
  \<^item> Auth (\<open>auth.rs\<close>, \<open>ticket.rs\<close>, \<open>pair.rs\<close>, \<open>transport.rs\<close>, \<open>favetto-core/src/auth.rs\<close>): credentials.  Tickets and
    pairing codes are the two instances of the locale \<open>one_time_store\<close>.
  \<^item> Wire (\<open>favetto-core/src/wire.rs\<close>): the frame codec.  Graph (\<open>favetto-core/src/workflow.rs\<close>): the
    workflow graph and its DOT text.
  \<^item> Sessions (\<open>agents/mod.rs\<close>): the session registry, the feed and its backfill, the scan for terminal
    queries, and the threads that end a session (\<open>race_step\<close>).  Detect (\<open>agents/detect.rs\<close>): what a screen says
    about its agent.  OneShot (\<open>server.rs\<close>): \<open>agents.start\<close> and one-shot tasks.
  \<^item> Repos (\<open>repos.rs\<close>, \<open>catalog_watch.rs\<close>): the registry of repositories against its table, the scan, and
    the rounds of the watcher.
  \<^item> Sse (\<open>transport.rs\<close>, \<open>web/src/sse.rs\<close>): the event stream as the daemon writes it and the web client
    reads it, over connections that break anywhere.  WebClient (\<open>web/src/state.rs\<close> and its views): the client's
    caches of events, tasks and agent pushes.
  \<^item> Rpc (\<open>favetto-wire/src/rpc\<close>, \<open>server.rs\<close>, both clients): request and response frames, dispatch, the
    calls under way on one connection (\<open>link_step\<close>) and calls over HTTP.
  \<^item> TextBuffer, TuiApp, TuiForms (\<open>favetto-tui/src/tui\<close>): the text field and its caret; the state of the
    terminal client, its catalog tree, pushes and resynchronisation; the form of a task's variables and the
    wizard of one-shot tasks.

  What the properties show, by group: the arithmetic and text layers are exact (backoff, truncation,
  envelopes, rendering); the queries of the database keep its keys and follow the life cycle, so that a
  task is claimed once, a cancellation is final and retention spares live work; the handlers refine that
  life cycle under any failures, end every run once, fan out and in exactly once and stay within the
  dispatcher's limits; the startup reconciler recovers; the RPC handlers validate, create idempotently,
  cancel and retry exactly; subscribers miss nothing within the replay limit; credentials are used
  once, logins are throttled, unsigned webhooks are refused; schedules follow the catalog, the registry of
  repositories its table and the watcher the registry; what the daemon pushes reaches the caches of its
  clients in order and once, and every call gets its own answer; the terminal client never slices a text
  inside a character, and its forms submit only what they offer.  The theorems of kind error state what the
  code does when a call fails at a bad moment, or what a client loses.

  Parameters of the model, and what is assumed of them where a property needs it: \<open>serde_json\<close> and
  MessagePack (printing and parsing), HMAC, Argon2, hexadecimal coding and globs (functions), git (the
  commands it is given, and what it answers), the cron library (the calls it accepts), SQLite
  (transactions are atomic: a failing call has no effect), the file system and its watcher (what they
  answer), the terminal emulator (a screen), the pseudo-terminal (the bytes it delivers), the
  segmentation of a text into graphemes (a function whose laws the text field needs), clocks, random
  numbers and fresh UUIDs (inputs of a handler).

  Not modelled: the agent subprocesses, the command lines they are started with and the adapters that
  decode the streams of third-party command line tools (a run is the outcome it reports); the accept
  loops of the HTTP, WebSocket and QUIC libraries; HTTP actions, hooks and notification channels, which
  hand a request to a library; the SQL migrations, usage statistics and metrics, which are only shown;
  rendering, themes, mouse handling and the command palette of the terminal client, and the markup of
  the web client; the MCP adapter, the command line and the documentation generator, which hold no
  state of the engine.
\<close>

end
